(* ===== verification/Prelude.thy ===== *)
theory Prelude
  imports Main "HOL-Library.Word"
begin

text \<open>
  Shared vocabulary of the development: bytes and the C integer idioms the sources use,
  the outcome of a runtime call that may panic, the \<open>TinyString\<close> of
  \<open>runtime/tiny_runtime.h\<close>, block copies on byte arrays, and generic list lemmas.
  Memory that the C library hands out is a parameter of the models that allocate:
  a function \<open>malloc :: nat \<Rightarrow> byte list option\<close> that returns a block (with whatever
  it holds) or fails.
\<close>

unbundle bit_operations_syntax

section \<open>Bytes and machine integers\<close>

type_synonym byte = "8 word"
type_synonym u32 = "32 word"
type_synonym u64 = "64 word"

text \<open>
  \<open>size_t\<close> values are natural numbers below \<open>2 ^ 64\<close>; the one operation on them that can
  leave the naturals is subtraction, which wraps.
\<close>

definition size_max :: nat where
  "size_max = 2 ^ 64 - 1"

definition usub :: "nat \<Rightarrow> nat \<Rightarrow> nat" where
  "usub a b = (if b \<le> a then a - b else a + 2 ^ 64 - b)"

lemma usub_le [simp]: "b \<le> a \<Longrightarrow> usub a b = a - b"
  by (simp add: usub_def)

text \<open>Masks and small constants as bits, for proofs by \<open>bit_word_eqI\<close>.\<close>

lemma word_masks:
  "(127 :: 'a::len word) = mask 7" "(63 :: 'a::len word) = mask 6" "(31 :: 'a::len word) = mask 5"
  "(15 :: 'a::len word) = mask 4" "(7 :: 'a::len word) = mask 3"
  by (simp_all add: mask_eq_exp_minus_1)

lemma bit_128: "bit (128 :: int) n \<longleftrightarrow> n = 7"
proof -
  have "(128 :: int) = 2 ^ 7" by simp
  then show ?thesis by (simp only: bit_exp_iff) simp
qed

lemma take_bit_small: "unat (w :: 'a::len word) < 2 ^ n \<Longrightarrow> take_bit n w = w"
  by (simp add: word_unat_eq_iff unsigned_take_bit_eq take_bit_nat_eq_self)

section \<open>Outcomes\<close>

text \<open>
  \<open>tc_panic\<close> prints a message and ends the process with status 101: no value is returned.
\<close>

datatype 'a outcome = Panic string | Ret 'a

fun bind_outcome :: "'a outcome \<Rightarrow> ('a \<Rightarrow> 'b outcome) \<Rightarrow> 'b outcome" where
  "bind_outcome (Panic m) f = Panic m"
| "bind_outcome (Ret x) f = f x"

lemma bind_outcome_Ret: "bind_outcome m f = Ret y \<longleftrightarrow> (\<exists>x. m = Ret x \<and> f x = Ret y)"
  by (cases m) auto

section \<open>Memory blocks\<close>

text \<open>What the sources rely on about \<open>malloc\<close>: a block it returns has the requested size.\<close>

definition malloc_ok :: "(nat \<Rightarrow> byte list option) \<Rightarrow> bool" where
  "malloc_ok malloc \<longleftrightarrow> (\<forall>n b. malloc n = Some b \<longrightarrow> length b = n)"

definition malloc_zero :: "nat \<Rightarrow> byte list option" where
  "malloc_zero n = Some (replicate n 0)"

lemma malloc_ok_zero [simp]: "malloc_ok malloc_zero"
  by (simp add: malloc_ok_def malloc_zero_def)

lemma malloc_okD: "malloc_ok malloc \<Longrightarrow> malloc n = Some b \<Longrightarrow> length b = n"
  by (simp add: malloc_ok_def)

lemma malloc_total: "\<forall>n. malloc n \<noteq> None \<Longrightarrow> \<exists>f. malloc = (\<lambda>n. Some (f n))"
  by (rule exI [of _ "\<lambda>n. the (malloc n)"]) (auto simp: fun_eq_iff)

text \<open>\<open>memcpy(xs + dst, bytes, length bytes)\<close> and \<open>memmove(xs + dst, xs + src, n)\<close>.\<close>

definition blit :: "nat \<Rightarrow> 'a list \<Rightarrow> 'a list \<Rightarrow> 'a list" where
  "blit dst ys xs = take dst xs @ ys @ drop (dst + length ys) xs"

definition memmove :: "nat \<Rightarrow> nat \<Rightarrow> nat \<Rightarrow> 'a list \<Rightarrow> 'a list" where
  "memmove dst src n xs = blit dst (take n (drop src xs)) xs"

lemma length_blit [simp]:
  "dst + length ys \<le> length xs \<Longrightarrow> length (blit dst ys xs) = length xs"
  by (simp add: blit_def)

lemma take_blit [simp]: "n \<le> dst \<Longrightarrow> dst \<le> length xs \<Longrightarrow> take n (blit dst ys xs) = take n xs"
  by (simp add: blit_def min_def)

lemma drop_blit [simp]:
  "dst + length ys \<le> n \<Longrightarrow> dst \<le> length xs \<Longrightarrow> drop n (blit dst ys xs) = drop n xs"
  by (simp add: blit_def)

lemma take_blit_end [simp]:
  "dst \<le> length xs \<Longrightarrow> take (dst + length ys) (blit dst ys xs) = take dst xs @ ys"
  by (simp add: blit_def min_def)

lemma drop_blit_start [simp]:
  "dst \<le> length xs \<Longrightarrow> drop dst (blit dst ys xs) = ys @ drop (dst + length ys) xs"
  by (simp add: blit_def)

lemma length_memmove [simp]:
  "dst + n \<le> length xs \<Longrightarrow> src + n \<le> length xs \<Longrightarrow> length (memmove dst src n xs) = length xs"
  by (simp add: memmove_def)

text \<open>
  \<open>realloc\<close>: a block of the new size that starts with the old contents, or a failure that
  leaves the old block alone.
\<close>

definition realloc :: "(nat \<Rightarrow> byte list option) \<Rightarrow> byte list \<Rightarrow> nat \<Rightarrow> byte list option" where
  "realloc malloc old n = (case malloc n of None \<Rightarrow> None | Some b \<Rightarrow> Some (blit 0 (take n old) b))"

lemma realloc_Some:
  assumes "malloc_ok malloc" "realloc malloc old n = Some b"
  shows "length b = n" and "k \<le> length old \<Longrightarrow> k \<le> n \<Longrightarrow> take k b = take k old"
  using assms malloc_okD [OF assms(1)]
  by (auto simp: realloc_def blit_def min_def split: option.splits)

text \<open>
  The growth loop \<open>while (capacity < need) capacity *= 2;\<close> of the buffers. From 0 the loop of the
  source would not end; every caller starts it at a positive capacity.
\<close>

function double_until :: "nat \<Rightarrow> nat \<Rightarrow> nat" where
  "double_until capacity need =
     (if capacity < need \<and> 0 < capacity then double_until (capacity * 2) need else capacity)"
  by pat_completeness auto
termination
  by (relation "measure (\<lambda>(capacity, need). need - capacity)") auto

declare double_until.simps [simp del]

lemma double_until_ge: "0 < capacity \<Longrightarrow> need \<le> double_until capacity need"
  by (induction capacity need rule: double_until.induct) (simp add: double_until.simps)

lemma double_until_bound:
  "0 < capacity \<Longrightarrow> double_until capacity need \<le> max capacity (2 * need)"
proof (induction capacity need rule: double_until.induct)
  case (1 capacity need)
  then show ?case
    by (cases "capacity < need") (auto simp: double_until.simps [of capacity need])
qed

section \<open>TinyString\<close>

text \<open>
  A \<open>TinyString\<close> is a pointer and a length; \<open>None\<close> is the null pointer. The bytes it denotes
  are the first \<open>ts_length\<close> ones of the block it points to.
\<close>

record TinyString =
  ts_data :: "byte list option"
  ts_length :: nat

definition ts_null :: TinyString where
  "ts_null = \<lparr>ts_data = None, ts_length = 0\<rparr>"

definition ts_of :: "byte list \<Rightarrow> TinyString" where
  "ts_of xs = \<lparr>ts_data = Some xs, ts_length = length xs\<rparr>"

definition ts_bytes :: "TinyString \<Rightarrow> byte list" where
  "ts_bytes s = (case ts_data s of None \<Rightarrow> [] | Some d \<Rightarrow> take (ts_length s) d)"

definition ts_wf :: "TinyString \<Rightarrow> bool" where
  "ts_wf s \<longleftrightarrow> (case ts_data s of None \<Rightarrow> ts_length s = 0 | Some d \<Rightarrow> ts_length s \<le> length d)"

lemma ts_bytes_of [simp]: "ts_bytes (ts_of xs) = xs"
  by (simp add: ts_bytes_def ts_of_def)

lemma ts_wf_of [simp]: "ts_wf (ts_of xs)"
  by (simp add: ts_wf_def ts_of_def)

lemma ts_length_of [simp]: "ts_length (ts_of xs) = length xs"
  by (simp add: ts_of_def)

lemma ts_data_of [simp]: "ts_data (ts_of xs) = Some xs"
  by (simp add: ts_of_def)

lemma ts_bytes_null [simp]: "ts_bytes ts_null = []"
  by (simp add: ts_bytes_def ts_null_def)

lemma length_ts_bytes [simp]: "ts_wf s \<Longrightarrow> length (ts_bytes s) = ts_length s"
  by (auto simp: ts_bytes_def ts_wf_def split: option.splits)

section \<open>Numbers as text\<close>

text \<open>\<open>%d\<close> and \<open>%zu\<close> of \<open>printf\<close>.\<close>

definition digit :: "nat \<Rightarrow> char" where
  "digit n = char_of (48 + n)"

fun show_nat :: "nat \<Rightarrow> string" where
  "show_nat n = (if n < 10 then [digit n] else show_nat (n div 10) @ [digit (n mod 10)])"

declare show_nat.simps [simp del]

definition show_int :: "int \<Rightarrow> string" where
  "show_int i = (if i < 0 then CHR ''-'' # show_nat (nat (- i)) else show_nat (nat i))"

text \<open>The value of an \<open>int32_t\<close> after a computation that may leave its range.\<close>

definition wrap32 :: "int \<Rightarrow> int" where
  "wrap32 i = (i + 2 ^ 31) mod 2 ^ 32 - 2 ^ 31"

text \<open>Text as bytes.\<close>

definition to_bytes :: "string \<Rightarrow> byte list" where
  "to_bytes s = map (\<lambda>ch. of_nat (of_char ch)) s"

definition hex_digit :: "nat \<Rightarrow> char" where
  "hex_digit n = (if n < 10 then digit n else char_of (87 + n))"

definition show_hex2 :: "nat \<Rightarrow> string" where
  "show_hex2 n = [hex_digit (n div 16 mod 16), hex_digit (n mod 16)]"

section \<open>List lemmas\<close>

lemma take_append_drop_mid:
  "i \<le> j \<Longrightarrow> j \<le> length xs \<Longrightarrow> take i xs @ take (j - i) (drop i xs) = take j xs"
  by (metis le_add_diff_inverse take_add)

lemma take_drop_split:
  "i \<le> j \<Longrightarrow> drop i xs = take (j - i) (drop i xs) @ drop j xs"
  by (metis append_take_drop_id drop_drop le_add_diff_inverse2)

text \<open>Occurrence of one list in another, and searching for the first one.\<close>

definition occurs_at :: "'a list \<Rightarrow> 'a list \<Rightarrow> nat \<Rightarrow> bool" where
  "occurs_at xs ys p \<longleftrightarrow> p + length ys \<le> length xs \<and> take (length ys) (drop p xs) = ys"

lemma find_upt_Some:
  "find P [a..<b] = Some i \<longleftrightarrow> a \<le> i \<and> i < b \<and> P i \<and> (\<forall>j. a \<le> j \<and> j < i \<longrightarrow> \<not> P j)"
proof (cases "a \<le> b")
  case True
  show ?thesis
  proof
    assume "find P [a..<b] = Some i"
    then obtain k where "k < b - a" "P (a + k)" "i = a + k" "\<forall>j<k. \<not> P (a + j)"
      by (auto simp: find_Some_iff)
    then show "a \<le> i \<and> i < b \<and> P i \<and> (\<forall>j. a \<le> j \<and> j < i \<longrightarrow> \<not> P j)"
      by (auto simp: less_diff_conv2) (metis add_less_cancel_left le_add_diff_inverse)
  next
    assume "a \<le> i \<and> i < b \<and> P i \<and> (\<forall>j. a \<le> j \<and> j < i \<longrightarrow> \<not> P j)"
    then show "find P [a..<b] = Some i"
      by (auto simp: find_Some_iff intro!: exI [of _ "i - a"])
  qed
qed auto

lemma find_upt_None: "find P [a..<b] = None \<longleftrightarrow> (\<forall>i. a \<le> i \<and> i < b \<longrightarrow> \<not> P i)"
  by (auto simp: find_None_iff)

text \<open>The first index found is the least one with the property.\<close>

lemma find_upt_Least:
  fixes P :: "nat \<Rightarrow> bool"
  assumes "\<And>i. P i \<Longrightarrow> i < b"
  shows "(case find P [a..<b] of None \<Rightarrow> -1 | Some i \<Rightarrow> int i)
    = (if \<exists>i. a \<le> i \<and> P i then int (LEAST i. a \<le> i \<and> P i) else -1)"
proof (cases "find P [a..<b]")
  case None
  then have "\<not> (\<exists>i. a \<le> i \<and> P i)" using assms by (auto simp: find_upt_None)
  then show ?thesis by (simp add: None)
next
  case (Some i)
  then have i: "a \<le> i" "P i" "\<And>j. a \<le> j \<Longrightarrow> j < i \<Longrightarrow> \<not> P j"
    by (auto simp: find_upt_Some)
  then have "(LEAST i. a \<le> i \<and> P i) = i"
    by (intro Least_equality) (auto simp: not_less [symmetric])
  then show ?thesis using Some i by auto
qed

end
