(* ===== verification/Protobuf.thy ===== *)
theory Protobuf
  imports Prelude
begin

text \<open>
  The Protobuf wire format of \<open>runtime/protobuf.c\<close>: the writer that appends varints, fixed-width
  values and length-prefixed bytes to a bounded buffer, the reader with its sticky error and its
  bounded group skipping, zigzag coding and the UTF-8 check. What is proved: every value written
  is read back, no reader call leaves the input, errors stay, skipping an unknown field stops and
  consumes exactly that field, and the UTF-8 check accepts exactly the well-formed encodings.
\<close>

definition TC_PB_LIMIT :: nat where
  "TC_PB_LIMIT = 64 * 1024 * 1024"

section \<open>UTF-8 check\<close>

text \<open>
  The lead byte gives the number of continuation bytes and the first bits; the inner loop reads the
  continuation bytes, the final test rejects overlong forms, surrogates and values past 10FFFF.
\<close>

definition utf8_lead :: "byte \<Rightarrow> (nat \<times> u32) option" where
  "utf8_lead b =
     (if b \<ge> 0xc2 \<and> b \<le> 0xdf then Some (1, ucast (b AND 31))
      else if b \<ge> 0xe0 \<and> b \<le> 0xef then Some (2, ucast (b AND 15))
      else if b \<ge> 0xf0 \<and> b \<le> 0xf4 then Some (3, ucast (b AND 7))
      else None)"

fun utf8_tail :: "nat \<Rightarrow> u32 \<Rightarrow> byte list \<Rightarrow> (u32 \<times> byte list) option" where
  "utf8_tail 0 val xs = Some (val, xs)"
| "utf8_tail (Suc n) val [] = None"
| "utf8_tail (Suc n) val (b # xs) =
     (if b AND 0xc0 \<noteq> 0x80 then None
      else utf8_tail n (push_bit 6 val OR ucast (b AND 63)) xs)"

definition utf8_bad :: "nat \<Rightarrow> u32 \<Rightarrow> bool" where
  "utf8_bad count val \<longleftrightarrow> (count = 2 \<and> val < 2048) \<or> (count = 3 \<and> val < 65536) \<or> val > 0x10ffff
     \<or> (val \<ge> 0xd800 \<and> val \<le> 0xdfff)"

lemma utf8_tail_length: "utf8_tail n val xs = Some (v, ys) \<Longrightarrow> length ys + n = length xs"
  by (induction n val xs rule: utf8_tail.induct) (auto split: if_splits)

function pb_valid_loop :: "byte list \<Rightarrow> bool" where
  "pb_valid_loop [] = True"
| "pb_valid_loop (b # xs) =
     (if b < 128 then pb_valid_loop xs
      else case utf8_lead b of
        None \<Rightarrow> False
      | Some (count, val) \<Rightarrow>
          if count > length xs then False
          else (case utf8_tail count val xs of
                  None \<Rightarrow> False
                | Some (v, ys) \<Rightarrow> if utf8_bad count v then False else pb_valid_loop ys))"
  by pat_completeness auto
termination
  by (relation "measure length") (auto dest!: utf8_tail_length)

definition tc_pb_valid_utf8 :: "TinyString \<Rightarrow> bool" where
  "tc_pb_valid_utf8 s =
     (if ts_data s = None \<and> ts_length s \<noteq> 0 then False else pb_valid_loop (ts_bytes s))"

section \<open>Writer\<close>

record pb_writer =
  wdata :: "byte list option"
  wlength :: nat
  wcapacity :: nat
  werror :: int

definition tc_pb_writer :: "bool \<Rightarrow> pb_writer outcome" where
  "tc_pb_writer calloc =
     (if calloc then Ret \<lparr>wdata = None, wlength = 0, wcapacity = 0, werror = 0\<rparr>
      else Panic ''out of memory'')"

definition wblock :: "pb_writer \<Rightarrow> byte list" where
  "wblock w = (case wdata w of None \<Rightarrow> [] | Some b \<Rightarrow> b)"

definition tc_pb_append :: "(nat \<Rightarrow> byte list option) \<Rightarrow> pb_writer \<Rightarrow> byte list \<Rightarrow> pb_writer" where
  "tc_pb_append malloc w bytes =
     (if werror w \<noteq> 0 then w
      else if length bytes > usub TC_PB_LIMIT (wlength w) then w\<lparr>werror := 8\<rparr>
      else if wlength w + length bytes > wcapacity w then
        (let capacity = double_until (if wcapacity w \<noteq> 0 then wcapacity w else 128)
                          (wlength w + length bytes)
         in case realloc malloc (wblock w) capacity of
              None \<Rightarrow> w\<lparr>werror := 8\<rparr>
            | Some p \<Rightarrow> w\<lparr>wdata := Some (blit (wlength w) bytes p), wcapacity := capacity,
                          wlength := wlength w + length bytes\<rparr>)
      else if length bytes \<noteq> 0 then
        w\<lparr>wdata := Some (blit (wlength w) bytes (wblock w)), wlength := wlength w + length bytes\<rparr>
      else w)"

text \<open>The varint loop: seven bits per byte, least significant first, the top bit says more follow.\<close>

function varint_bytes :: "u64 \<Rightarrow> byte list" where
  "varint_bytes val =
     (if val > 127 then ucast ((val AND 127) OR 128) # varint_bytes (drop_bit 7 val)
      else [ucast val])"
  by pat_completeness auto
termination
proof (relation "measure unat")
  fix val :: u64
  assume "val > 127"
  then have "unat val > 127" by (simp add: word_less_nat_alt)
  then have "drop_bit 7 (unat val) < unat val" by (simp add: drop_bit_eq_div)
  then show "(drop_bit 7 val, val) \<in> measure unat"
    by (simp only: in_measure unat_drop_bit_eq)
qed auto

declare varint_bytes.simps [simp del]

definition tc_pb_write_varint :: "(nat \<Rightarrow> byte list option) \<Rightarrow> pb_writer \<Rightarrow> u64 \<Rightarrow> pb_writer" where
  "tc_pb_write_varint malloc w val = tc_pb_append malloc w (varint_bytes val)"

fun fixed_bytes :: "nat \<Rightarrow> u64 \<Rightarrow> byte list" where
  "fixed_bytes 0 val = []"
| "fixed_bytes (Suc n) val = ucast val # fixed_bytes n (drop_bit 8 val)"

definition tc_pb_write_fixed ::
  "(nat \<Rightarrow> byte list option) \<Rightarrow> pb_writer \<Rightarrow> u64 \<Rightarrow> int \<Rightarrow> pb_writer" where
  "tc_pb_write_fixed malloc w val count =
     (if count \<noteq> 4 \<and> count \<noteq> 8 then w\<lparr>werror := 3\<rparr>
      else tc_pb_append malloc w (fixed_bytes (nat count) val))"

definition tc_pb_write_bytes ::
  "(nat \<Rightarrow> byte list option) \<Rightarrow> pb_writer \<Rightarrow> TinyString \<Rightarrow> pb_writer" where
  "tc_pb_write_bytes malloc w s =
     tc_pb_append malloc (tc_pb_write_varint malloc w (word_of_nat (ts_length s))) (ts_bytes s)"

definition tc_pb_writer_error :: "pb_writer \<Rightarrow> int" where
  "tc_pb_writer_error w = werror w"

definition tc_pb_writer_take :: "(nat \<Rightarrow> byte list option) \<Rightarrow> pb_writer \<Rightarrow> TinyString \<times> pb_writer" where
  "tc_pb_writer_take malloc w =
     (if werror w \<noteq> 0 then (ts_null, w)
      else case (case wdata w of None \<Rightarrow> malloc 1 | Some b \<Rightarrow> Some b) of
             None \<Rightarrow> (ts_null, w\<lparr>werror := 8\<rparr>)
           | Some b \<Rightarrow> (\<lparr>ts_data = Some b, ts_length = wlength w\<rparr>,
                        w\<lparr>wdata := None, wlength := 0, wcapacity := 0\<rparr>))"

section \<open>Reader\<close>

record pb_reader =
  rinput :: TinyString
  rposition :: nat
  rwire :: u32
  rerror :: int

definition tc_pb_reader :: "bool \<Rightarrow> TinyString \<Rightarrow> pb_reader outcome" where
  "tc_pb_reader calloc input =
     (if \<not> calloc then Panic ''out of memory''
      else Ret \<lparr>rinput = input, rposition = 0, rwire = 0,
        rerror = (if ts_length input > TC_PB_LIMIT \<or> (ts_data input = None \<and> ts_length input \<noteq> 0)
                  then 3 else 0)\<rparr>)"

definition tc_pb_reader_error :: "pb_reader \<Rightarrow> int" where
  "tc_pb_reader_error r = rerror r"

definition tc_pb_reader_fail :: "pb_reader \<Rightarrow> pb_reader" where
  "tc_pb_reader_fail r = r\<lparr>rerror := 3\<rparr>"

definition tc_pb_reader_done :: "pb_reader \<Rightarrow> bool" where
  "tc_pb_reader_done r \<longleftrightarrow> rerror r \<noteq> 0 \<or> rposition r = ts_length (rinput r)"

definition rbyte :: "pb_reader \<Rightarrow> byte" where
  "rbyte r = ts_bytes (rinput r) ! rposition r"

function read_varint_loop :: "pb_reader \<Rightarrow> u64 \<Rightarrow> nat \<Rightarrow> u64 \<times> pb_reader" where
  "read_varint_loop r val i =
     (if i < 10 then
        (if rposition r \<ge> ts_length (rinput r) then (0, r\<lparr>rerror := 3\<rparr>)
         else (let byte = rbyte r; r1 = r\<lparr>rposition := rposition r + 1\<rparr>
               in if i = 9 \<and> byte > 1 then (0, r1\<lparr>rerror := 3\<rparr>)
                  else (let v = val OR push_bit (7 * i) (ucast (byte AND 127))
                        in if byte AND 128 = 0 then (v, r1) else read_varint_loop r1 v (i + 1))))
      else (0, r\<lparr>rerror := 3\<rparr>))"
  by pat_completeness auto
termination
  by (relation "measure (\<lambda>(r, val, i). 10 - i)") auto

declare read_varint_loop.simps [simp del]

definition tc_pb_read_varint :: "pb_reader \<Rightarrow> u64 \<times> pb_reader" where
  "tc_pb_read_varint r = (if rerror r \<noteq> 0 then (0, r) else read_varint_loop r 0 0)"

text \<open>\<open>read_fixed_loop n i\<close>: \<open>n\<close> bytes still to read, \<open>i\<close> read.\<close>

fun read_fixed_loop :: "nat \<Rightarrow> nat \<Rightarrow> u64 \<Rightarrow> pb_reader \<Rightarrow> u64 \<times> pb_reader" where
  "read_fixed_loop 0 i val r = (val, r)"
| "read_fixed_loop (Suc n) i val r =
     read_fixed_loop n (i + 1) (val OR push_bit (8 * i) (ucast (rbyte r)))
       (r\<lparr>rposition := rposition r + 1\<rparr>)"

definition tc_pb_read_fixed :: "pb_reader \<Rightarrow> int \<Rightarrow> u64 \<times> pb_reader" where
  "tc_pb_read_fixed r count =
     (if rerror r \<noteq> 0 then (0, r)
      else if (count \<noteq> 4 \<and> count \<noteq> 8)
              \<or> nat count > usub (ts_length (rinput r)) (rposition r) then (0, r\<lparr>rerror := 3\<rparr>)
      else read_fixed_loop (nat count) 0 0 r)"

definition ts_sub :: "TinyString \<Rightarrow> nat \<Rightarrow> nat \<Rightarrow> TinyString" where
  "ts_sub s offset n = \<lparr>ts_data = map_option (drop offset) (ts_data s), ts_length = n\<rparr>"

definition tc_pb_read_bytes :: "pb_reader \<Rightarrow> TinyString \<times> pb_reader" where
  "tc_pb_read_bytes r =
     (let (n, r1) = tc_pb_read_varint r
      in if rerror r1 \<noteq> 0 \<or> unat n > usub (ts_length (rinput r1)) (rposition r1)
         then (ts_null, r1\<lparr>rerror := 3\<rparr>)
         else (ts_sub (rinput r1) (rposition r1) (unat n),
               r1\<lparr>rposition := rposition r1 + unat n\<rparr>))"

definition tc_pb_next :: "pb_reader \<Rightarrow> u32 \<times> pb_reader" where
  "tc_pb_next r =
     (if tc_pb_reader_done r then (0, r)
      else (let (tag, r1) = tc_pb_read_varint r;
                r2 = r1\<lparr>rwire := ucast tag AND 7\<rparr>
            in if rerror r2 \<noteq> 0 \<or> drop_bit 3 tag = 0 \<or> drop_bit 3 tag > 536870911 \<or> rwire r2 > 5
               then (0, r2\<lparr>rerror := 3\<rparr>)
               else (ucast (drop_bit 3 tag), r2)))"

definition tc_pb_wire :: "pb_reader \<Rightarrow> u32" where
  "tc_pb_wire r = rwire r"

text \<open>
  \<open>tc_pb_skip_depth\<close> and its loop over the fields of a group. Each turn of the loop reads a tag,
  so fuel beyond the number of bytes left is never used up; \<open>tc_pb_skip_returns\<close> proves it.
\<close>

fun tc_pb_skip_depth :: "nat \<Rightarrow> pb_reader \<Rightarrow> u32 \<Rightarrow> nat \<Rightarrow> pb_reader option"
  and pb_skip_group :: "nat \<Rightarrow> pb_reader \<Rightarrow> u32 \<Rightarrow> nat \<Rightarrow> pb_reader option" where
  "tc_pb_skip_depth fuel r field depth =
     (let wire = rwire r
      in if depth > 64 then Some (r\<lparr>rerror := 3\<rparr>)
         else if wire = 0 then Some (snd (tc_pb_read_varint r))
         else if wire = 1 then Some (snd (tc_pb_read_fixed r 8))
         else if wire = 2 then Some (snd (tc_pb_read_bytes r))
         else if wire = 5 then Some (snd (tc_pb_read_fixed r 4))
         else if wire = 3 then
           (case fuel of 0 \<Rightarrow> None | Suc n \<Rightarrow> pb_skip_group n r field depth)
         else Some (r\<lparr>rerror := 3\<rparr>))"
| "pb_skip_group fuel r field depth =
     (if \<not> tc_pb_reader_done r then
        (let (nxt, r1) = tc_pb_next r
         in if rwire r1 = 4 then Some (if field \<noteq> nxt then r1\<lparr>rerror := 3\<rparr> else r1)
            else (case fuel of 0 \<Rightarrow> None
                  | Suc n \<Rightarrow> (case tc_pb_skip_depth n r1 nxt (depth + 1) of
                                None \<Rightarrow> None
                              | Some r2 \<Rightarrow> pb_skip_group n r2 field depth)))
      else Some (r\<lparr>rerror := 3\<rparr>))"

declare tc_pb_skip_depth.simps [simp del] pb_skip_group.simps [simp del]

definition skip_fuel :: "pb_reader \<Rightarrow> nat" where
  "skip_fuel r = 2 * (ts_length (rinput r) - rposition r) + 3"

definition tc_pb_skip :: "pb_reader \<Rightarrow> u32 \<Rightarrow> pb_reader option" where
  "tc_pb_skip r field = tc_pb_skip_depth (skip_fuel r) r field 0"

section \<open>Zigzag\<close>

definition tc_pb_zigzag :: "u64 \<Rightarrow> u64" where
  "tc_pb_zigzag n = push_bit 1 n XOR - (if sint n < 0 then 1 else 0)"

definition tc_pb_unzigzag :: "u64 \<Rightarrow> u64" where
  "tc_pb_unzigzag n = drop_bit 1 n XOR - (n AND 1)"

section \<open>Reading back a varint\<close>

definition rest :: "pb_reader \<Rightarrow> byte list" where
  "rest r = drop (rposition r) (ts_bytes (rinput r))"

definition reader_inv :: "pb_reader \<Rightarrow> bool" where
  "reader_inv r \<longleftrightarrow> rposition r \<le> ts_length (rinput r)
     \<and> (rerror r = 0 \<longrightarrow> ts_wf (rinput r) \<and> ts_length (rinput r) \<le> TC_PB_LIMIT)"

definition radvance :: "pb_reader \<Rightarrow> nat \<Rightarrow> pb_reader" where
  "radvance r n = r\<lparr>rposition := rposition r + n\<rparr>"

lemma radvance_simps [simp]:
  "rinput (radvance r n) = rinput r" "rposition (radvance r n) = rposition r + n"
  "rerror (radvance r n) = rerror r" "rwire (radvance r n) = rwire r"
  "radvance r 0 = r" "radvance (radvance r m) n = radvance r (m + n)"
  by (simp_all add: radvance_def)

lemma rest_radvance [simp]: "rest (radvance r n) = drop n (rest r)"
  by (simp add: rest_def add.commute)

lemma rest_Cons:
  assumes "ts_wf (rinput r)" "rest r = b # bs"
  shows "rposition r < ts_length (rinput r)" and "rbyte r = b" and "rest (radvance r 1) = bs"
proof -
  have "rposition r < length (ts_bytes (rinput r))"
    using assms(2) by (metis drop_eq_Nil linorder_not_le list.discI rest_def)
  then show "rposition r < ts_length (rinput r)" using assms(1) by simp
  show "rbyte r = b" using assms(2)
    by (metis hd_drop_conv_nth list.sel(1) \<open>rposition r < length (ts_bytes (rinput r))\<close> rbyte_def rest_def)
  show "rest (radvance r 1) = bs" by (simp add: assms(2))
qed

text \<open>The bytes of one step of the writing loop, as the reading loop takes them apart.\<close>

lemma small_take_bit: "\<not> w > (127 :: u64) \<Longrightarrow> take_bit 7 w = w"
  by (rule take_bit_small) (simp add: word_less_nat_alt)

lemma varint_more_byte:
  fixes w :: u64
  shows "(ucast ((ucast ((w AND 127) OR 128) :: byte) AND 127) :: u64) = w AND 127"
    and "(ucast ((w AND 127) OR 128) :: byte) AND 128 \<noteq> 0"
proof -
  show "(ucast ((ucast ((w AND 127) OR 128) :: byte) AND 127) :: u64) = w AND 127"
    unfolding word_masks by (rule bit_word_eqI) (auto simp: bit_simps bit_128)
  have "bit ((ucast ((w AND 127) OR 128) :: byte) AND 128) 7"
    unfolding word_masks by (simp add: bit_simps bit_128)
  then show "(ucast ((w AND 127) OR 128) :: byte) AND 128 \<noteq> 0" by auto
qed

lemma varint_last_byte:
  fixes w :: u64
  assumes "\<not> w > 127"
  shows "(ucast ((ucast w :: byte) AND 127) :: u64) = w" and "(ucast w :: byte) AND 128 = 0"
proof -
  have "(ucast ((ucast w :: byte) AND 127) :: u64) = take_bit 7 w"
    unfolding word_masks by (rule bit_word_eqI) (auto simp: bit_simps)
  then show "(ucast ((ucast w :: byte) AND 127) :: u64) = w"
    using small_take_bit assms by simp
  have "(ucast (take_bit 7 w) :: byte) AND 128 = 0"
    by (rule bit_word_eqI) (auto simp: bit_simps bit_128)
  then show "(ucast w :: byte) AND 128 = 0"
    using small_take_bit assms by simp
qed

lemma split_low7: "(w AND 127) OR push_bit 7 (drop_bit 7 w) = (w :: u64)"
  unfolding word_masks
proof (rule bit_word_eqI)
  fix n
  assume "n < LENGTH(64)"
  then show "bit (w AND mask 7 OR push_bit 7 (drop_bit 7 w)) n = bit w n"
    by (cases "n < 7") (auto simp: bit_simps)
qed

lemma varint_join:
  "(val OR push_bit (7 * i) (w AND 127)) OR push_bit (7 * (i + 1)) (drop_bit 7 w)
     = val OR push_bit (7 * i) (w :: u64)"
proof -
  have "push_bit (7 * (i + 1)) (drop_bit 7 w) = push_bit (7 * i) (push_bit 7 (drop_bit 7 w))"
    by (simp add: add.commute)
  then have "push_bit (7 * i) (w AND 127) OR push_bit (7 * (i + 1)) (drop_bit 7 w)
      = push_bit (7 * i) ((w AND 127) OR push_bit 7 (drop_bit 7 w))"
    by (simp only: push_bit_or)
  then show ?thesis by (simp only: split_low7 or.assoc)
qed

lemma read_varint_loop_bytes:
  "reader_inv r \<Longrightarrow> rerror r = 0 \<Longrightarrow> rest r = varint_bytes w @ tail \<Longrightarrow> i \<le> 9 \<Longrightarrow>
     unat w < 2 ^ (64 - 7 * i) \<Longrightarrow>
   read_varint_loop r val i = (val OR push_bit (7 * i) w, radvance r (length (varint_bytes w)))"
proof (induction w arbitrary: r val i rule: varint_bytes.induct)
  case (1 w)
  have wf: "ts_wf (rinput r)" using 1(2,3) by (simp add: reader_inv_def)
  show ?case
  proof (cases "w > 127")
    case True
    let ?b = "ucast ((w AND 127) OR 128) :: byte" and ?w = "drop_bit 7 w"
    have bs: "varint_bytes w = ?b # varint_bytes ?w"
      using True by (simp add: varint_bytes.simps [of w])
    then have r: "rest r = ?b # (varint_bytes ?w @ tail)" using 1(4) by simp
    note rc = rest_Cons [OF wf r]
    have i9: "i \<noteq> 9"
    proof
      assume "i = 9"
      then have "unat w < 2" using 1(6) by simp
      then show False using True by (simp add: word_less_nat_alt)
    qed
    then have i: "i + 1 \<le> 9" using 1(5) by simp
    have small: "unat ?w < 2 ^ (64 - 7 * (i + 1))"
    proof -
      have "unat ?w = unat w div 2 ^ 7" unfolding unat_drop_bit_eq by (rule drop_bit_eq_div)
      moreover have "(64 - 7 * i) = (64 - 7 * (i + 1)) + 7" using i by simp
      ultimately show ?thesis using 1(6)
        by (simp only: power_add) (simp add: less_mult_imp_div_less)
    qed
    have inv1: "reader_inv (radvance r 1)" "rerror (radvance r 1) = 0"
      using 1(2,3) rc(1) by (simp_all add: reader_inv_def)
    have "read_varint_loop r val i
        = read_varint_loop (radvance r 1) (val OR push_bit (7 * i) (w AND 127)) (i + 1)"
      using rc 1(5) i9 varint_more_byte [of w]
      by (subst read_varint_loop.simps) (simp add: Let_def radvance_def)
    also have "\<dots> = ((val OR push_bit (7 * i) (w AND 127)) OR push_bit (7 * (i + 1)) ?w,
        radvance (radvance r 1) (length (varint_bytes ?w)))"
      by (rule "1.IH" [OF True inv1 rc(3) i small])
    finally show ?thesis by (simp only: varint_join bs radvance_simps) simp
  next
    case False
    have r: "rest r = ucast w # tail" "varint_bytes w = [ucast w]"
      using 1(4) False by (simp_all add: varint_bytes.simps [of w])
    note rc = rest_Cons [OF wf r(1)]
    have "\<not> (i = 9 \<and> (ucast w :: byte) > 1)"
    proof
      assume a: "i = 9 \<and> (ucast w :: byte) > 1"
      then have "unat w < 2" using 1(6) by simp
      then have "unat w = 0 \<or> unat w = unat (1 :: u64)" by auto
      then have "w = 0 \<or> w = 1" by (simp only: word_unat_eq_iff unat_0)
      then show False using a by auto
    qed
    then show ?thesis
      using rc 1(5) varint_last_byte [OF False] r(2)
      by (subst read_varint_loop.simps) (auto simp: Let_def radvance_def)
  qed
qed

lemma read_varint_bytes:
  assumes "reader_inv r" "rerror r = 0" "rest r = varint_bytes w @ tail"
  shows "tc_pb_read_varint r = (w, radvance r (length (varint_bytes w)))"
proof -
  have "unat w < 2 ^ (64 - 7 * 0)" using unsigned_less [of w] by simp
  then show ?thesis
    using read_varint_loop_bytes [OF assms, of 0 0] assms(2) by (simp add: tc_pb_read_varint_def)
qed

section \<open>Writing\<close>

definition writer_inv :: "pb_writer \<Rightarrow> bool" where
  "writer_inv w \<longleftrightarrow> wlength w \<le> wcapacity w \<and> wlength w \<le> TC_PB_LIMIT
     \<and> length (wblock w) = wcapacity w \<and> (wdata w = None \<longrightarrow> wcapacity w = 0)"

definition written :: "pb_writer \<Rightarrow> byte list" where
  "written w = take (wlength w) (wblock w)"

lemma length_written: "writer_inv w \<Longrightarrow> length (written w) = wlength w"
  by (simp add: writer_inv_def written_def)

text \<open>Appending keeps the invariant, and adds all the bytes or none and an error.\<close>

lemma append_ok:
  assumes m: "malloc_ok malloc" and inv: "writer_inv w"
  shows "writer_inv (tc_pb_append malloc w bytes)" (is ?I)
    and "werror (tc_pb_append malloc w bytes) = 0 \<Longrightarrow>
           written (tc_pb_append malloc w bytes) = written w @ bytes \<and> werror w = 0" (is "_ \<Longrightarrow> ?W")
    and "werror (tc_pb_append malloc w bytes) \<noteq> 0 \<Longrightarrow>
           written (tc_pb_append malloc w bytes) = written w" (is "_ \<Longrightarrow> ?E")
proof -
  let ?cap = "double_until (if wcapacity w \<noteq> 0 then wcapacity w else 128) (wlength w + length bytes)"
  have cap: "wlength w + length bytes \<le> ?cap" by (rule double_until_ge) simp
  have "?I \<and> (werror (tc_pb_append malloc w bytes) = 0 \<longrightarrow> ?W)
      \<and> (werror (tc_pb_append malloc w bytes) \<noteq> 0 \<longrightarrow> ?E)"
  proof (cases "werror w \<noteq> 0 \<or> length bytes > usub TC_PB_LIMIT (wlength w)")
    case True
    then show ?thesis using inv
      by (auto simp: tc_pb_append_def writer_inv_def written_def wblock_def)
  next
    case False
    then have fit: "wlength w + length bytes \<le> TC_PB_LIMIT" and e: "werror w = 0"
      using inv by (auto simp: writer_inv_def)
    show ?thesis
    proof (cases "wlength w + length bytes > wcapacity w")
      case grow: True
      show ?thesis
      proof (cases "realloc malloc (wblock w) ?cap")
        case None
        then show ?thesis using False grow inv
          by (simp add: tc_pb_append_def Let_def writer_inv_def written_def wblock_def)
      next
        case (Some p)
        have lp: "length p = ?cap" by (rule realloc_Some(1) [OF m Some])
        have tp: "take (wlength w) p = take (wlength w) (wblock w)"
          by (rule realloc_Some(2) [OF m Some]) (use inv cap in \<open>auto simp: writer_inv_def\<close>)
        have "tc_pb_append malloc w bytes = w\<lparr>wdata := Some (blit (wlength w) bytes p),
            wcapacity := ?cap, wlength := wlength w + length bytes\<rparr>"
          using False grow Some by (simp add: tc_pb_append_def Let_def)
        then show ?thesis using lp tp cap fit e
          by (simp add: writer_inv_def written_def wblock_def)
      qed
    next
      case noGrow: False
      then show ?thesis using False fit e inv
        by (auto simp: tc_pb_append_def writer_inv_def written_def wblock_def)
    qed
  qed
  then show ?I "werror (tc_pb_append malloc w bytes) = 0 \<Longrightarrow> ?W"
      "werror (tc_pb_append malloc w bytes) \<noteq> 0 \<Longrightarrow> ?E"
    by auto
qed

lemma writer_new:
  "tc_pb_writer c = Ret w \<Longrightarrow> writer_inv w \<and> written w = [] \<and> werror w = 0"
  by (auto simp: tc_pb_writer_def writer_inv_def written_def wblock_def split: if_splits)

lemma take_written:
  assumes "malloc_ok malloc" "writer_inv w" "tc_pb_writer_take malloc w = (s, w')" "werror w' = 0"
  shows "ts_wf s \<and> ts_bytes s = written w \<and> ts_length s \<le> TC_PB_LIMIT \<and> werror w = 0
     \<and> writer_inv w' \<and> written w' = []"
  using assms
  by (auto simp: tc_pb_writer_take_def writer_inv_def written_def wblock_def ts_wf_def ts_bytes_def
      split: if_splits option.splits)

lemma length_varint_bytes: "unat w < 2 ^ (7 * k) \<Longrightarrow> 0 < k \<Longrightarrow> length (varint_bytes w) \<le> k"
proof (induction w arbitrary: k rule: varint_bytes.induct)
  case (1 w)
  show ?case
  proof (cases "w > 127")
    case True
    then have w: "unat w > 127" by (simp add: word_less_nat_alt)
    have k: "1 < k"
    proof (rule ccontr)
      assume "\<not> 1 < k"
      then have "k = 1" using 1(3) by simp
      then show False using 1(2) w by simp
    qed
    have "unat (drop_bit 7 w) = unat w div 2 ^ 7" unfolding unat_drop_bit_eq by (rule drop_bit_eq_div)
    moreover have "7 * k = 7 * (k - 1) + 7" using k by simp
    ultimately have "unat (drop_bit 7 w) < 2 ^ (7 * (k - 1))"
      using 1(2) by (simp only: power_add) (simp add: less_mult_imp_div_less)
    then have "length (varint_bytes (drop_bit 7 w)) \<le> k - 1"
      using "1.IH" [OF True] k by simp
    then show ?thesis using True k by (simp add: varint_bytes.simps [of w])
  next
    case False
    then show ?thesis using 1(3) by (simp add: varint_bytes.simps [of w])
  qed
qed

section \<open>Reading back fixed-width values and byte strings\<close>

lemma length_fixed_bytes [simp]: "length (fixed_bytes n w) = n"
  by (induction n w rule: fixed_bytes.induct) simp_all

lemma low_byte: "(ucast (ucast w :: byte) :: u64) = take_bit 8 w"
  by (rule bit_word_eqI) (auto simp: bit_simps)

lemma split_low8:
  "take_bit 8 w OR push_bit 8 (take_bit n (drop_bit 8 w)) = take_bit (n + 8) (w :: u64)"
proof (rule bit_word_eqI)
  fix k
  assume "k < LENGTH(64)"
  then show "bit (take_bit 8 w OR push_bit 8 (take_bit n (drop_bit 8 w))) k = bit (take_bit (n + 8) w) k"
    by (cases "k < 8") (auto simp: bit_simps)
qed

lemma fixed_join:
  "(val OR push_bit (8 * i) (ucast (ucast w :: byte)))
     OR push_bit (8 * (i + 1)) (take_bit (8 * n) (drop_bit 8 w))
   = val OR push_bit (8 * i) (take_bit (8 * Suc n) (w :: u64))"
proof -
  have "push_bit (8 * (i + 1)) x = push_bit (8 * i) (push_bit 8 x)" for x :: u64
    by (simp add: add.commute)
  then have "push_bit (8 * i) (take_bit 8 w) OR push_bit (8 * (i + 1)) (take_bit (8 * n) (drop_bit 8 w))
      = push_bit (8 * i) (take_bit (8 * n + 8) w)"
    by (simp only: push_bit_or [symmetric] split_low8)
  moreover have "8 * n + 8 = 8 * Suc n" by simp
  ultimately show ?thesis by (simp only: low_byte or.assoc)
qed

lemma read_fixed_loop_bytes:
  "ts_wf (rinput r) \<Longrightarrow> rest r = fixed_bytes n w @ tail \<Longrightarrow>
   read_fixed_loop n i val r = (val OR push_bit (8 * i) (take_bit (8 * n) w), radvance r n)"
proof (induction n arbitrary: w r i val)
  case (Suc n)
  have r: "rest r = ucast w # (fixed_bytes n (drop_bit 8 w) @ tail)" using Suc.prems(2) by simp
  note rc = rest_Cons [OF Suc.prems(1) r]
  have "read_fixed_loop (Suc n) i val r
      = read_fixed_loop n (i + 1) (val OR push_bit (8 * i) (ucast (ucast w :: byte))) (radvance r 1)"
    by (simp add: rc(2) radvance_def)
  also have "\<dots> = ((val OR push_bit (8 * i) (ucast (ucast w :: byte)))
      OR push_bit (8 * (i + 1)) (take_bit (8 * n) (drop_bit 8 w)), radvance (radvance r 1) n)"
    by (rule Suc.IH) (simp_all only: radvance_simps rc(3) Suc.prems(1))
  finally show ?case by (simp only: fixed_join radvance_simps) simp
qed simp

lemma length_rest: "ts_wf (rinput r) \<Longrightarrow> length (rest r) = ts_length (rinput r) - rposition r"
  by (simp add: rest_def)

lemma read_fixed_bytes:
  assumes "reader_inv r" "rerror r = 0" "count = 4 \<or> count = 8"
    "rest r = fixed_bytes (nat count) w @ tail"
  shows "tc_pb_read_fixed r count = (take_bit (8 * nat count) w, radvance r (nat count))"
proof -
  have wf: "ts_wf (rinput r)" and pos: "rposition r \<le> ts_length (rinput r)"
    using assms(1,2) by (auto simp: reader_inv_def)
  have "nat count \<le> ts_length (rinput r) - rposition r"
    using arg_cong [OF assms(4), of length] length_rest [OF wf] by simp
  then show ?thesis
    using read_fixed_loop_bytes [OF wf assms(4), of 0 0] assms(2,3) pos
    by (auto simp: tc_pb_read_fixed_def)
qed

lemma ts_sub_bytes:
  assumes "ts_wf s" "p + n \<le> ts_length s"
  shows "ts_bytes (ts_sub s p n) = take n (drop p (ts_bytes s))" and "ts_wf (ts_sub s p n)"
  using assms
  by (auto simp: ts_bytes_def ts_sub_def ts_wf_def drop_take min_def split: option.splits)

lemma size_word: "n \<le> TC_PB_LIMIT \<Longrightarrow> unat (word_of_nat n :: u64) = n"
  by (simp add: TC_PB_LIMIT_def unat_of_nat take_bit_nat_eq_self)

lemma read_bytes_bytes:
  assumes inv: "reader_inv r" and e: "rerror r = 0" and n: "length bs \<le> TC_PB_LIMIT"
    and rr: "rest r = varint_bytes (word_of_nat (length bs)) @ bs @ tail"
  shows "\<exists>s. tc_pb_read_bytes r
      = (s, radvance r (length (varint_bytes (word_of_nat (length bs))) + length bs))
      \<and> ts_bytes s = bs \<and> ts_wf s"
proof -
  let ?v = "varint_bytes (word_of_nat (length bs))" and ?n = "length bs"
  have rv: "tc_pb_read_varint r = (word_of_nat ?n, radvance r (length ?v))"
    by (rule read_varint_bytes [OF inv e rr])
  have wf: "ts_wf (rinput r)" and pos: "rposition r \<le> ts_length (rinput r)"
    using inv e by (auto simp: reader_inv_def)
  have len: "length ?v + ?n + length tail = ts_length (rinput r) - rposition r"
    using length_rest [OF wf] by (simp add: rr)
  have b: "rposition r + length ?v + ?n \<le> ts_length (rinput r)" using len pos by simp
  have "tc_pb_read_bytes r = (ts_sub (rinput r) (rposition r + length ?v) ?n,
      radvance r (length ?v + ?n))"
    using len pos e size_word [OF n] by (simp add: tc_pb_read_bytes_def rv radvance_def)
  moreover have "drop (rposition r + length ?v) (ts_bytes (rinput r)) = bs @ tail"
    using rr unfolding rest_def by (metis add.commute append_eq_conv_conj drop_drop)
  ultimately show ?thesis using ts_sub_bytes [OF wf b] by auto
qed

section \<open>A sequence of writes is read back by the same sequence of reads\<close>

datatype pb_item = PVarint u64 | PFixed int u64 | PBytes TinyString

fun write_item :: "(nat \<Rightarrow> byte list option) \<Rightarrow> pb_item \<Rightarrow> pb_writer \<Rightarrow> pb_writer" where
  "write_item malloc (PVarint n) w = tc_pb_write_varint malloc w n"
| "write_item malloc (PFixed c n) w = tc_pb_write_fixed malloc w n c"
| "write_item malloc (PBytes s) w = tc_pb_write_bytes malloc w s"

fun read_item :: "pb_item \<Rightarrow> pb_reader \<Rightarrow> pb_item \<times> pb_reader" where
  "read_item (PVarint _) r = (let (n, r') = tc_pb_read_varint r in (PVarint n, r'))"
| "read_item (PFixed c _) r = (let (n, r') = tc_pb_read_fixed r c in (PFixed c n, r'))"
| "read_item (PBytes _) r = (let (s, r') = tc_pb_read_bytes r in (PBytes s, r'))"

fun read_items :: "pb_item list \<Rightarrow> pb_reader \<Rightarrow> pb_item list \<times> pb_reader" where
  "read_items [] r = ([], r)"
| "read_items (x # xs) r =
     (let (y, r1) = read_item x r; (ys, r2) = read_items xs r1 in (y # ys, r2))"

text \<open>Two items carry the same value: equal numbers at the width written, equal bytes.\<close>

fun same_item :: "pb_item \<Rightarrow> pb_item \<Rightarrow> bool" where
  "same_item (PVarint m) (PVarint n) \<longleftrightarrow> m = n"
| "same_item (PFixed c m) (PFixed d n) \<longleftrightarrow> c = d \<and> take_bit (8 * nat c) m = n"
| "same_item (PBytes s) (PBytes t) \<longleftrightarrow> ts_bytes s = ts_bytes t"
| "same_item _ _ \<longleftrightarrow> False"

fun item_ok :: "pb_item \<Rightarrow> bool" where
  "item_ok (PBytes s) \<longleftrightarrow> ts_wf s"
| "item_ok _ \<longleftrightarrow> True"

fun item_bytes :: "pb_item \<Rightarrow> byte list" where
  "item_bytes (PVarint n) = varint_bytes n"
| "item_bytes (PFixed c n) = fixed_bytes (nat c) n"
| "item_bytes (PBytes s) = varint_bytes (word_of_nat (ts_length s)) @ ts_bytes s"

lemma append_error: "werror w \<noteq> 0 \<Longrightarrow> tc_pb_append malloc w bytes = w"
  by (simp add: tc_pb_append_def)

lemma write_item_ok:
  assumes "malloc_ok malloc" "writer_inv w"
  shows "writer_inv (write_item malloc x w)"
    and "werror (write_item malloc x w) = 0 \<Longrightarrow>
      written (write_item malloc x w) = written w @ item_bytes x \<and> werror w = 0
      \<and> (case x of PFixed c _ \<Rightarrow> c = 4 \<or> c = 8 | _ \<Rightarrow> True)"
proof -
  have "writer_inv (write_item malloc x w) \<and> (werror (write_item malloc x w) = 0 \<longrightarrow>
      written (write_item malloc x w) = written w @ item_bytes x \<and> werror w = 0
      \<and> (case x of PFixed c _ \<Rightarrow> c = 4 \<or> c = 8 | _ \<Rightarrow> True))"
  proof (cases x)
    case (PVarint n)
    then show ?thesis using append_ok [OF assms] by (simp add: tc_pb_write_varint_def)
  next
    case (PFixed c n)
    then show ?thesis using append_ok [OF assms] assms(2)
      by (auto simp: tc_pb_write_fixed_def writer_inv_def wblock_def)
  next
    case (PBytes s)
    let ?w = "tc_pb_write_varint malloc w (word_of_nat (ts_length s))"
    have inv: "writer_inv ?w" using append_ok(1) [OF assms] by (simp add: tc_pb_write_varint_def)
    show ?thesis
      using append_ok(1,2) [OF assms(1) inv, of "ts_bytes s"]
        append_ok(2) [OF assms, of "varint_bytes (word_of_nat (ts_length s))"] PBytes
      by (simp add: tc_pb_write_bytes_def tc_pb_write_varint_def)
  qed
  then show "writer_inv (write_item malloc x w)"
    "werror (write_item malloc x w) = 0 \<Longrightarrow>
      written (write_item malloc x w) = written w @ item_bytes x \<and> werror w = 0
      \<and> (case x of PFixed c _ \<Rightarrow> c = 4 \<or> c = 8 | _ \<Rightarrow> True)"
    by auto
qed

lemma write_items_ok:
  assumes "malloc_ok malloc"
  shows "writer_inv w \<Longrightarrow> writer_inv (fold (write_item malloc) xs w) \<and>
     (werror (fold (write_item malloc) xs w) = 0 \<longrightarrow>
      written (fold (write_item malloc) xs w) = written w @ concat (map item_bytes xs)
      \<and> werror w = 0 \<and> (\<forall>c n. PFixed c n \<in> set xs \<longrightarrow> c = 4 \<or> c = 8))"
proof (induction xs arbitrary: w)
  case (Cons x xs)
  show ?case
    using Cons.IH [OF write_item_ok(1) [OF assms Cons.prems], of x]
      write_item_ok(2) [OF assms Cons.prems, of x]
    by (cases x) (simp_all, blast?)
qed simp

lemma radvance_inv:
  "reader_inv r \<Longrightarrow> rerror r = 0 \<Longrightarrow> n \<le> length (rest r) \<Longrightarrow> reader_inv (radvance r n)"
  by (auto simp: reader_inv_def length_rest)

lemma read_item_written:
  assumes inv: "reader_inv r" and e: "rerror r = 0" and rr: "rest r = item_bytes x @ tail"
    and ok: "item_ok x" "\<And>c n. x = PFixed c n \<Longrightarrow> c = 4 \<or> c = 8"
  shows "\<exists>y. read_item x r = (y, radvance r (length (item_bytes x))) \<and> same_item x y"
proof (cases x)
  case (PVarint n)
  then show ?thesis using read_varint_bytes [OF inv e, of n tail] rr by simp
next
  case (PFixed c n)
  then show ?thesis using read_fixed_bytes [OF inv e ok(2) [OF PFixed], of n tail] rr by simp
next
  case (PBytes s)
  have n: "length (ts_bytes s) = ts_length s" using ok(1) PBytes by simp
  have "length (rest r) \<le> TC_PB_LIMIT"
    using inv e by (auto simp: reader_inv_def length_rest)
  then have "length (ts_bytes s) \<le> TC_PB_LIMIT" using rr PBytes by simp
  then show ?thesis using read_bytes_bytes [OF inv e, of "ts_bytes s" tail] rr PBytes n by auto
qed

lemma read_items_written:
  "reader_inv r \<Longrightarrow> rerror r = 0 \<Longrightarrow> rest r = concat (map item_bytes xs) @ tail \<Longrightarrow>
   (\<forall>x\<in>set xs. item_ok x) \<Longrightarrow> (\<forall>c n. PFixed c n \<in> set xs \<longrightarrow> c = 4 \<or> c = 8) \<Longrightarrow>
   \<exists>ys. read_items xs r = (ys, radvance r (length (concat (map item_bytes xs))))
      \<and> list_all2 same_item xs ys"
proof (induction xs arbitrary: r)
  case (Cons x xs)
  let ?n = "length (item_bytes x)"
  have rr: "rest r = item_bytes x @ (concat (map item_bytes xs) @ tail)" using Cons.prems(3) by simp
  have "\<exists>y. read_item x r = (y, radvance r ?n) \<and> same_item x y"
    by (rule read_item_written [OF Cons.prems(1,2) rr]) (use Cons.prems(4,5) in auto)
  then obtain y where y: "read_item x r = (y, radvance r ?n)" "same_item x y" by blast
  have "\<exists>ys. read_items xs (radvance r ?n)
      = (ys, radvance (radvance r ?n) (length (concat (map item_bytes xs))))
      \<and> list_all2 same_item xs ys"
    by (rule Cons.IH) (use Cons.prems rr radvance_inv [OF Cons.prems(1,2)] in auto)
  then show ?case using y by auto
qed simp

lemma reader_new:
  "tc_pb_reader c s = Ret r \<Longrightarrow> ts_wf s \<Longrightarrow> ts_length s \<le> TC_PB_LIMIT \<Longrightarrow>
   reader_inv r \<and> rerror r = 0 \<and> rest r = ts_bytes s \<and> rposition r = 0 \<and> rinput r = s"
  by (cases "ts_data s") (auto simp: tc_pb_reader_def reader_inv_def rest_def ts_wf_def split: if_splits)

text \<open>With memory available and the limit kept, nothing goes wrong.\<close>

lemma append_succeeds:
  assumes "malloc_ok malloc" "\<forall>n. malloc n \<noteq> None" "writer_inv w" "werror w = 0"
    and "wlength w + length bytes \<le> TC_PB_LIMIT"
  shows "werror (tc_pb_append malloc w bytes) = 0"
    and "wlength (tc_pb_append malloc w bytes) = wlength w + length bytes"
  using malloc_total [OF assms(2)] assms(3-5)
  by (auto simp: tc_pb_append_def realloc_def Let_def writer_inv_def)

lemma write_item_succeeds:
  assumes m: "malloc_ok malloc" "\<forall>n. malloc n \<noteq> None" and inv: "writer_inv w" and e: "werror w = 0"
    and fit: "wlength w + length (item_bytes x) \<le> TC_PB_LIMIT"
    and ok: "\<And>c n. x = PFixed c n \<Longrightarrow> c = 4 \<or> c = 8"
  shows "werror (write_item malloc x w) = 0
    \<and> wlength (write_item malloc x w) = wlength w + length (item_bytes x)"
proof (cases x)
  case (PVarint n)
  then show ?thesis using append_succeeds [OF m inv e] fit by (simp add: tc_pb_write_varint_def)
next
  case (PFixed c n)
  then show ?thesis using append_succeeds [OF m inv e] fit ok [OF PFixed]
    by (auto simp: tc_pb_write_fixed_def)
next
  case (PBytes s)
  let ?v = "varint_bytes (word_of_nat (ts_length s))" and ?w = "tc_pb_write_varint malloc w"
  have v: "werror (?w (word_of_nat (ts_length s))) = 0"
    "wlength (?w (word_of_nat (ts_length s))) = wlength w + length ?v"
    using append_succeeds [OF m inv e, of ?v] fit PBytes by (simp_all add: tc_pb_write_varint_def)
  have "writer_inv (?w (word_of_nat (ts_length s)))"
    using append_ok(1) [OF m(1) inv] by (simp add: tc_pb_write_varint_def)
  from append_succeeds [OF m this v(1), of "ts_bytes s"] show ?thesis
    using PBytes v fit by (simp add: tc_pb_write_bytes_def)
qed

definition item_sized :: "pb_item \<Rightarrow> bool" where
  "item_sized x \<longleftrightarrow> (case x of PFixed c _ \<Rightarrow> c = 4 \<or> c = 8 | _ \<Rightarrow> True)"

lemma write_items_succeed:
  assumes m: "malloc_ok malloc" "\<forall>n. malloc n \<noteq> None"
  shows "writer_inv w \<Longrightarrow> werror w = 0 \<Longrightarrow>
    wlength w + length (concat (map item_bytes xs)) \<le> TC_PB_LIMIT \<Longrightarrow>
    (\<forall>x\<in>set xs. item_sized x) \<Longrightarrow> werror (fold (write_item malloc) xs w) = 0"
proof (induction xs arbitrary: w)
  case (Cons x xs)
  have "werror (write_item malloc x w) = 0
      \<and> wlength (write_item malloc x w) = wlength w + length (item_bytes x)"
    by (rule write_item_succeeds [OF m Cons.prems(1,2)])
       (use Cons.prems(3,4) in \<open>auto simp: item_sized_def\<close>)
  then show ?case
    using Cons.IH [OF write_item_ok(1) [OF m(1) Cons.prems(1)], of x] Cons.prems(3,4) by simp
qed simp

text \<open>
  Claim C5. Whatever sequence of varints, fixed-width values and byte strings within the 64 MiB limit
  is written to a fresh writer: with memory available no write fails, the string taken from the
  writer, given to a reader, is read back by the same sequence of read calls, value by value (a
  4-byte value at 32 bits), and the reader is then at the end of its input with no error.
\<close>

theorem pb_write_read:
  assumes "malloc_ok malloc" and "\<forall>n. malloc n \<noteq> None"
    and "\<forall>x\<in>set xs. item_ok x \<and> item_sized x"
    and "length (concat (map item_bytes xs)) \<le> TC_PB_LIMIT"
    and "tc_pb_writer True = Ret w"
  shows "\<exists>s w' r ys r'. tc_pb_writer_take malloc (fold (write_item malloc) xs w) = (s, w')
     \<and> tc_pb_writer_error w' = 0 \<and> tc_pb_reader True s = Ret r
     \<and> read_items xs r = (ys, r') \<and> list_all2 same_item xs ys
     \<and> tc_pb_reader_error r' = 0 \<and> tc_pb_reader_done r'"
proof -
  let ?w = "fold (write_item malloc) xs w"
  have w: "writer_inv w" "written w = []" "werror w = 0" using writer_new [OF assms(5)] by auto
  have "wlength w = 0" using length_written [OF w(1)] w(2) by simp
  then have e: "werror ?w = 0"
    using write_items_succeed [OF assms(1) _ w(1,3)] assms(2-4) by auto
  note W = write_items_ok [OF assms(1) w(1), of xs]
  obtain s w' where take: "tc_pb_writer_take malloc ?w = (s, w')" by fastforce
  have e': "werror w' = 0"
    using take e malloc_total [OF assms(2)] by (auto simp: tc_pb_writer_take_def split: option.splits)
  have s: "ts_wf s" "ts_bytes s = written ?w" "ts_length s \<le> TC_PB_LIMIT"
    using take_written [OF assms(1) _ take e'] W by auto
  obtain r where new: "tc_pb_reader True s = Ret r" by (simp add: tc_pb_reader_def)
  have r: "reader_inv r" "rerror r = 0" "rest r = ts_bytes s" "rposition r = 0" "rinput r = s"
    using reader_new [OF new s(1,3)] by auto
  have bytes: "ts_bytes s = concat (map item_bytes xs)" using W e s(2) w(2) by simp
  have "\<exists>ys. read_items xs r = (ys, radvance r (length (concat (map item_bytes xs))))
      \<and> list_all2 same_item xs ys"
    by (rule read_items_written [of _ _ "[]"]) (use r bytes W e assms(3) in auto)
  moreover have "length (concat (map item_bytes xs)) = ts_length s"
    using bytes s(1) by (metis length_ts_bytes)
  ultimately show ?thesis using take e' new r
    by (auto simp: tc_pb_reader_error_def tc_pb_writer_error_def tc_pb_reader_done_def)
qed

definition sample_items :: "pb_item list" where
  "sample_items = [PVarint 300, PFixed 4 77, PBytes (ts_of [104, 105])]"

definition sample_writer :: pb_writer where
  "sample_writer = \<lparr>wdata = None, wlength = 0, wcapacity = 0, werror = 0\<rparr>"

lemma length_varint_10: "length (varint_bytes w) \<le> 10"
proof (rule length_varint_bytes)
  have "unat w < 2 ^ LENGTH(64)" by (rule unsigned_less)
  also have "\<dots> \<le> (2 :: nat) ^ (7 * 10)" by (rule power_increasing) simp_all
  finally show "unat w < 2 ^ (7 * 10)" .
qed simp

theorem pb_write_read_witness:
  "\<exists>s w' r ys r'.
     tc_pb_writer_take malloc_zero (fold (write_item malloc_zero) sample_items sample_writer) = (s, w')
     \<and> tc_pb_writer_error w' = 0 \<and> tc_pb_reader True s = Ret r
     \<and> read_items sample_items r = (ys, r') \<and> list_all2 same_item sample_items ys
     \<and> tc_pb_reader_error r' = 0 \<and> tc_pb_reader_done r'"
proof (rule pb_write_read)
  show "length (concat (map item_bytes sample_items)) \<le> TC_PB_LIMIT"
    using length_varint_10 [of 300] length_varint_10 [of 2]
    by (simp add: sample_items_def TC_PB_LIMIT_def)
qed (simp_all add: sample_items_def sample_writer_def tc_pb_writer_def item_sized_def malloc_zero_def)

section \<open>Zigzag coding\<close>

lemma zigzag_cases:
  "tc_pb_zigzag n = (if sint n < 0 then NOT (push_bit 1 n) else push_bit 1 n)"
  by (simp add: tc_pb_zigzag_def)

lemma unzigzag_cases:
  "tc_pb_unzigzag n = (if bit n 0 then NOT (drop_bit 1 n) else drop_bit 1 n)"
  by (auto simp: tc_pb_unzigzag_def and_one_eq mod_2_eq_odd bit_0)

lemma sint_neg_bit: "sint (n :: u64) < 0 \<longleftrightarrow> bit n 63"
  using bit_last_iff [of n] by simp

lemma bit_double: "bit (push_bit 1 (n :: u64)) k \<longleftrightarrow> 1 \<le> k \<and> k < 64 \<and> bit n (k - 1)"
  by (auto simp only: bit_push_bit_iff possible_bit_word len_num0 len_bit0 bit_imp_le_length) (auto dest: bit_imp_le_length)

lemma bit_zigzag: "bit (tc_pb_zigzag n) k \<longleftrightarrow> k < 64 \<and> (bit n 63 \<noteq> (1 \<le> k \<and> bit n (k - 1)))"
proof (cases "k < 64")
  case True
  then show ?thesis
    by (cases "bit n 63")
       (simp_all only: zigzag_cases sint_neg_bit bit_not_iff bit_double possible_bit_word if_True if_False
          len_num0 len_bit0 simp_thms, simp_all)
next
  case False
  then show ?thesis by (auto dest: bit_imp_le_length)
qed

lemma bit_unzigzag: "bit (tc_pb_unzigzag n) k \<longleftrightarrow> k < 64 \<and> (bit n 0 \<noteq> bit n (k + 1))"
  unfolding unzigzag_cases
  by (auto simp: bit_not_iff bit_drop_bit_eq dest: bit_imp_le_length)

lemma unzigzag_zigzag: "tc_pb_unzigzag (tc_pb_zigzag n) = n"
proof (rule bit_word_eqI)
  fix k assume "k < LENGTH(64)"
  then show "bit (tc_pb_unzigzag (tc_pb_zigzag n)) k = bit n k"
    by (cases "k = 63") (auto simp: bit_zigzag bit_unzigzag)
qed

lemma zigzag_unzigzag: "tc_pb_zigzag (tc_pb_unzigzag n) = n"
proof (rule bit_word_eqI)
  have "\<not> bit n 64" by (auto dest: bit_imp_le_length)
  moreover fix k assume "k < LENGTH(64)"
  ultimately show "bit (tc_pb_zigzag (tc_pb_unzigzag n)) k = bit n k"
    by (cases k) (auto simp: bit_zigzag bit_unzigzag)
qed

lemma zigzag_value: "uint (tc_pb_zigzag n) = (if sint n < 0 then -2 * sint n - 1 else 2 * sint n)"
proof -
  have s: "- (2 ^ 63) \<le> sint n" "sint n < 2 ^ 63" using sint_ge [of n] sint_lt [of n] by simp_all
  have "n = word_of_int (sint n)" by simp
  then obtain i where i: "n = word_of_int i" "i = sint n" by blast
  have z: "tc_pb_zigzag n = word_of_int (if i < 0 then - 2 * i - 1 else 2 * i)"
    unfolding zigzag_cases i(2) [symmetric] unfolding i(1)
    by (simp add: push_bit_eq_mult not_eq_complement)
  show ?thesis unfolding z i(2) [symmetric]
    using s unfolding i(2) [symmetric] by (simp add: unsigned_of_int take_bit_int_eq_self)
qed

text \<open>
  Zigzag coding is a bijection on 64-bit values: decoding undoes encoding and encoding
  undoes decoding. A signed value \<open>n\<close> is coded as \<open>2 * n\<close>, or as \<open>- 2 * n - 1\<close> when it is
  negative, with no overflow, so that values near zero have short varints.
\<close>

theorem pb_zigzag_bijective:
  "tc_pb_unzigzag (tc_pb_zigzag n) = n \<and> tc_pb_zigzag (tc_pb_unzigzag m) = m
   \<and> uint (tc_pb_zigzag n) = (if sint n < 0 then - 2 * sint n - 1 else 2 * sint n)"
  by (simp only: unzigzag_zigzag zigzag_unzigzag zigzag_value simp_thms)

section \<open>The reader stays inside its input\<close>

definition remaining :: "pb_reader \<Rightarrow> nat" where
  "remaining r = ts_length (rinput r) - rposition r"

text \<open>What every call does to a reader: forward inside the same input; after an error, nothing.\<close>

definition reader_le :: "pb_reader \<Rightarrow> pb_reader \<Rightarrow> bool" where
  "reader_le r r' \<longleftrightarrow> rinput r' = rinput r \<and> rposition r \<le> rposition r'
     \<and> (rposition r \<le> ts_length (rinput r) \<longrightarrow> rposition r' \<le> ts_length (rinput r))
     \<and> (rerror r \<noteq> 0 \<longrightarrow> rerror r' \<noteq> 0 \<and> rposition r' = rposition r)"

lemma reader_le_refl [intro, simp]: "reader_le r r"
  by (simp add: reader_le_def)

lemma reader_le_trans:
  assumes "reader_le r s" "reader_le s t"
  shows "reader_le r t"
proof -
  have i: "rinput s = rinput r" "rinput t = rinput r" using assms by (simp_all add: reader_le_def)
  have p: "rposition r \<le> rposition s" "rposition s \<le> rposition t"
    using assms by (simp_all add: reader_le_def)
  have e: "rerror r \<noteq> 0 \<Longrightarrow> rerror t \<noteq> 0 \<and> rposition t = rposition r"
    using assms by (simp add: reader_le_def)
  have b: "rposition r \<le> ts_length (rinput r) \<Longrightarrow> rposition t \<le> ts_length (rinput r)"
    using assms by (simp add: reader_le_def)
  show ?thesis unfolding reader_le_def using i p e b by simp
qed

lemma reader_le_error [intro, simp]: "reader_le r (r\<lparr>rerror := 3\<rparr>)"
  by (simp add: reader_le_def)

lemma reader_le_wire [intro, simp]: "reader_le r (r\<lparr>rwire := w\<rparr>)"
  by (simp add: reader_le_def)

lemma reader_le_update:
  "reader_le r s \<Longrightarrow> reader_le r (s\<lparr>rerror := 3\<rparr>)" "reader_le r s \<Longrightarrow> reader_le r (s\<lparr>rwire := w\<rparr>)"
  by (simp_all add: reader_le_def)

lemma reader_le_position:
  "rposition r + n \<le> ts_length (rinput r) \<Longrightarrow> rerror r = 0 \<Longrightarrow>
   reader_le r (r\<lparr>rposition := rposition r + n\<rparr>)"
  by (simp add: reader_le_def)

lemma read_varint_loop_le: "rerror r = 0 \<Longrightarrow> reader_le r (snd (read_varint_loop r val i))"
proof (induction r val i rule: read_varint_loop.induct)
  case (1 r val i)
  show ?case
  proof (cases "i < 10 \<and> rposition r < ts_length (rinput r)")
    case False
    then show ?thesis by (auto simp: read_varint_loop.simps [of r])
  next
    case True
    let ?r = "r\<lparr>rposition := rposition r + 1\<rparr>"
    have step: "reader_le r ?r" by (rule reader_le_position) (use True 1(2) in auto)
    show ?thesis
    proof (cases "i = 9 \<and> rbyte r > 1 \<or> rbyte r AND 128 = 0")
      case stop: True
      then have "snd (read_varint_loop r val i) = ?r \<or> snd (read_varint_loop r val i) = ?r\<lparr>rerror := 3\<rparr>"
        using True by (subst (1 2) read_varint_loop.simps) (simp add: Let_def, blast)
      then show ?thesis using step reader_le_update(1) [OF step] by (elim disjE) (simp_all only:)
    next
      case False
      then have eq: "read_varint_loop r val i
          = read_varint_loop ?r (val OR push_bit (7 * i) (ucast (rbyte r AND 127))) (i + 1)"
        using True by (subst read_varint_loop.simps) (auto simp: Let_def)
      have "reader_le ?r (snd (read_varint_loop ?r (val OR push_bit (7 * i) (ucast (rbyte r AND 127))) (i + 1)))"
        by (rule "1.IH") (use True False 1(2) in auto)
      then show ?thesis unfolding eq by (rule reader_le_trans [OF step])
    qed
  qed
qed

lemma read_varint_le: "reader_le r (snd (tc_pb_read_varint r))"
  by (simp add: tc_pb_read_varint_def read_varint_loop_le)

lemma read_varint_progress:
  assumes "rerror (snd (tc_pb_read_varint r)) = 0"
  shows "rposition r < rposition (snd (tc_pb_read_varint r))"
proof -
  have "rerror r = 0" using assms by (auto simp: tc_pb_read_varint_def split: if_splits)
  let ?r = "r\<lparr>rposition := rposition r + 1\<rparr>"
  have "rposition ?r \<le> rposition (snd (read_varint_loop ?r v 1))" for v
    using read_varint_loop_le [of ?r v 1] \<open>rerror r = 0\<close> by (simp add: reader_le_def)
  then show ?thesis using assms \<open>rerror r = 0\<close>
    by (auto simp: tc_pb_read_varint_def read_varint_loop.simps [of r] Let_def Suc_le_eq split: if_splits)
qed

lemma read_fixed_loop_le:
  "rposition r + n \<le> ts_length (rinput r) \<Longrightarrow> rerror r = 0 \<Longrightarrow>
   snd (read_fixed_loop n i val r) = r\<lparr>rposition := rposition r + n\<rparr>"
  by (induction n arbitrary: i val r) simp_all

lemma read_fixed_le:
  assumes "rposition r \<le> ts_length (rinput r)"
  shows "reader_le r (snd (tc_pb_read_fixed r count))"
  using assms reader_le_position [of r "nat count"]
  by (auto simp: tc_pb_read_fixed_def read_fixed_loop_le not_less)

lemma read_bytes_le:
  assumes "rposition r \<le> ts_length (rinput r)"
  shows "reader_le r (snd (tc_pb_read_bytes r))"
proof -
  obtain n r1 where v: "tc_pb_read_varint r = (n, r1)" by fastforce
  have le: "reader_le r r1" using read_varint_le [of r] v by simp
  have pos: "rposition r1 \<le> ts_length (rinput r1)" using le assms by (simp add: reader_le_def)
  show ?thesis
  proof (cases "rerror r1 \<noteq> 0 \<or> unat n > usub (ts_length (rinput r1)) (rposition r1)")
    case True
    then show ?thesis using reader_le_update(1) [OF le] by (simp add: tc_pb_read_bytes_def v)
  next
    case False
    then have "reader_le r1 (r1\<lparr>rposition := rposition r1 + unat n\<rparr>)"
      by (intro reader_le_position) (use pos in auto)
    with le have "reader_le r (r1\<lparr>rposition := rposition r1 + unat n\<rparr>)" by (rule reader_le_trans)
    then show ?thesis using False by (simp add: tc_pb_read_bytes_def v)
  qed
qed

lemma next_le: "reader_le r (snd (tc_pb_next r))"
proof (cases "tc_pb_reader_done r")
  case True
  then show ?thesis by (simp add: tc_pb_next_def)
next
  case False
  obtain tag r1 where v: "tc_pb_read_varint r = (tag, r1)" by fastforce
  have le: "reader_le r r1" using read_varint_le [of r] v by simp
  show ?thesis
    using reader_le_update(2) [OF le] reader_le_update(1) [OF reader_le_update(2) [OF le]] False
    by (simp add: tc_pb_next_def v Let_def)
qed

lemma next_progress:
  assumes "rerror (snd (tc_pb_next r)) = 0" "\<not> tc_pb_reader_done r"
  shows "rposition r < rposition (snd (tc_pb_next r))"
  using read_varint_progress [of r] assms
  by (auto simp: tc_pb_next_def Let_def split: prod.splits if_splits)

section \<open>Skipping a field returns\<close>

lemma remaining_mono: "reader_le r s \<Longrightarrow> remaining s \<le> remaining r"
  by (simp add: reader_le_def remaining_def diff_le_mono2)

lemma remaining_next:
  assumes "rerror (snd (tc_pb_next r)) = 0" "\<not> tc_pb_reader_done r" "rposition r \<le> ts_length (rinput r)"
  shows "remaining (snd (tc_pb_next r)) < remaining r"
proof -
  have "rposition r < rposition (snd (tc_pb_next r))" by (rule next_progress [OF assms(1,2)])
  moreover have "rposition (snd (tc_pb_next r)) \<le> ts_length (rinput r)"
    "rinput (snd (tc_pb_next r)) = rinput r"
    using next_le [of r] assms(3) by (simp_all add: reader_le_def)
  ultimately show ?thesis by (simp add: remaining_def)
qed

lemma skip_group_error:
  "rerror r \<noteq> 0 \<Longrightarrow> pb_skip_group F r field depth = Some (r\<lparr>rerror := 3\<rparr>)"
  by (simp add: pb_skip_group.simps tc_pb_reader_done_def)

lemma skip_depth_error:
  assumes "rerror r \<noteq> 0" "0 < F"
  shows "\<exists>r'. tc_pb_skip_depth F r field depth = Some r' \<and> reader_le r r' \<and> rerror r' \<noteq> 0"
proof (cases "depth \<le> 64 \<and> rwire r = 3")
  case True
  obtain n where "F = Suc n" using assms(2) by (cases F) auto
  then show ?thesis using True assms(1) by (simp add: tc_pb_skip_depth.simps Let_def skip_group_error)
next
  case False
  then show ?thesis using assms(1)
    by (auto simp: tc_pb_skip_depth.simps Let_def tc_pb_read_varint_def tc_pb_read_fixed_def
        tc_pb_read_bytes_def)
qed

lemma skip_total:
  shows "rposition r \<le> ts_length (rinput r) \<Longrightarrow> 2 * remaining r + 2 \<le> F \<Longrightarrow>
      \<exists>r'. tc_pb_skip_depth F r field depth = Some r' \<and> reader_le r r'"
    and "rposition r \<le> ts_length (rinput r) \<Longrightarrow> 2 * remaining r + 1 \<le> F \<Longrightarrow>
      \<exists>r'. pb_skip_group F r field depth = Some r' \<and> reader_le r r'"
proof (induction F r field depth and F r field depth rule: tc_pb_skip_depth_pb_skip_group.induct)
  case (1 F r field depth)
  show ?case
  proof (cases "rwire r = 3 \<and> depth \<le> 64")
    case True
    then obtain n where n: "F = Suc n" using 1(3) by (cases F) auto
    have "\<exists>r'. pb_skip_group n r field depth = Some r' \<and> reader_le r r'"
      by (rule "1.IH" [OF refl _ _ _ _ _ _ n]) (use True 1(2,3) n in auto)
    then show ?thesis using True n by (simp add: tc_pb_skip_depth.simps Let_def)
  next
    case False
    then show ?thesis using read_varint_le [of r] read_fixed_le [OF 1(2)] read_bytes_le [OF 1(2)]
      by (auto simp: tc_pb_skip_depth.simps Let_def)
  qed
next
  case (2 F r field depth)
  show ?case
  proof (cases "tc_pb_reader_done r")
    case True
    then show ?thesis by (auto simp: pb_skip_group.simps)
  next
    case False
    obtain nxt r1 where nx: "tc_pb_next r = (nxt, r1)" by fastforce
    have le: "reader_le r r1" using next_le [of r] nx by simp
    have pos: "rposition r1 \<le> ts_length (rinput r1)" using le 2(3) by (simp add: reader_le_def)
    have rem: "remaining r > 0" using False 2(3) by (auto simp: remaining_def tc_pb_reader_done_def)
    then obtain n where n: "F = Suc n" using 2(4) by (cases F) auto
    show ?thesis
    proof (cases "rwire r1 = 4")
      case True
      then show ?thesis using False nx le reader_le_update(1) [OF le]
        by (simp add: pb_skip_group.simps)
    next
      case wire: False
      show ?thesis
      proof (cases "rerror r1 = 0")
        case True
        have less: "remaining r1 < remaining r" using remaining_next [of r] nx True False 2(3) by simp
        have "\<exists>r2. tc_pb_skip_depth n r1 nxt (depth + 1) = Some r2 \<and> reader_le r1 r2"
          by (rule "2.IH"(1) [OF _ nx [symmetric] refl _ n]) (use False wire pos less 2(4) n in auto)
        then obtain r2 where r2: "tc_pb_skip_depth n r1 nxt (depth + 1) = Some r2" "reader_le r1 r2"
          by blast
        have "\<exists>r'. pb_skip_group n r2 field depth = Some r' \<and> reader_le r2 r'"
          by (rule "2.IH"(2) [OF _ nx [symmetric] refl _ n r2(1)])
             (use False wire pos less 2(4) n r2(2) remaining_mono [OF r2(2)] in \<open>auto simp: reader_le_def\<close>)
        then show ?thesis using False nx wire n r2 reader_le_trans [OF le reader_le_trans [OF r2(2)]]
          by (auto simp: pb_skip_group.simps [of "Suc n"])
      next
        case e: False
        obtain r2 where r2: "tc_pb_skip_depth n r1 nxt (depth + 1) = Some r2" "reader_le r1 r2"
            "rerror r2 \<noteq> 0"
          using skip_depth_error [OF e, of n] 2(4) n rem by fastforce
        have le2: "reader_le r (r2\<lparr>rerror := 3\<rparr>)"
          by (rule reader_le_update(1) [OF reader_le_trans [OF le r2(2)]])
        have "pb_skip_group F r field depth = Some (r2\<lparr>rerror := 3\<rparr>)"
          using False nx wire n r2 by (simp add: pb_skip_group.simps [of "Suc n"] skip_group_error)
        then show ?thesis using le2 by blast
      qed
    qed
  qed
qed

inductive reader_step :: "pb_reader \<Rightarrow> pb_reader \<Rightarrow> bool" where
  rs_fail: "reader_step r (tc_pb_reader_fail r)"
| rs_varint: "reader_step r (snd (tc_pb_read_varint r))"
| rs_fixed: "reader_step r (snd (tc_pb_read_fixed r count))"
| rs_bytes: "reader_step r (snd (tc_pb_read_bytes r))"
| rs_next: "reader_step r (snd (tc_pb_next r))"
| rs_skip: "tc_pb_skip r field = Some r' \<Longrightarrow> reader_step r r'"

lemma skip_le:
  assumes "rposition r \<le> ts_length (rinput r)"
  shows "\<exists>r'. tc_pb_skip r field = Some r' \<and> reader_le r r'"
  unfolding tc_pb_skip_def
  by (rule skip_total(1) [OF assms]) (simp add: skip_fuel_def remaining_def)

lemma reader_step_le:
  "reader_step r r' \<Longrightarrow> rposition r \<le> ts_length (rinput r) \<Longrightarrow> reader_le r r'"
proof (induction rule: reader_step.induct)
  case (rs_skip r field r')
  then show ?case using skip_le [of r field] by auto
qed (auto simp: tc_pb_reader_fail_def read_varint_le read_fixed_le read_bytes_le next_le)

lemma reader_steps_le:
  "reader_step\<^sup>*\<^sup>* r r' \<Longrightarrow> rposition r \<le> ts_length (rinput r) \<Longrightarrow> reader_le r r'"
proof (induction rule: rtranclp_induct)
  case (step s t)
  then have le: "reader_le r s" by simp
  then have "rposition s \<le> ts_length (rinput s)" using step.prems by (simp add: reader_le_def)
  then show ?case using reader_le_trans [OF le] reader_step_le [OF step.hyps(2)] by simp
qed simp

text \<open>
  Claim C17. However a client drives a reader (varints, fixed-width values, byte strings, tags,
  skips, failures, in any order): the position never leaves the input, the input stays the same,
  and once an error is set it stays set and the position does not move any more; and the next skip
  of any field returns (it does not run for ever) whatever the bytes are.
\<close>

theorem pb_reader_safe:
  assumes "tc_pb_reader True s = Ret r0" and "reader_step\<^sup>*\<^sup>* r0 r" and "reader_step\<^sup>*\<^sup>* r r'"
  shows "rinput r' = s \<and> rposition r \<le> rposition r' \<and> rposition r' \<le> ts_length s
     \<and> (tc_pb_reader_error r \<noteq> 0 \<longrightarrow> tc_pb_reader_error r' \<noteq> 0 \<and> rposition r' = rposition r)
     \<and> (\<forall>field. \<exists>r''. tc_pb_skip r' field = Some r'')"
proof -
  have r0: "rinput r0 = s" "rposition r0 = 0" using assms(1) by (auto simp: tc_pb_reader_def)
  have le0: "reader_le r0 r" by (rule reader_steps_le [OF assms(2)]) (simp add: r0)
  then have r: "rinput r = s" "rposition r \<le> ts_length (rinput r)"
    using r0 by (simp_all add: reader_le_def)
  have le: "reader_le r r'" by (rule reader_steps_le [OF assms(3) r(2)])
  then have r': "rinput r' = s" "rposition r' \<le> ts_length (rinput r')"
    using r by (simp_all add: reader_le_def)
  show ?thesis
    using le r' skip_le [OF r'(2)] by (simp add: reader_le_def tc_pb_reader_error_def) blast
qed

theorem pb_reader_safe_witness:
  "\<exists>r0 r. tc_pb_reader True (ts_of [8]) = Ret r0 \<and> r = snd (tc_pb_next r0)
     \<and> rposition r \<le> 1 \<and> (\<exists>r''. tc_pb_skip r 1 = Some r'')"
proof -
  obtain r0 where r0: "tc_pb_reader True (ts_of [8]) = Ret r0" by (simp add: tc_pb_reader_def)
  have "reader_step\<^sup>*\<^sup>* r0 (snd (tc_pb_next r0))" by (blast intro: rs_next)
  from pb_reader_safe [OF r0 this rtranclp.rtrancl_refl] show ?thesis using r0 by auto
qed

section \<open>Skipping consumes exactly one field\<close>

definition tag_bytes :: "u32 \<Rightarrow> u32 \<Rightarrow> byte list" where
  "tag_bytes field wire = varint_bytes (push_bit 3 (ucast field) OR ucast wire)"

definition field_ok :: "u32 \<Rightarrow> bool" where
  "field_ok field \<longleftrightarrow> field \<noteq> 0 \<and> field \<le> 536870911"

text \<open>
  The grammar of a field's value after its tag, by wire type, at nesting depth \<open>d\<close>; a group is a
  sequence of fields closed by an end tag with its own field number.
\<close>

inductive pb_value :: "nat \<Rightarrow> u32 \<Rightarrow> u32 \<Rightarrow> byte list \<Rightarrow> bool"
  and pb_fields :: "nat \<Rightarrow> u32 \<Rightarrow> byte list \<Rightarrow> bool" where
  value_varint: "d \<le> 64 \<Longrightarrow> pb_value d f 0 (varint_bytes n)"
| value_64: "d \<le> 64 \<Longrightarrow> pb_value d f 1 (fixed_bytes 8 n)"
| value_bytes: "d \<le> 64 \<Longrightarrow> length bs \<le> TC_PB_LIMIT \<Longrightarrow>
    pb_value d f 2 (varint_bytes (word_of_nat (length bs)) @ bs)"
| value_32: "d \<le> 64 \<Longrightarrow> pb_value d f 5 (fixed_bytes 4 n)"
| value_group: "d \<le> 64 \<Longrightarrow> pb_fields d f bs \<Longrightarrow> pb_value d f 3 bs"
| fields_end: "field_ok f \<Longrightarrow> pb_fields d f (tag_bytes f 4)"
| fields_more: "field_ok g \<Longrightarrow> pb_value (d + 1) g w bs \<Longrightarrow> pb_fields d f cs \<Longrightarrow>
    pb_fields d f (tag_bytes g w @ bs @ cs)"

lemma wire_bits:
  assumes "w \<le> 5"
  shows "(ucast ((push_bit 3 (ucast f) OR ucast w) :: u64) :: u32) AND 7 = (w :: u32)"
    and "field_ok f \<Longrightarrow> drop_bit 3 ((push_bit 3 (ucast f) OR ucast w) :: u64) = ucast (f :: u32)"
proof -
  have "unat w \<le> 5" using assms by (simp add: word_le_nat_alt)
  then have w: "take_bit 3 w = w" by (intro take_bit_small) simp
  then have bw: "bit w n \<Longrightarrow> n < 3" for n by (metis bit_take_bit_iff)
  show "(ucast ((push_bit 3 (ucast f) OR ucast w) :: u64) :: u32) AND 7 = w"
    unfolding word_masks by (rule bit_word_eqI) (auto simp: bit_simps dest: bw)
  show "drop_bit 3 ((push_bit 3 (ucast f) OR ucast w) :: u64) = ucast f"
    by (rule bit_word_eqI) (auto simp: bit_simps dest: bw bit_imp_le_length)
qed

lemma varint_bytes_nonempty [simp]: "varint_bytes n \<noteq> []"
  by (simp add: varint_bytes.simps)

lemma next_tag:
  assumes inv: "reader_inv r" "rerror r = 0" and f: "field_ok f" and w: "w \<le> 5"
    and rr: "rest r = tag_bytes f w @ tail"
  shows "tc_pb_next r = (f, (radvance r (length (tag_bytes f w)))\<lparr>rwire := w\<rparr>)"
proof -
  have wf: "ts_wf (rinput r)" using inv by (simp add: reader_inv_def)
  have nd: "\<not> tc_pb_reader_done r"
    using rr inv(2) length_rest [OF wf] by (auto simp: tc_pb_reader_done_def tag_bytes_def)
  have v: "tc_pb_read_varint r = (push_bit 3 (ucast f) OR ucast w, radvance r (length (tag_bytes f w)))"
    unfolding tag_bytes_def by (rule read_varint_bytes [OF inv rr [unfolded tag_bytes_def]])
  have "unat f < 2 ^ 64" using unsigned_less [of f, where ?'a = nat] by simp
  then have u: "unat (ucast f :: u64) = unat f" by (simp add: unsigned_ucast_eq take_bit_nat_eq_self)
  have "ucast (ucast f :: u64) = f" by (rule bit_word_eqI) (auto simp: bit_simps)
  moreover have "(ucast f :: u64) \<noteq> 0"
  proof
    assume "(ucast f :: u64) = 0"
    then have "unat f = 0" using u by simp
    then show False using f by (simp add: field_ok_def unat_eq_zero)
  qed
  moreover have "\<not> (ucast f :: u64) > 536870911"
    using f u by (simp add: field_ok_def word_le_nat_alt word_less_nat_alt)
  ultimately have f': "(ucast f :: u64) \<noteq> 0" "\<not> (ucast f :: u64) > 536870911"
    "ucast (ucast f :: u64) = f" by simp_all
  have "\<not> 5 < w" using w by simp
  then show ?thesis using f' nd v wire_bits [OF w] f inv(2)
    by (simp add: tc_pb_next_def Let_def)
qed


text \<open>After a skip: the reader sits behind the field's bytes, error-free.\<close>

definition skipped :: "pb_reader \<Rightarrow> nat \<Rightarrow> pb_reader option \<Rightarrow> bool" where
  "skipped r n res \<longleftrightarrow> (\<exists>r'. res = Some r' \<and> rinput r' = rinput r \<and> rerror r' = 0
     \<and> rposition r' = rposition r + n)"

lemma skippedI: "skipped r n (Some (radvance r n))" if "rerror r = 0"
  using that by (simp add: skipped_def)

lemma reader_inv_advance:
  assumes "reader_inv r" "rerror r = 0" "rest r = bs @ tail" "rinput r' = rinput r" "rerror r' = 0"
    "rposition r' = rposition r + length bs"
  shows "reader_inv r'" and "rest r' = tail"
proof -
  have wf: "ts_wf (rinput r)" using assms by (simp add: reader_inv_def)
  have "length bs \<le> ts_length (rinput r) - rposition r"
    using length_rest [OF wf] by (simp add: assms(3))
  then show "reader_inv r'" using assms by (auto simp: reader_inv_def)
  have "drop (length bs) (rest r) = drop (rposition r + length bs) (ts_bytes (rinput r))"
    by (simp add: rest_def add.commute)
  then have "drop (rposition r + length bs) (ts_bytes (rinput r)) = tail" by (simp add: assms(3))
  then show "rest r' = tail" by (simp add: rest_def assms(4,6))
qed

lemma pb_value_wire: "pb_value d f w bs \<Longrightarrow> w \<le> 5 \<and> w \<noteq> 4 \<and> d \<le> 64"
  by (cases rule: pb_value.cases) auto

lemma skip_exact:
  shows "pb_value d f w bs \<Longrightarrow> (\<forall>r tail F. reader_inv r \<longrightarrow> rerror r = 0 \<longrightarrow> rwire r = w \<longrightarrow>
      rest r = bs @ tail \<longrightarrow> 2 * length bs + 2 \<le> F \<longrightarrow>
      skipped r (length bs) (tc_pb_skip_depth F r f d))"
    and "pb_fields d f bs \<Longrightarrow> (\<forall>r tail F. reader_inv r \<longrightarrow> rerror r = 0 \<longrightarrow>
      rest r = bs @ tail \<longrightarrow> 2 * length bs + 1 \<le> F \<longrightarrow>
      skipped r (length bs) (pb_skip_group F r f d))"
proof (induction rule: pb_value_pb_fields.inducts)
  case (value_varint d f n)
  then show ?case using read_varint_bytes skippedI
    by (fastforce simp: tc_pb_skip_depth.simps Let_def)
next
  case (value_64 d f n)
  then show ?case using read_fixed_bytes [where count = 8] skippedI
    by (fastforce simp: tc_pb_skip_depth.simps Let_def)
next
  case (value_bytes d bs f)
  show ?case
  proof (intro allI impI)
    fix r tail F
    assume r: "reader_inv r" "rerror r = 0" "rwire r = 2"
      "rest r = (varint_bytes (word_of_nat (length bs)) @ bs) @ tail"
    then obtain s where "tc_pb_read_bytes r
        = (s, radvance r (length (varint_bytes (word_of_nat (length bs))) + length bs))"
      using read_bytes_bytes [OF r(1,2) value_bytes(2)] by auto
    then show "skipped r (length (varint_bytes (word_of_nat (length bs)) @ bs)) (tc_pb_skip_depth F r f d)"
      using r value_bytes(1) by (simp add: tc_pb_skip_depth.simps Let_def skippedI)
  qed
next
  case (value_32 d f n)
  then show ?case using read_fixed_bytes [where count = 4] skippedI
    by (fastforce simp: tc_pb_skip_depth.simps Let_def)
next
  case (value_group d f bs)
  show ?case
  proof (intro allI impI)
    fix r tail F
    assume r: "reader_inv r" "rerror r = 0" "rwire r = 3" "rest r = bs @ tail" "2 * length bs + 2 \<le> F"
    then obtain n where n: "F = Suc n" by (cases F) auto
    then have "skipped r (length bs) (pb_skip_group n r f d)"
      using value_group(3) r by auto
    then show "skipped r (length bs) (tc_pb_skip_depth F r f d)"
      using r value_group(1) n by (simp add: tc_pb_skip_depth.simps Let_def)
  qed
next
  case (fields_end f d)
  show ?case
  proof (intro allI impI)
    fix r tail F
    assume r: "reader_inv r" "rerror r = 0" "rest r = tag_bytes f 4 @ tail"
    have nd: "\<not> tc_pb_reader_done r"
      using r length_rest [of r] by (auto simp: tc_pb_reader_done_def tag_bytes_def reader_inv_def)
    show "skipped r (length (tag_bytes f 4)) (pb_skip_group F r f d)"
      using next_tag [OF r(1,2) fields_end _ r(3)] nd r(2)
      by (simp add: pb_skip_group.simps skipped_def)
  qed
next
  case (fields_more g d w bs f cs)
  show ?case
  proof (intro allI impI)
    fix r tail F
    assume r: "reader_inv r" "rerror r = 0" "rest r = (tag_bytes g w @ bs @ cs) @ tail"
      "2 * length (tag_bytes g w @ bs @ cs) + 1 \<le> F"
    let ?t = "tag_bytes g w"
    have w: "w \<le> 5" "w \<noteq> 4" using pb_value_wire [OF fields_more(2)] by auto
    have rt: "rest r = ?t @ (bs @ cs @ tail)" using r(3) by simp
    have nd: "\<not> tc_pb_reader_done r"
      using r length_rest [of r] by (auto simp: tc_pb_reader_done_def tag_bytes_def reader_inv_def)
    have t: "length ?t > 0" by (simp add: tag_bytes_def)
    obtain n where n: "F = Suc n" using r(4) by (cases F) auto
    have "length (?t @ bs @ cs) = length ?t + length bs + length cs" by simp
    then have F: "2 * length bs + 2 \<le> n" "2 * length cs + 1 \<le> n" using r(4) n t by linarith+
    define r1 where "r1 = (radvance r (length ?t))\<lparr>rwire := w\<rparr>"
    have nx: "tc_pb_next r = (g, r1)"
      unfolding r1_def by (rule next_tag [OF r(1,2) fields_more(1) w(1) rt])
    have r1: "rinput r1 = rinput r" "rerror r1 = 0" "rposition r1 = rposition r + length ?t"
      "rwire r1 = w"
      using r(2) by (simp_all add: r1_def)
    note i1 = reader_inv_advance [OF r(1,2) rt r1(1-3)]
    have "skipped r1 (length bs) (tc_pb_skip_depth n r1 g (d + 1))"
      using fields_more.IH(1) i1 r1 F(1) by blast
    then obtain r2 where r2: "tc_pb_skip_depth n r1 g (d + 1) = Some r2"
      "rinput r2 = rinput r1" "rerror r2 = 0" "rposition r2 = rposition r1 + length bs"
      by (auto simp: skipped_def)
    note i2 = reader_inv_advance [OF i1(1) r1(2) i1(2) r2(2-4)]
    have "skipped r2 (length cs) (pb_skip_group n r2 f d)"
      using fields_more.IH(2) i2 r2 F(2) by blast
    then show "skipped r (length (?t @ bs @ cs)) (pb_skip_group F r f d)"
      using nd nx w(2) r1 r2 n by (auto simp: pb_skip_group.simps [of "Suc n"] skipped_def)
  qed
qed

text \<open>
  Claim C16. Skipping an unknown field consumes exactly that field: if the bytes at the reader start
  with a well-formed value of the tag's wire type (a varint, 8 or 4 bytes, a length-prefixed string, or
  a group of fields nested at most 64 deep and closed by the matching end tag), then \<open>tc_pb_skip\<close>
  returns without an error and what is left to read is what follows the value.
\<close>

theorem pb_skip_exact:
  assumes "reader_inv r" and "tc_pb_reader_error r = 0"
    and "pb_value 0 field (tc_pb_wire r) bs" and "rest r = bs @ tail"
  shows "\<exists>r'. tc_pb_skip r field = Some r' \<and> tc_pb_reader_error r' = 0 \<and> reader_inv r' \<and> rest r' = tail"
proof -
  have e: "rerror r = 0" and wf: "ts_wf (rinput r)"
    using assms(1,2) by (simp_all add: tc_pb_reader_error_def reader_inv_def)
  have "length bs \<le> remaining r"
    using length_rest [OF wf] by (simp add: assms(4) remaining_def)
  then have F: "2 * length bs + 2 \<le> skip_fuel r" by (simp add: skip_fuel_def remaining_def)
  have "skipped r (length bs) (tc_pb_skip r field)"
    using skip_exact(1) [OF assms(3)] assms(1,4) e F by (simp add: tc_pb_skip_def tc_pb_wire_def)
  then obtain r' where r': "tc_pb_skip r field = Some r'" "rinput r' = rinput r" "rerror r' = 0"
      "rposition r' = rposition r + length bs"
    by (auto simp: skipped_def)
  show ?thesis
    using r'(1,3) reader_inv_advance [OF assms(1) e assms(4) r'(2-4)]
    by (simp add: tc_pb_reader_error_def)
qed

theorem pb_skip_exact_witness:
  "\<exists>r'. tc_pb_skip \<lparr>rinput = ts_of (tag_bytes 7 4 @ [9]), rposition = 0, rwire = 3, rerror = 0\<rparr> 7 = Some r'
     \<and> tc_pb_reader_error r' = 0 \<and> reader_inv r' \<and> rest r' = [9]"
proof (rule pb_skip_exact)
  let ?r = "\<lparr>rinput = ts_of (tag_bytes 7 4 @ [9]), rposition = 0, rwire = 3, rerror = 0\<rparr>"
  have "length (tag_bytes 7 4) \<le> 10" by (simp add: tag_bytes_def length_varint_10 del: ucast_eq)
  then show "reader_inv ?r" by (simp add: reader_inv_def TC_PB_LIMIT_def)
  have "pb_value 0 7 3 (tag_bytes 7 4)"
    by (rule value_group [OF _ fields_end]) (simp_all add: field_ok_def)
  then show "pb_value 0 7 (tc_pb_wire ?r) (tag_bytes 7 4)" by (simp add: tc_pb_wire_def)
  show "rest ?r = tag_bytes 7 4 @ [9]" by (simp add: rest_def)
  show "tc_pb_reader_error ?r = 0" by (simp add: tc_pb_reader_error_def)
qed

end
