(* ===== verification/Syntax.thy ===== *)
theory Syntax
  imports Prelude
begin

text \<open>
  The data of the compiler, from \<open>compiler/tiny.h\<close>: source locations, tokens, types, syntax nodes and
  the compilation context, with \<open>tc_error\<close> and \<open>node\<close> of \<open>compiler/util.c\<close>.

  C strings are HOL strings (their bytes up to the terminator). A \<open>Type *\<close> is the index of the type
  in the context's type table, in the order of allocation: the list \<open>c->types\<close>, which grows at its
  head, is that table from the last index down. A \<open>Node *\<close> that owns its target is the node itself,
  a chain of \<open>next\<close> links is a list; the links that point elsewhere (\<open>owner\<close>, \<open>decl\<close>) hold the
  target's \<open>id\<close>. Arena allocation ends the process when memory runs out, so it has no failing
  branch here.
\<close>

section \<open>Locations and tokens\<close>

record Loc =
  loc_file :: string
  loc_line :: nat
  loc_col :: nat

datatype TokenKind = TK_EOF | TK_ID | TK_INT | TK_FLOAT | TK_STRING | TK_CHAR | TK_OP

record Token =
  tok_kind :: TokenKind
  tok_text :: string
  tok_loc :: Loc

section \<open>Types\<close>

datatype TypeKind =
    TY_VOID | TY_BOOL | TY_I8 | TY_U8 | TY_I16 | TY_U16 | TY_I32 | TY_U32 | TY_I64 | TY_U64
  | TY_FLOAT | TY_DOUBLE | TY_CHAR | TY_STRING | TY_NULL | TY_PTR | TY_ARRAY | TY_SLICE
  | TY_TUPLE | TY_FUNC | TY_CLOSURE | TY_NAMED | TY_ENUM | TY_AUTO

type_synonym tref = nat

record Type =
  ty_kind :: TypeKind
  ty_name :: string
  ty_cname :: string
  ty_base :: "tref option"
  ty_items :: "tref list"
  ty_count :: nat
  ty_id :: int
  ty_qualified :: bool
  ty_callconv :: int
  ty_decl :: "int option"
  ty_alias :: "tref option"

section \<open>Nodes\<close>

datatype NodeKind =
    N_PROGRAM | N_FUNCTION | N_CLASS | N_INTERFACE | N_EXTENSION | N_PROPERTY | N_BLOCK | N_VAR
  | N_EXPR | N_RETURN | N_IF | N_WHILE | N_FOR | N_RANGE | N_BREAK | N_CONTINUE | N_DEFER
  | N_DELETE | N_INT | N_FLOAT | N_STRING | N_CHAR | N_BOOL | N_NULL | N_ID | N_BINARY | N_UNARY
  | N_CALL | N_INDEX | N_SLICE | N_MEMBER | N_INIT | N_TUPLE | N_NEW | N_CAST | N_SIZEOF
  | N_LAMBDA | N_AWAIT | N_SPAWN | N_MODULE | N_IMPORT | N_ENUM | N_SWITCH | N_CASE

datatype NodeFlag =
    NF_EXTERN | NF_STATIC | NF_ASYNC | NF_TEST | NF_CONST | NF_POST | NF_CONSTRUCTOR
  | NF_DESTRUCTOR | NF_LVALUE | NF_CHECKED | NF_RETURNS | NF_OWNED | NF_STDCALL

text \<open>The flag bits of a node are the set of the flags whose bit is on.\<close>

record NodeInfo =
  n_kind :: NodeKind
  n_loc :: Loc
  n_name :: "string option"
  n_text :: "string option"
  n_cname :: "string option"
  n_label :: "string option"
  n_type :: "tref option"
  n_decl_type :: "tref option"
  n_owner :: "int option"
  n_flags :: "NodeFlag set"
  n_id :: int

datatype Node =
  Node (info: NodeInfo) (n_a: "Node option") (n_b: "Node option") (n_c: "Node option")
    (n_body: "Node list") (n_params: "Node list") (n_args: "Node list")

section \<open>Context\<close>

record Context =
  tokens :: "Token list"
  tokcap :: nat
  pos :: nat
  types :: "Type list"
  builtin :: "TypeKind \<Rightarrow> tref option"
  program :: "Node option"
  next_id :: int
  errors :: int
  depth :: int

definition ntokens :: "Context \<Rightarrow> nat" where
  "ntokens c = length (tokens c)"

definition empty_context :: Context where
  "empty_context = \<lparr>tokens = [], tokcap = 0, pos = 0, types = [], builtin = (\<lambda>_. None),
     program = None, next_id = 0, errors = 0, depth = 0\<rparr>"

text \<open>
  A compiler routine returns, or leaves by \<open>longjmp\<close> from \<open>tc_error\<close> with a location and a message,
  or (in the model) runs out of fuel.
\<close>

datatype 'a res = Done 'a Context | Fail Loc string Context | Fuel

definition tc_error :: "Context \<Rightarrow> Loc \<Rightarrow> string \<Rightarrow> 'a res" where
  "tc_error c l message = Fail l message (c\<lparr>errors := errors c + 1\<rparr>)"

definition node :: "NodeKind \<Rightarrow> Loc \<Rightarrow> Context \<Rightarrow> Node \<times> Context" where
  "node k l c =
     (Node \<lparr>n_kind = k, n_loc = l, n_name = None, n_text = None, n_cname = None, n_label = None,
        n_type = None, n_decl_type = None, n_owner = None, n_flags = {}, n_id = next_id c + 1\<rparr>
        None None None [] [] [],
      c\<lparr>next_id := next_id c + 1\<rparr>)"

end
