(* ===== verification/Types.thy ===== *)
theory Types
  imports Syntax
begin

text \<open>
  The type table of \<open>compiler/types.c\<close>: primitive types, named types, derived types, tuples and
  generic instances, each looked up before it is made, and structural equality. A type that refers to
  itself through its base or items would make the comparison run for ever; \<open>None\<close> is that outcome.
  What is proved: the operations only append to the table and keep every reference pointing to an
  earlier type, so that comparison ends; comparison decides equality of the types' structure; and
  asking twice for a type gives the same type.
\<close>

definition prim_kinds :: "TypeKind list" where
  "prim_kinds = [TY_VOID, TY_BOOL, TY_I8, TY_U8, TY_I16, TY_U16, TY_I32, TY_U32, TY_I64, TY_U64,
     TY_FLOAT, TY_DOUBLE, TY_CHAR, TY_STRING, TY_NULL]"

fun prim_name :: "TypeKind \<Rightarrow> string" where
  "prim_name TY_VOID = ''void''" | "prim_name TY_BOOL = ''bool''" | "prim_name TY_I8 = ''i8''"
| "prim_name TY_U8 = ''u8''" | "prim_name TY_I16 = ''i16''" | "prim_name TY_U16 = ''u16''"
| "prim_name TY_I32 = ''i32''" | "prim_name TY_U32 = ''u32''" | "prim_name TY_I64 = ''i64''"
| "prim_name TY_U64 = ''u64''" | "prim_name TY_FLOAT = ''float''" | "prim_name TY_DOUBLE = ''double''"
| "prim_name TY_CHAR = ''char''" | "prim_name TY_STRING = ''string''" | "prim_name TY_NULL = ''null''"
| "prim_name _ = ''var''"

fun prim_cname :: "TypeKind \<Rightarrow> string" where
  "prim_cname TY_VOID = ''void''" | "prim_cname TY_BOOL = ''bool''" | "prim_cname TY_I8 = ''int8_t''"
| "prim_cname TY_U8 = ''uint8_t''" | "prim_cname TY_I16 = ''int16_t''" | "prim_cname TY_U16 = ''uint16_t''"
| "prim_cname TY_I32 = ''int32_t''" | "prim_cname TY_U32 = ''uint32_t''" | "prim_cname TY_I64 = ''int64_t''"
| "prim_cname TY_U64 = ''uint64_t''" | "prim_cname TY_FLOAT = ''float''" | "prim_cname TY_DOUBLE = ''double''"
| "prim_cname TY_CHAR = ''char''" | "prim_cname TY_STRING = ''TinyString''" | "prim_cname TY_NULL = ''void *''"
| "prim_cname _ = ''void''"

definition blank_type :: "TypeKind \<Rightarrow> int \<Rightarrow> Type" where
  "blank_type k i = \<lparr>ty_kind = k, ty_name = [], ty_cname = [], ty_base = None, ty_items = [],
     ty_count = 0, ty_id = i, ty_qualified = False, ty_callconv = 0, ty_decl = None, ty_alias = None\<rparr>"

text \<open>
  \<open>add_type\<close> allocates the next type; its callers fill in the fields, so it takes the filling as a
  function of the fresh record.
\<close>

definition add_type :: "Context \<Rightarrow> TypeKind \<Rightarrow> (Type \<Rightarrow> Type) \<Rightarrow> tref \<times> Context" where
  "add_type c k fill =
     (length (types c),
      c\<lparr>next_id := next_id c + 1, types := types c @ [fill (blank_type k (next_id c + 1))]\<rparr>)"

definition set_builtin :: "Context \<Rightarrow> TypeKind \<Rightarrow> tref \<Rightarrow> Context" where
  "set_builtin c k t = c\<lparr>builtin := (builtin c)(k := Some t)\<rparr>"

definition type_primitive :: "Context \<Rightarrow> TypeKind \<Rightarrow> tref \<times> Context" where
  "type_primitive c k =
     (case builtin c k of
        Some t \<Rightarrow> (t, c)
      | None \<Rightarrow>
          (let (t, c1) = add_type c k (\<lambda>t. t\<lparr>ty_name := prim_name k, ty_cname := prim_cname k\<rparr>)
           in (t, set_builtin c1 k t)))"

text \<open>The table's list runs from the newest type to the oldest.\<close>

definition type_refs :: "Context \<Rightarrow> tref list" where
  "type_refs c = rev [0..<length (types c)]"

definition find_type :: "(Type \<Rightarrow> bool) \<Rightarrow> Context \<Rightarrow> tref option" where
  "find_type p c = find (\<lambda>t. p (types c ! t)) (type_refs c)"

definition type_aliases :: "(string \<times> TypeKind) list" where
  "type_aliases = [(''int'', TY_I32), (''uint'', TY_U32), (''byte'', TY_U8), (''short'', TY_I16),
     (''long'', TY_I64), (''ulong'', TY_U64), (''Error'', TY_I32), (''StringView'', TY_STRING)]"

definition type_size_t :: "Context \<Rightarrow> tref \<times> Context" where
  "type_size_t c =
     (case find_type (\<lambda>t. ty_kind t = TY_U64 \<and> ty_name t = ''size_t'') c of
        Some t \<Rightarrow> (t, c)
      | None \<Rightarrow>
          (let (base, c1) = type_primitive c TY_U64
           in (length (types c1),
               c1\<lparr>types := types c1 @ [(types c1 ! base)\<lparr>ty_name := ''size_t'', ty_cname := ''size_t''\<rparr>]\<rparr>)))"

definition type_named :: "Context \<Rightarrow> string \<Rightarrow> tref \<times> Context" where
  "type_named c name =
     (case find (\<lambda>k. prim_name k = name) prim_kinds of
        Some k \<Rightarrow> type_primitive c k
      | None \<Rightarrow>
          if name = ''size_t'' then type_size_t c
          else case map_of type_aliases name of
                 Some k \<Rightarrow> type_primitive c k
               | None \<Rightarrow>
                   if name = ''var'' then type_primitive c TY_AUTO
                   else case find_type (\<lambda>t. (ty_kind t = TY_NAMED \<or> ty_kind t = TY_ENUM)
                                            \<and> ty_items t = [] \<and> ty_name t = name) c of
                          Some t \<Rightarrow> (t, c)
                        | None \<Rightarrow> add_type c TY_NAMED
                                    (\<lambda>t. t\<lparr>ty_name := name, ty_cname := ''tc_'' @ name\<rparr>))"

definition type_name :: "Context \<Rightarrow> tref \<Rightarrow> string" where
  "type_name c t = ty_name (types c ! t)"

definition type_derive :: "Context \<Rightarrow> TypeKind \<Rightarrow> tref \<Rightarrow> nat \<Rightarrow> tref \<times> Context" where
  "type_derive c k base count =
     (case find_type (\<lambda>t. ty_kind t = k \<and> ty_base t = Some base \<and> ty_count t = count) c of
        Some t \<Rightarrow> (t, c)
      | None \<Rightarrow> add_type c k
          (\<lambda>t. if k = TY_PTR
               then t\<lparr>ty_base := Some base, ty_count := count, ty_name := type_name c base @ ''*'',
                      ty_cname := ty_cname (types c ! base) @ '' *''\<rparr>
               else t\<lparr>ty_base := Some base, ty_count := count,
                      ty_name := (if k = TY_ARRAY then type_name c base @ ''['' @ show_nat count @ '']''
                                  else ''Slice<'' @ type_name c base @ ''>''),
                      ty_cname := (if k = TY_ARRAY then ''tc_array_'' else ''tc_slice_'')
                                  @ show_int (ty_id t)\<rparr>))"

text \<open>
  \<open>type_equal\<close>, on references and on types. \<open>None\<close> means that the fuel ran out; the callers give
  one more than the number of pairs of types, so that running out means that some pair recurs and
  the comparison of the source does not return.
\<close>

function (sequential) type_equal :: "nat \<Rightarrow> Type list \<Rightarrow> tref option \<Rightarrow> tref option \<Rightarrow> bool option"
  and type_equal_val :: "nat \<Rightarrow> Type list \<Rightarrow> Type \<Rightarrow> Type \<Rightarrow> bool option"
  and items_equal :: "nat \<Rightarrow> Type list \<Rightarrow> tref list \<Rightarrow> tref list \<Rightarrow> bool option" where
  "type_equal n ts a b =
     (if a = b then Some True
      else case (a, b) of
             (Some i, Some j) \<Rightarrow> type_equal_val n ts (ts ! i) (ts ! j)
           | _ \<Rightarrow> Some False)"
| "type_equal_val 0 ts a b = None"
| "type_equal_val (Suc n) ts a b =
     (if ty_kind a \<noteq> ty_kind b \<or> ty_qualified a \<noteq> ty_qualified b then Some False
      else if ty_kind a \<in> {TY_PTR, TY_ARRAY, TY_SLICE} then
        (if ty_count a = ty_count b then type_equal n ts (ty_base a) (ty_base b) else Some False)
      else if ty_kind a = TY_ENUM then Some (ty_name a = ty_name b)
      else if ty_kind a \<in> {TY_TUPLE, TY_FUNC, TY_CLOSURE} then
        (if ty_callconv a \<noteq> ty_callconv b then Some False
         else case type_equal n ts (ty_base a) (ty_base b) of
                None \<Rightarrow> None
              | Some False \<Rightarrow> Some False
              | Some True \<Rightarrow> items_equal n ts (ty_items a) (ty_items b))
      else if ty_kind a = TY_NAMED then
        (if ty_name a \<noteq> ty_name b then Some False
         else items_equal n ts (ty_items a) (ty_items b))
      else Some True)"
| "items_equal n ts (x # xs) (y # ys) =
     (case type_equal n ts (Some x) (Some y) of
        None \<Rightarrow> None
      | Some False \<Rightarrow> Some False
      | Some True \<Rightarrow> items_equal n ts xs ys)"
| "items_equal n ts xs ys = Some (xs = [] \<and> ys = [])"
  by pat_completeness auto
termination
  by (relation "measures [\<lambda>x. case x of Inl (n, ts, a, b) \<Rightarrow> n
                            | Inr (Inl (n, ts, a, b)) \<Rightarrow> n | Inr (Inr (n, ts, xs, ys)) \<Rightarrow> n,
                          \<lambda>x. case x of Inl (n, ts, a, b) \<Rightarrow> 1
                            | Inr (Inl (n, ts, a, b)) \<Rightarrow> 0 | Inr (Inr (n, ts, xs, ys)) \<Rightarrow> 2 + length xs]")
     auto

declare type_equal.simps [simp del] type_equal_val.simps(2) [simp del]

definition equal_fuel :: "Context \<Rightarrow> nat" where
  "equal_fuel c = (length (types c) + 1) * (length (types c) + 1) + 1"

fun find_opt :: "('a \<Rightarrow> bool option) \<Rightarrow> 'a list \<Rightarrow> 'a option option" where
  "find_opt p [] = Some None"
| "find_opt p (x # xs) =
     (case p x of None \<Rightarrow> None | Some True \<Rightarrow> Some (Some x) | Some False \<Rightarrow> find_opt p xs)"

definition type_tuple :: "Context \<Rightarrow> tref list \<Rightarrow> (tref \<times> Context) option" where
  "type_tuple c items =
     (let probe = (blank_type TY_TUPLE 0)\<lparr>ty_items := items\<rparr>
      in case find_opt (\<lambda>t. type_equal_val (equal_fuel c) (types c) (types c ! t) probe) (type_refs c) of
           None \<Rightarrow> None
         | Some (Some t) \<Rightarrow> Some (t, c)
         | Some None \<Rightarrow> Some (add_type c TY_TUPLE
             (\<lambda>t. t\<lparr>ty_items := items, ty_cname := ''tc_tuple_'' @ show_int (ty_id t),
                    ty_name := ''tc_tuple_'' @ show_int (ty_id t)\<rparr>)))"

definition type_generic :: "Context \<Rightarrow> string \<Rightarrow> tref list \<Rightarrow> (tref \<times> Context) option" where
  "type_generic c name items =
     (case find_opt
             (\<lambda>t. let ty = types c ! t
                  in if ty_kind ty \<noteq> TY_NAMED \<or> ty_items ty = [] \<or> ty_name ty \<noteq> name then Some False
                     else items_equal (equal_fuel c) (types c) (ty_items ty) items)
             (type_refs c) of
        None \<Rightarrow> None
      | Some (Some t) \<Rightarrow> Some (t, c)
      | Some None \<Rightarrow> Some (add_type c TY_NAMED
          (\<lambda>t. t\<lparr>ty_name := name, ty_items := items,
                 ty_cname := ''tc_'' @ name @ ''_'' @ show_int (ty_id t)\<rparr>)))"

definition type_const :: "Context \<Rightarrow> tref \<Rightarrow> tref \<times> Context" where
  "type_const c b =
     (let base = types c ! b
      in if ty_qualified base then (b, c)
         else case find_type (\<lambda>t. ty_qualified t \<and> ty_kind t = ty_kind base \<and> ty_base t = ty_base base
                                  \<and> ty_name t = ''const '' @ ty_name base) c of
                Some t \<Rightarrow> (t, c)
              | None \<Rightarrow> add_type c (ty_kind base)
                  (\<lambda>t. base\<lparr>ty_id := ty_id t, ty_qualified := True,
                            ty_name := ''const '' @ ty_name base,
                            ty_cname := ''const '' @ ty_cname base\<rparr>))"

definition type_numeric :: "Context \<Rightarrow> tref option \<Rightarrow> bool" where
  "type_numeric c t =
     (case t of None \<Rightarrow> False
      | Some i \<Rightarrow> ty_kind (types c ! i) \<in> {TY_ENUM, TY_BOOL, TY_I8, TY_U8, TY_I16, TY_U16, TY_I32,
          TY_U32, TY_I64, TY_U64, TY_FLOAT, TY_DOUBLE, TY_CHAR})"

definition type_integer :: "Context \<Rightarrow> tref option \<Rightarrow> bool" where
  "type_integer c t \<longleftrightarrow> type_numeric c t
     \<and> (case t of None \<Rightarrow> False | Some i \<Rightarrow> ty_kind (types c ! i) \<notin> {TY_FLOAT, TY_DOUBLE})"

section \<open>Well-formed type tables\<close>

definition type_links :: "Type \<Rightarrow> tref set" where
  "type_links t = set_option (ty_base t) \<union> set (ty_items t)"

definition table_ok :: "Type list \<Rightarrow> bool" where
  "table_ok ts \<longleftrightarrow> (\<forall>i<length ts. \<forall>r\<in>type_links (ts ! i). r < i)"

definition types_ok :: "Context \<Rightarrow> bool" where
  "types_ok c \<longleftrightarrow> table_ok (types c)
     \<and> (\<forall>k i. builtin c k = Some i \<longrightarrow> i < length (types c))"

definition builtin_ok :: "Context \<Rightarrow> bool" where
  "builtin_ok c \<longleftrightarrow> (\<forall>k i. builtin c k = Some i \<longrightarrow> ty_kind (types c ! i) = k)"

definition extends :: "Context \<Rightarrow> Context \<Rightarrow> bool" where
  "extends c c' \<longleftrightarrow> (\<exists>new. types c' = types c @ new)"

lemma extends_refl [simp, intro]: "extends c c"
  by (simp add: extends_def)

lemma extends_trans: "extends c d \<Longrightarrow> extends d e \<Longrightarrow> extends c e"
  by (auto simp: extends_def)

lemma extends_nth: "extends c c' \<Longrightarrow> i < length (types c) \<Longrightarrow> i < length (types c') \<and> types c' ! i = types c ! i"
  by (auto simp: extends_def nth_append)

lemma table_ok_append:
  "table_ok ts \<Longrightarrow> (\<forall>r\<in>type_links t. r < length ts) \<Longrightarrow> table_ok (ts @ [t])"
  by (auto simp: table_ok_def nth_append less_Suc_eq)

lemma links_below:
  "types_ok c \<Longrightarrow> i < length (types c) \<Longrightarrow> \<forall>r\<in>type_links (types c ! i). r < length (types c)"
  by (fastforce simp: types_ok_def table_ok_def)

text \<open>What an operation that returns a type guarantees.\<close>

definition type_op_ok :: "Context \<Rightarrow> tref \<times> Context \<Rightarrow> bool" where
  "type_op_ok c r \<longleftrightarrow> types_ok (snd r) \<and> extends c (snd r) \<and> fst r < length (types (snd r))"

lemma type_op_same: "types_ok c \<Longrightarrow> t < length (types c) \<Longrightarrow> type_op_ok c (t, c)"
  by (simp add: type_op_ok_def)

lemma types_ok_push:
  assumes ok: "types_ok c" and t: "\<forall>r\<in>type_links t. r < length (types c)"
    and c': "types c' = types c @ [t]" "builtin c' = builtin c"
  shows "types_ok c' \<and> extends c c' \<and> length (types c) < length (types c')"
proof -
  have "i < length (types c')" if "builtin c' k = Some i" for k i
  proof -
    have "i < length (types c)" using ok that c'(2) by (auto simp: types_ok_def)
    then show ?thesis by (simp add: c'(1))
  qed
  moreover have "table_ok (types c')" unfolding c'(1)
    by (rule table_ok_append) (use ok t in \<open>simp_all add: types_ok_def\<close>)
  ultimately show ?thesis by (auto simp: types_ok_def extends_def c'(1))
qed

lemma add_type_ok:
  assumes "types_ok c" "\<And>t. type_links t = {} \<Longrightarrow> \<forall>r\<in>type_links (fill t). r < length (types c)"
  shows "type_op_ok c (add_type c k fill)"
proof -
  have "type_links (blank_type k i) = {}" for i by (simp add: type_links_def blank_type_def)
  from types_ok_push [OF assms(1) assms(2) [OF this]] show ?thesis
    by (simp add: type_op_ok_def add_type_def)
qed

lemma add_type_ref [simp]: "fst (add_type c k fill) = length (types c)"
  by (simp add: add_type_def)

lemma find_type_Some: "find_type p c = Some t \<Longrightarrow> t < length (types c) \<and> p (types c ! t)"
  by (auto simp: find_type_def type_refs_def find_Some_iff)
     (metis diff_Suc_less gr_implies_not_zero length_rev length_upt nth_mem not_gr_zero set_rev set_upt
        atLeastLessThan_iff diff_zero)+

lemma type_primitive_ok: "types_ok c \<Longrightarrow> type_op_ok c (type_primitive c k)"
proof (cases "builtin c k")
  case None
  assume ok: "types_ok c"
  let ?fill = "\<lambda>t. t\<lparr>ty_name := prim_name k, ty_cname := prim_cname k\<rparr>"
  have "type_op_ok c (add_type c k ?fill)" by (rule add_type_ok [OF ok]) (simp add: type_links_def)
  moreover obtain c1 where c1: "add_type c k ?fill = (length (types c), c1)"
    "types c1 = types c @ [?fill (blank_type k (next_id c + 1))]"
    by (simp add: add_type_def)
  ultimately show ?thesis using None
    by (auto simp: type_primitive_def type_op_ok_def types_ok_def set_builtin_def extends_def blank_type_def)
next
  case (Some t)
  assume "types_ok c"
  then show ?thesis using Some by (auto simp: type_primitive_def types_ok_def intro!: type_op_same)
qed

lemma type_links_copy: "type_links (t\<lparr>ty_name := x, ty_cname := y\<rparr>) = type_links t"
  by (simp add: type_links_def)

lemma type_size_t_ok:
  assumes ok: "types_ok c"
  shows "type_op_ok c (type_size_t c)"
proof (cases "find_type (\<lambda>t. ty_kind t = TY_U64 \<and> ty_name t = ''size_t'') c")
  case None
  obtain b c1 where p: "type_primitive c TY_U64 = (b, c1)" by fastforce
  then have p1: "types_ok c1" "extends c c1" "b < length (types c1)"
    using type_primitive_ok [OF ok, of TY_U64] by (simp_all add: type_op_ok_def)
  have "\<forall>r\<in>type_links (types c1 ! b). r < length (types c1)"
    by (rule links_below [OF p1(1,3)])
  then have "\<forall>r\<in>type_links ((types c1 ! b)\<lparr>ty_name := ''size_t'', ty_cname := ''size_t''\<rparr>). r < length (types c1)"
    by (simp add: type_links_copy)
  from types_ok_push [OF p1(1) this] show ?thesis using p1(2) None p
    by (auto simp: type_size_t_def type_op_ok_def intro: extends_trans)
next
  case (Some t)
  then show ?thesis using ok by (auto simp: type_size_t_def dest: find_type_Some intro: type_op_same)
qed

lemma type_named_ok:
  assumes ok: "types_ok c"
  shows "type_op_ok c (type_named c name)"
proof -
  have "type_op_ok c (add_type c TY_NAMED (\<lambda>t. t\<lparr>ty_name := name, ty_cname := ''tc_'' @ name\<rparr>))"
    by (rule add_type_ok [OF ok]) (simp add: type_links_def)
  then show ?thesis
    using type_primitive_ok [OF ok] type_size_t_ok [OF ok]
    by (auto simp: type_named_def split: option.splits dest!: find_type_Some intro: type_op_same [OF ok])
qed

lemma type_derive_ok:
  assumes ok: "types_ok c" and b: "b < length (types c)"
  shows "type_op_ok c (type_derive c k b count)"
proof (cases "find_type (\<lambda>t. ty_kind t = k \<and> ty_base t = Some b \<and> ty_count t = count) c")
  case None
  show ?thesis unfolding type_derive_def None option.case
    by (rule add_type_ok [OF ok]) (use b in \<open>auto simp: type_links_def\<close>)
next
  case (Some t)
  then show ?thesis using ok by (auto simp: type_derive_def dest: find_type_Some intro: type_op_same)
qed

lemma type_const_ok:
  assumes ok: "types_ok c" and b: "b < length (types c)"
  shows "type_op_ok c (type_const c b)"
proof -
  let ?base = "types c ! b"
  have "\<forall>r\<in>type_links ?base. r < length (types c)"
    by (rule links_below [OF ok b])
  then have "type_op_ok c (add_type c (ty_kind ?base)
      (\<lambda>t. ?base\<lparr>ty_id := ty_id t, ty_qualified := True, ty_name := ''const '' @ ty_name ?base,
                 ty_cname := ''const '' @ ty_cname ?base\<rparr>))"
    by (intro add_type_ok [OF ok]) (simp add: type_links_def)
  then show ?thesis using b
    by (auto simp: type_const_def Let_def split: option.splits dest!: find_type_Some intro: type_op_same [OF ok])
qed

section \<open>Structural equality\<close>

text \<open>
  The structure that \<open>type_equal\<close> compares: by kind, the element count, the name, the calling
  convention, and the structures of the base and of the items.
\<close>

datatype tshape = Shape TypeKind bool nat string int "tshape option" "tshape list" | Loose

definition shape_with :: "(tref \<Rightarrow> tshape) \<Rightarrow> Type \<Rightarrow> tshape" where
  "shape_with f t =
     (if ty_kind t \<in> {TY_PTR, TY_ARRAY, TY_SLICE} then
        Shape (ty_kind t) (ty_qualified t) (ty_count t) [] 0 (map_option f (ty_base t)) []
      else if ty_kind t = TY_ENUM then Shape (ty_kind t) (ty_qualified t) 0 (ty_name t) 0 None []
      else if ty_kind t \<in> {TY_TUPLE, TY_FUNC, TY_CLOSURE} then
        Shape (ty_kind t) (ty_qualified t) 0 [] (ty_callconv t) (map_option f (ty_base t)) (map f (ty_items t))
      else if ty_kind t = TY_NAMED then
        Shape (ty_kind t) (ty_qualified t) 0 (ty_name t) 0 None (map f (ty_items t))
      else Shape (ty_kind t) (ty_qualified t) 0 [] 0 None [])"

function shape :: "Type list \<Rightarrow> tref \<Rightarrow> tshape" where
  "shape ts i = shape_with (\<lambda>r. if r < i then shape ts r else Loose) (ts ! i)"
  by pat_completeness auto
termination by (relation "measure snd") auto

declare shape.simps [simp del]

lemma shape_with_cong:
  "(\<And>r. r \<in> type_links t \<Longrightarrow> f r = g r) \<Longrightarrow> shape_with f t = shape_with g t"
proof -
  assume a: "\<And>r. r \<in> type_links t \<Longrightarrow> f r = g r"
  have "map_option f (ty_base t) = map_option g (ty_base t)" "map f (ty_items t) = map g (ty_items t)"
    using a by (cases "ty_base t"; auto simp: type_links_def)+
  then show ?thesis by (simp add: shape_with_def)
qed

lemma shape_eq: "table_ok ts \<Longrightarrow> i < length ts \<Longrightarrow> shape ts i = shape_with (shape ts) (ts ! i)"
  by (subst shape.simps, rule shape_with_cong) (auto simp: table_ok_def)

lemma shape_append:
  "table_ok ts \<Longrightarrow> i < length ts \<Longrightarrow> shape (ts @ new) i = shape ts i"
proof (induction i rule: less_induct)
  case (less i)
  have "shape_with (\<lambda>r. if r < i then shape (ts @ new) r else Loose) (ts ! i)
      = shape_with (\<lambda>r. if r < i then shape ts r else Loose) (ts ! i)"
    by (rule shape_with_cong) (use less in \<open>auto simp: table_ok_def\<close>)
  then show ?case using less.prems(2) by (simp add: shape.simps [of _ i] nth_append)
qed

text \<open>With fuel beyond the first type's place in the table, the comparison is that of structures.\<close>

definition decides :: "nat \<Rightarrow> Type list \<Rightarrow> bool" where
  "decides n ts \<longleftrightarrow> (\<forall>a b. (\<forall>r\<in>type_links a. r < n \<and> r < length ts) \<longrightarrow> (\<forall>r\<in>type_links b. r < length ts) \<longrightarrow>
     type_equal_val (Suc n) ts a b = Some (shape_with (shape ts) a = shape_with (shape ts) b))"

lemma refs_equal_decides:
  assumes ok: "table_ok ts" and d: "decides n ts"
    and a: "\<forall>i. a = Some i \<longrightarrow> i < Suc n \<and> i < length ts" and b: "\<forall>j. b = Some j \<longrightarrow> j < length ts"
  shows "type_equal (Suc n) ts a b = Some (map_option (shape ts) a = map_option (shape ts) b)"
proof (cases "a = b \<or> a = None \<or> b = None")
  case True
  then show ?thesis by (cases a; cases b) (auto simp: type_equal.simps)
next
  case False
  then obtain i j where ij: "a = Some i" "b = Some j" "a \<noteq> b" by auto
  have links: "\<forall>r\<in>type_links (ts ! i). r < n \<and> r < length ts" "\<forall>r\<in>type_links (ts ! j). r < length ts"
  proof -
    have "i < Suc n" "i < length ts" "j < length ts" using a b ij by auto
    moreover have "\<forall>r\<in>type_links (ts ! k). r < k" if "k < length ts" for k
      using ok that by (simp add: table_ok_def)
    ultimately show "\<forall>r\<in>type_links (ts ! i). r < n \<and> r < length ts" "\<forall>r\<in>type_links (ts ! j). r < length ts"
      by fastforce+
  qed
  have "type_equal_val (Suc n) ts (ts ! i) (ts ! j)
      = Some (shape_with (shape ts) (ts ! i) = shape_with (shape ts) (ts ! j))"
    using d links unfolding decides_def by blast
  then show ?thesis using ij a b shape_eq [OF ok] by (simp add: type_equal.simps)
qed

lemma items_equal_decides:
  assumes ok: "table_ok ts" and d: "decides n ts"
  shows "\<forall>i\<in>set xs. i < Suc n \<and> i < length ts \<Longrightarrow> \<forall>j\<in>set ys. j < length ts \<Longrightarrow>
     items_equal (Suc n) ts xs ys = Some (map (shape ts) xs = map (shape ts) ys)"
proof (induction xs arbitrary: ys)
  case Nil
  then show ?case by (cases ys) simp_all
next
  case (Cons x xs)
  show ?case
  proof (cases ys)
    case (Cons y ys')
    have "type_equal (Suc n) ts (Some x) (Some y) = Some (shape ts x = shape ts y)"
      using refs_equal_decides [OF ok d, of "Some x" "Some y"] Cons.prems Cons by simp
    then show ?thesis using Cons Cons.IH [of ys'] Cons.prems by (auto split: bool.split)
  qed simp
qed

lemma shape_kind:
  "shape_with f a = shape_with g b \<Longrightarrow> ty_kind a = ty_kind b \<and> ty_qualified a = ty_qualified b"
proof -
  have "\<exists>x1 x2 x3 x4 x5. shape_with h t = Shape (ty_kind t) (ty_qualified t) x1 x2 x3 x4 x5" for h t
    by (simp add: shape_with_def)
  then show "shape_with f a = shape_with g b \<Longrightarrow> ?thesis" by (metis tshape.inject)
qed

text \<open>One level of the comparison, given the answers for the base and the items.\<close>

lemma type_equal_val_level:
  assumes base: "type_equal n ts (ty_base a) (ty_base b) = Some (map_option f (ty_base a) = map_option f (ty_base b))"
    and items: "items_equal n ts (ty_items a) (ty_items b) = Some (map f (ty_items a) = map f (ty_items b))"
  shows "type_equal_val (Suc n) ts a b = Some (shape_with f a = shape_with f b)"
proof (cases "ty_kind a = ty_kind b \<and> ty_qualified a = ty_qualified b")
  case False
  then have "shape_with f a \<noteq> shape_with f b" using shape_kind by blast
  moreover have "ty_kind a \<noteq> ty_kind b \<or> ty_qualified a \<noteq> ty_qualified b" using False by blast
  then have "type_equal_val (Suc n) ts a b = Some False" by (simp only: type_equal_val.simps(2) if_True)
  ultimately show ?thesis by simp
next
  case True
  then have k: "ty_kind b = ty_kind a" "ty_qualified b = ty_qualified a" by auto
  consider "ty_kind a \<in> {TY_PTR, TY_ARRAY, TY_SLICE}"
    | "ty_kind a \<notin> {TY_PTR, TY_ARRAY, TY_SLICE}" "ty_kind a = TY_ENUM"
    | "ty_kind a \<notin> {TY_PTR, TY_ARRAY, TY_SLICE}" "ty_kind a \<noteq> TY_ENUM" "ty_kind a \<in> {TY_TUPLE, TY_FUNC, TY_CLOSURE}"
    | "ty_kind a \<notin> {TY_PTR, TY_ARRAY, TY_SLICE}" "ty_kind a \<noteq> TY_ENUM" "ty_kind a \<notin> {TY_TUPLE, TY_FUNC, TY_CLOSURE}"
    by blast
  then show ?thesis
  proof cases
    case 1
    then show ?thesis by (simp only: type_equal_val.simps(2) shape_with_def k if_True base) auto
  next
    case 2
    then show ?thesis by (simp add: type_equal_val.simps(2) shape_with_def k)
  next
    case 3
    then show ?thesis
      by (simp only: type_equal_val.simps(2) shape_with_def k if_True if_False base items) (auto split: bool.split)
  next
    case 4
    then show ?thesis
      by (simp only: type_equal_val.simps(2) shape_with_def k if_True if_False items) auto
  qed
qed

lemma type_equal_decides: "table_ok ts \<Longrightarrow> decides n ts"
proof (induction n)
  case 0
  show ?case unfolding decides_def
  proof (intro allI impI)
    fix a b
    assume "\<forall>r\<in>type_links a. r < 0 \<and> r < length ts"
    then have e: "ty_base a = None" "ty_items a = []" by (cases "ty_base a"; auto simp: type_links_def)+
    have "type_equal 0 ts None x = Some (x = None)" for x by (cases x) (simp_all add: type_equal.simps)
    moreover have "items_equal 0 ts [] ys = Some (ys = [])" for ys by (cases ys) simp_all
    ultimately show "type_equal_val (Suc 0) ts a b = Some (shape_with (shape ts) a = shape_with (shape ts) b)"
      by (intro type_equal_val_level) (auto simp: e)
  qed
next
  case (Suc n)
  have d: "decides n ts" by (rule Suc.IH [OF Suc.prems])
  show ?case unfolding decides_def
  proof (intro allI impI type_equal_val_level)
    fix a b
    assume a: "\<forall>r\<in>type_links a. r < Suc n \<and> r < length ts" and b: "\<forall>r\<in>type_links b. r < length ts"
    show "type_equal (Suc n) ts (ty_base a) (ty_base b)
        = Some (map_option (shape ts) (ty_base a) = map_option (shape ts) (ty_base b))"
      by (rule refs_equal_decides [OF Suc.prems d]) (use a b in \<open>auto simp: type_links_def\<close>)
    show "items_equal (Suc n) ts (ty_items a) (ty_items b)
        = Some (map (shape ts) (ty_items a) = map (shape ts) (ty_items b))"
      by (rule items_equal_decides [OF Suc.prems d]) (use a b in \<open>auto simp: type_links_def\<close>)
  qed
qed

text \<open>The comparison the callers run.\<close>

lemma equal_fuel_ge: "length (types c) < equal_fuel c"
  by (simp add: equal_fuel_def)

lemma decides_fuel:
  assumes "types_ok c"
  obtains n where "equal_fuel c = Suc (Suc n)" "length (types c) \<le> n" "decides n (types c)" "decides (Suc n) (types c)"
proof -
  have "Suc (length (types c)) < equal_fuel c" by (simp add: equal_fuel_def)
  then obtain n where "equal_fuel c = Suc (Suc n)" "length (types c) \<le> n"
    by (metis Suc_leD Suc_less_eq2 less_Suc_eq_le less_imp_Suc_add add_Suc_right le_add1)
  then show ?thesis using that type_equal_decides assms by (auto simp: types_ok_def)
qed

definition links_in :: "Context \<Rightarrow> Type \<Rightarrow> bool" where
  "links_in c t \<longleftrightarrow> (\<forall>r\<in>type_links t. r < length (types c))"

lemma type_equal_val_shape:
  assumes ok: "types_ok c" and "links_in c a" "links_in c b"
  shows "type_equal_val (equal_fuel c) (types c) a b
     = Some (shape_with (shape (types c)) a = shape_with (shape (types c)) b)"
proof -
  obtain n where n: "equal_fuel c = Suc (Suc n)" "length (types c) \<le> n" "decides (Suc n) (types c)"
    using decides_fuel [OF ok] by blast
  have "\<forall>r\<in>type_links a. r < Suc n \<and> r < length (types c)" using assms(2) n(2) by (auto simp: links_in_def)
  then show ?thesis using n assms(3) unfolding decides_def links_in_def by simp
qed

lemma items_equal_shape:
  assumes ok: "types_ok c" and "\<forall>x\<in>set xs. x < length (types c)" "\<forall>y\<in>set ys. y < length (types c)"
  shows "items_equal (equal_fuel c) (types c) xs ys
     = Some (map (shape (types c)) xs = map (shape (types c)) ys)"
proof -
  obtain n where n: "equal_fuel c = Suc (Suc n)" "length (types c) \<le> n" "decides (Suc n) (types c)"
    using decides_fuel [OF ok] by blast
  show ?thesis unfolding n(1)
    by (rule items_equal_decides) (use ok n assms in \<open>auto simp: types_ok_def\<close>)
qed

section \<open>Tuples and generic instances\<close>

lemma find_opt_total:
  "\<forall>x\<in>set xs. p x = Some (q x) \<Longrightarrow> find_opt p xs = Some (find q xs)"
  by (induction xs) (auto split: bool.split)

definition refs_in :: "Context \<Rightarrow> tref list \<Rightarrow> bool" where
  "refs_in c xs \<longleftrightarrow> (\<forall>x\<in>set xs. x < length (types c))"

lemma type_refs_set [simp]: "set (type_refs c) = {..<length (types c)}"
  by (auto simp: type_refs_def)

lemma links_in_nth: "types_ok c \<Longrightarrow> i < length (types c) \<Longrightarrow> links_in c (types c ! i)"
  using links_below by (simp add: links_in_def)

definition tuple_probe :: "tref list \<Rightarrow> Type" where
  "tuple_probe items = (blank_type TY_TUPLE 0)\<lparr>ty_items := items\<rparr>"

definition tuple_fill :: "tref list \<Rightarrow> Type \<Rightarrow> Type" where
  "tuple_fill items t = t\<lparr>ty_items := items, ty_cname := ''tc_tuple_'' @ show_int (ty_id t),
     ty_name := ''tc_tuple_'' @ show_int (ty_id t)\<rparr>"

lemma type_tuple_eq:
  assumes ok: "types_ok c" and items: "refs_in c items"
  shows "type_tuple c items =
     (case find_type (\<lambda>t. shape_with (shape (types c)) t = shape_with (shape (types c)) (tuple_probe items)) c of
        Some t \<Rightarrow> Some (t, c)
      | None \<Rightarrow> Some (add_type c TY_TUPLE (tuple_fill items)))"
proof -
  have p: "links_in c (tuple_probe items)"
    using items by (simp add: links_in_def tuple_probe_def blank_type_def type_links_def refs_in_def)
  have "find_opt (\<lambda>t. type_equal_val (equal_fuel c) (types c) (types c ! t) (tuple_probe items)) (type_refs c)
      = Some (find_type (\<lambda>t. shape_with (shape (types c)) t = shape_with (shape (types c)) (tuple_probe items)) c)"
    unfolding find_type_def
    by (rule find_opt_total) (use type_equal_val_shape [OF ok _ p] links_in_nth [OF ok] in auto)
  moreover have "(\<lambda>t. t\<lparr>ty_items := items, ty_cname := ''tc_tuple_'' @ show_int (ty_id t),
      ty_name := ''tc_tuple_'' @ show_int (ty_id t)\<rparr>) = tuple_fill items"
    by (simp add: tuple_fill_def fun_eq_iff)
  ultimately show ?thesis
    by (auto simp: type_tuple_def Let_def tuple_probe_def [symmetric] split: option.split)
qed

definition generic_match :: "Context \<Rightarrow> string \<Rightarrow> tref list \<Rightarrow> Type \<Rightarrow> bool" where
  "generic_match c name items t \<longleftrightarrow> ty_kind t = TY_NAMED \<and> ty_items t \<noteq> [] \<and> ty_name t = name
     \<and> map (shape (types c)) (ty_items t) = map (shape (types c)) items"

definition generic_fill :: "string \<Rightarrow> tref list \<Rightarrow> Type \<Rightarrow> Type" where
  "generic_fill name items t = t\<lparr>ty_name := name, ty_items := items,
     ty_cname := ''tc_'' @ name @ ''_'' @ show_int (ty_id t)\<rparr>"

lemma type_generic_eq:
  assumes ok: "types_ok c" and items: "refs_in c items"
  shows "type_generic c name items =
     (case find_type (generic_match c name items) c of
        Some t \<Rightarrow> Some (t, c)
      | None \<Rightarrow> Some (add_type c TY_NAMED (generic_fill name items)))"
proof -
  let ?p = "\<lambda>t. let ty = types c ! t in if ty_kind ty \<noteq> TY_NAMED \<or> ty_items ty = [] \<or> ty_name ty \<noteq> name
      then Some False else items_equal (equal_fuel c) (types c) (ty_items ty) items"
  have "?p t = Some (generic_match c name items (types c ! t))" if "t < length (types c)" for t
  proof -
    have "\<forall>x\<in>set (ty_items (types c ! t)). x < length (types c)"
      using links_in_nth [OF ok that] by (auto simp: links_in_def type_links_def)
    then show ?thesis using items_equal_shape [OF ok, of "ty_items (types c ! t)" items] items
      by (auto simp: generic_match_def Let_def refs_in_def)
  qed
  then have "find_opt ?p (type_refs c) = Some (find_type (generic_match c name items) c)"
    unfolding find_type_def by (intro find_opt_total) auto
  moreover have "(\<lambda>t. t\<lparr>ty_name := name, ty_items := items,
      ty_cname := ''tc_'' @ name @ ''_'' @ show_int (ty_id t)\<rparr>) = generic_fill name items"
    by (simp add: generic_fill_def fun_eq_iff)
  ultimately show ?thesis by (simp add: type_generic_def split: option.split)
qed

lemma type_tuple_ok:
  assumes ok: "types_ok c" and items: "refs_in c items"
  shows "\<exists>r. type_tuple c items = Some r \<and> type_op_ok c r"
proof -
  have "type_op_ok c (add_type c TY_TUPLE (tuple_fill items))"
    by (rule add_type_ok [OF ok]) (use items in \<open>auto simp: tuple_fill_def type_links_def refs_in_def\<close>)
  then show ?thesis
    by (cases "add_type c TY_TUPLE (tuple_fill items)")
       (auto simp: type_tuple_eq [OF ok items] split: option.split dest!: find_type_Some intro: type_op_same [OF ok])
qed

lemma type_generic_ok:
  assumes ok: "types_ok c" and items: "refs_in c items"
  shows "\<exists>r. type_generic c name items = Some r \<and> type_op_ok c r"
proof -
  have "type_op_ok c (add_type c TY_NAMED (generic_fill name items))"
    by (rule add_type_ok [OF ok]) (use items in \<open>auto simp: generic_fill_def type_links_def refs_in_def\<close>)
  then show ?thesis
    by (cases "add_type c TY_NAMED (generic_fill name items)")
       (auto simp: type_generic_eq [OF ok items] split: option.split dest!: find_type_Some intro: type_op_same [OF ok])
qed

section \<open>Any sequence of operations\<close>

inductive type_step :: "Context \<Rightarrow> Context \<Rightarrow> bool" where
  step_primitive: "type_step c (snd (type_primitive c k))"
| step_named: "type_step c (snd (type_named c name))"
| step_derive: "b < length (types c) \<Longrightarrow> type_step c (snd (type_derive c k b count))"
| step_const: "b < length (types c) \<Longrightarrow> type_step c (snd (type_const c b))"
| step_tuple: "refs_in c items \<Longrightarrow> type_tuple c items = Some r \<Longrightarrow> type_step c (snd r)"
| step_generic: "refs_in c items \<Longrightarrow> type_generic c name items = Some r \<Longrightarrow> type_step c (snd r)"

lemma type_step_ok: "type_step c c' \<Longrightarrow> types_ok c \<Longrightarrow> types_ok c' \<and> extends c c'"
proof (induction rule: type_step.induct)
  case (step_primitive c k)
  then show ?case using type_primitive_ok by (auto simp: type_op_ok_def)
next
  case (step_named c name)
  then show ?case using type_named_ok by (auto simp: type_op_ok_def)
next
  case (step_derive b c k count)
  then show ?case using type_derive_ok by (auto simp: type_op_ok_def)
next
  case (step_const b c)
  then show ?case using type_const_ok by (auto simp: type_op_ok_def)
next
  case (step_tuple c items r)
  then show ?case using type_tuple_ok [of c items] by (auto simp: type_op_ok_def)
next
  case (step_generic c items name r)
  then show ?case using type_generic_ok [of c items name] by (auto simp: type_op_ok_def)
qed

lemma type_steps_ok: "type_step\<^sup>*\<^sup>* c c' \<Longrightarrow> types_ok c \<Longrightarrow> types_ok c' \<and> extends c c'"
proof (induction rule: rtranclp_induct)
  case (step d e)
  then show ?case using type_step_ok [OF step.hyps(2)] extends_trans by blast
qed simp

lemma types_ok_empty [simp]: "types_ok empty_context"
  by (simp add: types_ok_def empty_context_def table_ok_def)

text \<open>
  Claim C21. Types are made once and for all: however the type operations are called from an empty
  context (with types the table has), every type refers only to older types, a type once made keeps
  its place and its contents, and asking for a tuple or a generic instance always returns.
\<close>

theorem types_only_grow:
  assumes "type_step\<^sup>*\<^sup>* empty_context c" and "type_step\<^sup>*\<^sup>* c c'"
  shows "table_ok (types c') \<and> (\<exists>new. types c' = types c @ new)
     \<and> (\<forall>items name. refs_in c' items \<longrightarrow> type_tuple c' items \<noteq> None \<and> type_generic c' name items \<noteq> None)"
proof -
  have c: "types_ok c" using type_steps_ok [OF assms(1)] by simp
  have c': "types_ok c'" "extends c c'" using type_steps_ok [OF assms(2) c] by auto
  show ?thesis
    using c' type_tuple_ok [OF c'(1)] type_generic_ok [OF c'(1)]
    by (fastforce simp: types_ok_def extends_def)
qed

theorem types_only_grow_witness:
  "\<exists>new. types (snd (type_derive (snd (type_primitive empty_context TY_I32)) TY_PTR 0 0))
     = types (snd (type_primitive empty_context TY_I32)) @ new"
proof -
  let ?c = "snd (type_primitive empty_context TY_I32)"
  have "type_step empty_context ?c" by (rule step_primitive)
  moreover have "type_step ?c (snd (type_derive ?c TY_PTR 0 0))"
    by (rule step_derive) (simp add: type_primitive_def empty_context_def add_type_def set_builtin_def)
  ultimately show ?thesis
    using types_only_grow [of ?c "snd (type_derive ?c TY_PTR 0 0)"] by (simp add: r_into_rtranclp)
qed

text \<open>
  Claim C18. \<open>type_equal\<close> decides structural equality: on every table in which types refer to older ones
  (the operations build no others), with function types of any parameters and calling convention, the
  comparison returns, and it answers yes exactly when the two types have the same structure: kind,
  constness, element count, calling convention, name of a named type or enum, and the structures of base
  and items.
\<close>

theorem type_equal_structure:
  assumes "table_ok (types c)" and "i < length (types c)" and "j < length (types c)"
  shows "type_equal (equal_fuel c) (types c) (Some i) (Some j) = Some (shape (types c) i = shape (types c) j)"
proof -
  let ?c = "c\<lparr>builtin := \<lambda>k. None\<rparr>"
  have ok: "types_ok ?c" and fuel: "equal_fuel ?c = equal_fuel c" using assms(1) by (simp_all add: types_ok_def equal_fuel_def)
  obtain n where n: "equal_fuel ?c = Suc (Suc n)" "length (types ?c) \<le> n" "decides (Suc n) (types ?c)"
    using decides_fuel [OF ok] by blast
  show ?thesis using refs_equal_decides [OF _ n(3), of "Some i" "Some j"] assms n(1,2) fuel by simp
qed

text \<open>Functions on \<open>int\<close>, the second with another calling convention.\<close>

definition function_table :: Context where
  "function_table = empty_context\<lparr>types :=
     [blank_type TY_I32 1, (blank_type TY_FUNC 2)\<lparr>ty_base := Some 0, ty_items := [0]\<rparr>,
      (blank_type TY_FUNC 3)\<lparr>ty_base := Some 0, ty_items := [0], ty_callconv := 1\<rparr>,
      (blank_type TY_FUNC 4)\<lparr>ty_base := Some 0, ty_items := [0]\<rparr>]\<rparr>"

theorem type_equal_structure_witness:
  "type_equal (equal_fuel function_table) (types function_table) (Some 1) (Some 2) = Some False
   \<and> type_equal (equal_fuel function_table) (types function_table) (Some 1) (Some 3) = Some True"
proof -
  have "table_ok (types function_table)"
    by (auto simp: table_ok_def function_table_def type_links_def blank_type_def less_Suc_eq nth_Cons split: nat.splits)
  moreover have "length (types function_table) = 4" by (simp add: function_table_def)
  moreover have "shape (types function_table) 1 \<noteq> shape (types function_table) 2 \<and> shape (types function_table) 1 = shape (types function_table) 3"
    by (simp add: shape.simps shape_with_def function_table_def blank_type_def)
  ultimately show ?thesis using type_equal_structure [of function_table 1 2] type_equal_structure [of function_table 1 3] by auto
qed

section \<open>Interning\<close>

lemma find_type_newest:
  "p (fill (blank_type k (next_id c + 1))) \<Longrightarrow>
   find_type p (snd (add_type c k fill)) = Some (length (types c))"
  by (simp add: find_type_def type_refs_def add_type_def)

lemma type_primitive_again:
  "type_primitive c k = (t, c') \<Longrightarrow> type_primitive c' k = (t, c')"
  by (auto simp: type_primitive_def set_builtin_def split: option.splits prod.splits)

lemma builtin_ok_extends:
  assumes "types_ok c" "builtin_ok c" "extends c c'" "builtin c' = builtin c"
  shows "builtin_ok c'"
  using assms extends_nth [OF assms(3)] by (auto simp: types_ok_def builtin_ok_def)

lemma type_primitive_builtin:
  assumes "types_ok c" "builtin_ok c" "type_primitive c k = (t, c')"
  shows "builtin_ok c' \<and> builtin c' k = Some t"
  using assms
  by (auto simp: type_primitive_def set_builtin_def add_type_def builtin_ok_def blank_type_def types_ok_def
      nth_append split: option.splits if_splits)

lemma type_primitive_kind:
  "types_ok c \<Longrightarrow> builtin_ok c \<Longrightarrow> type_primitive c k = (t, c') \<Longrightarrow> ty_kind (types c' ! t) = k"
  using type_primitive_builtin [of c k t c'] by (auto simp: builtin_ok_def)

lemma add_type_builtin:
  "types_ok c \<Longrightarrow> builtin_ok c \<Longrightarrow> builtin_ok (snd (add_type c k fill))"
  by (rule builtin_ok_extends) (auto simp: add_type_def extends_def)

lemma type_size_t_builtin:
  assumes "types_ok c" "builtin_ok c"
  shows "builtin_ok (snd (type_size_t c))"
proof -
  obtain b c1 where p: "type_primitive c TY_U64 = (b, c1)" by fastforce
  have ok1: "types_ok c1" using type_primitive_ok [OF assms(1), of TY_U64] p by (simp add: type_op_ok_def)
  have b1: "builtin_ok c1" using type_primitive_builtin [OF assms p] by simp
  have "builtin_ok (c1\<lparr>types := types c1 @ [x]\<rparr>)" for x
    by (rule builtin_ok_extends [OF ok1 b1]) (simp_all add: extends_def)
  then show ?thesis using assms(2) by (simp add: type_size_t_def p split: option.split)
qed

lemma type_step_builtin:
  assumes "type_step c c'" "types_ok c" "builtin_ok c"
  shows "builtin_ok c'"
  using assms
proof (induction rule: type_step.induct)
  case (step_primitive c k)
  then show ?case using type_primitive_builtin [of c k] by (metis prod.collapse)
next
  case (step_named c name)
  have "builtin_ok (snd (type_primitive c k))" for k
    using step_named type_primitive_builtin [of c k] by (metis prod.collapse)
  then show ?case using step_named type_size_t_builtin add_type_builtin
    by (simp add: type_named_def split: option.split)
next
  case (step_derive b c k count)
  then show ?case using add_type_builtin by (simp add: type_derive_def split: option.split)
next
  case (step_const b c)
  then show ?case using add_type_builtin by (simp add: type_const_def Let_def split: option.split)
next
  case (step_tuple c items r)
  then show ?case using add_type_builtin type_tuple_eq [of c items]
    by (auto split: option.splits)
next
  case (step_generic c items name r)
  then show ?case using add_type_builtin type_generic_eq [of c items name]
    by (auto split: option.splits)
qed

lemma type_steps_builtin:
  "type_step\<^sup>*\<^sup>* c c' \<Longrightarrow> types_ok c \<Longrightarrow> builtin_ok c \<Longrightarrow> builtin_ok c'"
proof (induction rule: rtranclp_induct)
  case (step d e)
  then show ?case using type_steps_ok [OF step.hyps(1)] type_step_builtin by blast
qed

lemma type_size_t_again:
  assumes ok: "types_ok c" "builtin_ok c" and t: "type_size_t c = (t, c')"
  shows "type_size_t c' = (t, c')"
proof (cases "find_type (\<lambda>t. ty_kind t = TY_U64 \<and> ty_name t = ''size_t'') c")
  case (Some u)
  then show ?thesis using t by (simp add: type_size_t_def)
next
  case None
  obtain b c1 where p: "type_primitive c TY_U64 = (b, c1)" by fastforce
  then have k: "ty_kind (types c1 ! b) = TY_U64" by (rule type_primitive_kind [OF ok])
  have c': "t = length (types c1)"
      "c' = c1\<lparr>types := types c1 @ [(types c1 ! b)\<lparr>ty_name := ''size_t'', ty_cname := ''size_t''\<rparr>]\<rparr>"
    using t None p by (simp_all add: type_size_t_def)
  then have "find_type (\<lambda>t. ty_kind t = TY_U64 \<and> ty_name t = ''size_t'') c' = Some t"
    using k by (simp add: find_type_def type_refs_def)
  then show ?thesis by (simp add: type_size_t_def)
qed

definition user_type :: "string \<Rightarrow> Type \<Rightarrow> bool" where
  "user_type name t \<longleftrightarrow> (ty_kind t = TY_NAMED \<or> ty_kind t = TY_ENUM) \<and> ty_items t = [] \<and> ty_name t = name"

lemma type_named_again:
  assumes ok: "types_ok c" "builtin_ok c" and t: "type_named c name = (t, c')"
  shows "type_named c' name = (t, c')"
proof (cases "find (\<lambda>k. prim_name k = name) prim_kinds")
  case (Some k)
  then have "type_named d name = type_primitive d k" for d by (simp add: type_named_def)
  then show ?thesis using t type_primitive_again [of c k t c'] by simp
next
  case no_prim: None
  show ?thesis
  proof (cases "name = ''size_t''")
    case True
    then have "type_named d name = type_size_t d" for d using no_prim by (simp add: type_named_def)
    then show ?thesis using t type_size_t_again [OF ok, of t c'] by simp
  next
    case no_size: False
    show ?thesis
    proof (cases "map_of type_aliases name")
      case (Some k)
      then have "type_named d name = type_primitive d k" for d
        using no_prim no_size by (simp add: type_named_def)
      then show ?thesis using t type_primitive_again [of c k t c'] by simp
    next
      case no_alias: None
      let ?fill = "\<lambda>t. t\<lparr>ty_name := name, ty_cname := ''tc_'' @ name\<rparr>"
      have user: "type_named d name = (if name = ''var'' then type_primitive d TY_AUTO
          else case find_type (user_type name) d of Some t \<Rightarrow> (t, d) | None \<Rightarrow> add_type d TY_NAMED ?fill)" for d
        by (simp only: type_named_def no_prim no_size no_alias option.case if_False user_type_def [abs_def])
      show ?thesis
      proof (cases "name = ''var''")
        case True
        then show ?thesis using t user type_primitive_again [of c TY_AUTO t c'] by simp
      next
        case no_var: False
        show ?thesis
        proof (cases "find_type (user_type name) c")
          case (Some u)
          then show ?thesis using t user no_var by simp
        next
          case None
          then have c': "c' = snd (add_type c TY_NAMED ?fill)" "t = length (types c)"
            using t user no_var by (auto simp: add_type_def)
          have "find_type (user_type name) c' = Some t"
            unfolding c' by (rule find_type_newest) (simp add: user_type_def blank_type_def)
          then show ?thesis using user no_var by simp
        qed
      qed
    qed
  qed
qed

lemma type_derive_again:
  assumes t: "type_derive c k b count = (t, c')"
  shows "type_derive c' k b count = (t, c')"
proof (cases "find_type (\<lambda>t. ty_kind t = k \<and> ty_base t = Some b \<and> ty_count t = count) c")
  case (Some u)
  then show ?thesis using t by (simp add: type_derive_def)
next
  case None
  then obtain fill where f: "type_derive c k b count = add_type c k fill"
      "\<And>t. ty_kind (fill t) = ty_kind t \<and> ty_base (fill t) = Some b \<and> ty_count (fill t) = count"
    by (cases "k = TY_PTR") (auto simp: type_derive_def)
  then have "c' = snd (add_type c k fill)" "t = length (types c)" using t by (auto simp: add_type_def)
  then show ?thesis
    using find_type_newest [of "\<lambda>t. ty_kind t = k \<and> ty_base t = Some b \<and> ty_count t = count" fill k c] f(2)
    by (simp add: type_derive_def blank_type_def)
qed

lemma type_const_again:
  assumes b: "b < length (types c)" and t: "type_const c b = (t, c')"
  shows "type_const c' b = (t, c') \<and> type_const c' t = (t, c') \<and> ty_qualified (types c' ! t)"
proof (cases "ty_qualified (types c ! b)")
  case True
  then show ?thesis using t by (simp add: type_const_def Let_def)
next
  case False
  let ?base = "types c ! b"
  let ?p = "\<lambda>t. ty_qualified t \<and> ty_kind t = ty_kind ?base \<and> ty_base t = ty_base ?base
      \<and> ty_name t = ''const '' @ ty_name ?base"
  show ?thesis
  proof (cases "find_type ?p c")
    case (Some u)
    then have "t = u" "c' = c" using t False by (simp_all add: type_const_def Let_def)
    then show ?thesis using Some False find_type_Some [OF Some] by (simp add: type_const_def Let_def)
  next
    case None
    let ?fill = "\<lambda>t. ?base\<lparr>ty_id := ty_id t, ty_qualified := True, ty_name := ''const '' @ ty_name ?base,
        ty_cname := ''const '' @ ty_cname ?base\<rparr>"
    have a: "add_type c (ty_kind ?base) ?fill = (t, c')" using t False None by (simp add: type_const_def Let_def)
    then have t': "t = length (types c)" "types c' = types c @ [?fill (blank_type (ty_kind ?base) (next_id c + 1))]"
      by (auto simp: add_type_def)
    have "find_type ?p c' = Some t"
      using find_type_newest [of ?p ?fill "ty_kind ?base" c] a t'(1) by simp
    then show ?thesis using b False t' by (simp add: type_const_def Let_def nth_append)
  qed
qed

lemma map_shape_extends:
  assumes "types_ok c" "extends c c'" "refs_in c xs"
  shows "map (shape (types c')) xs = map (shape (types c)) xs"
  using assms shape_append by (auto simp: extends_def refs_in_def types_ok_def)

lemma type_tuple_again:
  assumes ok: "types_ok c" and r: "refs_in c xs" "refs_in c ys"
    and same: "map (shape (types c)) xs = map (shape (types c)) ys"
    and t: "type_tuple c xs = Some (t, c')"
  shows "type_tuple c' ys = Some (t, c')"
proof -
  have ok': "types_ok c'" "extends c c'" using type_tuple_ok [OF ok r(1)] t by (auto simp: type_op_ok_def)
  have r': "refs_in c' ys" using r(2) ok'(2) by (auto simp: refs_in_def extends_def)
  have probe: "shape_with f (tuple_probe ys) = Shape TY_TUPLE False 0 [] 0 None (map f ys)" for f ys
    by (simp add: shape_with_def tuple_probe_def blank_type_def)
  have fill: "shape_with f (tuple_fill xs (blank_type TY_TUPLE i)) = Shape TY_TUPLE False 0 [] 0 None (map f xs)"
    for f i by (simp add: shape_with_def tuple_fill_def blank_type_def)
  note eq = type_tuple_eq [OF ok r(1), unfolded t]
  show ?thesis
  proof (cases "find_type (\<lambda>t. shape_with (shape (types c)) t = shape_with (shape (types c)) (tuple_probe xs)) c")
    case (Some u)
    then have "c' = c" "t = u" using eq by simp_all
    then show ?thesis using type_tuple_eq [OF ok r(2)] Some same by (simp add: probe)
  next
    case None
    then have c': "c' = snd (add_type c TY_TUPLE (tuple_fill xs))" "t = length (types c)"
      using eq by (auto simp: add_type_def)
    have "map (shape (types c')) xs = map (shape (types c')) ys"
      by (simp only: map_shape_extends [OF ok ok'(2) r(1)] map_shape_extends [OF ok ok'(2) r(2)] same)
    then have "find_type (\<lambda>t. shape_with (shape (types c')) t = shape_with (shape (types c')) (tuple_probe ys)) c' = Some t"
      unfolding c'(2) using find_type_newest [of "\<lambda>t. shape_with (shape (types c')) t
          = shape_with (shape (types c')) (tuple_probe ys)" "tuple_fill xs" TY_TUPLE c]
      by (simp add: probe fill c'(1))
    then show ?thesis using type_tuple_eq [OF ok'(1) r'] by simp
  qed
qed

lemma type_generic_again:
  assumes ok: "types_ok c" and r: "refs_in c xs" "refs_in c ys" and ne: "xs \<noteq> []"
    and same: "map (shape (types c)) xs = map (shape (types c)) ys"
    and t: "type_generic c name xs = Some (t, c')"
  shows "type_generic c' name ys = Some (t, c')"
proof -
  have ok': "types_ok c'" "extends c c'" using type_generic_ok [OF ok r(1), of name] t by (auto simp: type_op_ok_def)
  have r': "refs_in c' ys" using r(2) ok'(2) by (auto simp: refs_in_def extends_def)
  note eq = type_generic_eq [OF ok r(1), of name, unfolded t]
  show ?thesis
  proof (cases "find_type (generic_match c name xs) c")
    case (Some u)
    then have "c' = c" "t = u" using eq by simp_all
    moreover have "generic_match c name ys = generic_match c name xs"
      using same by (auto simp: generic_match_def fun_eq_iff)
    ultimately show ?thesis using type_generic_eq [OF ok r(2), of name] Some by simp
  next
    case None
    then have c': "c' = snd (add_type c TY_NAMED (generic_fill name xs))" "t = length (types c)"
      using eq by (auto simp: add_type_def)
    have "map (shape (types c')) xs = map (shape (types c')) ys"
      by (simp only: map_shape_extends [OF ok ok'(2) r(1)] map_shape_extends [OF ok ok'(2) r(2)] same)
    then have "generic_match c' name ys (generic_fill name xs (blank_type TY_NAMED i))" for i
      using ne by (simp add: generic_match_def generic_fill_def blank_type_def)
    then have "find_type (generic_match c' name ys) c' = Some t"
      unfolding c'(2) using find_type_newest [of "generic_match c' name ys" "generic_fill name xs" TY_NAMED c]
      by (simp add: c'(1))
    then show ?thesis using type_generic_eq [OF ok'(1) r', of name] by simp
  qed
qed

text \<open>
  Types are interned: on every table the operations build, asking for a named, derived,
  constant or tuple type or a generic instance a second time gives the very type of the first time
  and makes no other; tuples and instances are shared even when the items asked for are different
  types of equal structure; and constness does not pile up.
\<close>

theorem types_interned:
  assumes "type_step\<^sup>*\<^sup>* empty_context c"
  shows "(type_named c name = (t, c') \<longrightarrow> type_named c' name = (t, c'))
     \<and> (type_derive c k b count = (t, c') \<longrightarrow> type_derive c' k b count = (t, c'))
     \<and> (b < length (types c) \<longrightarrow> type_const c b = (t, c') \<longrightarrow>
          type_const c' b = (t, c') \<and> type_const c' t = (t, c') \<and> ty_qualified (types c' ! t))
     \<and> (refs_in c xs \<and> refs_in c ys \<and> map (shape (types c)) xs = map (shape (types c)) ys \<longrightarrow>
          (type_tuple c xs = Some (t, c') \<longrightarrow> type_tuple c' ys = Some (t, c'))
          \<and> (xs \<noteq> [] \<longrightarrow> type_generic c name xs = Some (t, c') \<longrightarrow> type_generic c' name ys = Some (t, c')))"
proof -
  have ok: "types_ok c" using type_steps_ok [OF assms] by simp
  have b: "builtin_ok c"
    by (rule type_steps_builtin [OF assms types_ok_empty]) (simp add: builtin_ok_def empty_context_def)
  show ?thesis
    using type_named_again [OF ok b, of name t c'] type_derive_again [of c k b count t c']
      type_const_again [of b c t c'] type_tuple_again [OF ok, of xs ys t c']
      type_generic_again [OF ok, of xs ys name t c'] by blast
qed

theorem types_interned_witness:
  "type_derive (snd (type_derive (snd (type_primitive empty_context TY_I32)) TY_PTR 0 0)) TY_PTR 0 0
     = type_derive (snd (type_primitive empty_context TY_I32)) TY_PTR 0 0"
proof -
  let ?c = "snd (type_primitive empty_context TY_I32)"
  have "type_step\<^sup>*\<^sup>* empty_context ?c" by (blast intro: step_primitive)
  from types_interned [OF this, of "[]" 0 "snd (type_derive ?c TY_PTR 0 0)" TY_PTR 0 0 "[]" "[]"]
    types_interned [OF this, of "[]" "fst (type_derive ?c TY_PTR 0 0)" "snd (type_derive ?c TY_PTR 0 0)" TY_PTR 0 0 "[]" "[]"]
  show ?thesis by (metis prod.collapse)
qed

end
