(* ===== verification/Lexer.thy ===== *)
theory Lexer
  imports Syntax
begin

text \<open>
  The lexer of \<open>compiler/lexer.c\<close>. The cursor \<open>s + i\<close> is the suffix of the source it points to; the
  terminating NUL is the end of the list. One turn of the main loop is \<open>lex_one\<close>; the loop itself,
  with \<open>push\<close>, is \<open>lex_loop\<close>. What is proved: the tokens and the comments and blanks between them
  spell the whole source, every location is the line and column of the token's first byte, the last
  token and no other is the end of file, and lexing the tokens' texts again gives the same tokens.
\<close>

section \<open>Character classes of the C locale\<close>

definition isspace :: "char \<Rightarrow> bool" where
  "isspace ch \<longleftrightarrow> (let n = of_char ch :: nat in n = 32 \<or> (9 \<le> n \<and> n \<le> 13))"

definition isdigit :: "char \<Rightarrow> bool" where
  "isdigit ch \<longleftrightarrow> (let n = of_char ch :: nat in 48 \<le> n \<and> n \<le> 57)"

definition isupper :: "char \<Rightarrow> bool" where
  "isupper ch \<longleftrightarrow> (let n = of_char ch :: nat in 65 \<le> n \<and> n \<le> 90)"

definition isalpha :: "char \<Rightarrow> bool" where
  "isalpha ch \<longleftrightarrow> isupper ch \<or> (let n = of_char ch :: nat in 97 \<le> n \<and> n \<le> 122)"

definition isalnum :: "char \<Rightarrow> bool" where
  "isalnum ch \<longleftrightarrow> isalpha ch \<or> isdigit ch"

definition isxdigit :: "char \<Rightarrow> bool" where
  "isxdigit ch \<longleftrightarrow> isdigit ch
     \<or> (let n = of_char ch :: nat in (65 \<le> n \<and> n \<le> 70) \<or> (97 \<le> n \<and> n \<le> 102))"

definition word_char :: "char \<Rightarrow> bool" where
  "word_char ch \<longleftrightarrow> isalnum ch \<or> ch = CHR ''_''"

text \<open>The test \<open>p(s[i])\<close> on a cursor: false at the terminator.\<close>

fun at_class :: "(char \<Rightarrow> bool) \<Rightarrow> string \<Rightarrow> bool" where
  "at_class p [] = False"
| "at_class p (ch # s) = p ch"

text \<open>The loop \<open>while (p(s[i])) i++;\<close> as the number of bytes it passes.\<close>

definition run :: "(char \<Rightarrow> bool) \<Rightarrow> string \<Rightarrow> nat" where
  "run p s = length (takeWhile p s)"

section \<open>Comments\<close>

text \<open>The nested block comment: what is left, the level, the line and the column.\<close>

fun block_comment :: "string \<Rightarrow> nat \<Rightarrow> nat \<Rightarrow> nat \<Rightarrow> string \<times> nat \<times> nat \<times> nat" where
  "block_comment [] level line col = ([], level, line, col)"
| "block_comment (ch # s) level line col =
     (if level = 0 then (ch # s, level, line, col)
      else if ch = CHR ''/'' \<and> at_class (\<lambda>d. d = CHR ''*'') s
        then block_comment (tl s) (level + 1) line (col + 2)
      else if ch = CHR ''*'' \<and> at_class (\<lambda>d. d = CHR ''/'') s
        then block_comment (tl s) (level - 1) line (col + 2)
      else if ch = CHR 0x0A then block_comment s level (line + 1) 1
      else block_comment s level line (col + 1))"

section \<open>Numbers\<close>

definition hex_start :: "string \<Rightarrow> bool" where
  "hex_start s \<longleftrightarrow> at_class (\<lambda>ch. ch = CHR ''0'') s
     \<and> at_class (\<lambda>ch. ch = CHR ''x'' \<or> ch = CHR ''X'') (tl s)"

definition decimal_fraction :: "string \<Rightarrow> nat \<Rightarrow> nat" where
  "decimal_fraction s n =
     (if at_class (\<lambda>ch. ch = CHR ''.'') (drop n s) \<and> \<not> at_class (\<lambda>ch. ch = CHR ''.'') (drop (n + 1) s)
      then n + 1 + run isdigit (drop (n + 1) s) else n)"

text \<open>The end of the exponent, or the error when it has no digits.\<close>

definition exponent :: "string \<Rightarrow> nat \<Rightarrow> string + nat" where
  "exponent s n =
     (if at_class (\<lambda>ch. ch = CHR ''e'' \<or> ch = CHR ''E'') (drop n s) then
        (let m = n + 1 + (if at_class (\<lambda>ch. ch = CHR ''+'' \<or> ch = CHR ''-'') (drop (n + 1) s) then 1 else 0)
         in if at_class isdigit (drop m s) then Inr (m + run isdigit (drop m s))
            else Inl ''exponent needs digits'')
      else Inr n)"

definition lex_number :: "string \<Rightarrow> string + TokenKind \<times> nat" where
  "lex_number s =
     (let res = (if hex_start s then
                   (if at_class isxdigit (drop 2 s) then Inr (TK_INT, 2 + run isxdigit (drop 2 s))
                    else Inl ''hex literal needs digits'')
                 else
                   (let n0 = run isdigit s; n1 = decimal_fraction s n0
                    in case exponent s n1 of
                         Inl e \<Rightarrow> Inl e
                       | Inr n2 \<Rightarrow> Inr (if n0 < n2 then TK_FLOAT else TK_INT, n2)))
      in case res of
           Inl e \<Rightarrow> Inl e
         | Inr (k, n) \<Rightarrow>
             if at_class (\<lambda>ch. isalpha ch \<or> ch = CHR ''_'') (drop n s)
             then Inl ''invalid numeric literal suffix'' else Inr (k, n))"

section \<open>String and character literals\<close>

definition escapes :: string where
  "escapes = ''abfnrtv'' @ [CHR 0x5C, CHR 0x22, CHR 0x27, CHR ''0'']"

text \<open>
  The loop over the characters of a literal after its opening quote: \<open>i\<close> bytes passed so far,
  \<open>count\<close> characters. The result is the length with the closing quote, and the count.
\<close>

fun literal_loop :: "char \<Rightarrow> string \<Rightarrow> nat \<Rightarrow> nat \<Rightarrow> string + nat \<times> nat" where
  "literal_loop quote [] i count = Inl ''unterminated literal''"
| "literal_loop quote (ch # s) i count =
     (if ch = quote then Inr (i + 1, count)
      else if ch = CHR 0x0A \<or> ch = CHR 0x0D then Inl ''newline in literal''
      else if ch = CHR 0x5C then
        (case s of
           [] \<Rightarrow> Inl ''unterminated literal''
         | e # s1 \<Rightarrow>
             if e = CHR ''x'' then
               (case s1 of
                  h1 # h2 # s2 \<Rightarrow>
                    if isxdigit h1 \<and> isxdigit h2 then literal_loop quote s2 (i + 4) (count + 1)
                    else Inl ''hex escape requires exactly two digits''
                | _ \<Rightarrow> Inl ''hex escape requires exactly two digits'')
             else if e \<notin> set escapes then Inl (''unsupported escape '' @ [CHR 0x27, CHR 0x5C, e, CHR 0x27])
             else literal_loop quote s1 (i + 2) (count + 1))
      else literal_loop quote s (i + 1) (count + 1))"

definition lex_literal :: "char \<Rightarrow> string \<Rightarrow> string + TokenKind \<times> nat" where
  "lex_literal quote s =
     (case literal_loop quote s 1 0 of
        Inl e \<Rightarrow> Inl e
      | Inr (n, count) \<Rightarrow>
          if quote = CHR 0x27 \<and> count \<noteq> 1 then Inl ''character literal must contain one character''
          else Inr (if quote = CHR 0x22 then TK_STRING else TK_CHAR, n))"

section \<open>Operators\<close>

definition ops :: "string list" where
  "ops = [''>>='', ''<<='', ''...'', ''=='', ''!='', ''<='', ''>='', ''&&'', ''||'',
          ''++'', ''--'', ''+='', ''-='', ''*='', ''/='', ''%='', ''&='', ''|='',
          ''^='', ''<<'', ''>>'', ''->'', ''=>'', ''::'']"

definition find_op :: "string \<Rightarrow> string option" where
  "find_op s = find (\<lambda>op. take (length op) s = op) ops"

definition single_ops :: string where
  "single_ops = ''+-*/%=<>!&|^~(){}[];,.:?@''"

section \<open>One turn of the loop, and the loop\<close>

datatype lexeme =
    Blank string nat nat
  | Lexed TokenKind nat
  | Bad string

fun lex_one :: "string \<Rightarrow> nat \<Rightarrow> nat \<Rightarrow> lexeme" where
  "lex_one [] line col = Blank [] line col"
| "lex_one (ch # s) line col =
     (if isspace ch then
        (if ch = CHR 0x0A then Blank s (line + 1) 1 else Blank s line (col + 1))
      else if ch = CHR ''/'' \<and> at_class (\<lambda>d. d = CHR ''/'') s then
        (let n = run (\<lambda>d. d \<noteq> CHR 0x0A) (ch # s) in Blank (drop n (ch # s)) line (col + n))
      else if ch = CHR ''/'' \<and> at_class (\<lambda>d. d = CHR ''*'') s then
        (let (s', level, line', col') = block_comment (tl s) 1 line (col + 2)
         in if level \<noteq> 0 then Bad ''unterminated block comment'' else Blank s' line' col')
      else if isalpha ch \<or> ch = CHR ''_'' then Lexed TK_ID (1 + run word_char s)
      else if isdigit ch then
        (case lex_number (ch # s) of Inl e \<Rightarrow> Bad e | Inr (k, n) \<Rightarrow> Lexed k n)
      else if ch = CHR 0x22 \<or> ch = CHR 0x27 then
        (case lex_literal ch s of Inl e \<Rightarrow> Bad e | Inr (k, n) \<Rightarrow> Lexed k n)
      else case find_op (ch # s) of
             Some op \<Rightarrow> Lexed TK_OP (length op)
           | None \<Rightarrow> if ch \<in> set single_ops then Lexed TK_OP 1
                     else Bad (''unexpected byte 0x'' @ show_hex2 (of_char ch)))"

text \<open>Every turn moves the cursor forward.\<close>

lemma length_block_comment: "length (fst (block_comment s level line col)) \<le> length s"
  by (induction s level line col rule: block_comment.induct) (auto simp: le_Suc_eq)

lemma decimal_fraction_ge: "n \<le> decimal_fraction s n"
  by (simp add: decimal_fraction_def)

lemma exponent_ge: "exponent s n = Inr m \<Longrightarrow> n \<le> m"
  by (auto simp: exponent_def Let_def split: if_splits)

lemma literal_loop_pos: "literal_loop q s i count = Inr (n, k) \<Longrightarrow> i < n"
  by (induction q s i count rule: literal_loop.induct)
     (auto split: if_splits list.splits, fastforce)

lemma lex_number_pos:
  assumes "lex_number s = Inr (k, n)" "at_class isdigit s"
  shows "0 < n"
proof -
  have "0 < run isdigit s" using assms(2) by (cases s) (auto simp: run_def)
  then show ?thesis
    using assms(1) decimal_fraction_ge [of "run isdigit s" s] exponent_ge
    by (fastforce simp: lex_number_def Let_def split: if_splits sum.splits)
qed

lemma find_op_Some: "find_op s = Some op \<Longrightarrow> op \<in> set ops \<and> take (length op) s = op"
  by (auto simp: find_op_def find_Some_iff)

lemma ops_nonempty: "op \<in> set ops \<Longrightarrow> op \<noteq> []"
  by (auto simp: ops_def)

lemma find_op_pos: "find_op s = Some op \<Longrightarrow> 0 < length op"
  using find_op_Some ops_nonempty by blast

lemma lex_literal_pos: "lex_literal q s = Inr (k, n) \<Longrightarrow> 0 < n"
  using literal_loop_pos [of q s 1 0]
  by (auto simp: lex_literal_def split: sum.splits if_splits)

text \<open>The branches of one turn.\<close>

lemma lex_one_space:
  "isspace ch \<Longrightarrow> lex_one (ch # s) line col
     = (if ch = CHR 0x0A then Blank s (line + 1) 1 else Blank s line (col + 1))"
  by simp

lemma lex_one_line_comment:
  "\<not> isspace ch \<Longrightarrow> ch = CHR ''/'' \<Longrightarrow> at_class (\<lambda>d. d = CHR ''/'') s \<Longrightarrow>
   lex_one (ch # s) line col
     = (let n = run (\<lambda>d. d \<noteq> CHR 0x0A) (ch # s) in Blank (drop n (ch # s)) line (col + n))"
  by simp

lemma lex_one_block_comment:
  "\<not> isspace ch \<Longrightarrow> ch = CHR ''/'' \<Longrightarrow> at_class (\<lambda>d. d = CHR ''*'') s \<Longrightarrow>
   lex_one (ch # s) line col
     = (let (s', level, line', col') = block_comment (tl s) 1 line (col + 2)
        in if level \<noteq> 0 then Bad ''unterminated block comment'' else Blank s' line' col')"
  by (cases s) auto

definition token_start :: "char \<Rightarrow> string \<Rightarrow> bool" where
  "token_start ch s \<longleftrightarrow> \<not> isspace ch
     \<and> \<not> (ch = CHR ''/'' \<and> at_class (\<lambda>d. d = CHR ''/'' \<or> d = CHR ''*'') s)"

definition lex_token :: "char \<Rightarrow> string \<Rightarrow> lexeme" where
  "lex_token ch s =
     (if isalpha ch \<or> ch = CHR ''_'' then Lexed TK_ID (1 + run word_char s)
      else if isdigit ch then
        (case lex_number (ch # s) of Inl e \<Rightarrow> Bad e | Inr (k, n) \<Rightarrow> Lexed k n)
      else if ch = CHR 0x22 \<or> ch = CHR 0x27 then
        (case lex_literal ch s of Inl e \<Rightarrow> Bad e | Inr (k, n) \<Rightarrow> Lexed k n)
      else case find_op (ch # s) of
             Some op \<Rightarrow> Lexed TK_OP (length op)
           | None \<Rightarrow> if ch \<in> set single_ops then Lexed TK_OP 1
                     else Bad (''unexpected byte 0x'' @ show_hex2 (of_char ch)))"

lemma lex_one_token: "token_start ch s \<Longrightarrow> lex_one (ch # s) line col = lex_token ch s"
  by (cases s) (auto simp: token_start_def lex_token_def)

lemma lex_one_cases:
  obtains "isspace ch"
  | "\<not> isspace ch" "ch = CHR ''/''" "at_class (\<lambda>d. d = CHR ''/'') s"
  | "\<not> isspace ch" "ch = CHR ''/''" "at_class (\<lambda>d. d = CHR ''*'') s"
  | "token_start ch s"
  by (cases s) (auto simp: token_start_def)

declare lex_one.simps(2) [simp del]

lemma lex_token_not_Blank: "lex_token ch s \<noteq> Blank s' line col"
  by (auto simp: lex_token_def split: sum.split option.split prod.split)

lemma lex_token_pos: "lex_token ch s = Lexed k n \<Longrightarrow> 0 < n"
  using lex_number_pos [of "ch # s" k n] lex_literal_pos [of ch s k n] find_op_pos [of "ch # s"]
  by (auto simp: lex_token_def split: if_splits sum.splits option.splits prod.splits)

lemma lex_one_Lexed:
  assumes "lex_one s line col = Lexed k n"
  obtains ch t where "s = ch # t" "token_start ch t" "lex_token ch t = Lexed k n"
proof (cases s)
  case (Cons ch t)
  show ?thesis
  proof (rule lex_one_cases [where ch = ch and s = t])
    assume "token_start ch t"
    then show ?thesis using that assms Cons lex_one_token by simp
  qed (use assms Cons lex_one_space lex_one_line_comment lex_one_block_comment
        in \<open>auto simp: Let_def split: if_splits prod.splits\<close>)
qed (use assms in simp)

lemma lex_one_Lexed_pos: "lex_one s line col = Lexed k n \<Longrightarrow> 0 < n \<and> s \<noteq> []"
  by (metis lex_one_Lexed lex_token_pos list.distinct(1))

lemma lex_one_Blank_less:
  assumes "lex_one s line col = Blank s' line' col'" "s \<noteq> []"
  shows "length s' < length s"
proof -
  obtain ch t where s: "s = ch # t" using assms(2) by (cases s) auto
  show ?thesis
  proof (rule lex_one_cases [where ch = ch and s = t])
    assume "isspace ch"
    then show ?thesis using assms(1) s lex_one_space [of ch t line col] by (auto split: if_splits)
  next
    assume "\<not> isspace ch" "ch = CHR ''/''" "at_class (\<lambda>d. d = CHR ''/'') t"
    from lex_one_line_comment [OF this, of line col] show ?thesis
      using assms(1) s \<open>ch = _\<close> by (auto simp: Let_def run_def)
  next
    assume "\<not> isspace ch" "ch = CHR ''/''" "at_class (\<lambda>d. d = CHR ''*'') t"
    from lex_one_block_comment [OF this, of line col] show ?thesis
      using assms(1) s length_block_comment [of "tl t" 1 line "col + 2"]
      by (auto simp: Let_def split: prod.splits if_splits)
  next
    assume "token_start ch t"
    then show ?thesis using assms(1) s lex_token_not_Blank by (simp add: lex_one_token)
  qed
qed

text \<open>
  \<open>push\<close>: the token array doubles from 256, up to two million entries; \<open>grow\<close> says whether the C
  library grants the larger array.
\<close>

definition push :: "(nat \<Rightarrow> bool) \<Rightarrow> Context \<Rightarrow> TokenKind \<Rightarrow> string \<Rightarrow> Loc \<Rightarrow> unit res" where
  "push grow c k text l =
     (if ntokens c = tokcap c then
        (let cap = (if tokcap c \<noteq> 0 then tokcap c * 2 else 256)
         in if cap > 2000000 then tc_error c l ''source exceeds token limit''
            else if \<not> grow cap then tc_error c l ''out of memory''
            else Done () (c\<lparr>tokens := tokens c @ [\<lparr>tok_kind = k, tok_text = text, tok_loc = l\<rparr>],
                            tokcap := cap\<rparr>))
      else Done () (c\<lparr>tokens := tokens c @ [\<lparr>tok_kind = k, tok_text = text, tok_loc = l\<rparr>]\<rparr>))"

function lex_loop ::
  "(nat \<Rightarrow> bool) \<Rightarrow> string \<Rightarrow> Context \<Rightarrow> string \<Rightarrow> nat \<Rightarrow> nat \<Rightarrow> unit res" where
  "lex_loop grow file c s line col =
     (let l = \<lparr>loc_file = file, loc_line = line, loc_col = col\<rparr>
      in if s = [] then push grow c TK_EOF [] l
         else case lex_one s line col of
                Bad message \<Rightarrow> tc_error c l message
              | Blank s' line' col' \<Rightarrow> lex_loop grow file c s' line' col'
              | Lexed k n \<Rightarrow>
                  (case push grow c k (take n s) l of
                     Done _ c' \<Rightarrow> lex_loop grow file c' (drop n s) line (col + n)
                   | Fail l' m c' \<Rightarrow> Fail l' m c'
                   | Fuel \<Rightarrow> Fuel))"
  by pat_completeness auto
termination
  by (relation "measure (\<lambda>(grow, file, c, s, line, col). length s)")
     (auto dest: lex_one_Lexed_pos lex_one_Blank_less)

declare lex_loop.simps [simp del]

text \<open>The source may start with a byte order mark, which is skipped.\<close>

definition bom :: string where
  "bom = [CHR 0xEF, CHR 0xBB, CHR 0xBF]"

definition lex :: "(nat \<Rightarrow> bool) \<Rightarrow> Context \<Rightarrow> string \<Rightarrow> string \<Rightarrow> unit res" where
  "lex grow c file s = lex_loop grow file c (if take 3 s = bom then drop 3 s else s) 1 1"

section \<open>What a token looks like\<close>

definition digits :: "(char \<Rightarrow> bool) \<Rightarrow> string \<Rightarrow> bool" where
  "digits p s \<longleftrightarrow> s \<noteq> [] \<and> list_all p s"

definition fraction_ok :: "string \<Rightarrow> bool" where
  "fraction_ok s \<longleftrightarrow> s = [] \<or> (\<exists>t. s = CHR ''.'' # t \<and> list_all isdigit t)"

definition exponent_ok :: "string \<Rightarrow> bool" where
  "exponent_ok s \<longleftrightarrow> s = [] \<or> (\<exists>e sign t. s = e # sign @ t \<and> (e = CHR ''e'' \<or> e = CHR ''E'')
     \<and> sign \<in> {[], ''+'', ''-''} \<and> digits isdigit t)"

fun literal_body :: "char \<Rightarrow> string \<Rightarrow> nat \<Rightarrow> bool" where
  "literal_body q [] count \<longleftrightarrow> count = 0"
| "literal_body q (ch # s) count \<longleftrightarrow> ch \<noteq> q \<and> ch \<noteq> CHR 0x0A \<and> ch \<noteq> CHR 0x0D \<and> 0 < count \<and>
     (if ch = CHR 0x5C then
        (case s of [] \<Rightarrow> False
         | e # s1 \<Rightarrow>
             if e = CHR ''x'' then (case s1 of h1 # h2 # s2 \<Rightarrow> isxdigit h1 \<and> isxdigit h2 \<and> literal_body q s2 (count - 1)
                                    | _ \<Rightarrow> False)
             else e \<in> set escapes \<and> literal_body q s1 (count - 1))
      else literal_body q s (count - 1))"

fun token_ok :: "TokenKind \<Rightarrow> string \<Rightarrow> bool" where
  "token_ok TK_EOF s \<longleftrightarrow> s = []"
| "token_ok TK_ID s \<longleftrightarrow> at_class (\<lambda>ch. isalpha ch \<or> ch = CHR ''_'') s \<and> list_all word_char s"
| "token_ok TK_INT s \<longleftrightarrow> digits isdigit s
     \<or> (\<exists>x t. s = CHR ''0'' # x # t \<and> (x = CHR ''x'' \<or> x = CHR ''X'') \<and> digits isxdigit t)"
| "token_ok TK_FLOAT s \<longleftrightarrow> (\<exists>ds fr ex. s = ds @ fr @ ex \<and> digits isdigit ds \<and> fraction_ok fr
     \<and> exponent_ok ex \<and> fr @ ex \<noteq> [])"
| "token_ok TK_STRING s \<longleftrightarrow> (\<exists>body count. s = CHR 0x22 # body @ [CHR 0x22] \<and> literal_body (CHR 0x22) body count)"
| "token_ok TK_CHAR s \<longleftrightarrow> (\<exists>body. s = CHR 0x27 # body @ [CHR 0x27] \<and> literal_body (CHR 0x27) body 1)"
| "token_ok TK_OP s \<longleftrightarrow> s \<in> set ops \<or> (\<exists>ch\<in>set single_ops. s = [ch])"

lemma take_run: "take (run p s) s = takeWhile p s"
  by (simp add: run_def takeWhile_eq_take [symmetric])

lemma run_le: "run p s \<le> length s"
  by (simp add: run_def length_takeWhile_le)

lemma list_all_takeWhile [simp]: "list_all p (takeWhile p s)"
  by (auto simp: list_all_iff dest: set_takeWhileD)

lemma take_plus: "take (m + n) s = take m s @ take n (drop m s)"
  by (rule take_add)

lemma at_class_run: "at_class p s \<Longrightarrow> digits p (takeWhile p s)"
  by (cases s) (simp_all add: digits_def)

lemma at_class_drop:
  "at_class p (drop n s) \<longleftrightarrow> n < length s \<and> p (s ! n)"
  by (cases "n < length s") (simp_all add: Cons_nth_drop_Suc [symmetric] del: drop_Suc_Cons)

lemma fraction_text:
  "\<exists>fr. take (decimal_fraction s n) s = take n s @ fr \<and> fraction_ok fr \<and> (n < decimal_fraction s n \<longrightarrow> fr \<noteq> [])
     \<and> decimal_fraction s n \<le> max n (length s)"
proof (cases "at_class (\<lambda>ch. ch = CHR ''.'') (drop n s) \<and> \<not> at_class (\<lambda>ch. ch = CHR ''.'') (drop (n + 1) s)")
  case True
  then have n: "n < length s" "s ! n = CHR ''.''" by (auto simp: at_class_drop)
  let ?r = "run isdigit (drop (n + 1) s)"
  have "take (n + 1 + ?r) s = take n s @ CHR ''.'' # takeWhile isdigit (drop (n + 1) s)"
    using n by (simp only: take_plus take_run) (simp add: take_Suc_conv_app_nth)
  moreover have "n + 1 + ?r \<le> length s" using n run_le [of isdigit "drop (n + 1) s"] by simp
  ultimately show ?thesis using True
    by (intro exI [of _ "CHR ''.'' # takeWhile isdigit (drop (n + 1) s)"])
       (simp add: decimal_fraction_def fraction_ok_def)
next
  case False
  then have "decimal_fraction s n = n" by (simp only: decimal_fraction_def if_False)
  then show ?thesis by (simp add: fraction_ok_def)
qed

lemma exponent_text:
  assumes "exponent s n = Inr m" "n \<le> length s"
  shows "\<exists>ex. take m s = take n s @ ex \<and> exponent_ok ex \<and> (n < m \<longrightarrow> ex \<noteq> []) \<and> m \<le> length s"
proof (cases "at_class (\<lambda>ch. ch = CHR ''e'' \<or> ch = CHR ''E'') (drop n s)")
  case True
  define sg where "sg = (if at_class (\<lambda>ch. ch = CHR ''+'' \<or> ch = CHR ''-'') (drop (n + 1) s) then 1 else 0 :: nat)"
  have n: "n < length s" "s ! n = CHR ''e'' \<or> s ! n = CHR ''E''" using True by (auto simp: at_class_drop)
  have d: "at_class isdigit (drop (n + 1 + sg) s)"
    and m: "m = n + 1 + sg + run isdigit (drop (n + 1 + sg) s)"
    using assms(1) True by (auto simp: exponent_def Let_def sg_def split: if_splits)
  let ?sign = "take sg (drop (n + 1) s)" and ?t = "takeWhile isdigit (drop (n + 1 + sg) s)"
  have "take m s = take n s @ (s ! n # ?sign @ ?t)"
    using n(1) unfolding m by (simp only: take_plus take_run) (simp add: take_Suc_conv_app_nth)
  moreover have "?sign \<in> {[], ''+'', ''-''}"
    by (cases "drop (n + 1) s") (auto simp: sg_def)
  moreover have "digits isdigit ?t" by (rule at_class_run [OF d])
  moreover have "m \<le> length s" using d run_le [of isdigit "drop (n + 1 + sg) s"]
    unfolding m by (auto simp: at_class_drop)
  moreover from calculation(2,3) have "exponent_ok (s ! n # ?sign @ ?t)"
    using n(2) unfolding exponent_ok_def by blast
  ultimately show ?thesis by blast
next
  case False
  then show ?thesis using assms by (simp add: exponent_def exponent_ok_def)
qed

lemma lex_number_ok:
  assumes "lex_number s = Inr (k, n)" "at_class isdigit s"
  shows "token_ok k (take n s) \<and> n \<le> length s \<and> k \<noteq> TK_EOF"
proof (cases "hex_start s")
  case True
  then obtain x t where s: "s = CHR ''0'' # x # t" "x = CHR ''x'' \<or> x = CHR ''X''"
    by (cases s; cases "tl s") (auto simp: hex_start_def)
  then have "k = TK_INT" "n = 2 + run isxdigit t" "at_class isxdigit t"
    using assms(1) True by (auto simp: lex_number_def Let_def split: if_splits)
  then show ?thesis using s at_class_run [of isxdigit t] run_le [of isxdigit t] by (auto simp: take_run)
next
  case False
  define n0 where "n0 = run isdigit s"
  define n1 where "n1 = decimal_fraction s n0"
  have e: "exponent s n1 = Inr n" and k: "k = (if n0 < n then TK_FLOAT else TK_INT)"
    using assms(1) False by (auto simp: lex_number_def Let_def n0_def n1_def split: if_splits sum.splits)
  have ds: "digits isdigit (take n0 s)"
    unfolding n0_def take_run by (rule at_class_run [OF assms(2)])
  have n0: "n0 \<le> length s" by (simp add: n0_def run_le)
  obtain fr where fr: "take n1 s = take n0 s @ fr" "fraction_ok fr" "n0 < n1 \<Longrightarrow> fr \<noteq> []" "n1 \<le> length s"
    using fraction_text [of s n0] n0 by (auto simp: n1_def)
  obtain ex where ex: "take n s = take n1 s @ ex" "exponent_ok ex" "n1 < n \<Longrightarrow> ex \<noteq> []" "n \<le> length s"
    using exponent_text [OF e fr(4)] by auto
  have "n0 \<le> n1" "n1 \<le> n" using decimal_fraction_ge exponent_ge [OF e] by (auto simp: n1_def)
  show ?thesis
  proof (cases "n0 < n")
    case True
    then have "fr @ ex \<noteq> []" using fr(3) ex(3) \<open>n0 \<le> n1\<close> \<open>n1 \<le> n\<close> by (cases "n0 < n1") auto
    then show ?thesis using True k ds fr(1,2) ex(1,2,4)
      by (simp only: token_ok.simps if_True) (intro conjI exI [of _ "take n0 s"] exI [of _ fr] exI [of _ ex], auto)
  next
    case False
    then have "n = n0" using \<open>n0 \<le> n1\<close> \<open>n1 \<le> n\<close> by simp
    then show ?thesis using k ds n0 by simp
  qed
qed

lemma literal_loop_ok:
  "literal_loop q s i count = Inr (n, c) \<Longrightarrow>
   \<exists>body rest. s = body @ q # rest \<and> n = i + length body + 1 \<and> count \<le> c \<and> literal_body q body (c - count)"
proof (induction q s i count rule: literal_loop.induct)
  case (2 q ch s i count)
  note step = "2.prems" [unfolded literal_loop.simps]
  show ?case
  proof (cases "ch = q")
    case True
    then show ?thesis using step by (intro exI [of _ "[]"] exI [of _ s]) auto
  next
    case q: False
    then have nl: "ch \<noteq> CHR 0x0A" "ch \<noteq> CHR 0x0D" using step by (auto split: if_splits)
    show ?thesis
    proof (cases "ch = CHR 0x5C")
      case False
      then have "literal_loop q s (i + 1) (count + 1) = Inr (n, c)" using step q nl by simp
      then obtain body rest where "s = body @ q # rest" "n = i + 1 + length body + 1" "count + 1 \<le> c"
          "literal_body q body (c - (count + 1))"
        using "2.IH"(3) q nl False by blast
      then show ?thesis using q nl False by (intro exI [of _ "ch # body"] exI [of _ rest]) simp
    next
      case bs: True
      then obtain e s1 where s: "s = e # s1" using step q by (cases s) auto
      show ?thesis
      proof (cases "e = CHR ''x''")
        case True
        then obtain h1 h2 s2 where s1: "s1 = h1 # h2 # s2" "isxdigit h1" "isxdigit h2"
            "literal_loop q s2 (i + 4) (count + 1) = Inr (n, c)"
          using step q bs s by (auto split: list.splits if_splits)
        then obtain body rest where "s2 = body @ q # rest" "n = i + 4 + length body + 1" "count + 1 \<le> c"
            "literal_body q body (c - (count + 1))"
          using "2.IH"(1) [OF q _ bs s True s1(1) refl] nl by auto
        then show ?thesis using q nl bs s True s1
          by (intro exI [of _ "ch # e # h1 # h2 # body"] exI [of _ rest]) simp
      next
        case False
        then have e: "e \<in> set escapes" "literal_loop q s1 (i + 2) (count + 1) = Inr (n, c)"
          using step q bs s by (auto split: if_splits)
        then obtain body rest where "s1 = body @ q # rest" "n = i + 2 + length body + 1" "count + 1 \<le> c"
            "literal_body q body (c - (count + 1))"
          using "2.IH"(2) [OF q _ bs s False] nl by auto
        then show ?thesis using q nl bs s False e(1)
          by (intro exI [of _ "ch # e # body"] exI [of _ rest]) simp
      qed
    qed
  qed
qed simp


lemma lex_literal_ok:
  assumes "lex_literal q s = Inr (k, n)" "q = CHR 0x22 \<or> q = CHR 0x27"
  shows "token_ok k (take n (q # s)) \<and> n \<le> Suc (length s) \<and> k \<noteq> TK_EOF"
proof -
  obtain c where l: "literal_loop q s 1 0 = Inr (n, c)" "q = CHR 0x27 \<Longrightarrow> c = 1"
      "k = (if q = CHR 0x22 then TK_STRING else TK_CHAR)"
    using assms(1) by (auto simp: lex_literal_def split: sum.splits if_splits)
  then obtain body rest where b: "s = body @ q # rest" "n = 2 + length body" "literal_body q body c"
    using literal_loop_ok [of q s 1 0 n c] by auto
  then have "take n (q # s) = q # body @ [q]" by simp
  then show ?thesis using assms(2) b l by auto
qed

lemma lex_token_ok:
  assumes "lex_token ch s = Lexed k n"
  shows "token_ok k (take n (ch # s)) \<and> n \<le> Suc (length s) \<and> k \<noteq> TK_EOF"
proof -
  consider "isalpha ch \<or> ch = CHR ''_''"
    | "\<not> (isalpha ch \<or> ch = CHR ''_'')" "isdigit ch"
    | "\<not> (isalpha ch \<or> ch = CHR ''_'')" "\<not> isdigit ch" "ch = CHR 0x22 \<or> ch = CHR 0x27"
    | "\<not> (isalpha ch \<or> ch = CHR ''_'')" "\<not> isdigit ch" "\<not> (ch = CHR 0x22 \<or> ch = CHR 0x27)" by blast
  then show ?thesis
  proof cases
    case 1
    then show ?thesis using assms run_le [of word_char s]
      by (auto simp: lex_token_def take_run word_char_def isalnum_def)
  next
    case 2
    then show ?thesis using assms lex_number_ok [of "ch # s" k n]
      by (auto simp only: lex_token_def if_False if_True at_class.simps length_Cons split: sum.splits prod.splits)
  next
    case 3
    then show ?thesis using assms lex_literal_ok [of ch s k n]
      by (auto simp only: lex_token_def if_False if_True split: sum.splits prod.splits)
  next
    case 4
    show ?thesis
    proof (cases "find_op (ch # s)")
      case None
      then have "k = TK_OP" "n = 1" "ch \<in> set single_ops"
        using assms 4 by (auto simp: lex_token_def split: if_splits)
      then show ?thesis by auto
    next
      case (Some op)
      then have "k = TK_OP" "n = length op" using assms 4 by (auto simp: lex_token_def)
      then show ?thesis using find_op_Some [OF Some]
        by (auto dest: arg_cong [of _ _ length])
    qed
  qed
qed

lemma word_char_not_newline: "word_char ch \<Longrightarrow> ch \<noteq> CHR 0x0A"
  by (auto simp: word_char_def isalnum_def isalpha_def isupper_def isdigit_def)

lemma isdigit_not_newline: "isdigit ch \<Longrightarrow> ch \<noteq> CHR 0x0A"
  by (auto simp: isdigit_def)

lemma isxdigit_not_newline: "isxdigit ch \<Longrightarrow> ch \<noteq> CHR 0x0A"
  by (auto simp: isxdigit_def isdigit_def)

lemma escapes_no_newline: "CHR 0x0A \<notin> set escapes"
  by (simp add: escapes_def)

lemma literal_body_no_newline: "literal_body q s count \<Longrightarrow> CHR 0x0A \<notin> set s"
proof (induction q s count rule: literal_body.induct)
  case (2 q ch s count)
  note body = "2.prems" [unfolded literal_body.simps]
  have nl: "ch \<noteq> CHR 0x0A" using body by simp
  show ?case
  proof (cases "ch = CHR 0x5C")
    case False
    then show ?thesis using body "2.IH"(3) nl by simp
  next
    case bs: True
    then obtain e s1 where s: "s = e # s1" using body by (cases s) auto
    show ?thesis
    proof (cases "e = CHR ''x''")
      case True
      then obtain h1 h2 s2 where s1: "s1 = h1 # h2 # s2" using body bs s by (auto split: list.splits)
      then have h: "isxdigit h1" "isxdigit h2" "literal_body q s2 (count - 1)" using body bs s True by auto
      then have "CHR 0x0A \<notin> set s2" using "2.IH"(1) [OF bs s True s1 refl] by blast
      then show ?thesis using nl s s1 True h(1,2) isxdigit_not_newline by auto
    next
      case False
      then have e: "e \<in> set escapes" "literal_body q s1 (count - 1)" using body bs s by auto
      then have "CHR 0x0A \<notin> set s1" using "2.IH"(2) [OF bs s False] by blast
      then show ?thesis using nl s e(1) escapes_no_newline by auto
    qed
  qed
qed simp

lemma ops_no_newline: "op \<in> set ops \<Longrightarrow> CHR 0x0A \<notin> set op"
  by (auto simp: ops_def)

lemma single_ops_no_newline: "CHR 0x0A \<notin> set single_ops"
  by (simp add: single_ops_def)

lemma digits_no_newline: "digits isdigit s \<Longrightarrow> CHR 0x0A \<notin> set s" "digits isxdigit s \<Longrightarrow> CHR 0x0A \<notin> set s"
  "list_all isdigit s \<Longrightarrow> CHR 0x0A \<notin> set s" "list_all word_char s \<Longrightarrow> CHR 0x0A \<notin> set s"
  by (auto simp: digits_def list_all_iff dest: isdigit_not_newline isxdigit_not_newline word_char_not_newline)

text \<open>No token goes over the end of its line.\<close>

lemma token_no_newline: "token_ok k s \<Longrightarrow> CHR 0x0A \<notin> set s"
proof (cases k)
  case TK_INT
  assume "token_ok k s"
  then show ?thesis using TK_INT digits_no_newline(1,2) by auto
next
  case TK_FLOAT
  assume "token_ok k s"
  then obtain ds fr ex where f: "s = ds @ fr @ ex" "digits isdigit ds" "fraction_ok fr" "exponent_ok ex"
    using TK_FLOAT by auto
  have "CHR 0x0A \<notin> set fr" using f(3) digits_no_newline(3) by (auto simp: fraction_ok_def)
  moreover have "CHR 0x0A \<notin> set ex" using f(4) digits_no_newline(1) by (auto simp: exponent_ok_def)
  ultimately show ?thesis using f(1,2) digits_no_newline(1) by auto
qed (auto dest: digits_no_newline ops_no_newline literal_body_no_newline simp: single_ops_no_newline)

section \<open>The tokens spell the source\<close>

fun advance1 :: "nat \<times> nat \<Rightarrow> char \<Rightarrow> nat \<times> nat" where
  "advance1 (line, col) ch = (if ch = CHR 0x0A then (line + 1, 1) else (line, col + 1))"

definition advance :: "nat \<times> nat \<Rightarrow> string \<Rightarrow> nat \<times> nat" where
  "advance lc s = foldl advance1 lc s"

lemma advance_simps [simp]:
  "advance lc [] = lc" "advance lc (ch # s) = advance (advance1 lc ch) s"
  "advance lc (s @ t) = advance (advance lc s) t"
  by (simp_all add: advance_def)

lemma advance_line: "CHR 0x0A \<notin> set s \<Longrightarrow> advance (line, col) s = (line, col + length s)"
  by (induction s arbitrary: col) auto

text \<open>The inside of a comment at nesting level \<open>n\<close>, up to the end of the outermost comment.\<close>

inductive comment_tail :: "nat \<Rightarrow> string \<Rightarrow> bool" where
  comment_closed: "comment_tail 0 []"
| comment_open: "comment_tail (n + 2) s \<Longrightarrow> comment_tail (n + 1) (''/*'' @ s)"
| comment_close: "comment_tail n s \<Longrightarrow> comment_tail (n + 1) (''*/'' @ s)"
| comment_char: "comment_tail (n + 1) s \<Longrightarrow>
    \<not> (ch = CHR ''/'' \<and> at_class (\<lambda>d. d = CHR ''*'') s) \<Longrightarrow>
    \<not> (ch = CHR ''*'' \<and> at_class (\<lambda>d. d = CHR ''/'') s) \<Longrightarrow> comment_tail (n + 1) (ch # s)"

text \<open>
  \<open>spells file lc s ts\<close>: the source text \<open>s\<close>, which starts at line and column \<open>lc\<close>, is made of
  blanks, comments and the tokens \<open>ts\<close>, whose last one is the end of the file.
\<close>

inductive spells :: "string \<Rightarrow> nat \<times> nat \<Rightarrow> string \<Rightarrow> Token list \<Rightarrow> bool" where
  spells_end: "spells file lc []
    [\<lparr>tok_kind = TK_EOF, tok_text = [], tok_loc = \<lparr>loc_file = file, loc_line = fst lc, loc_col = snd lc\<rparr>\<rparr>]"
| spells_space: "isspace ch \<Longrightarrow> spells file (advance1 lc ch) s ts \<Longrightarrow> spells file lc (ch # s) ts"
| spells_line_comment: "CHR 0x0A \<notin> set body \<Longrightarrow> s = [] \<or> hd s = CHR 0x0A \<Longrightarrow>
    spells file (advance lc (''//'' @ body)) s ts \<Longrightarrow> spells file lc (''//'' @ body @ s) ts"
| spells_block_comment: "comment_tail 1 body \<Longrightarrow>
    spells file (advance lc (''/*'' @ body)) s ts \<Longrightarrow> spells file lc (''/*'' @ body @ s) ts"
| spells_token: "token_ok k text \<Longrightarrow> text \<noteq> [] \<Longrightarrow> k \<noteq> TK_EOF \<Longrightarrow>
    spells file (advance lc text) s ts \<Longrightarrow>
    spells file lc (text @ s)
      (\<lparr>tok_kind = k, tok_text = text,
        tok_loc = \<lparr>loc_file = file, loc_line = fst lc, loc_col = snd lc\<rparr>\<rparr> # ts)"

lemma block_comment_tail:
  "block_comment s level line col = (rest, level', line', col') \<Longrightarrow> level' = 0 \<Longrightarrow>
   \<exists>body. s = body @ rest \<and> comment_tail level body \<and> (line', col') = advance (line, col) body"
proof (induction s level line col rule: block_comment.induct)
  case (1 level line col)
  then show ?case by (auto intro: comment_closed)
next
  case (2 ch s level line col)
  note step = "2.prems"(1)
  show ?case
  proof (cases level)
    case 0
    then show ?thesis using step by (auto intro: comment_closed)
  next
    case (Suc n)
    consider (op) t where "ch = CHR ''/''" "s = CHR ''*'' # t"
      | (cl) t where "ch = CHR ''*''" "s = CHR ''/'' # t"
      | (plain) "\<not> (ch = CHR ''/'' \<and> at_class (\<lambda>d. d = CHR ''*'') s)"
          "\<not> (ch = CHR ''*'' \<and> at_class (\<lambda>d. d = CHR ''/'') s)"
      by (cases s) auto
    then show ?thesis
    proof cases
      case op
      then obtain body where "t = body @ rest" "comment_tail (n + 2) body"
          "(line', col') = advance (line, col + 2) body"
        using "2.IH"(1) step "2.prems"(2) Suc by auto
      then show ?thesis using op Suc comment_open [of n body]
        by (intro exI [of _ "''/*'' @ body"]) simp
    next
      case cl
      then obtain body where "t = body @ rest" "comment_tail n body"
          "(line', col') = advance (line, col + 2) body"
        using "2.IH"(2) step "2.prems"(2) Suc by auto
      then show ?thesis using cl Suc comment_close [of n body]
        by (intro exI [of _ "''*/'' @ body"]) simp
    next
      case plain
      have nl: "level \<noteq> 0" using Suc by simp
      have eq: "block_comment s level (fst (advance1 (line, col) ch)) (snd (advance1 (line, col) ch))
          = (rest, level', line', col')"
        using step plain nl by (simp del: at_class.simps split: if_splits)
      have "\<exists>body. s = body @ rest \<and> comment_tail level body
          \<and> (line', col') = advance (advance1 (line, col) ch) body"
      proof (cases "ch = CHR 0x0A")
        case True
        then show ?thesis using "2.IH"(3) [OF nl plain True] eq "2.prems"(2) by simp
      next
        case False
        then show ?thesis using "2.IH"(4) [OF nl plain False] eq "2.prems"(2) by simp
      qed
      then obtain body where body: "s = body @ rest" "comment_tail level body"
          "(line', col') = advance (advance1 (line, col) ch) body" by blast
      have "at_class p body \<Longrightarrow> at_class p s" for p using body(1) by (cases body) auto
      then have "comment_tail (n + 1) (ch # body)"
        using body(2) plain Suc by (intro comment_char) auto
      then show ?thesis using body Suc by (intro exI [of _ "ch # body"]) simp
    qed
  qed
qed

lemma push_Done:
  "push grow c k text l = Done u c' \<Longrightarrow>
   tokens c' = tokens c @ [\<lparr>tok_kind = k, tok_text = text, tok_loc = l\<rparr>]
   \<and> pos c' = pos c \<and> types c' = types c \<and> next_id c' = next_id c \<and> errors c' = errors c
   \<and> depth c' = depth c \<and> builtin c' = builtin c"
  by (auto simp: push_def tc_error_def Let_def split: if_splits)

lemma spells_blank:
  assumes blank: "lex_one s line col = Blank s' line' col'" and "s \<noteq> []"
    and ts: "spells fname (line', col') s' ts"
  shows "spells fname (line, col) s ts"
proof -
  obtain ch t where s: "s = ch # t" using assms(2) by (cases s) auto
  note b = blank [unfolded s]
  show ?thesis
  proof (rule lex_one_cases [where ch = ch and s = t])
    assume a: "isspace ch"
    have "(line', col') = advance1 (line, col) ch" "s' = t"
      using b unfolding lex_one_space [OF a] by (simp_all split: if_splits)
    then show ?thesis using ts s spells_space [OF a] by simp
  next
    assume a: "\<not> isspace ch" "ch = CHR ''/''" "at_class (\<lambda>d. d = CHR ''/'') t"
    then obtain u where t: "t = CHR ''/'' # u" by (cases t) auto
    define body where "body = takeWhile (\<lambda>d. d \<noteq> CHR 0x0A) u"
    define s2 where "s2 = dropWhile (\<lambda>d. d \<noteq> CHR 0x0A) u"
    have u: "u = body @ s2" by (simp add: body_def s2_def)
    have nb: "CHR 0x0A \<notin> set body" by (auto simp: body_def dest: set_takeWhileD)
    have r: "run (\<lambda>d. d \<noteq> CHR 0x0A) (ch # t) = 2 + length body"
      by (simp add: run_def a(2) t body_def)
    have "drop (2 + length body) (ch # t) = s2" by (simp add: t u)
    then have s': "s' = s2" "line' = line" "col' = col + 2 + length body"
      using b unfolding lex_one_line_comment [OF a] Let_def r by simp_all
    have "s2 = [] \<or> hd s2 = CHR 0x0A"
      unfolding s2_def using hd_dropWhile [of "\<lambda>d. d \<noteq> CHR 0x0A" u] by blast
    moreover have "spells fname (advance (line, col) (''//'' @ body)) s2 ts"
      using ts s' nb by (simp add: advance_line)
    ultimately have "spells fname (line, col) (''//'' @ body @ s2) ts"
      using nb by (intro spells_line_comment)
    moreover have "s = ''//'' @ body @ s2" using s a(2) t u by simp
    ultimately show ?thesis by simp
  next
    assume a: "\<not> isspace ch" "ch = CHR ''/''" "at_class (\<lambda>d. d = CHR ''*'') t"
    then obtain u where t: "t = CHR ''*'' # u" by (cases t) auto
    obtain r lv l c where bc: "block_comment u 1 line (col + 2) = (r, lv, l, c)"
      by (cases "block_comment u 1 line (col + 2)")
    then have "lv = 0" "r = s'" "l = line'" "c = col'"
      using b unfolding lex_one_block_comment [OF a] by (simp_all add: t split: if_splits)
    then obtain body where body: "u = body @ s'" "comment_tail 1 body"
        "(line', col') = advance (line, col + 2) body"
      using block_comment_tail [OF bc] by blast
    have "spells fname (line, col) (''/*'' @ body @ s') ts"
      by (rule spells_block_comment [OF body(2)]) (use ts body(3) in simp)
    then show ?thesis using s a(2) t body(1) by simp
  next
    assume "token_start ch t"
    then show ?thesis using b lex_token_not_Blank by (simp add: lex_one_token)
  qed
qed

lemma spells_lexed:
  assumes "lex_one s line col = Lexed k n" and ts: "spells fname (line, col + n) (drop n s) ts"
  shows "spells fname (line, col) s
    (\<lparr>tok_kind = k, tok_text = take n s,
      tok_loc = \<lparr>loc_file = fname, loc_line = line, loc_col = col\<rparr>\<rparr> # ts)"
proof -
  obtain ch t where s: "s = ch # t" and tok: "lex_token ch t = Lexed k n"
    using lex_one_Lexed [OF assms(1)] by blast
  have ok: "token_ok k (take n s)" "n \<le> length s" "k \<noteq> TK_EOF"
    using lex_token_ok [OF tok] s by auto
  have ne: "take n s \<noteq> []" using lex_token_pos [OF tok] s by simp
  have "advance (line, col) (take n s) = (line, col + n)"
    using advance_line [OF token_no_newline [OF ok(1)]] ok(2) by simp
  then show ?thesis
    using spells_token [OF ok(1) ne ok(3), of fname "(line, col)" "drop n s" ts] ts by simp
qed

lemma lex_loop_end:
  "lex_loop grow fname c [] line col
     = push grow c TK_EOF [] \<lparr>loc_file = fname, loc_line = line, loc_col = col\<rparr>"
  by (simp add: lex_loop.simps)

lemma lex_loop_step:
  "s \<noteq> [] \<Longrightarrow> lex_loop grow fname c s line col =
     (let l = \<lparr>loc_file = fname, loc_line = line, loc_col = col\<rparr>
      in case lex_one s line col of
           Bad message \<Rightarrow> tc_error c l message
         | Blank s' line' col' \<Rightarrow> lex_loop grow fname c s' line' col'
         | Lexed k n \<Rightarrow>
             (case push grow c k (take n s) l of
                Done _ c' \<Rightarrow> lex_loop grow fname c' (drop n s) line (col + n)
              | Fail l' m c' \<Rightarrow> Fail l' m c'
              | Fuel \<Rightarrow> Fuel))"
  by (subst lex_loop.simps) simp

lemma lex_loop_spells:
  "lex_loop grow fname c s line col = Done u c' \<Longrightarrow>
   \<exists>ts. tokens c' = tokens c @ ts \<and> spells fname (line, col) s ts"
proof (induction "length s" arbitrary: c s line col rule: less_induct)
  case less
  let ?l = "\<lparr>loc_file = fname, loc_line = line, loc_col = col\<rparr>"
  show ?case
  proof (cases "s = []")
    case True
    then have "push grow c TK_EOF [] ?l = Done u c'" using less.prems by (simp add: lex_loop_end)
    then show ?thesis using push_Done spells_end [of fname "(line, col)"] True by fastforce
  next
    case ne: False
    note step = less.prems [unfolded lex_loop_step [OF ne] Let_def]
    show ?thesis
    proof (cases "lex_one s line col")
      case (Bad m)
      then show ?thesis using step by (simp add: tc_error_def)
    next
      case (Lexed k n)
      obtain v c1 where push: "push grow c k (take n s) ?l = Done v c1"
          "lex_loop grow fname c1 (drop n s) line (col + n) = Done u c'"
        using step Lexed by (cases "push grow c k (take n s) ?l") auto
      have "length (drop n s) < length s" using lex_one_Lexed_pos [OF Lexed] by simp
      from less.hyps [OF this push(2)] obtain ts
        where "tokens c' = tokens c1 @ ts" "spells fname (line, col + n) (drop n s) ts" by blast
      then show ?thesis using spells_lexed [OF Lexed] push_Done [OF push(1)] by auto
    next
      case (Blank s' line' col')
      then have "lex_loop grow fname c s' line' col' = Done u c'" using step by simp
      from less.hyps [OF lex_one_Blank_less [OF Blank ne] this] show ?thesis
        using spells_blank [OF Blank ne] by blast
    qed
  qed
qed

text \<open>
  Claim C14. Lexing loses nothing and invents nothing: when \<open>lex\<close> returns, the tokens it added, with
  blanks, line comments and (nested) block comments between them, spell the source after the byte
  order mark; every token is well formed for its kind and carries the line and column at which its
  text starts; and the last token, at the end of the text, is the end of file.
\<close>

theorem lex_spells_source:
  assumes "lex grow c file s = Done u c'"
  shows "\<exists>ts. tokens c' = tokens c @ ts
     \<and> spells file (1, 1) (if take 3 s = bom then drop 3 s else s) ts"
  using lex_loop_spells [OF assms [unfolded lex_def]] .

definition lex_sample :: string where
  "lex_sample = ''a/* x */ += 1''"

definition sample_tokens :: "Token list" where
  "sample_tokens =
     [\<lparr>tok_kind = TK_ID, tok_text = ''a'', tok_loc = \<lparr>loc_file = ''f'', loc_line = 1, loc_col = 1\<rparr>\<rparr>,
      \<lparr>tok_kind = TK_OP, tok_text = ''+='', tok_loc = \<lparr>loc_file = ''f'', loc_line = 1, loc_col = 10\<rparr>\<rparr>,
      \<lparr>tok_kind = TK_INT, tok_text = ''1'', tok_loc = \<lparr>loc_file = ''f'', loc_line = 1, loc_col = 13\<rparr>\<rparr>,
      \<lparr>tok_kind = TK_EOF, tok_text = [], tok_loc = \<lparr>loc_file = ''f'', loc_line = 1, loc_col = 14\<rparr>\<rparr>]"

lemma take_drop_1: "take 1 (x # xs) = [x]" "drop 1 (x # xs) = xs"
  by simp_all

lemma sample_steps:
  "lex_one ''a/* x */ += 1'' 1 1 = Lexed TK_ID 1"
  "lex_one ''/* x */ += 1'' 1 2 = Blank '' += 1'' 1 9"
  "lex_one '' += 1'' 1 9 = Blank ''+= 1'' 1 10"
  "lex_one ''+= 1'' 1 10 = Lexed TK_OP 2"
  "lex_one '' 1'' 1 12 = Blank ''1'' 1 13"
  "lex_one ''1'' 1 13 = Lexed TK_INT 1"
  by code_simp+

lemma lex_sample_tokens:
  "\<exists>c. lex (\<lambda>_. True) empty_context ''f'' lex_sample = Done () c \<and> tokens c = sample_tokens"
  by (simp add: lex_def bom_def lex_sample_def lex_loop_step lex_loop_end sample_steps Let_def push_def
      empty_context_def ntokens_def sample_tokens_def take_drop_1 del: One_nat_def)

theorem lex_spells_source_witness: "spells ''f'' (1, 1) lex_sample sample_tokens"
proof -
  obtain c where c: "lex (\<lambda>_. True) empty_context ''f'' lex_sample = Done () c" "tokens c = sample_tokens"
    using lex_sample_tokens by blast
  then show ?thesis
    using lex_spells_source [OF c(1)] by (auto simp: empty_context_def lex_sample_def bom_def)
qed

section \<open>Lexing the tokens' texts again\<close>

lemma at_class_cut:
  assumes "n \<le> length s" "m \<le> n" "\<not> p (CHR '' '')"
  shows "at_class p (drop m (take n s @ CHR '' '' # r)) \<longleftrightarrow> m < n \<and> at_class p (drop m s)"
proof -
  have "drop m (take n s @ CHR '' '' # r) = take (n - m) (drop m s) @ CHR '' '' # r"
    using assms(1,2) by (simp add: drop_take)
  moreover have "at_class p (take k t @ CHR '' '' # r) \<longleftrightarrow> 0 < k \<and> at_class p t" if "k \<le> length t" for k t
    using that assms(3) by (cases k; cases t) auto
  ultimately show ?thesis using assms(1,2) by simp
qed

lemma run_cut:
  assumes "n \<le> length s" "m \<le> n" "\<not> p (CHR '' '')"
  shows "run p (drop m (take n s @ CHR '' '' # r)) = min (run p (drop m s)) (n - m)"
proof -
  have "drop m (take n s @ CHR '' '' # r) = take (n - m) (drop m s) @ CHR '' '' # r"
    using assms(1,2) by (simp add: drop_take)
  moreover have "run p (take k t @ CHR '' '' # r) = min (run p t) k" if "k \<le> length t" for k t
    using that
  proof (induction k arbitrary: t)
    case 0
    then show ?case using assms(3) by (simp add: run_def)
  next
    case (Suc k)
    then obtain x xs where t: "t = x # xs" by (cases t) auto
    then show ?case using Suc.IH [of xs] Suc.prems by (simp add: run_def)
  qed
  ultimately show ?thesis using assms(1,2) by simp
qed

lemma space_classes [simp]:
  "\<not> isdigit (CHR '' '')" "\<not> isxdigit (CHR '' '')" "\<not> isalpha (CHR '' '')" "\<not> word_char (CHR '' '')"
  "isspace (CHR '' '')"
  by (simp_all add: isdigit_def isxdigit_def isalpha_def isupper_def word_char_def isalnum_def isspace_def)

lemma decimal_fraction_cut:
  assumes "n \<le> length s" "exponent s (decimal_fraction s n0) = Inr n"
  shows "decimal_fraction (take n s @ CHR '' '' # r) n0 = decimal_fraction s n0"
proof -
  let ?dot = "\<lambda>m t. at_class (\<lambda>ch. ch = CHR ''.'') (drop m t)"
  let ?s = "take n s @ CHR '' '' # r" and ?n1 = "decimal_fraction s n0"
  have n1: "n0 \<le> ?n1" "?n1 \<le> n" using decimal_fraction_ge exponent_ge [OF assms(2)] by auto
  have cut: "m \<le> n \<Longrightarrow> ?dot m ?s \<longleftrightarrow> m < n \<and> ?dot m s" for m
    by (rule at_class_cut [OF assms(1)]) simp_all
  show ?thesis
  proof (cases "?dot n0 s \<and> \<not> ?dot (n0 + 1) s")
    case True
    then have d: "?n1 = n0 + 1 + run isdigit (drop (n0 + 1) s)" by (simp only: decimal_fraction_def if_True simp_thms)
    then have le: "n0 + 1 \<le> n" using n1 by simp
    have "run isdigit (drop (n0 + 1) ?s) = run isdigit (drop (n0 + 1) s)"
      using run_cut [OF assms(1) le, of isdigit r] d n1(2) by simp
    moreover have "?dot n0 ?s" "\<not> ?dot (n0 + 1) ?s"
      using cut [of n0] cut [OF le] True le by auto
    ultimately show ?thesis using d by (simp only: decimal_fraction_def if_True simp_thms)
  next
    case False
    then have d: "?n1 = n0" by (simp only: decimal_fraction_def if_False)
    have "\<not> ?dot n0 ?s"
    proof
      assume a: "?dot n0 ?s"
      then have "n0 < n" "?dot n0 s" using cut [of n0] n1 by auto
      then have "\<not> at_class (\<lambda>ch. ch = CHR ''e'' \<or> ch = CHR ''E'') (drop n0 s)"
        by (auto simp: at_class_drop)
      then have "n = n0" using assms(2) d by (simp add: exponent_def)
      then show False using \<open>n0 < n\<close> by simp
    qed
    then show ?thesis using d by (simp add: decimal_fraction_def)
  qed
qed

lemma exponent_cut:
  assumes "n \<le> length s" "n1 \<le> n" "exponent s n1 = Inr n"
  shows "exponent (take n s @ CHR '' '' # r) n1 = Inr n"
proof (cases "at_class (\<lambda>ch. ch = CHR ''e'' \<or> ch = CHR ''E'') (drop n1 s)")
  case True
  define sg where "sg = (if at_class (\<lambda>ch. ch = CHR ''+'' \<or> ch = CHR ''-'') (drop (n1 + 1) s) then 1 else 0 :: nat)"
  let ?s = "take n s @ CHR '' '' # r"
  have d: "at_class isdigit (drop (n1 + 1 + sg) s)"
    and m: "n = n1 + 1 + sg + run isdigit (drop (n1 + 1 + sg) s)"
    using assms(3) True by (auto simp: exponent_def Let_def sg_def split: if_splits)
  have pos: "0 < run isdigit (drop (n1 + 1 + sg) s)"
    using at_class_run [OF d] by (auto simp: run_def digits_def)
  have le: "n1 + 1 + sg < n" using m pos by simp
  have e: "at_class (\<lambda>ch. ch = CHR ''e'' \<or> ch = CHR ''E'') (drop n1 ?s)"
    using at_class_cut [OF assms(1,2), of "\<lambda>ch. ch = CHR ''e'' \<or> ch = CHR ''E''" r] True le by simp
  have sgn: "(if at_class (\<lambda>ch. ch = CHR ''+'' \<or> ch = CHR ''-'') (drop (n1 + 1) ?s) then 1 else 0) = sg"
    using at_class_cut [OF assms(1), of "n1 + 1" "\<lambda>ch. ch = CHR ''+'' \<or> ch = CHR ''-''" r] le
    by (simp add: sg_def)
  have dg: "at_class isdigit (drop (n1 + 1 + sg) ?s)"
    using at_class_cut [OF assms(1), of "n1 + 1 + sg" isdigit r] le d by simp
  have rn: "run isdigit (drop (n1 + 1 + sg) ?s) = run isdigit (drop (n1 + 1 + sg) s)"
    using run_cut [OF assms(1), of "n1 + 1 + sg" isdigit r] le m by simp
  show ?thesis unfolding exponent_def Let_def sgn
    using e dg rn m by simp
next
  case False
  then have "n = n1" using assms(3) by (simp add: exponent_def)
  then show ?thesis
    using at_class_cut [OF assms(1,2), of "\<lambda>ch. ch = CHR ''e'' \<or> ch = CHR ''E''" r]
    by (simp add: exponent_def)
qed

lemma tl_drop_1: "tl xs = drop 1 xs"
  by (simp add: drop_Suc)

lemma lex_number_cut:
  assumes "lex_number s = Inr (k, n)" "at_class isdigit s"
  shows "lex_number (take n s @ CHR '' '' # r) = Inr (k, n)"
proof -
  let ?s = "take n s @ CHR '' '' # r"
  have n: "n \<le> length s" "0 < n" using lex_number_ok [OF assms] lex_number_pos [OF assms] by auto
  have cut: "m \<le> n \<Longrightarrow> \<not> p (CHR '' '') \<Longrightarrow> at_class p (drop m ?s) \<longleftrightarrow> m < n \<and> at_class p (drop m s)" for m p
    by (rule at_class_cut [OF n(1)])
  have suffix: "\<not> at_class (\<lambda>ch. isalpha ch \<or> ch = CHR ''_'') (drop n ?s)"
    using cut [of n] by (simp add: space_classes)
  have hs: "hex_start ?s \<longleftrightarrow> 1 < n \<and> hex_start s"
    using cut [of 0 "\<lambda>ch. ch = CHR ''0''"] cut [of 1 "\<lambda>ch. ch = CHR ''x'' \<or> ch = CHR ''X''"] n(2)
    unfolding hex_start_def tl_drop_1 drop_0 by (auto simp: Suc_le_eq simp del: drop_append)
  show ?thesis
  proof (cases "hex_start s")
    case True
    have h: "k = TK_INT" "n = 2 + run isxdigit (drop 2 s)" "at_class isxdigit (drop 2 s)"
      using assms(1) True by (auto simp: lex_number_def Let_def split: if_splits)
    have "0 < run isxdigit (drop 2 s)" using at_class_run [OF h(3)] by (auto simp: run_def digits_def)
    then have "at_class isxdigit (drop 2 ?s)" "run isxdigit (drop 2 ?s) = run isxdigit (drop 2 s)" "hex_start ?s"
      using cut [of 2 isxdigit] run_cut [OF n(1), of 2 isxdigit r] h hs True by auto
    then show ?thesis using h(1,2) suffix by (simp add: lex_number_def Let_def)
  next
    case False
    let ?n0 = "run isdigit s"
    have e: "exponent s (decimal_fraction s ?n0) = Inr n" and k: "k = (if ?n0 < n then TK_FLOAT else TK_INT)"
      using assms(1) False by (auto simp: lex_number_def Let_def split: if_splits sum.splits)
    have le: "?n0 \<le> decimal_fraction s ?n0" "decimal_fraction s ?n0 \<le> n"
      using decimal_fraction_ge exponent_ge [OF e] by auto
    have "run isdigit ?s = ?n0" using run_cut [OF n(1), of 0 isdigit r] le by simp
    moreover have "decimal_fraction ?s ?n0 = decimal_fraction s ?n0" by (rule decimal_fraction_cut [OF n(1) e])
    moreover have "exponent ?s (decimal_fraction s ?n0) = Inr n" by (rule exponent_cut [OF n(1) le(2) e])
    ultimately show ?thesis using False hs k suffix by (simp add: lex_number_def Let_def)
  qed
qed

lemma literal_loop_body:
  "literal_body q body c \<Longrightarrow> literal_loop q (body @ q # rest) i count = Inr (i + length body + 1, count + c)"
proof (induction q body c arbitrary: i count rule: literal_body.induct)
  case (2 q ch s c)
  note body = "2.prems" [unfolded literal_body.simps]
  show ?case
  proof (cases "ch = CHR 0x5C")
    case False
    then show ?thesis using body "2.IH"(3) by simp
  next
    case bs: True
    then obtain e s1 where s: "s = e # s1" using body by (cases s) auto
    show ?thesis
    proof (cases "e = CHR ''x''")
      case True
      then obtain h1 h2 s2 where s1: "s1 = h1 # h2 # s2" using body bs s by (auto split: list.splits)
      then have h: "isxdigit h1" "isxdigit h2" "literal_body q s2 (c - 1)" using body bs s True by auto
      then show ?thesis using "2.IH"(1) [OF bs s True s1 refl h(3)] body bs s s1 True by simp
    next
      case False
      then have e: "e \<in> set escapes" "literal_body q s1 (c - 1)" using body bs s by auto
      then show ?thesis using "2.IH"(2) [OF bs s False e(2)] body bs s False by simp
    qed
  qed
qed simp

lemma take_cut: "n \<le> length s \<Longrightarrow> l \<le> n \<Longrightarrow> take l (take n s @ t) = take l s"
  by (simp add: min_def)

lemma no_space_prefix:
  assumes "CHR '' '' \<notin> set op" "take (length op) (take n s @ CHR '' '' # r) = op" "n \<le> length s"
  shows "length op \<le> n"
proof (rule ccontr)
  assume "\<not> length op \<le> n"
  then obtain k where k: "length op = Suc (n + k)" by (metis less_imp_Suc_add not_le)
  have "take (Suc (length xs + k)) (xs @ y # r) = xs @ y # take k r" for xs :: string and y
    by (simp add: Suc_diff_le)
  from this [of "take n s" "CHR '' ''"] have "op = take n s @ CHR '' '' # take k r"
    using assms(2,3) unfolding k by (simp del: take_append)
  then have "CHR '' '' \<in> set op" by simp
  then show False using assms(1) by simp
qed

lemma ops_no_space: "op \<in> set ops \<Longrightarrow> CHR '' '' \<notin> set op"
  by (auto simp: ops_def)

lemma ops_length: "op \<in> set ops \<Longrightarrow> 2 \<le> length op"
  by (auto simp: ops_def)

lemma find_cong_upto:
  assumes "find P xs = Some x" "Q x" "\<And>y. y \<in> set xs \<Longrightarrow> Q y \<Longrightarrow> P y"
  shows "find Q xs = Some x"
  using assms by (induction xs) (auto split: if_splits)

lemma find_op_cut:
  assumes "n \<le> length s" "find_op s = Some op \<and> n = length op \<or> find_op s = None \<and> n = 1"
  shows "find_op (take n s @ CHR '' '' # r) = find_op s"
proof -
  let ?Q = "\<lambda>op. take (length op) (take n s @ CHR '' '' # r) = op"
  have imp: "length y \<le> n \<and> take (length y) s = y" if "y \<in> set ops" "?Q y" for y
  proof -
    have "length y \<le> n" by (rule no_space_prefix [OF ops_no_space [OF that(1)] that(2) assms(1)])
    then show ?thesis using take_cut [OF assms(1), of "length y" "CHR '' '' # r"] that(2) by simp
  qed
  show ?thesis
  proof (cases "find_op s")
    case (Some op)
    then have n: "n = length op" using assms(2) by simp
    have "take (length op) (take n s @ CHR '' '' # r) = take (length op) s"
      by (rule take_cut [OF assms(1)]) (simp add: n)
    then have q: "?Q op" using find_op_Some [OF Some] by simp
    have "find ?Q ops = Some op"
      by (rule find_cong_upto [where Q = ?Q, OF Some [unfolded find_op_def] q]) (use imp in blast)
    then have "find_op (take n s @ CHR '' '' # r) = Some op" unfolding find_op_def .
    then show ?thesis unfolding Some .
  next
    case None
    then have n: "n = 1" using assms(2) by simp
    have "\<not> ?Q y" if "y \<in> set ops" for y
    proof
      assume "?Q y"
      from imp [OF that this] ops_length [OF that] n show False by simp
    qed
    then have "find ?Q ops = None" unfolding find_None_iff by blast
    then have "find_op (take n s @ CHR '' '' # r) = None" unfolding find_op_def .
    then show ?thesis unfolding None .
  qed
qed

lemma lex_token_cut:
  assumes tok: "lex_token ch t = Lexed k n" and start: "token_start ch t"
  shows "\<exists>t'. take n (ch # t) @ CHR '' '' # r = ch # t' \<and> token_start ch t' \<and> lex_token ch t' = Lexed k n"
proof -
  let ?s = "ch # t"
  have n: "0 < n" "n \<le> length ?s" using lex_token_pos [OF tok] lex_token_ok [OF tok] by auto
  then obtain m where m: "n = Suc m" by (cases n) auto
  define t' where "t' = take m t @ CHR '' '' # r"
  have t': "take n ?s @ CHR '' '' # r = ch # t'" by (simp add: m t'_def)
  have "at_class (\<lambda>d. d = CHR ''/'' \<or> d = CHR ''*'') t' \<Longrightarrow> at_class (\<lambda>d. d = CHR ''/'' \<or> d = CHR ''*'') t"
    using at_class_cut [of m t 0] n(2) by (auto simp: t'_def m)
  then have start': "token_start ch t'" using start by (auto simp: token_start_def)
  consider "isalpha ch \<or> ch = CHR ''_''"
    | "\<not> (isalpha ch \<or> ch = CHR ''_'')" "isdigit ch"
    | "\<not> (isalpha ch \<or> ch = CHR ''_'')" "\<not> isdigit ch" "ch = CHR 0x22 \<or> ch = CHR 0x27"
    | "\<not> (isalpha ch \<or> ch = CHR ''_'')" "\<not> isdigit ch" "\<not> (ch = CHR 0x22 \<or> ch = CHR 0x27)" by blast
  then have "lex_token ch t' = Lexed k n"
  proof cases
    case 1
    then have "k = TK_ID" "m = run word_char t" using tok m by (auto simp: lex_token_def)
    then show ?thesis using 1 run_cut [of m t 0 word_char r] n(2) m
      by (simp add: lex_token_def t'_def)
  next
    case 2
    then have "lex_number ?s = Inr (k, n)" using tok by (auto simp: lex_token_def split: sum.splits)
    then have "lex_number (ch # t') = Inr (k, n)"
      using lex_number_cut [of ?s k n r] 2(2) t' by simp
    then show ?thesis using 2 by (simp add: lex_token_def)
  next
    case 3
    then have l: "lex_literal ch t = Inr (k, n)" using tok by (auto simp: lex_token_def split: sum.splits)
    then obtain c where c: "literal_loop ch t 1 0 = Inr (n, c)" "ch = CHR 0x27 \<Longrightarrow> c = 1"
        "k = (if ch = CHR 0x22 then TK_STRING else TK_CHAR)"
      by (auto simp: lex_literal_def split: sum.splits if_splits)
    then obtain body rest where b: "t = body @ ch # rest" "n = 2 + length body" "literal_body ch body c"
      using literal_loop_ok [of ch t 1 0 n c] by auto
    then have "t' = body @ ch # CHR '' '' # r" using m by (simp add: t'_def)
    then have "literal_loop ch t' 1 0 = Inr (n, c)" using literal_loop_body [OF b(3)] b(2) by simp
    then have "lex_literal ch t' = Inr (k, n)" using c(2,3) by (simp add: lex_literal_def)
    then show ?thesis using 3 by (simp add: lex_token_def)
  next
    case 4
    have "find_op ?s = Some op \<and> n = length op \<or> find_op ?s = None \<and> n = 1" if "find_op ?s = Some op \<or> find_op ?s = None" for op
      using that tok 4 by (auto simp: lex_token_def split: if_splits option.splits)
    then have "find_op (take n ?s @ CHR '' '' # r) = find_op ?s"
      using find_op_cut [OF n(2)] by (cases "find_op ?s") auto
    then have "find_op (ch # t') = find_op ?s" using t' by simp
    then show ?thesis using tok 4 by (simp add: lex_token_def)
  qed
  then show ?thesis using t' start' by blast
qed

lemma lex_one_EF: "\<exists>m. lex_one (CHR 0xEF # s) line col = Bad m"
proof -
  have "find_op (CHR 0xEF # s) = None" by (auto simp: find_op_def find_None_iff ops_def)
  then have "\<exists>m. lex_token (CHR 0xEF) s = Bad m"
    by (simp add: lex_token_def isalpha_def isupper_def isdigit_def single_ops_def)
  then show ?thesis
    by (simp add: lex_one_token token_start_def isspace_def)
qed

definition respell :: "Token list \<Rightarrow> string" where
  "respell ts = concat (map (\<lambda>t. tok_text t @ '' '') ts)"

definition token_word :: "Token \<Rightarrow> TokenKind \<times> string" where
  "token_word t = (tok_kind t, tok_text t)"

lemma lex_loop_space: "lex_loop grow fname c (CHR '' '' # s) line col = lex_loop grow fname c s line (col + 1)"
proof -
  have "lex_one (CHR '' '' # s) line col = Blank s line (col + 1)"
    by (simp add: lex_one_space)
  then show ?thesis by (simp add: lex_loop_step)
qed

lemma push_similar:
  assumes "push grow c k text l = Done u c'" "ntokens d = ntokens c" "tokcap d = tokcap c"
  obtains d' where "push grow d k text l' = Done () d'" "ntokens d' = ntokens c'" "tokcap d' = tokcap c'"
    "tokens d' = tokens d @ [\<lparr>tok_kind = k, tok_text = text, tok_loc = l'\<rparr>]"
  using assms by (auto simp: push_def tc_error_def ntokens_def Let_def split: if_splits)

lemma lex_loop_respell:
  "lex_loop grow fname c s line col = Done u c' \<Longrightarrow> ntokens d = ntokens c \<Longrightarrow> tokcap d = tokcap c \<Longrightarrow>
   \<exists>ts d' ts'. tokens c' = tokens c @ ts \<and> lex_loop grow gname d (respell ts) line2 col2 = Done () d'
     \<and> tokens d' = tokens d @ ts' \<and> map token_word ts' = map token_word ts"
proof (induction "length s" arbitrary: c s line col d line2 col2 rule: less_induct)
  case less
  let ?l = "\<lparr>loc_file = fname, loc_line = line, loc_col = col\<rparr>"
  show ?case
  proof (cases "s = []")
    case True
    then have p: "push grow c TK_EOF [] ?l = Done u c'" using less.prems by (simp add: lex_loop_end)
    have "respell [\<lparr>tok_kind = TK_EOF, tok_text = [], tok_loc = ?l\<rparr>] = [CHR '' '']" by (simp add: respell_def)
    then have "lex_loop grow gname d (respell [\<lparr>tok_kind = TK_EOF, tok_text = [], tok_loc = ?l\<rparr>]) line2 col2
        = push grow d TK_EOF [] \<lparr>loc_file = gname, loc_line = line2, loc_col = col2 + 1\<rparr>"
      by (simp add: lex_loop_space lex_loop_end)
    moreover obtain d' where d': "push grow d TK_EOF [] \<lparr>loc_file = gname, loc_line = line2, loc_col = col2 + 1\<rparr>
        = Done () d'" "tokens d' = tokens d @ [\<lparr>tok_kind = TK_EOF, tok_text = [],
          tok_loc = \<lparr>loc_file = gname, loc_line = line2, loc_col = col2 + 1\<rparr>\<rparr>]"
      using push_similar [OF p less.prems(2,3)] by blast
    ultimately have "lex_loop grow gname d (respell [\<lparr>tok_kind = TK_EOF, tok_text = [], tok_loc = ?l\<rparr>]) line2 col2
        = Done () d'" by simp
    moreover have "tokens c' = tokens c @ [\<lparr>tok_kind = TK_EOF, tok_text = [], tok_loc = ?l\<rparr>]"
      using push_Done [OF p] by simp
    ultimately show ?thesis using d'(2)
      by (intro exI conjI) (assumption | simp add: token_word_def)+
  next
    case ne: False
    note step = less.prems(1) [unfolded lex_loop_step [OF ne] Let_def]
    show ?thesis
    proof (cases "lex_one s line col")
      case (Bad m)
      then show ?thesis using step by (simp add: tc_error_def)
    next
      case (Blank s' line' col')
      then have "lex_loop grow fname c s' line' col' = Done u c'" using step by simp
      from less.hyps [OF lex_one_Blank_less [OF Blank ne] this less.prems(2,3)] show ?thesis .
    next
      case (Lexed k n)
      obtain v c1 where push: "push grow c k (take n s) ?l = Done v c1"
          "lex_loop grow fname c1 (drop n s) line (col + n) = Done u c'"
        using step Lexed by (cases "push grow c k (take n s) ?l") auto
      let ?l2 = "\<lparr>loc_file = gname, loc_line = line2, loc_col = col2\<rparr>"
      obtain d1 where d1: "push grow d k (take n s) ?l2 = Done () d1" "ntokens d1 = ntokens c1"
          "tokcap d1 = tokcap c1" "tokens d1 = tokens d @ [\<lparr>tok_kind = k, tok_text = take n s, tok_loc = ?l2\<rparr>]"
        using push_similar [OF push(1) less.prems(2,3)] by blast
      have n: "length (drop n s) < length s" using lex_one_Lexed_pos [OF Lexed] by simp
      obtain ts d' ts' where ih: "tokens c' = tokens c1 @ ts"
          "lex_loop grow gname d1 (respell ts) line2 (col2 + n + 1) = Done () d'"
          "tokens d' = tokens d1 @ ts'" "map token_word ts' = map token_word ts"
        using less.hyps [OF n push(2) d1(2,3)] by blast
      let ?tok = "\<lparr>tok_kind = k, tok_text = take n s, tok_loc = ?l\<rparr>"
      have rs: "respell (?tok # ts) = take n s @ CHR '' '' # respell ts" by (simp add: respell_def)
      obtain ch t where s: "s = ch # t" "token_start ch t" "lex_token ch t = Lexed k n"
        using lex_one_Lexed [OF Lexed] by blast
      obtain t' where t': "take n s @ CHR '' '' # respell ts = ch # t'" "token_start ch t'" "lex_token ch t' = Lexed k n"
        using lex_token_cut [OF s(3,2), of "respell ts"] s(1) by auto
      have one: "lex_one (respell (?tok # ts)) line2 col2 = Lexed k n"
        unfolding rs t'(1) by (simp add: lex_one_token [OF t'(2)] t'(3))
      have len: "n \<le> length s" using lex_token_ok [OF s(3)] s(1) by simp
      then have cut: "take n (respell (?tok # ts)) = take n s" "drop n (respell (?tok # ts)) = CHR '' '' # respell ts"
        unfolding rs by simp_all
      have "respell (?tok # ts) \<noteq> []" unfolding rs by simp
      then have "lex_loop grow gname d (respell (?tok # ts)) line2 col2
          = lex_loop grow gname d1 (CHR '' '' # respell ts) line2 (col2 + n)"
        by (simp add: lex_loop_step one cut d1(1) del: append_assoc)
      then have "lex_loop grow gname d (respell (?tok # ts)) line2 col2 = Done () d'"
        using ih(2) by (simp add: lex_loop_space)
      moreover have "tokens c' = tokens c @ ?tok # ts" using ih(1) push_Done [OF push(1)] by simp
      moreover have "tokens d' = tokens d @ \<lparr>tok_kind = k, tok_text = take n s, tok_loc = ?l2\<rparr> # ts'"
        using ih(3) d1(4) by simp
      moreover have "map token_word (\<lparr>tok_kind = k, tok_text = take n s, tok_loc = ?l2\<rparr> # ts')
          = map token_word (?tok # ts)" using ih(4) by (simp add: token_word_def)
      ultimately show ?thesis by blast
    qed
  qed
qed

text \<open>
  Claim C15. The texts of the tokens determine the tokens: when \<open>lex\<close> returns from a fresh context,
  lexing the texts of its tokens again, written one after the other with a blank after each, returns
  too and gives tokens of the same kinds and texts in the same order. No token depends on what stands
  behind it beyond its own text, so tools may lay a program out anew.
\<close>

theorem lex_respell:
  assumes "lex grow empty_context fname s = Done u c"
  shows "\<exists>c2. lex grow empty_context gname (respell (tokens c)) = Done () c2
     \<and> map token_word (tokens c2) = map token_word (tokens c)"
proof -
  let ?s = "if take 3 s = bom then drop 3 s else s"
  have l: "lex_loop grow fname empty_context ?s 1 1 = Done u c" using assms by (simp add: lex_def)
  obtain ts d ts' where r: "tokens c = ts" "lex_loop grow gname empty_context (respell ts) 1 1 = Done () d"
      "tokens d = ts'" "map token_word ts' = map token_word ts"
    using lex_loop_respell [OF l, of empty_context gname 1 1] by (auto simp: empty_context_def)
  have "take 3 (respell ts) \<noteq> bom"
  proof
    assume b: "take 3 (respell ts) = bom"
    then have "respell ts = bom @ drop 3 (respell ts)" by (metis append_take_drop_id)
    then obtain rest where rest: "respell ts = CHR 0xEF # rest" by (simp add: bom_def)
    show False using r(2) lex_one_EF [of rest 1 1] unfolding rest
      by (auto simp: lex_loop_step tc_error_def Let_def)
  qed
  then show ?thesis using r by (simp add: lex_def)
qed

theorem lex_respell_witness:
  "\<exists>c2. lex (\<lambda>_. True) empty_context ''g'' (respell sample_tokens) = Done () c2
     \<and> map token_word (tokens c2) = map token_word sample_tokens"
proof -
  obtain c where c: "lex (\<lambda>_. True) empty_context ''f'' lex_sample = Done () c" "tokens c = sample_tokens"
    using lex_sample_tokens by blast
  then show ?thesis using lex_respell [OF c(1), of "''g''"] by simp
qed

section \<open>What the parser relies on\<close>

definition tokens_ok :: "Token list \<Rightarrow> bool" where
  "tokens_ok ts \<longleftrightarrow> (\<exists>us e. ts = us @ [e] \<and> tok_kind e = TK_EOF \<and> tok_text e = []
     \<and> (\<forall>t\<in>set us. tok_kind t \<noteq> TK_EOF \<and> tok_text t \<noteq> []))"

lemma spells_tokens_ok: "spells fname lc s ts \<Longrightarrow> tokens_ok ts"
proof (induction rule: spells.induct)
  case (spells_end fname lc)
  then show ?case by (simp add: tokens_ok_def)
next
  case (spells_token k word fname lc s ts)
  then obtain us e where "ts = us @ [e]" "tok_kind e = TK_EOF" "tok_text e = []"
      "\<forall>t\<in>set us. tok_kind t \<noteq> TK_EOF \<and> tok_text t \<noteq> []"
    by (auto simp: tokens_ok_def)
  moreover let ?t = "\<lparr>tok_kind = k, tok_text = word,
      tok_loc = \<lparr>loc_file = fname, loc_line = fst lc, loc_col = snd lc\<rparr>\<rparr>"
  have "?t # us @ [e] = (?t # us) @ [e]" "tok_kind ?t \<noteq> TK_EOF \<and> tok_text ?t \<noteq> []"
    using spells_token.hyps by simp_all
  ultimately show ?case unfolding tokens_ok_def by (metis set_ConsD)
qed auto

lemma lex_tokens_ok:
  assumes "lex grow c fname s = Done u c'" "tokens c = []"
  shows "tokens_ok (tokens c')"
  using lex_loop_spells [OF assms(1) [unfolded lex_def]] spells_tokens_ok assms(2) by auto

end
