(* ===== verification/Parser.thy ===== *)
theory Parser
  imports Types Lexer
begin

text \<open>
  The recursive-descent parser of \<open>compiler/parser.c\<close>. A parsing routine maps the context to a
  result and a new context, or leaves through \<open>tc_error\<close>. The four routines that call each other
  (\<open>parse_type\<close>, \<open>expr\<close>, \<open>stmt\<close>, \<open>declaration\<close>) take the routines they call as a record; \<open>parsers\<close>
  ties the knot with fuel, and every loop of the source is a \<open>loop\<close> with fuel for the tokens left.
  What is proved: the fuel given by \<open>parse\<close> is enough, so that the parser returns or reports an error
  on every token list; it never reads past the end-of-file token; it leaves the nesting depth as it
  found it; every array type it makes has an admissible length.
\<close>

section \<open>Parsing routines\<close>

type_synonym 'a parser = "Context \<Rightarrow> 'a res"

definition ret :: "'a \<Rightarrow> 'a parser" where
  "ret x = (\<lambda>c. Done x c)"

definition chain :: "'a parser \<Rightarrow> ('a \<Rightarrow> 'b parser) \<Rightarrow> 'b parser" where
  "chain m f = (\<lambda>c. case m c of Done x c' \<Rightarrow> f x c' | Fail l msg c' \<Rightarrow> Fail l msg c' | Fuel \<Rightarrow> Fuel)"

definition out_of_fuel :: "'a parser" where
  "out_of_fuel = (\<lambda>c. Fuel)"

definition fail_at :: "Loc \<Rightarrow> string \<Rightarrow> 'a parser" where
  "fail_at l message = (\<lambda>c. tc_error c l message)"

text \<open>An operation that cannot fail, and one that may run for ever (\<open>None\<close>).\<close>

definition lift :: "(Context \<Rightarrow> 'a \<times> Context) \<Rightarrow> 'a parser" where
  "lift f = (\<lambda>c. case f c of (x, c') \<Rightarrow> Done x c')"

definition lift_opt :: "(Context \<Rightarrow> ('a \<times> Context) option) \<Rightarrow> 'a parser" where
  "lift_opt f = (\<lambda>c. case f c of Some (x, c') \<Rightarrow> Done x c' | None \<Rightarrow> Fuel)"

definition get :: "(Context \<Rightarrow> 'a parser) \<Rightarrow> 'a parser" where
  "get f = (\<lambda>c. f c c)"

text \<open>A loop: its body gets the loop itself, to be called for the next turn.\<close>

fun loop :: "nat \<Rightarrow> (('s \<Rightarrow> 'a parser) \<Rightarrow> 's \<Rightarrow> 'a parser) \<Rightarrow> 's \<Rightarrow> 'a parser" where
  "loop 0 f s = out_of_fuel"
| "loop (Suc n) f s = f (loop n f) s"

definition left :: "Context \<Rightarrow> nat" where
  "left c = ntokens c - pos c"

definition loop_here :: "(('s \<Rightarrow> 'a parser) \<Rightarrow> 's \<Rightarrow> 'a parser) \<Rightarrow> 's \<Rightarrow> 'a parser" where
  "loop_here f s = (\<lambda>c. loop (left c + 1) f s c)"

section \<open>Tokens\<close>

definition peek :: "Context \<Rightarrow> Token" where
  "peek c = tokens c ! pos c"

definition at :: "Context \<Rightarrow> string \<Rightarrow> bool" where
  "at c s \<longleftrightarrow> tok_text (peek c) = s"

definition eat :: "string \<Rightarrow> bool parser" where
  "eat s = (\<lambda>c. if at c s then Done True (c\<lparr>pos := pos c + 1\<rparr>) else Done False c)"

text \<open>\<open>if (eat(c, s)) ... else ...\<close>\<close>

definition if_eat :: "string \<Rightarrow> 'a parser \<Rightarrow> 'a parser \<Rightarrow> 'a parser" where
  "if_eat s m1 m2 = chain (eat s) (\<lambda>b. if b then m1 else m2)"

definition keyword :: "Context \<Rightarrow> string \<Rightarrow> bool" where
  "keyword c s \<longleftrightarrow> tok_kind (peek c) = TK_ID \<and> at c s"

definition take_token :: "Token parser" where
  "take_token = (\<lambda>c. if tok_kind (peek c) = TK_EOF then tc_error c (tok_loc (peek c)) ''unexpected end of file''
     else Done (peek c) (c\<lparr>pos := pos c + 1\<rparr>))"

definition quoted :: "string \<Rightarrow> string" where
  "quoted s = [CHR 0x27] @ s @ [CHR 0x27]"

definition expect :: "string \<Rightarrow> Token parser" where
  "expect s = get (\<lambda>c. if_eat s (ret (peek c))
     (fail_at (tok_loc (peek c)) (''expected '' @ quoted s @ '', found '' @ quoted (tok_text (peek c)))))"

definition ident :: "string parser" where
  "ident = chain take_token (\<lambda>t. if tok_kind t \<noteq> TK_ID then fail_at (tok_loc t) ''expected identifier''
     else ret (tok_text t))"

definition new_node :: "NodeKind \<Rightarrow> Loc \<Rightarrow> Node parser" where
  "new_node k l = lift (node k l)"

text \<open>\<open>enter\<close> counts the nesting depth and \<open>leave\<close> uncounts it; a routine runs between the two.\<close>

definition nested :: "'a parser \<Rightarrow> 'a parser" where
  "nested m =
     chain (\<lambda>c. let c1 = c\<lparr>depth := depth c + 1\<rparr>
                in if depth c1 > 256 then tc_error c1 (tok_loc (peek c1)) ''syntax nesting limit (256) exceeded''
                   else Done () c1)
       (\<lambda>_. chain m (\<lambda>x. chain (\<lambda>c. Done () (c\<lparr>depth := depth c - 1\<rparr>)) (\<lambda>_. ret x)))"

text \<open>Whether token \<open>p\<close> exists and has a given text.\<close>

definition text_at :: "Context \<Rightarrow> nat \<Rightarrow> string \<Rightarrow> bool" where
  "text_at c p s \<longleftrightarrow> p < ntokens c \<and> tok_text (tokens c ! p) = s"

section \<open>Look-ahead\<close>

text \<open>The end of a dotted name that starts at token \<open>p\<close>.\<close>

function dotted_end :: "Context \<Rightarrow> nat \<Rightarrow> nat" where
  "dotted_end c p =
     (if p + 2 < ntokens c \<and> text_at c (p + 1) ''.'' \<and> tok_kind (tokens c ! (p + 2)) = TK_ID
      then dotted_end c (p + 2) else p)"
  by pat_completeness auto
termination by (relation "measure (\<lambda>(c, p). ntokens c - p)") auto

declare dotted_end.simps [simp del]

definition strstr :: "string \<Rightarrow> string \<Rightarrow> bool" where
  "strstr hay needle \<longleftrightarrow> list_ex (\<lambda>i. take (length needle) (drop i hay) = needle) [0..<length hay + 1]"

definition type_words :: string where
  "type_words = '' void bool i8 u8 i16 u16 i32 u32 i64 u64 float double char string int uint byte '' @
     ''short long ulong size_t Error StringView ''"

definition type_start :: "Context \<Rightarrow> bool" where
  "type_start c =
     (let s = tok_text (peek c)
      in if text_at c (pos c + 1) ''.'' then
           (let p = dotted_end c (pos c)
            in p + 1 < ntokens c \<and> (tok_kind (tokens c ! (p + 1)) = TK_ID \<or> text_at c (p + 1) ''*''))
         else if text_at c (pos c + 1) ''('' then False
         else if s \<in> {''const'', ''var'', ''Slice'', ''Array'', ''Channel'', ''Task'', ''Future'', ''func'', ''closure''}
           then True
         else if list_ex (\<lambda>t. ty_name t = s) (types c) then True
         else if strstr type_words ('' '' @ s @ '' '') then True
         else at_class isupper s \<and> pos c + 1 < ntokens c
              \<and> (tok_kind (tokens c ! (pos c + 1)) = TK_ID \<or> text_at c (pos c + 1) ''*''
                 \<or> text_at c (pos c + 1) ''[''))"

text \<open>The matching parenthesis of a lambda's parameters: \<open>p\<close> is the next token to read.\<close>

function lambda_scan :: "Context \<Rightarrow> nat \<Rightarrow> int \<Rightarrow> nat \<times> int" where
  "lambda_scan c p d =
     (let s = tok_text (tokens c ! p);
          d' = (if s = ''('' then d + 1 else if s = '')'' then d - 1 else d)
      in if p + 1 < ntokens c \<and> d' > 0 then lambda_scan c (p + 1) d' else (p + 1, d'))"
  by pat_completeness auto
termination by (relation "measure (\<lambda>(c, p, d). ntokens c - p)") auto

declare lambda_scan.simps [simp del]

definition lambda_ahead :: "Context \<Rightarrow> bool" where
  "lambda_ahead c =
     (if \<not> at c ''('' then False
      else (let (p, d) = lambda_scan c (pos c) 0 in d = 0 \<and> text_at c p ''=>''))"

function generic_scan :: "Context \<Rightarrow> nat \<Rightarrow> int \<Rightarrow> bool" where
  "generic_scan c p d =
     (if p < ntokens c \<and> p < pos c + 128 then
        (let s = tok_text (tokens c ! p);
             d' = (if s = ''<'' then d + 1 else if s = ''>'' then d - 1 else if s = ''>>'' then d - 2 else d)
         in if s = '';'' \<or> s = ''{'' \<or> s = ''='' then False
            else if d' \<le> 0 then text_at c (p + 1) ''('' \<or> text_at c (p + 1) ''.''
            else generic_scan c (p + 1) d')
      else False)"
  by pat_completeness auto
termination by (relation "measure (\<lambda>(c, p, d). ntokens c - p)") auto

declare generic_scan.simps [simp del]

definition generic_call_ahead :: "Context \<Rightarrow> bool" where
  "generic_call_ahead c = (if \<not> at c ''<'' then False else generic_scan c (pos c) 0)"

definition precedence :: "string \<Rightarrow> nat" where
  "precedence s =
     (if s \<in> {''='', ''+='', ''-='', ''*='', ''/='', ''%='', ''&='', ''|='', ''^=''} then 1
      else if s = ''||'' then 2
      else if s = ''&&'' then 3
      else if s = ''|'' then 4
      else if s = ''^'' then 5
      else if s = ''&'' then 6
      else if s \<in> {''=='', ''!=''} then 7
      else if s \<in> {''<'', ''>'', ''<='', ''>=''} then 8
      else if s \<in> {''<<'', ''>>''} then 9
      else if s \<in> {''+'', ''-''} then 10
      else if s \<in> {''*'', ''/'', ''%''} then 11
      else 0)"

section \<open>Numbers\<close>

text \<open>\<open>strtoull(s, NULL, 0)\<close>: the value, and whether it was out of range (\<open>errno\<close>).\<close>

definition digit_value :: "char \<Rightarrow> nat" where
  "digit_value ch = (if isdigit ch then of_char ch - 48
     else if isupper ch then of_char ch - 55 else of_char ch - 87)"

definition digits_value :: "nat \<Rightarrow> string \<Rightarrow> nat" where
  "digits_value base s = foldl (\<lambda>n ch. n * base + digit_value ch) 0 s"

definition strtoull :: "string \<Rightarrow> nat \<times> bool" where
  "strtoull s =
     (let v = (if hex_start s then digits_value 16 (takeWhile isxdigit (drop 2 s))
               else if at_class (\<lambda>ch. ch = CHR ''0'') s
                 then digits_value 8 (takeWhile (\<lambda>ch. isdigit ch \<and> digit_value ch < 8) s)
               else digits_value 10 (takeWhile isdigit s))
      in if v < 2 ^ 64 then (v, False) else (2 ^ 64 - 1, True))"

section \<open>Filling in nodes\<close>

fun set_info :: "(NodeInfo \<Rightarrow> NodeInfo) \<Rightarrow> Node \<Rightarrow> Node" where
  "set_info f (Node i a b c body params args) = Node (f i) a b c body params args"

fun set_a :: "Node option \<Rightarrow> Node \<Rightarrow> Node" where
  "set_a x (Node i a b c body params args) = Node i x b c body params args"

fun set_b :: "Node option \<Rightarrow> Node \<Rightarrow> Node" where
  "set_b x (Node i a b c body params args) = Node i a x c body params args"

fun set_c :: "Node option \<Rightarrow> Node \<Rightarrow> Node" where
  "set_c x (Node i a b c body params args) = Node i a b x body params args"

fun set_body :: "Node list \<Rightarrow> Node \<Rightarrow> Node" where
  "set_body x (Node i a b c body params args) = Node i a b c x params args"

fun set_params :: "Node list \<Rightarrow> Node \<Rightarrow> Node" where
  "set_params x (Node i a b c body params args) = Node i a b c body x args"

fun set_args :: "Node list \<Rightarrow> Node \<Rightarrow> Node" where
  "set_args x (Node i a b c body params args) = Node i a b c body params x"

definition set_name :: "string \<Rightarrow> Node \<Rightarrow> Node" where
  "set_name s = set_info (\<lambda>i. i\<lparr>n_name := Some s\<rparr>)"

definition set_text :: "string \<Rightarrow> Node \<Rightarrow> Node" where
  "set_text s = set_info (\<lambda>i. i\<lparr>n_text := Some s\<rparr>)"

definition set_decl_type :: "tref \<Rightarrow> Node \<Rightarrow> Node" where
  "set_decl_type t = set_info (\<lambda>i. i\<lparr>n_decl_type := Some t\<rparr>)"

definition set_type :: "tref \<Rightarrow> Node \<Rightarrow> Node" where
  "set_type t = set_info (\<lambda>i. i\<lparr>n_type := Some t\<rparr>)"

definition set_flags :: "NodeFlag set \<Rightarrow> Node \<Rightarrow> Node" where
  "set_flags f = set_info (\<lambda>i. i\<lparr>n_flags := f\<rparr>)"

definition set_kind :: "NodeKind \<Rightarrow> Node \<Rightarrow> Node" where
  "set_kind k = set_info (\<lambda>i. i\<lparr>n_kind := k\<rparr>)"

definition set_owner :: "int option \<Rightarrow> Node \<Rightarrow> Node" where
  "set_owner p = set_info (\<lambda>i. i\<lparr>n_owner := p\<rparr>)"

text \<open>Changing a type in place.\<close>

definition update_type :: "tref \<Rightarrow> (Type \<Rightarrow> Type) \<Rightarrow> unit parser" where
  "update_type t f = (\<lambda>c. Done () (c\<lparr>types := (types c)[t := f (types c ! t)]\<rparr>))"

section \<open>The routines\<close>

text \<open>The routines that call each other: the callees of each body are the fields of \<open>P\<close>.\<close>

record routines =
  p_type :: "tref parser"
  p_expr :: "nat \<Rightarrow> Node parser"
  p_stmt :: "Node parser"
  p_declaration :: "NodeFlag set \<Rightarrow> (string \<times> int) option \<Rightarrow> Node parser"

text \<open>\<open>do x = item; while (eat(c, sep));\<close> with the items appended to a list.\<close>

definition sep_list :: "string \<Rightarrow> 'a parser \<Rightarrow> 'a list parser" where
  "sep_list sep item = loop_here (\<lambda>again xs. chain item (\<lambda>x. if_eat sep (again (xs @ [x])) (ret (xs @ [x])))) []"

definition type_items :: "routines \<Rightarrow> string \<Rightarrow> tref list parser" where
  "type_items P fin =
     chain (sep_list '','' (p_type P)) (\<lambda>xs.
     get (\<lambda>c. if fin = ''>'' \<and> at c ''>>''
              then chain (\<lambda>c. Done () (c\<lparr>tokens := (tokens c)[pos c := (peek c)\<lparr>tok_text := ''>''\<rparr>]\<rparr>)) (\<lambda>_. ret xs)
              else chain (expect fin) (\<lambda>_. ret xs)))"

definition dotted_rest :: "string \<Rightarrow> string parser" where
  "dotted_rest = loop_here (\<lambda>again name.
     if_eat ''.'' (chain ident (\<lambda>part. again (name @ ''.'' @ part))) (ret name))"

text \<open>The loop over \<open>*\<close> and \<open>[n]\<close> behind a type.\<close>

definition array_length :: "Token \<Rightarrow> nat parser" where
  "array_length n =
     (if tok_kind n \<noteq> TK_INT then fail_at (tok_loc n) ''array length must be an integer literal''
      else (let (len, err) = strtoull (tok_text n)
            in if err \<or> len = 0 \<or> len > 10000000
               then fail_at (tok_loc n) ''array length must be between 1 and 10000000'' else ret len))"

definition type_suffixes :: "tref \<Rightarrow> tref parser" where
  "type_suffixes = loop_here (\<lambda>again t.
     if_eat ''*'' (chain (lift (\<lambda>c. type_derive c TY_PTR t 0)) again)
       (if_eat ''['' (chain take_token (\<lambda>n. chain (array_length n) (\<lambda>len.
           chain (expect '']'') (\<lambda>_. chain (lift (\<lambda>c. type_derive c TY_ARRAY t len)) again))))
         (ret t)))"

definition func_type :: "routines \<Rightarrow> string \<Rightarrow> tref parser" where
  "func_type P name =
     chain (p_type P) (\<lambda>result.
     chain (expect ''('') (\<lambda>_.
     chain (if_eat '')'' (ret []) (type_items P '')'')) (\<lambda>params.
     chain (expect ''>'') (\<lambda>_.
     chain (lift_opt (\<lambda>c. type_generic c ''Function'' params)) (\<lambda>t.
     chain (update_type t (\<lambda>ty. ty\<lparr>ty_kind := (if name = ''closure'' then TY_CLOSURE else TY_FUNC),
                                    ty_base := Some result\<rparr>)) (\<lambda>_. ret t))))))"

definition generic_type :: "routines \<Rightarrow> string \<Rightarrow> tref parser" where
  "generic_type P name =
     chain (type_items P ''>'') (\<lambda>items.
       if name = ''Slice'' then
         (if length items \<noteq> 1 then get (\<lambda>c. fail_at (tok_loc (peek c)) ''Slice takes one type'')
          else lift (\<lambda>c. type_derive c TY_SLICE (hd items) 0))
       else lift_opt (\<lambda>c. type_generic c name items))"

definition parse_type_body :: "routines \<Rightarrow> tref parser" where
  "parse_type_body P =
     chain (eat ''const'') (\<lambda>cn.
     nested (
       chain
         (if_eat ''(''
            (chain (type_items P '')'') (\<lambda>items. lift_opt (\<lambda>c. type_tuple c items)))
            (chain ident (\<lambda>first. chain (dotted_rest first) (\<lambda>name.
               if_eat ''<''
                 (if name = ''func'' \<or> name = ''closure'' then func_type P name else generic_type P name)
                 (lift (\<lambda>c. type_named c name))))))
         (\<lambda>t. chain (if cn then lift (\<lambda>c. type_const c t) else ret t) type_suffixes)))"

definition arguments :: "routines \<Rightarrow> string \<Rightarrow> Node list parser" where
  "arguments P fin =
     if_eat fin (ret [])
       (chain (sep_list '',''
          (chain (get (\<lambda>c. if tok_kind (peek c) = TK_ID \<and> text_at c (pos c + 1) '':''
                            then chain ident (\<lambda>l. chain (expect '':'') (\<lambda>_. ret (Some l)))
                            else ret None))
             (\<lambda>label. chain (p_expr P 1) (\<lambda>n. ret (set_info (\<lambda>i. i\<lparr>n_label := label\<rparr>) n)))))
        (\<lambda>xs. chain (expect fin) (\<lambda>_. ret xs)))"

definition initializer :: "routines \<Rightarrow> Node option parser" where
  "initializer P = if_eat ''='' (chain (p_expr P 1) (\<lambda>e. ret (Some e))) (ret None)"

definition parameter_loop :: "routines \<Rightarrow> Node list \<Rightarrow> Node list parser" where
  "parameter_loop P = loop_here (\<lambda>again list.
     chain (get (\<lambda>c. new_node N_VAR (tok_loc (peek c)))) (\<lambda>p.
       if_eat ''...'' (ret (list @ [set_name ''...'' p]))
         (chain (p_type P) (\<lambda>t. chain ident (\<lambda>name. chain (initializer P) (\<lambda>a.
            (let p' = set_a a (set_name name (set_decl_type t p))
             in if_eat '','' (again (list @ [p'])) (ret (list @ [p'])))))))))"

definition parameters :: "routines \<Rightarrow> Node list parser" where
  "parameters P =
     if_eat '')'' (ret [])
       (get (\<lambda>c. if at c ''void'' \<and> tok_text (tokens c ! (pos c + 1)) = '')''
                 then (\<lambda>c. Done [] (c\<lparr>pos := pos c + 2\<rparr>))
                 else chain (parameter_loop P []) (\<lambda>list. chain (expect '')'') (\<lambda>_. ret list))))"

text \<open>\<open>f(x)\<close> with \<open>x\<close> the block at the cursor, or else an expression.\<close>

definition lambda_body :: "routines \<Rightarrow> Node \<Rightarrow> Node parser" where
  "lambda_body P n = get (\<lambda>c. if at c ''{'' then chain (p_stmt P) (\<lambda>s. ret (set_body [s] n))
     else chain (p_expr P 1) (\<lambda>e. ret (set_a (Some e) n)))"

definition lambda_parameter :: "routines \<Rightarrow> Node parser" where
  "lambda_parameter P =
     chain (get (\<lambda>c. new_node N_VAR (tok_loc (peek c)))) (\<lambda>p.
     get (\<lambda>c. if type_start c
       then chain (p_type P) (\<lambda>t. chain ident (\<lambda>name. ret (set_name name (set_decl_type t p))))
       else chain ident (\<lambda>name. chain (lift (\<lambda>c. type_primitive c TY_AUTO)) (\<lambda>t.
              ret (set_decl_type t (set_name name p))))))"

definition lambda_expr :: "routines \<Rightarrow> Token \<Rightarrow> Node parser" where
  "lambda_expr P t =
     chain (new_node N_LAMBDA (tok_loc t)) (\<lambda>n.
     chain (expect ''('') (\<lambda>_.
     chain (if_eat '')'' (ret [])
              (chain (sep_list '','' (lambda_parameter P)) (\<lambda>ps. chain (expect '')'') (\<lambda>_. ret ps)))) (\<lambda>ps.
     chain (expect ''=>'') (\<lambda>_. lambda_body P (set_params ps n)))))"

text \<open>A parenthesis opens an expression or, with a comma, a tuple.\<close>

definition tuple_rest :: "routines \<Rightarrow> Token \<Rightarrow> Node \<Rightarrow> Node parser" where
  "tuple_rest P t n =
     if_eat '',''
       (chain (new_node N_TUPLE (tok_loc t)) (\<lambda>tuple.
          chain (sep_list '','' (p_expr P 1)) (\<lambda>xs. ret (set_args (n # xs) tuple))))
       (ret n)"

definition unary_ops :: "string list" where
  "unary_ops = [''!'', ''-'', ''+'', ''~'', ''*'', ''&'', ''++'', ''--'']"

definition atom_kind :: "Token \<Rightarrow> NodeKind option" where
  "atom_kind t =
     (if tok_kind t = TK_INT then Some N_INT
      else if tok_kind t = TK_FLOAT then Some N_FLOAT
      else if tok_kind t = TK_STRING then Some N_STRING
      else if tok_kind t = TK_CHAR then Some N_CHAR
      else if tok_text t = ''true'' \<or> tok_text t = ''false'' then Some N_BOOL
      else if tok_text t = ''null'' then Some N_NULL
      else if tok_kind t = TK_ID then Some N_ID
      else None)"

definition id_expr :: "routines \<Rightarrow> Token \<Rightarrow> Node \<Rightarrow> Node parser" where
  "id_expr P t n =
     if_eat ''=>''
       (chain (new_node N_VAR (tok_loc t)) (\<lambda>p.
          chain (lift (\<lambda>c. type_primitive c TY_AUTO)) (\<lambda>ty.
            (let p' = set_decl_type ty (set_name (tok_text t) p);
                 n' = set_params [p'] (set_info (\<lambda>i. i\<lparr>n_kind := N_LAMBDA, n_name := None\<rparr>) n)
             in lambda_body P n'))))
       (get (\<lambda>c. if generic_call_ahead c
          then chain (expect ''<'') (\<lambda>_. chain (type_items P ''>'') (\<lambda>items.
                 chain (lift_opt (\<lambda>c. type_generic c (tok_text t) items)) (\<lambda>ty. ret (set_decl_type ty n))))
          else ret n))"

definition atom :: "routines \<Rightarrow> Token \<Rightarrow> Node parser" where
  "atom P t =
     chain take_token (\<lambda>_.
       case atom_kind t of
         None \<Rightarrow> fail_at (tok_loc t) (''expected expression, found '' @ quoted (tok_text t))
       | Some k \<Rightarrow>
           chain (new_node k (tok_loc t)) (\<lambda>n.
           chain (if k = N_ID then id_expr P t (set_name (tok_text t) n) else ret n) (\<lambda>n.
             ret (set_text (tok_text t) n))))"

definition operand :: "routines \<Rightarrow> Token \<Rightarrow> Node parser" where
  "operand P t = get (\<lambda>c.
     if lambda_ahead c then lambda_expr P t
     else if_eat ''(''
       (chain (p_expr P 1) (\<lambda>n. chain (tuple_rest P t n) (\<lambda>n. chain (expect '')'') (\<lambda>_. ret n))))
     (if_eat ''{''
       (chain (new_node N_INIT (tok_loc t)) (\<lambda>n. chain (arguments P ''}'') (\<lambda>xs. ret (set_args xs n))))
     (if_eat ''new''
       (chain (new_node N_NEW (tok_loc t)) (\<lambda>n. chain (p_type P) (\<lambda>ty.
          chain (if_eat ''('' (arguments P '')'') (ret [])) (\<lambda>xs. ret (set_args xs (set_decl_type ty n))))))
     (if_eat ''sizeof''
       (chain (new_node N_SIZEOF (tok_loc t)) (\<lambda>n. chain (expect ''('') (\<lambda>_. chain (p_type P) (\<lambda>ty.
          chain (expect '')'') (\<lambda>_. ret (set_decl_type ty n))))))
     (if_eat ''cast''
       (chain (new_node N_CAST (tok_loc t)) (\<lambda>n. chain (expect ''<'') (\<lambda>_. chain (p_type P) (\<lambda>ty.
          chain (expect ''>'') (\<lambda>_. chain (expect ''('') (\<lambda>_. chain (p_expr P 1) (\<lambda>e.
          chain (expect '')'') (\<lambda>_. ret (set_a (Some e) (set_decl_type ty n))))))))))
     (if tok_text (peek c) \<in> set unary_ops then
        chain (new_node N_UNARY (tok_loc t)) (\<lambda>n. chain take_token (\<lambda>op. chain (p_expr P 14) (\<lambda>e.
          ret (set_a (Some e) (set_text (tok_text op) n)))))
      else if_eat ''await''
       (chain (new_node N_AWAIT (tok_loc t)) (\<lambda>n. chain (p_expr P 14) (\<lambda>e. ret (set_a (Some e) n))))
     (if_eat ''spawn''
       (chain (new_node N_SPAWN (tok_loc t)) (\<lambda>n. chain (p_expr P 14) (\<lambda>e. ret (set_a (Some e) n))))
     (atom P t))))))))"

text \<open>Calls, members, indices, slices and postfix operators behind an operand.\<close>

definition index_rest :: "routines \<Rightarrow> Node \<Rightarrow> Node parser" where
  "index_rest P n =
     chain (get (\<lambda>c. new_node N_INDEX (tok_loc (peek c)))) (\<lambda>idx.
     chain (get (\<lambda>c. if \<not> at c '':'' then chain (p_expr P 1) (\<lambda>e. ret (Some e)) else ret None)) (\<lambda>b.
       (let idx1 = set_b b (set_a (Some n) idx)
        in chain (if_eat '':''
                    (chain (get (\<lambda>c. if \<not> at c '']'' then chain (p_expr P 1) (\<lambda>e. ret (Some e)) else ret None))
                       (\<lambda>e. ret (set_c e (set_kind N_SLICE idx1))))
                    (ret idx1)) (\<lambda>idx2.
           chain (expect '']'') (\<lambda>_. ret idx2)))))"

definition postfix :: "routines \<Rightarrow> Token \<Rightarrow> Node \<Rightarrow> Node parser" where
  "postfix P t = loop_here (\<lambda>again n.
     if_eat ''(''
       (chain (new_node N_CALL (tok_loc t)) (\<lambda>call. chain (arguments P '')'') (\<lambda>xs.
          again (set_args xs (set_a (Some n) call)))))
     (let member = chain (get (\<lambda>c. new_node N_MEMBER (tok_loc (peek c)))) (\<lambda>m.
            chain ident (\<lambda>name. again (set_name name (set_a (Some n) m))))
      in if_eat ''.'' member (if_eat ''->'' member
     (if_eat ''['' (chain (index_rest P n) again)
     (get (\<lambda>c. if at c ''++'' \<or> at c ''--'' then
        chain (new_node N_UNARY (tok_loc (peek c))) (\<lambda>u. chain take_token (\<lambda>op.
          again (set_flags {NF_POST} (set_text (tok_text op) (set_a (Some n) u)))))
      else ret n))))))"

definition primary :: "routines \<Rightarrow> Node parser" where
  "primary P = get (\<lambda>c. nested (chain (operand P (peek c)) (postfix P (peek c))))"

definition expr_body :: "routines \<Rightarrow> nat \<Rightarrow> Node parser" where
  "expr_body P least =
     nested (chain (primary P) (loop_here (\<lambda>again lhs. get (\<lambda>c.
       let p = precedence (tok_text (peek c))
       in if p \<ge> least then
            chain take_token (\<lambda>op. chain (new_node N_BINARY (tok_loc op)) (\<lambda>n.
            chain (p_expr P (p + (if p = 1 then 0 else 1))) (\<lambda>b.
              again (set_b (Some b) (set_a (Some lhs) (set_text (tok_text op) n))))))
          else ret lhs))))"

section \<open>Statements\<close>

text \<open>The names after the first one of a destructuring \<open>var a, b\<close>.\<close>

definition more_names :: "Node list parser" where
  "more_names = loop_here (\<lambda>again list.
     if_eat '',''
       (chain (get (\<lambda>c. new_node N_VAR (tok_loc (peek c)))) (\<lambda>p. chain ident (\<lambda>name.
          again (list @ [set_name name p]))))
       (ret list)) []"

definition declared_array :: "tref \<Rightarrow> tref parser" where
  "declared_array ty =
     if_eat ''[''
       (chain take_token (\<lambda>t.
          (let count = fst (strtoull (tok_text t))
           in if tok_kind t \<noteq> TK_INT \<or> count = 0 \<or> count > 10000000
              then fail_at (tok_loc t) ''invalid array length''
              else chain (expect '']'') (\<lambda>_. lift (\<lambda>c. type_derive c TY_ARRAY ty count)))))
       (ret ty)"

definition constructor_args :: "routines \<Rightarrow> Node \<Rightarrow> tref \<Rightarrow> Node parser" where
  "constructor_args P n ty =
     if_eat ''='' (chain (p_expr P 1) (\<lambda>e. ret (set_a (Some e) n)))
       (if_eat ''(''
          (chain (new_node N_NEW (n_loc (info n))) (\<lambda>new. chain (arguments P '')'') (\<lambda>xs.
             ret (set_a (Some (set_flags {NF_CONSTRUCTOR} (set_args xs (set_decl_type ty new)))) n))))
          (ret n))"

definition variable :: "routines \<Rightarrow> bool \<Rightarrow> Node parser" where
  "variable P semi =
     chain (get (\<lambda>c. new_node N_VAR (tok_loc (peek c)))) (\<lambda>n.
     chain (p_type P) (\<lambda>ty0. chain ident (\<lambda>name.
     chain (get (\<lambda>c. if ty_kind (types c ! ty0) = TY_AUTO then more_names else ret [])) (\<lambda>ps.
     chain (declared_array ty0) (\<lambda>ty.
     chain (constructor_args P (set_params ps (set_name name (set_decl_type ty n))) ty) (\<lambda>n.
       if semi then chain (expect '';'') (\<lambda>_. ret n) else ret n))))))"

text \<open>\<open>while (!eat(c, close)) append(item);\<close> with an error at the end of the file.\<close>

definition block_loop :: "routines \<Rightarrow> Token \<Rightarrow> Node list parser" where
  "block_loop P t = loop_here (\<lambda>again list.
     if_eat ''}'' (ret list)
       (get (\<lambda>c. if tok_kind (peek c) = TK_EOF then fail_at (tok_loc t) ''unterminated block''
                 else chain (p_stmt P) (\<lambda>s. again (list @ [s]))))) []"

definition case_body :: "routines \<Rightarrow> Token \<Rightarrow> Node list parser" where
  "case_body P t = loop_here (\<lambda>again list. get (\<lambda>c.
     if \<not> keyword c ''case'' \<and> \<not> keyword c ''default'' \<and> \<not> (tok_kind (peek c) = TK_OP \<and> at c ''}'')
     then (if tok_kind (peek c) = TK_EOF then fail_at (tok_loc t) ''unterminated switch''
           else chain (p_stmt P) (\<lambda>s. again (list @ [s])))
     else ret list)) []"

text \<open>The label of one case: the item node, and whether a default has been seen.\<close>

definition case_label :: "routines \<Rightarrow> Token \<Rightarrow> bool \<Rightarrow> Node \<Rightarrow> (Node \<times> bool) parser" where
  "case_label P label has_default item = get (\<lambda>c.
     if keyword c ''case'' then
       chain take_token (\<lambda>_. chain (sep_list '','' (p_expr P 1)) (\<lambda>xs. ret (set_args xs item, has_default)))
     else if keyword c ''default'' then
       chain take_token (\<lambda>_.
         if has_default then fail_at (tok_loc label) ''switch has more than one default''
         else ret (set_text ''default'' item, True))
     else fail_at (tok_loc label) (''expected '' @ quoted ''case'' @ '' or '' @ quoted ''default'' @ '' in switch''))"

definition switch_loop :: "routines \<Rightarrow> Token \<Rightarrow> Node list parser" where
  "switch_loop P t = loop_here (\<lambda>again (has_default, list).
     if_eat ''}'' (ret list)
       (get (\<lambda>c. let label = peek c in
          if tok_kind label = TK_EOF then fail_at (tok_loc t) ''unterminated switch''
          else chain (new_node N_CASE (tok_loc label)) (\<lambda>item.
               chain (case_label P label has_default item) (\<lambda>(item, has_default).
               chain (expect '':'') (\<lambda>_.
               chain (new_node N_BLOCK (tok_loc label)) (\<lambda>block.
               chain (case_body P t) (\<lambda>stmts.
                 again (has_default, list @ [set_body [set_body stmts block] item])))))))))
     (False, [])"

definition switch_stmt :: "routines \<Rightarrow> Token \<Rightarrow> Node parser" where
  "switch_stmt P t =
     chain take_token (\<lambda>_. chain (new_node N_SWITCH (tok_loc t)) (\<lambda>n.
     chain (expect ''('') (\<lambda>_. chain (p_expr P 1) (\<lambda>e. chain (expect '')'') (\<lambda>_.
     chain (expect ''{'') (\<lambda>_. chain (switch_loop P t) (\<lambda>items.
       ret (set_body items (set_a (Some e) n)))))))))"

definition for_init :: "routines \<Rightarrow> Token \<Rightarrow> Node option parser" where
  "for_init P t = get (\<lambda>c.
     if at c '';'' then ret None
     else if type_start c then chain (variable P False) (\<lambda>v. ret (Some v))
     else chain (new_node N_EXPR (tok_loc t)) (\<lambda>x. chain (p_expr P 1) (\<lambda>e. ret (Some (set_a (Some e) x)))))"

definition expr_unless :: "routines \<Rightarrow> string \<Rightarrow> Node option parser" where
  "expr_unless P s = get (\<lambda>c. if at c s then ret None else chain (p_expr P 1) (\<lambda>e. ret (Some e)))"

definition for_range :: "routines \<Rightarrow> Node \<Rightarrow> Node parser" where
  "for_range P n =
     chain ident (\<lambda>name.
     chain (if_eat '','' (chain ident (\<lambda>s. ret (set_text s))) (ret (\<lambda>n. n))) (\<lambda>f.
     chain (expect ''in'') (\<lambda>_. chain (p_expr P 1) (\<lambda>e. chain (expect '')'') (\<lambda>_.
     chain (p_stmt P) (\<lambda>body.
       ret (set_body [body] (set_a (Some e) (f (set_name name (set_kind N_RANGE n)))))))))))"

definition for_stmt :: "routines \<Rightarrow> Token \<Rightarrow> Node parser" where
  "for_stmt P t =
     chain (new_node N_FOR (tok_loc t)) (\<lambda>n. chain (expect ''('') (\<lambda>_. get (\<lambda>c.
       if tok_kind (peek c) = TK_ID \<and> tok_text (tokens c ! (pos c + 1)) \<in> {'','', ''in''}
       then for_range P n
       else chain (for_init P t) (\<lambda>a. chain (expect '';'') (\<lambda>_.
            chain (expr_unless P '';'') (\<lambda>b. chain (expect '';'') (\<lambda>_.
            chain (expr_unless P '')'') (\<lambda>d. chain (expect '')'') (\<lambda>_.
            chain (p_stmt P) (\<lambda>body.
              ret (set_body [body] (set_c d (set_b b (set_a a n))))))))))))))"

definition return_stmt :: "routines \<Rightarrow> Token \<Rightarrow> Node parser" where
  "return_stmt P t =
     chain (new_node N_RETURN (tok_loc t)) (\<lambda>n.
     chain (get (\<lambda>c. if at c '';'' then ret None
        else chain (p_expr P 1) (\<lambda>e. chain (tuple_rest P t e) (\<lambda>x. ret (Some x))))) (\<lambda>a.
     chain (expect '';'') (\<lambda>_. ret (set_a a n))))"

definition if_stmt :: "routines \<Rightarrow> Token \<Rightarrow> Node parser" where
  "if_stmt P t =
     chain (new_node N_IF (tok_loc t)) (\<lambda>n. chain (expect ''('') (\<lambda>_.
     chain (p_expr P 1) (\<lambda>e. chain (expect '')'') (\<lambda>_. chain (p_stmt P) (\<lambda>s.
     chain (if_eat ''else'' (chain (p_stmt P) (\<lambda>x. ret (Some x))) (ret None)) (\<lambda>b.
       ret (set_b b (set_body [s] (set_a (Some e) n)))))))))"

definition while_stmt :: "routines \<Rightarrow> Token \<Rightarrow> Node parser" where
  "while_stmt P t =
     chain (new_node N_WHILE (tok_loc t)) (\<lambda>n. chain (expect ''('') (\<lambda>_.
     chain (p_expr P 1) (\<lambda>e. chain (expect '')'') (\<lambda>_. chain (p_stmt P) (\<lambda>s.
       ret (set_body [s] (set_a (Some e) n)))))))"

definition simple_stmt :: "NodeKind \<Rightarrow> Token \<Rightarrow> Node parser" where
  "simple_stmt k t = chain (new_node k (tok_loc t)) (\<lambda>n. chain (expect '';'') (\<lambda>_. ret n))"

definition defer_stmt :: "routines \<Rightarrow> Token \<Rightarrow> Node parser" where
  "defer_stmt P t =
     chain (new_node N_DEFER (tok_loc t)) (\<lambda>n. get (\<lambda>c.
       if at c ''{'' then chain (p_stmt P) (\<lambda>s. ret (set_body [s] n))
       else chain (p_expr P 1) (\<lambda>e. chain (expect '';'') (\<lambda>_. ret (set_a (Some e) n)))))"

definition delete_stmt :: "routines \<Rightarrow> Token \<Rightarrow> Node parser" where
  "delete_stmt P t =
     chain (new_node N_DELETE (tok_loc t)) (\<lambda>n. chain (p_expr P 1) (\<lambda>e.
     chain (expect '';'') (\<lambda>_. ret (set_a (Some e) n))))"

definition expr_stmt :: "routines \<Rightarrow> Token \<Rightarrow> Node parser" where
  "expr_stmt P t =
     chain (new_node N_EXPR (tok_loc t)) (\<lambda>n. chain (expr_unless P '';'') (\<lambda>a.
     chain (expect '';'') (\<lambda>_. ret (set_a a n))))"

definition plain_stmt :: "routines \<Rightarrow> Token \<Rightarrow> Node parser" where
  "plain_stmt P t = get (\<lambda>c. if type_start c then variable P True else expr_stmt P t)"

definition stmt_body :: "routines \<Rightarrow> Node parser" where
  "stmt_body P = get (\<lambda>c. let t = peek c in nested (
     if_eat ''{'' (chain (new_node N_BLOCK (tok_loc t)) (\<lambda>n. chain (block_loop P t) (\<lambda>xs. ret (set_body xs n))))
     (if_eat ''return'' (return_stmt P t)
     (if_eat ''if'' (if_stmt P t)
     (get (\<lambda>c. if keyword c ''switch'' \<and> text_at c (pos c + 1) ''('' then switch_stmt P t else
      if_eat ''while'' (while_stmt P t)
     (if_eat ''for'' (for_stmt P t)
     (if_eat ''break'' (simple_stmt N_BREAK t)
     (if_eat ''continue'' (simple_stmt N_CONTINUE t)
     (if_eat ''defer'' (defer_stmt P t)
     (if_eat ''delete'' (delete_stmt P t)
     (plain_stmt P t))))))))))))"

section \<open>Declarations\<close>

definition enum_number :: "int \<Rightarrow> int parser" where
  "enum_number nxt =
     if_eat ''=''
       (chain (eat ''-'') (\<lambda>neg. chain take_token (\<lambda>number.
          (let (v, err) = strtoull (tok_text number)
           in if tok_kind number \<noteq> TK_INT then fail_at (tok_loc number) ''enum value requires an integer literal''
              else if err \<or> v > (if neg then 2147483648 else 2147483647)
                then fail_at (tok_loc number) ''enum value outside i32 range''
              else ret (int v * (if neg then -1 else 1))))))
       (ret nxt)"

definition enum_value :: "NodeFlag set \<Rightarrow> tref \<Rightarrow> int \<Rightarrow> int \<Rightarrow> (Node \<times> int) parser" where
  "enum_value flags ty owner nxt =
     chain (get (\<lambda>c. new_node N_VAR (tok_loc (peek c)))) (\<lambda>val.
     chain ident (\<lambda>name.
     chain (enum_number nxt) (\<lambda>v.
       if v > 2147483647 then fail_at (n_loc (info val)) ''enum value outside i32 range''
       else get (\<lambda>c. ret
         (set_info (\<lambda>i. i\<lparr>n_name := Some name, n_owner := Some owner, n_flags := {NF_CONST, NF_STATIC},
              n_decl_type := Some ty, n_text := Some (show_int v),
              n_cname := Some (if NF_EXTERN \<in> flags then name else ty_cname (types c ! ty) @ ''_'' @ name)\<rparr>) val,
          v + 1)))))"

definition enum_loop :: "NodeFlag set \<Rightarrow> tref \<Rightarrow> int \<Rightarrow> Node list parser" where
  "enum_loop flags ty owner = loop_here (\<lambda>again (nxt, list).
     if_eat ''}'' (ret list)
       (chain (enum_value flags ty owner nxt) (\<lambda>(val, nxt).
          if_eat '','' (again (nxt, list @ [val]))
            (chain (expect ''}'') (\<lambda>_. ret (list @ [val]))))))
     (0, [])"

text \<open>Claiming a type's name for a declaration: an error when it is taken.\<close>

definition declare_type :: "Token \<Rightarrow> string \<Rightarrow> tref \<Rightarrow> (Type \<Rightarrow> Type) \<Rightarrow> unit parser" where
  "declare_type t name ty f = get (\<lambda>c.
     if ty_decl (types c ! ty) \<noteq> None then fail_at (tok_loc t) (''duplicate type '' @ quoted name)
     else update_type ty f)"

definition enum_declaration :: "NodeFlag set \<Rightarrow> Token \<Rightarrow> Node parser" where
  "enum_declaration flags t =
     chain (new_node N_ENUM (tok_loc t)) (\<lambda>n. chain ident (\<lambda>name.
     chain (lift (\<lambda>c. type_named c name)) (\<lambda>ty.
     chain (declare_type t name ty (\<lambda>x. x\<lparr>ty_kind := TY_ENUM, ty_decl := Some (n_id (info n)),
              ty_cname := (if NF_EXTERN \<in> flags then name else ty_cname x)\<rparr>)) (\<lambda>_.
     chain (expect ''{'') (\<lambda>_.
     chain (enum_loop flags ty (n_id (info n))) (\<lambda>vals.
     chain (eat '';'') (\<lambda>_.
       ret (set_body vals (set_type ty (set_flags flags (set_name name n)))))))))))"

definition module_declaration :: "Token \<Rightarrow> Node parser" where
  "module_declaration t =
     chain (new_node (if tok_text t = ''module'' then N_MODULE else N_IMPORT) (tok_loc t)) (\<lambda>n.
     chain ident (\<lambda>first. chain (dotted_rest first) (\<lambda>name.
     chain (expect '';'') (\<lambda>_. ret (set_name name n)))))"

definition type_parameter :: "Node parser" where
  "type_parameter =
     chain (get (\<lambda>c. new_node N_VAR (tok_loc (peek c)))) (\<lambda>p. chain ident (\<lambda>name.
     chain (lift (\<lambda>c. type_named c name)) (\<lambda>ty. ret (set_type ty (set_name name p)))))"

definition type_parameters :: "Node list parser" where
  "type_parameters =
     if_eat ''<'' (chain (sep_list '','' type_parameter) (\<lambda>ps. chain (expect ''>'') (\<lambda>_. ret ps))) (ret [])"

definition class_loop :: "routines \<Rightarrow> (string \<times> int) \<Rightarrow> Node list parser" where
  "class_loop P owner = loop_here (\<lambda>again list.
     if_eat ''}'' (ret list) (chain (p_declaration P {} (Some owner)) (\<lambda>d. again (list @ [d])))) []"

definition class_kind :: "string \<Rightarrow> NodeKind" where
  "class_kind s = (if s = ''class'' \<or> s = ''struct'' then N_CLASS
     else if s = ''interface'' then N_INTERFACE else N_EXTENSION)"

definition class_declaration :: "routines \<Rightarrow> NodeFlag set \<Rightarrow> Token \<Rightarrow> Node parser" where
  "class_declaration P flags t =
     chain (new_node (class_kind (tok_text t)) (tok_loc t)) (\<lambda>n. chain ident (\<lambda>name.
     chain (lift (\<lambda>c. type_named c name)) (\<lambda>ty.
     chain (if NF_EXTERN \<in> flags then update_type ty (\<lambda>x. x\<lparr>ty_cname := name\<rparr>) else ret ()) (\<lambda>_.
     chain (if n_kind (info n) \<noteq> N_EXTENSION
            then declare_type t name ty (\<lambda>x. x\<lparr>ty_decl := Some (n_id (info n))\<rparr>) else ret ()) (\<lambda>_.
     chain type_parameters (\<lambda>ps. chain (expect ''{'') (\<lambda>_.
     chain (class_loop P (name, n_id (info n))) (\<lambda>members.
     chain (eat '';'') (\<lambda>_.
       ret (set_body members (set_params ps (set_type ty (set_flags flags (set_name name n))))))))))))))"

definition property_declaration :: "routines \<Rightarrow> (string \<times> int) option \<Rightarrow> Token \<Rightarrow> Node parser" where
  "property_declaration P owner t =
     chain (new_node N_PROPERTY (tok_loc t)) (\<lambda>n. chain (p_type P) (\<lambda>ty. chain ident (\<lambda>name.
       (let n1 = set_owner (map_option snd owner) (set_name name (set_decl_type ty n))
        in if_eat '';'' (ret n1)
             (chain (expect ''{'') (\<lambda>_. chain (expect ''get'') (\<lambda>_. chain (expect ''=>'') (\<lambda>_.
              chain (p_expr P 1) (\<lambda>e. chain (expect '';'') (\<lambda>_. chain (expect ''}'') (\<lambda>_.
                ret (set_a (Some e) n1))))))))))))"

text \<open>The parameters and the body behind a function's head.\<close>

definition function_rest :: "routines \<Rightarrow> (string \<times> int) option \<Rightarrow> Node \<Rightarrow> Node parser" where
  "function_rest P owner n =
     chain (expect ''('') (\<lambda>_. chain (parameters P) (\<lambda>ps.
       (let n1 = set_owner (map_option snd owner) (set_params ps n)
        in if_eat '';'' (ret n1) (chain (p_stmt P) (\<lambda>s. ret (set_body [s] n1))))))"

definition constructor_declaration :: "routines \<Rightarrow> NodeFlag set \<Rightarrow> (string \<times> int) \<Rightarrow> Token \<Rightarrow> Node parser" where
  "constructor_declaration P flags owner t =
     chain (new_node N_FUNCTION (tok_loc t)) (\<lambda>n. chain take_token (\<lambda>_.
     chain (lift (\<lambda>c. type_primitive c TY_VOID)) (\<lambda>ty.
       function_rest P (Some owner)
         (set_flags (insert NF_CONSTRUCTOR flags) (set_decl_type ty (set_name ''init'' n))))))"

definition destructor_declaration :: "routines \<Rightarrow> NodeFlag set \<Rightarrow> (string \<times> int) \<Rightarrow> Token \<Rightarrow> Node parser" where
  "destructor_declaration P flags owner t =
     chain (new_node N_FUNCTION (tok_loc t)) (\<lambda>n. chain ident (\<lambda>name.
       if name \<noteq> fst owner then fail_at (tok_loc t) ''destructor name must match class''
       else chain (lift (\<lambda>c. type_primitive c TY_VOID)) (\<lambda>ty.
         function_rest P (Some owner)
           (set_flags (insert NF_DESTRUCTOR flags) (set_decl_type ty (set_name ''destroy'' n))))))"

definition member_declaration :: "routines \<Rightarrow> NodeFlag set \<Rightarrow> (string \<times> int) option \<Rightarrow> Token \<Rightarrow> Node parser" where
  "member_declaration P flags owner t =
     chain (p_type P) (\<lambda>result. chain (new_node N_FUNCTION (tok_loc t)) (\<lambda>n. chain ident (\<lambda>name.
     chain type_parameters (\<lambda>targs.
       (let n1 = set_args targs (set_flags flags (set_name name (set_decl_type result n)))
        in get (\<lambda>c. if \<not> at c ''('' then
               chain (initializer P) (\<lambda>a. chain (expect '';'') (\<lambda>_.
                 ret (set_owner (map_option snd owner) (set_a a (set_kind N_VAR n1)))))
             else function_rest P owner n1))))))"

definition declaration_body :: "routines \<Rightarrow> NodeFlag set \<Rightarrow> (string \<times> int) option \<Rightarrow> Node parser" where
  "declaration_body P flags owner = get (\<lambda>c. let t = peek c in
     if_eat ''@'' (chain ident (\<lambda>a. if a \<noteq> ''test'' then fail_at (tok_loc t) (''unknown annotation '' @ quoted a)
                      else p_declaration P (insert NF_TEST flags) owner))
     (if_eat ''static'' (p_declaration P (insert NF_STATIC flags) owner)
     (if_eat ''async'' (p_declaration P (insert NF_ASYNC flags) owner)
     (if_eat ''stdcall'' (p_declaration P (insert NF_STDCALL flags) owner)
     (if_eat ''cdecl'' (p_declaration P flags owner)
     (if_eat ''enum'' (enum_declaration flags t)
     (if_eat ''module'' (module_declaration t)
     (if_eat ''import'' (module_declaration t)
     (if_eat ''class'' (class_declaration P flags t)
     (if_eat ''struct'' (class_declaration P flags t)
     (if_eat ''interface'' (class_declaration P flags t)
     (if_eat ''extension'' (class_declaration P flags t)
     (if_eat ''property'' (property_declaration P owner t)
     (case owner of
        None \<Rightarrow> member_declaration P flags owner t
      | Some ow \<Rightarrow> get (\<lambda>c.
          if at c (fst ow) \<and> tok_text (tokens c ! (pos c + 1)) = ''('' then constructor_declaration P flags ow t
          else if_eat ''~'' (destructor_declaration P flags ow t)
                 (member_declaration P flags owner t))))))))))))))))"

text \<open>The knot: with fuel \<open>n\<close>, calls nested \<open>n\<close> deep.\<close>

primrec parsers :: "nat \<Rightarrow> routines" where
  "parsers 0 = \<lparr>p_type = out_of_fuel, p_expr = (\<lambda>_. out_of_fuel), p_stmt = out_of_fuel,
     p_declaration = (\<lambda>_ _. out_of_fuel)\<rparr>"
| "parsers (Suc n) = \<lparr>p_type = parse_type_body (parsers n), p_expr = expr_body (parsers n),
     p_stmt = stmt_body (parsers n), p_declaration = declaration_body (parsers n)\<rparr>"

definition parse_fuel :: "Context \<Rightarrow> nat" where
  "parse_fuel c = 2 * left c + 2"

definition extern_loop :: "routines \<Rightarrow> Node list \<Rightarrow> Node list parser" where
  "extern_loop P = loop_here (\<lambda>again list.
     if_eat ''}'' (ret list) (chain (p_declaration P {NF_EXTERN} None) (\<lambda>d. again (list @ [d]))))"

definition program_loop :: "routines \<Rightarrow> Node list parser" where
  "program_loop P = loop_here (\<lambda>again list. get (\<lambda>c.
     if tok_kind (peek c) = TK_EOF then ret list
     else if_eat ''extern''
       (chain take_token (\<lambda>t.
          if tok_text t \<noteq> ''C'' then fail_at (tok_loc t) ''expected C after extern''
          else chain (expect ''{'') (\<lambda>_. chain (extern_loop P list) again)))
       (chain (p_declaration P {} None) (\<lambda>d. again (list @ [d]))))) []"

definition parse :: "Node parser" where
  "parse = (\<lambda>c.
     chain (new_node N_PROGRAM (tok_loc (peek c))) (\<lambda>p.
     chain (program_loop (parsers (parse_fuel c))) (\<lambda>body.
       (let p' = set_body body p in (\<lambda>c. Done p' (c\<lparr>program := Some p'\<rparr>))))) c)"

end
