(* ===== verification/ParserTotal.thy ===== *)
theory ParserTotal
  imports Parser
begin

text \<open>
  The parser returns. A judgement \<open>ok V k s m Q R\<close> says of a routine \<open>m\<close>, started on a well-formed
  context with at most \<open>k\<close> tokens left in which the types \<open>V\<close> exist: it does not run out of fuel, and
  where it succeeds it has consumed at least \<open>s\<close> tokens without passing the end-of-file token, kept
  the context well formed and the nesting depth unchanged, and returned a value that satisfies \<open>Q\<close>
  and mentions only types that exist (\<open>R\<close>). There is one rule per combinator, and one lemma per routine.
\<close>

section \<open>Well-formed contexts\<close>

text \<open>
  The parser makes the type of \<open>func<...>\<close> under the name \<open>Function\<close> and then changes it in place;
  the invariant asks that the source does not use that name; the last section shows what happens otherwise.
\<close>

definition token_shape :: "Token list \<Rightarrow> bool" where
  "token_shape ts \<longleftrightarrow> ts \<noteq> [] \<and> (\<forall>i<length ts. (tok_kind (ts ! i) = TK_EOF \<longleftrightarrow> Suc i = length ts)
     \<and> (tok_text (ts ! i) = [] \<longleftrightarrow> Suc i = length ts) \<and> tok_text (ts ! i) \<noteq> ''Function'')"

definition type_fine :: "Type \<Rightarrow> bool" where
  "type_fine t \<longleftrightarrow> \<not> (ty_kind t = TY_NAMED \<and> ty_name t = ''Function'')
     \<and> (ty_kind t = TY_ARRAY \<longrightarrow> 1 \<le> ty_count t \<and> ty_count t \<le> 10000000)"

definition pinv :: "Context \<Rightarrow> bool" where
  "pinv c \<longleftrightarrow> token_shape (tokens c) \<and> pos c < ntokens c \<and> types_ok c \<and> (\<forall>t\<in>set (types c). type_fine t)"

lemma types_ok_update [simp]:
  "types_ok (c\<lparr>pos := p\<rparr>) = types_ok c" "types_ok (c\<lparr>depth := d\<rparr>) = types_ok c"
  "types_ok (c\<lparr>tokens := ts\<rparr>) = types_ok c" "types_ok (c\<lparr>next_id := i\<rparr>) = types_ok c"
  "types_ok (c\<lparr>program := q\<rparr>) = types_ok c"
  by (simp_all add: types_ok_def)

definition ok :: "tref set \<Rightarrow> nat \<Rightarrow> nat \<Rightarrow> 'a parser \<Rightarrow> ('a \<Rightarrow> bool) \<Rightarrow> ('a \<Rightarrow> tref set) \<Rightarrow> bool" where
  "ok V k s m Q R \<longleftrightarrow> (\<forall>c. pinv c \<longrightarrow> left c \<le> k \<longrightarrow> (\<forall>r\<in>V. r < length (types c)) \<longrightarrow>
     (case m c of
        Fuel \<Rightarrow> False
      | Fail l msg c' \<Rightarrow> True
      | Done x c' \<Rightarrow> pinv c' \<and> ntokens c' = ntokens c \<and> length (types c) \<le> length (types c')
          \<and> depth c' = depth c \<and> pos c + s \<le> pos c' \<and> Q x \<and> (\<forall>r\<in>R x. r < length (types c'))))"

lemma okI:
  assumes "\<And>c. pinv c \<Longrightarrow> left c \<le> k \<Longrightarrow> (\<forall>r\<in>V. r < length (types c)) \<Longrightarrow>
     (case m c of
        Fuel \<Rightarrow> False
      | Fail l msg c' \<Rightarrow> True
      | Done x c' \<Rightarrow> pinv c' \<and> ntokens c' = ntokens c \<and> length (types c) \<le> length (types c')
          \<and> depth c' = depth c \<and> pos c + s \<le> pos c' \<and> Q x \<and> (\<forall>r\<in>R x. r < length (types c')))"
  shows "ok V k s m Q R"
  using assms by (simp add: ok_def)

lemma okD:
  assumes "ok V k s m Q R" "pinv c" "left c \<le> k" "\<forall>r\<in>V. r < length (types c)"
  obtains (returned) x c' where "m c = Done x c'" "pinv c'" "ntokens c' = ntokens c"
      "length (types c) \<le> length (types c')" "depth c' = depth c" "pos c + s \<le> pos c'" "Q x"
      "\<forall>r\<in>R x. r < length (types c')"
  | (failed) l msg c' where "m c = Fail l msg c'"
  using assms by (cases "m c") (auto simp: ok_def)

lemma pinv_left: "pinv c \<Longrightarrow> 0 < left c"
  by (simp add: pinv_def left_def)

lemma ok_pos: "(0 < k \<Longrightarrow> ok V k s m Q R) \<Longrightarrow> ok V k s m Q R"
  by (cases k) (auto intro!: okI dest: pinv_left)

lemma ok_weaken:
  assumes "ok V k s' m Q' R'" "s \<le> s'" "\<And>x. Q' x \<Longrightarrow> Q x" "\<And>x. Q' x \<Longrightarrow> R x \<subseteq> R' x \<union> V"
  shows "ok V k s m Q R"
proof (rule okI)
  fix c assume c: "pinv c" "left c \<le> k" "\<forall>r\<in>V. r < length (types c)"
  show "case m c of Fuel \<Rightarrow> False | Fail l msg c' \<Rightarrow> True
      | Done x c' \<Rightarrow> pinv c' \<and> ntokens c' = ntokens c \<and> length (types c) \<le> length (types c')
          \<and> depth c' = depth c \<and> pos c + s \<le> pos c' \<and> Q x \<and> (\<forall>r\<in>R x. r < length (types c'))"
    using assms(1) c
  proof (cases rule: okD)
    case (returned x c')
    have "\<forall>r\<in>R x. r < length (types c')" using assms(4) [OF returned(7)] returned(4,8) c(3) by fastforce
    then show ?thesis using returned assms(2,3) by simp
  qed simp
qed

text \<open>A trivial postcondition.\<close>

abbreviation okay :: "tref set \<Rightarrow> nat \<Rightarrow> nat \<Rightarrow> 'a parser \<Rightarrow> bool" where
  "okay V k s m \<equiv> ok V k s m (\<lambda>_. True) (\<lambda>_. {})"

abbreviation ok_ref :: "tref set \<Rightarrow> nat \<Rightarrow> nat \<Rightarrow> tref parser \<Rightarrow> bool" where
  "ok_ref V k s m \<equiv> ok V k s m (\<lambda>_. True) (\<lambda>t. {t})"

abbreviation ok_refs :: "tref set \<Rightarrow> nat \<Rightarrow> nat \<Rightarrow> tref list parser \<Rightarrow> bool" where
  "ok_refs V k s m \<equiv> ok V k s m (\<lambda>_. True) set"

abbreviation ok_name :: "tref set \<Rightarrow> nat \<Rightarrow> nat \<Rightarrow> string parser \<Rightarrow> bool" where
  "ok_name V k s m \<equiv> ok V k s m (\<lambda>name. name \<noteq> ''Function'') (\<lambda>_. {})"

section \<open>One rule per combinator\<close>

named_theorems ok_rules

lemma ok_ret [ok_rules]: "okay V k 0 (ret x)"
  by (rule okI) (simp add: ret_def)

lemma ok_ret_ref: "t \<in> V \<Longrightarrow> ok_ref V k 0 (ret t)"
  by (rule okI) (auto simp: ret_def)

lemma ok_ret_refs: "set ts \<subseteq> V \<Longrightarrow> ok_refs V k 0 (ret ts)"
  by (rule okI) (auto simp: ret_def)

lemma ok_ret_val: "Q x \<Longrightarrow> ok V k 0 (ret x) Q (\<lambda>_. {})"
  by (rule okI) (auto simp: ret_def)

lemma ok_fail [ok_rules]: "ok V k 100 (fail_at l m) Q R"
  by (rule okI) (simp add: fail_at_def tc_error_def)

lemma ok_chain [ok_rules]:
  assumes m: "ok V k s1 m Q1 R1" and f: "\<And>x. Q1 x \<Longrightarrow> ok (V \<union> R1 x) (k - s1) s2 (f x) Q R"
  shows "ok V k (s1 + s2) (chain m f) Q R"
proof (rule okI)
  fix c assume c: "pinv c" "left c \<le> k" "\<forall>r\<in>V. r < length (types c)"
  show "case chain m f c of Fuel \<Rightarrow> False | Fail l msg c' \<Rightarrow> True
      | Done x c' \<Rightarrow> pinv c' \<and> ntokens c' = ntokens c \<and> length (types c) \<le> length (types c')
          \<and> depth c' = depth c \<and> pos c + (s1 + s2) \<le> pos c' \<and> Q x \<and> (\<forall>r\<in>R x. r < length (types c'))"
    using m c
  proof (cases rule: okD)
    case (returned x c1)
    have "left c1 \<le> k - s1" using returned(3,6) c(2) by (simp add: left_def)
    moreover have "\<forall>r\<in>V \<union> R1 x. r < length (types c1)" using c(3) returned(4,8) by auto
    ultimately show ?thesis
    proof (rule okD [OF f [OF returned(7)] returned(2)], goal_cases)
      case (1 y c')
      then show ?thesis using returned(1,3-6) by (simp add: chain_def)
    next
      case (2 l msg c')
      then show ?thesis using returned(1) by (simp add: chain_def)
    qed
  next
    case (failed l msg c')
    then show ?thesis by (simp add: chain_def)
  qed
qed

lemma ok_if [ok_rules]:
  "(b \<Longrightarrow> ok V k s1 m1 Q R) \<Longrightarrow> (\<not> b \<Longrightarrow> ok V k s2 m2 Q R) \<Longrightarrow> ok V k (min s1 s2) (if b then m1 else m2) Q R"
  by (cases b) (auto elim: ok_weaken)

lemma ok_get [ok_rules]: "(\<And>c. ok V k s (f c) Q R) \<Longrightarrow> ok V k s (get f) Q R"
  by (rule okI) (auto simp: ok_def get_def)

lemma ok_Let [ok_rules]: "ok V k s (f x) Q R \<Longrightarrow> ok V k s (let y = x in f y) Q R"
  by simp

lemma ok_case_prod [ok_rules]:
  "(\<And>x y. p = (x, y) \<Longrightarrow> ok V k s (f x y) Q R) \<Longrightarrow> ok V k s (case p of (x, y) \<Rightarrow> f x y) Q R"
  by (cases p) simp

lemma ok_case_option [ok_rules]:
  "ok V k s1 m Q R \<Longrightarrow> (\<And>x. ok V k s2 (f x) Q R) \<Longrightarrow>
   ok V k (min s1 s2) (case z of None \<Rightarrow> m | Some x \<Rightarrow> f x) Q R"
proof (cases z)
  case None
  assume "ok V k s1 m Q R"
  then have "ok V k (min s1 s2) m Q R" by (rule ok_weaken) auto
  then show ?thesis using None by simp
next
  case (Some a)
  assume "\<And>x. ok V k s2 (f x) Q R"
  then have "ok V k (min s1 s2) (f a) Q R" by (rule ok_weaken) auto
  then show ?thesis using Some by simp
qed

lemma pinv_step:
  assumes "pinv c" "tok_kind (peek c) \<noteq> TK_EOF"
  shows "pinv (c\<lparr>pos := pos c + 1\<rparr>)"
proof -
  have "Suc (pos c) \<noteq> ntokens c" using assms by (auto simp: pinv_def token_shape_def peek_def ntokens_def)
  then show ?thesis using assms(1) by (auto simp: pinv_def ntokens_def)
qed

lemma pinv_text: "pinv c \<Longrightarrow> tok_text (peek c) \<noteq> [] \<longleftrightarrow> tok_kind (peek c) \<noteq> TK_EOF"
  by (auto simp: pinv_def token_shape_def peek_def ntokens_def)

lemma ok_eat: "s \<noteq> [] \<Longrightarrow> okay V k 0 (eat s)"
proof (rule okI)
  fix c assume a: "s \<noteq> []" "pinv c" "left c \<le> k" "\<forall>r\<in>V. r < length (types c)"
  have "pinv (c\<lparr>pos := pos c + 1\<rparr>)" if "at c s"
    using pinv_step [OF a(2)] pinv_text [OF a(2)] a(1) that by (simp add: at_def)
  then show "case eat s c of Fuel \<Rightarrow> False | Fail l msg c' \<Rightarrow> True
      | Done x c' \<Rightarrow> pinv c' \<and> ntokens c' = ntokens c \<and> length (types c) \<le> length (types c')
          \<and> depth c' = depth c \<and> pos c + 0 \<le> pos c' \<and> True \<and> (\<forall>r\<in>{}. r < length (types c'))"
    using a by (simp add: eat_def ntokens_def)
qed

lemma ok_if_eat [ok_rules]:
  assumes s: "s \<noteq> []" and m1: "ok V (k - 1) s1 m1 Q R" and m2: "ok V k s2 m2 Q R"
  shows "ok V k (min (s1 + 1) s2) (if_eat s m1 m2) Q R"
proof (rule okI)
  fix c assume c: "pinv c" "left c \<le> k" "\<forall>r\<in>V. r < length (types c)"
  let ?c = "c\<lparr>pos := pos c + 1\<rparr>"
  show "case if_eat s m1 m2 c of Fuel \<Rightarrow> False | Fail l msg c' \<Rightarrow> True
      | Done x c' \<Rightarrow> pinv c' \<and> ntokens c' = ntokens c \<and> length (types c) \<le> length (types c')
          \<and> depth c' = depth c \<and> pos c + min (s1 + 1) s2 \<le> pos c' \<and> Q x \<and> (\<forall>r\<in>R x. r < length (types c'))"
  proof (cases "at c s")
    case True
    then have p: "pinv ?c" using pinv_step [OF c(1)] pinv_text [OF c(1)] s by (simp add: at_def)
    have l: "left ?c \<le> k - 1" using c(2) by (simp add: left_def ntokens_def)
    have v: "\<forall>r\<in>V. r < length (types ?c)" using c(3) by simp
    show ?thesis using True by (rule_tac okD [OF m1 p l v]) (auto simp: if_eat_def chain_def eat_def ntokens_def)
  next
    case False
    show ?thesis using False by (rule_tac okD [OF m2 c]) (auto simp: if_eat_def chain_def eat_def)
  qed
qed

lemma ok_take [ok_rules]: "ok V k 1 take_token (\<lambda>t. tok_text t \<noteq> ''Function'') (\<lambda>_. {})"
proof (rule okI)
  fix c assume c: "pinv c" "left c \<le> k" "\<forall>r\<in>V. r < length (types c)"
  have "tok_text (peek c) \<noteq> ''Function''"
    using c(1) by (auto simp: pinv_def token_shape_def peek_def ntokens_def)
  then show "case take_token c of Fuel \<Rightarrow> False | Fail l msg c' \<Rightarrow> True
      | Done x c' \<Rightarrow> pinv c' \<and> ntokens c' = ntokens c \<and> length (types c) \<le> length (types c')
          \<and> depth c' = depth c \<and> pos c + 1 \<le> pos c' \<and> tok_text x \<noteq> ''Function'' \<and> (\<forall>r\<in>{}. r < length (types c'))"
    using pinv_step [OF c(1)] by (auto simp: take_token_def tc_error_def ntokens_def)
qed

lemma ok_ident [ok_rules]: "ok_name V k 1 ident"
proof -
  have "ok V k (1 + min 100 0) ident (\<lambda>name. name \<noteq> ''Function'') (\<lambda>_. {})"
    unfolding ident_def
    by (rule ok_chain [OF ok_take], rule ok_if, rule ok_fail, rule ok_ret_val)
  then show ?thesis by simp
qed

lemma ok_expect [ok_rules]: "s \<noteq> [] \<Longrightarrow> okay V k 1 (expect s)"
  unfolding expect_def
  by (rule ok_weaken, rule ok_get, rule ok_if_eat, assumption, rule ok_ret, rule ok_fail) simp_all

lemma ok_lift:
  assumes "\<And>c. pinv c \<Longrightarrow> (\<forall>r\<in>V. r < length (types c)) \<Longrightarrow>
     (case f c of (x, c') \<Rightarrow> pinv c' \<and> tokens c' = tokens c \<and> length (types c) \<le> length (types c')
        \<and> depth c' = depth c \<and> pos c' = pos c \<and> Q x \<and> (\<forall>r\<in>R x. r < length (types c')))"
  shows "ok V k 0 (lift f) Q R"
  by (rule okI) (use assms in \<open>fastforce simp: lift_def ntokens_def split: prod.splits\<close>)

lemma ok_new_node [ok_rules]: "okay V k 0 (new_node x l)"
  unfolding new_node_def by (rule ok_lift) (auto simp: node_def pinv_def types_ok_def ntokens_def)

lemma ok_nested [ok_rules]:
  assumes "ok V k s m Q R"
  shows "ok V k s (nested m) Q R"
proof (rule okI)
  fix c assume c: "pinv c" "left c \<le> k" "\<forall>r\<in>V. r < length (types c)"
  let ?c = "c\<lparr>depth := depth c + 1\<rparr>"
  have p: "pinv ?c" "left ?c \<le> k" "\<forall>r\<in>V. r < length (types ?c)"
    using c by (simp_all add: pinv_def types_ok_def left_def ntokens_def)
  show "case nested m c of Fuel \<Rightarrow> False | Fail l msg c' \<Rightarrow> True
      | Done x c' \<Rightarrow> pinv c' \<and> ntokens c' = ntokens c \<and> length (types c) \<le> length (types c')
          \<and> depth c' = depth c \<and> pos c + s \<le> pos c' \<and> Q x \<and> (\<forall>r\<in>R x. r < length (types c'))"
    by (rule okD [OF assms p])
       (auto simp: nested_def chain_def tc_error_def ret_def pinv_def types_ok_def ntokens_def Let_def)
qed

lemma ok_loop:
  assumes "\<And>again j W s. j \<le> k \<Longrightarrow>
      (\<And>i W' s'. i < j \<Longrightarrow> I s' \<Longrightarrow> A s' \<subseteq> W' \<Longrightarrow> ok W' i t (again s') Q R) \<Longrightarrow>
      I s \<Longrightarrow> A s \<subseteq> W \<Longrightarrow> ok W j t (f again s) Q R"
    and "I s0" "A s0 \<subseteq> V"
  shows "ok V k t (loop_here f s0) Q R"
proof (rule okI)
  have loop: "j < n \<Longrightarrow> j \<le> k \<Longrightarrow> I s \<Longrightarrow> A s \<subseteq> W \<Longrightarrow> ok W j t (loop n f s) Q R" for n j s W
  proof (induction n arbitrary: j s W)
    case (Suc n)
    have "ok W j t (f (loop n f) s) Q R"
      by (rule assms(1) [OF Suc.prems(2)]) (use Suc in auto)
    then show ?case by simp
  qed simp
  fix c assume c: "pinv c" "left c \<le> k" "\<forall>r\<in>V. r < length (types c)"
  have "ok V (left c) t (loop (left c + 1) f s0) Q R"
    by (rule loop) (use c(2) assms(2,3) in auto)
  then show "case loop_here f s0 c of Fuel \<Rightarrow> False | Fail l msg c' \<Rightarrow> True
      | Done x c' \<Rightarrow> pinv c' \<and> ntokens c' = ntokens c \<and> length (types c) \<le> length (types c')
          \<and> depth c' = depth c \<and> pos c + t \<le> pos c' \<and> Q x \<and> (\<forall>r\<in>R x. r < length (types c'))"
    using c by (simp add: ok_def loop_here_def)
qed

text \<open>Loops whose state mentions no type.\<close>

lemma ok_loop_plain:
  assumes "\<And>again j W s. j \<le> k \<Longrightarrow> (\<And>i W' s'. i < j \<Longrightarrow> ok W' i t (again s') Q R) \<Longrightarrow>
      ok W j t (f again s) Q R"
  shows "ok V k t (loop_here f s0) Q R"
  by (rule ok_loop [where I = "\<lambda>_. True" and A = "\<lambda>_. {}"]) (use assms in auto)

section \<open>Type operations\<close>

text \<open>What the parser needs of an operation on the type table.\<close>

definition type_pure :: "Context \<Rightarrow> tref \<times> Context \<Rightarrow> bool" where
  "type_pure c r \<longleftrightarrow> tokens (snd r) = tokens c \<and> pos (snd r) = pos c \<and> depth (snd r) = depth c
     \<and> ((\<forall>t\<in>set (types c). type_fine t) \<longrightarrow> (\<forall>t\<in>set (types (snd r)). type_fine t))"

lemma type_pure_same [simp]: "type_pure c (t, c)"
  by (simp add: type_pure_def)

lemma type_pure_add: "(\<And>i. type_fine (fill (blank_type k i))) \<Longrightarrow> type_pure c (add_type c k fill)"
  by (auto simp: type_pure_def add_type_def)

lemma extends_length: "extends c c' \<Longrightarrow> length (types c) \<le> length (types c')"
  by (auto simp: extends_def)

lemma ok_type_op:
  assumes "\<And>c. pinv c \<Longrightarrow> (\<forall>r\<in>V. r < length (types c)) \<Longrightarrow> type_op_ok c (f c) \<and> type_pure c (f c)"
  shows "ok_ref V k 0 (lift f)"
proof (rule ok_lift)
  fix c assume c: "pinv c" "\<forall>r\<in>V. r < length (types c)"
  show "case f c of (x, c') \<Rightarrow> pinv c' \<and> tokens c' = tokens c \<and> length (types c) \<le> length (types c')
      \<and> depth c' = depth c \<and> pos c' = pos c \<and> True \<and> (\<forall>r\<in>{x}. r < length (types c'))"
    using assms [OF c] c(1) extends_length
    by (cases "f c") (auto simp: type_op_ok_def type_pure_def pinv_def ntokens_def)
qed

lemma ok_type_op_opt:
  assumes "\<And>c. pinv c \<Longrightarrow> (\<forall>r\<in>V. r < length (types c)) \<Longrightarrow>
    \<exists>r. f c = Some r \<and> type_op_ok c r \<and> type_pure c r"
  shows "ok_ref V k 0 (lift_opt f)"
proof (rule okI)
  fix c assume c: "pinv c" "left c \<le> k" "\<forall>r\<in>V. r < length (types c)"
  then obtain r where "f c = Some r" "type_op_ok c r" "type_pure c r" using assms by blast
  then show "case lift_opt f c of Fuel \<Rightarrow> False | Fail l msg c' \<Rightarrow> True
      | Done x c' \<Rightarrow> pinv c' \<and> ntokens c' = ntokens c \<and> length (types c) \<le> length (types c')
          \<and> depth c' = depth c \<and> pos c + 0 \<le> pos c' \<and> True \<and> (\<forall>r\<in>{x}. r < length (types c'))"
    using c(1) extends_length
    by (cases r) (auto simp: lift_opt_def type_op_ok_def type_pure_def pinv_def ntokens_def)
qed

lemma type_primitive_pure: "k \<notin> {TY_NAMED, TY_ARRAY} \<Longrightarrow> type_pure c (type_primitive c k)"
  by (auto simp: type_pure_def type_primitive_def set_builtin_def add_type_def blank_type_def type_fine_def
      split: option.splits)

lemma type_size_t_pure:
  assumes "types_ok c"
  shows "type_pure c (type_size_t c)"
proof -
  obtain b c1 where p: "type_primitive c TY_U64 = (b, c1)" by fastforce
  have pure: "type_pure c (b, c1)" using type_primitive_pure [of TY_U64 c] p by simp
  have "b < length (types c1)" using type_primitive_ok [OF assms, of TY_U64] p by (simp add: type_op_ok_def)
  then have "types c1 ! b \<in> set (types c1)" by simp
  moreover have "type_fine t \<Longrightarrow> type_fine (t\<lparr>ty_name := ''size_t'', ty_cname := ''size_t''\<rparr>)" for t
    by (simp add: type_fine_def)
  ultimately show ?thesis using pure by (auto simp: type_size_t_def p type_pure_def split: option.split)
qed

lemma prim_kinds_plain: "k \<in> set prim_kinds \<Longrightarrow> k \<notin> {TY_NAMED, TY_ARRAY}"
  by (auto simp: prim_kinds_def)

lemma type_aliases_plain: "map_of type_aliases name = Some k \<Longrightarrow> k \<notin> {TY_NAMED, TY_ARRAY}"
  by (auto simp: type_aliases_def split: if_splits)

lemma type_named_pure:
  assumes "types_ok c" "name \<noteq> ''Function''"
  shows "type_pure c (type_named c name)"
proof -
  have a: "type_pure c (add_type c TY_NAMED (\<lambda>t. t\<lparr>ty_name := name, ty_cname := ''tc_'' @ name\<rparr>))"
    by (rule type_pure_add) (simp add: type_fine_def blank_type_def assms(2))
  have v: "type_pure c (type_primitive c TY_AUTO)" by (rule type_primitive_pure) simp
  have "find (\<lambda>k. prim_name k = name) prim_kinds = Some k \<Longrightarrow> k \<in> set prim_kinds" for k
    by (auto simp: find_Some_iff)
  then show ?thesis
    using a v type_size_t_pure [OF assms(1)] type_primitive_pure prim_kinds_plain type_aliases_plain
    by (auto simp: type_named_def split: option.split)
qed

lemma type_derive_pure:
  assumes "k = TY_PTR \<or> k = TY_SLICE \<or> (k = TY_ARRAY \<and> 1 \<le> n \<and> n \<le> 10000000)"
  shows "type_pure c (type_derive c k b n)"
proof (cases "find_type (\<lambda>t. ty_kind t = k \<and> ty_base t = Some b \<and> ty_count t = n) c")
  case None
  show ?thesis unfolding type_derive_def None option.case
    by (rule type_pure_add) (use assms in \<open>auto simp: type_fine_def blank_type_def\<close>)
qed (simp add: type_derive_def)

lemma type_const_pure:
  assumes "b < length (types c)"
  shows "type_pure c (type_const c b)"
proof -
  have "type_fine (types c ! b) \<Longrightarrow> type_fine ((types c ! b)\<lparr>ty_id := i, ty_qualified := True,
      ty_name := ''const '' @ ty_name (types c ! b), ty_cname := s\<rparr>)" for i s
    by (simp add: type_fine_def)
  then show ?thesis using assms
    by (auto simp: type_const_def Let_def type_pure_def add_type_def split: option.split)
qed

lemma ok_type_named [ok_rules]: "name \<noteq> ''Function'' \<Longrightarrow> ok_ref V k 0 (lift (\<lambda>c. type_named c name))"
  by (rule ok_type_op) (simp add: type_named_ok type_named_pure pinv_def)

lemma ok_type_primitive [ok_rules]:
  "x \<notin> {TY_NAMED, TY_ARRAY} \<Longrightarrow> ok_ref V k 0 (lift (\<lambda>c. type_primitive c x))"
  by (rule ok_type_op) (simp only: type_primitive_ok type_primitive_pure pinv_def simp_thms)

lemma ok_type_derive [ok_rules]:
  "t \<in> V \<Longrightarrow> x = TY_PTR \<or> x = TY_SLICE \<or> (x = TY_ARRAY \<and> 1 \<le> n \<and> n \<le> 10000000) \<Longrightarrow>
   ok_ref V k 0 (lift (\<lambda>c. type_derive c x t n))"
  by (rule ok_type_op) (simp add: type_derive_ok type_derive_pure pinv_def)

lemma ok_type_const [ok_rules]: "t \<in> V \<Longrightarrow> ok_ref V k 0 (lift (\<lambda>c. type_const c t))"
  by (rule ok_type_op) (simp add: type_const_ok type_const_pure pinv_def)

lemma ok_type_tuple [ok_rules]:
  assumes "set ts \<subseteq> V"
  shows "ok_ref V k 0 (lift_opt (\<lambda>c. type_tuple c ts))"
proof (rule ok_type_op_opt)
  fix c assume c: "pinv c" "\<forall>r\<in>V. r < length (types c)"
  then have i: "types_ok c" "refs_in c ts" using assms by (auto simp: pinv_def refs_in_def)
  have "type_pure c (add_type c TY_TUPLE (tuple_fill ts))"
    by (rule type_pure_add) (simp add: type_fine_def tuple_fill_def blank_type_def)
  then show "\<exists>r. type_tuple c ts = Some r \<and> type_op_ok c r \<and> type_pure c r"
    using type_tuple_ok [OF i] type_tuple_eq [OF i] by (auto split: option.splits)
qed

lemma ok_type_generic [ok_rules]:
  assumes "set ts \<subseteq> V" "name \<noteq> ''Function''"
  shows "ok_ref V k 0 (lift_opt (\<lambda>c. type_generic c name ts))"
proof (rule ok_type_op_opt)
  fix c assume c: "pinv c" "\<forall>r\<in>V. r < length (types c)"
  then have i: "types_ok c" "refs_in c ts" using assms by (auto simp: pinv_def refs_in_def)
  have "type_pure c (add_type c TY_NAMED (generic_fill name ts))"
    by (rule type_pure_add) (simp add: type_fine_def generic_fill_def blank_type_def assms(2))
  then show "\<exists>r. type_generic c name ts = Some r \<and> type_op_ok c r \<and> type_pure c r"
    using type_generic_ok [OF i, of name] type_generic_eq [OF i, of name] by (auto split: option.splits)
qed

text \<open>Claiming a type keeps its links.\<close>

lemma ok_update [ok_rules]:
  assumes "\<And>t. type_links (f t) = type_links t" "\<And>t. type_fine t \<Longrightarrow> type_fine (f t)"
  shows "okay V k 0 (update_type t f)"
proof (rule okI)
  fix c assume c: "pinv c" "left c \<le> k" "\<forall>r\<in>V. r < length (types c)"
  have "table_ok ((types c)[t := f (types c ! t)])"
    using c(1) assms(1)
    by (cases "t < length (types c)") (auto simp: pinv_def types_ok_def table_ok_def nth_list_update)
  moreover have "\<forall>x\<in>set ((types c)[t := f (types c ! t)]). type_fine x"
  proof (cases "t < length (types c)")
    case True
    then have "type_fine (f (types c ! t))" using c(1) assms(2) by (simp add: pinv_def)
    then show ?thesis using c(1) by (auto simp: pinv_def dest!: set_update_subset_insert [THEN subsetD])
  next
    case False
    then show ?thesis using c(1) by (simp add: pinv_def list_update_beyond)
  qed
  ultimately show "case update_type t f c of Fuel \<Rightarrow> False | Fail l msg c' \<Rightarrow> True
      | Done x c' \<Rightarrow> pinv c' \<and> ntokens c' = ntokens c \<and> length (types c) \<le> length (types c')
          \<and> depth c' = depth c \<and> pos c + 0 \<le> pos c' \<and> True \<and> (\<forall>r\<in>{}. r < length (types c'))"
    using c(1) by (simp add: update_type_def pinv_def types_ok_def ntokens_def)
qed

section \<open>The routines, given their callees\<close>

definition callees :: "routines \<Rightarrow> nat \<Rightarrow> nat \<Rightarrow> bool" where
  "callees P a b \<longleftrightarrow> (\<forall>W j. j \<le> a \<longrightarrow> ok_ref W j 1 (p_type P) \<and> (\<forall>m. okay W j 1 (p_expr P m)))
     \<and> (\<forall>W j. j \<le> b \<longrightarrow> okay W j 1 (p_stmt P) \<and> (\<forall>f q. okay W j 1 (p_declaration P f q)))"

lemma callees_type: "callees P a b \<Longrightarrow> j \<le> a \<Longrightarrow> ok_ref W j 1 (p_type P)"
  by (simp add: callees_def)

lemma callees_expr: "callees P a b \<Longrightarrow> j \<le> a \<Longrightarrow> okay W j 1 (p_expr P m)"
  by (simp add: callees_def)

lemma callees_stmt: "callees P a b \<Longrightarrow> j \<le> b \<Longrightarrow> okay W j 1 (p_stmt P)"
  by (simp add: callees_def)

lemma callees_declaration: "callees P a b \<Longrightarrow> j \<le> b \<Longrightarrow> okay W j 1 (p_declaration P f q)"
  by (simp add: callees_def)

lemmas callee_rules = callees_type callees_expr callees_stmt callees_declaration

lemma ok_sep_list:
  assumes "sep \<noteq> []" and item: "\<And>W j. j \<le> k \<Longrightarrow> ok W j 1 item (\<lambda>_. True) R"
  shows "ok V k 1 (sep_list sep item) (\<lambda>_. True) (\<lambda>xs. \<Union>x\<in>set xs. R x)"
  unfolding sep_list_def
proof (rule ok_loop [where I = "\<lambda>_. True" and A = "\<lambda>xs. \<Union>x\<in>set xs. R x"])
  fix again j W and s :: "'a list"
  assume j: "j \<le> k"
    and again: "\<And>i W' s'. i < j \<Longrightarrow> True \<Longrightarrow> (\<Union>x\<in>set s'. R x) \<subseteq> W' \<Longrightarrow>
      ok W' i 1 (again s') (\<lambda>_. True) (\<lambda>xs. \<Union>x\<in>set xs. R x)"
    and W: "(\<Union>x\<in>set s. R x) \<subseteq> W"
  show "ok W j 1 (chain item (\<lambda>x. if_eat sep (again (s @ [x])) (ret (s @ [x])))) (\<lambda>_. True) (\<lambda>xs. \<Union>x\<in>set xs. R x)"
  proof (rule ok_pos)
    assume pos: "0 < j"
    have "ok W j (1 + min (1 + 1) 0) (chain item (\<lambda>x. if_eat sep (again (s @ [x])) (ret (s @ [x]))))
        (\<lambda>_. True) (\<lambda>xs. \<Union>x\<in>set xs. R x)"
    proof (rule ok_chain [OF item [OF j]], rule ok_if_eat [OF assms(1)])
      fix x
      show "ok (W \<union> R x) (j - 1 - 1) 1 (again (s @ [x])) (\<lambda>_. True) (\<lambda>xs. \<Union>x\<in>set xs. R x)"
        by (rule again) (use pos W in auto)
      show "ok (W \<union> R x) (j - 1) 0 (ret (s @ [x])) (\<lambda>_. True) (\<lambda>xs. \<Union>x\<in>set xs. R x)"
        by (rule okI) (use W in \<open>auto simp: ret_def\<close>)
    qed
    then show ?thesis by simp
  qed
qed auto

lemma ok_sep_list_plain [ok_rules]:
  assumes "sep \<noteq> []" and item: "\<And>W j. j \<le> k \<Longrightarrow> okay W j t item" and "1 \<le> t"
  shows "okay V k 1 (sep_list sep item)"
proof -
  have "okay W j 1 item" if "j \<le> k" for W j
    using item [OF that, of W] assms(3) by (auto elim: ok_weaken)
  then show ?thesis using ok_sep_list [OF assms(1), of k item "\<lambda>_. {}"] by (simp add: ok_def)
qed

lemma ok_type_items:
  assumes P: "callees P a b" and k: "k \<le> a" and fin: "fin \<noteq> []"
  shows "ok_refs V k 1 (type_items P fin)"
proof -
  have list: "ok_refs V k 1 (sep_list '','' (p_type P))"
    using ok_sep_list [of "'',''" k "p_type P" "\<lambda>t. {t}" V] callees_type [OF P] k by simp
  have "ok_refs (V \<union> set xs) (k - 1) 0 (get (\<lambda>c. if fin = ''>'' \<and> at c ''>>''
              then chain (\<lambda>c. Done () (c\<lparr>tokens := (tokens c)[pos c := (peek c)\<lparr>tok_text := ''>''\<rparr>]\<rparr>)) (\<lambda>_. ret xs)
              else chain (expect fin) (\<lambda>_. ret xs)))" (is "ok_refs ?V ?k 0 ?m") for xs
  proof (rule okI)
    fix c assume c: "pinv c" "left c \<le> ?k" "\<forall>r\<in>?V. r < length (types c)"
    show "case ?m c of Fuel \<Rightarrow> False | Fail l msg c' \<Rightarrow> True
      | Done x c' \<Rightarrow> pinv c' \<and> ntokens c' = ntokens c \<and> length (types c) \<le> length (types c')
          \<and> depth c' = depth c \<and> pos c + 0 \<le> pos c' \<and> True \<and> (\<forall>r\<in>set x. r < length (types c'))"
    proof (cases "fin = ''>'' \<and> at c ''>>''")
      case True
      have "Suc (pos c) \<noteq> ntokens c"
        using c(1) True by (auto simp: pinv_def token_shape_def at_def peek_def ntokens_def)
      then have "token_shape ((tokens c)[pos c := (peek c)\<lparr>tok_text := ''>''\<rparr>])"
        using c(1) by (auto simp: pinv_def token_shape_def peek_def ntokens_def nth_list_update)
      then show ?thesis using True c
        by (auto simp: get_def chain_def ret_def pinv_def ntokens_def types_ok_def)
    next
      case False
      have "ok_refs ?V ?k (1 + 0) (chain (expect fin) (\<lambda>_. ret xs))"
        by (rule ok_chain [OF ok_expect [OF fin]], rule ok_ret_refs) simp
      then show ?thesis using False c by (auto simp: get_def ok_def split: res.split)
    qed
  qed
  then have "ok_refs V k (1 + 0) (type_items P fin)"
    unfolding type_items_def by (rule ok_chain [OF list])
  then show ?thesis by simp
qed

lemma ok_dotted_rest:
  assumes "name \<noteq> ''Function''"
  shows "ok_name V k 0 (dotted_rest name)"
  unfolding dotted_rest_def
proof (rule ok_loop [where I = "\<lambda>n. n \<noteq> ''Function''" and A = "\<lambda>_. {}"])
  fix again :: "string \<Rightarrow> string parser" and j W and s :: string
  assume again: "\<And>i W' s'. i < j \<Longrightarrow> s' \<noteq> ''Function'' \<Longrightarrow> {} \<subseteq> W' \<Longrightarrow> ok_name W' i 0 (again s')"
    and s: "s \<noteq> ''Function''"
  have dot: "s @ ''.'' @ part \<noteq> ''Function''" for part
  proof
    assume "s @ ''.'' @ part = ''Function''"
    then have "CHR ''.'' \<in> set ''Function''" by (metis in_set_conv_decomp append_Cons append_Nil)
    then show False by simp
  qed
  show "ok_name W j 0 (if_eat ''.'' (chain ident (\<lambda>part. again (s @ ''.'' @ part))) (ret s))"
  proof (rule ok_pos)
    assume "0 < j"
    then show ?thesis
      by (intro ok_weaken [OF ok_if_eat [OF _ ok_chain [OF ok_ident again] ok_ret_val]])
         (use s dot in auto)
  qed
qed (use assms in auto)

lemma ok_array_length [ok_rules]:
  "ok V k 0 (array_length n) (\<lambda>len. 1 \<le> len \<and> len \<le> 10000000) (\<lambda>_. {})"
proof -
  have "ok V k (min 100 (min 100 0)) (array_length n) (\<lambda>len. 1 \<le> len \<and> len \<le> 10000000) (\<lambda>_. {})"
    unfolding array_length_def
    by (rule ok_if, rule ok_fail, rule ok_Let, rule ok_case_prod, rule ok_if, rule ok_fail, rule ok_ret_val) auto
  then show ?thesis by simp
qed

lemmas ok_basic = ok_rules ok_ret_ref ok_ret_refs

lemma ok_type_suffixes:
  assumes "t \<in> V"
  shows "ok_ref V k 0 (type_suffixes t)"
  unfolding type_suffixes_def
proof (rule ok_loop [where I = "\<lambda>_. True" and A = "\<lambda>t. {t}"])
  fix again :: "tref \<Rightarrow> tref parser" and j W and s :: tref
  assume again: "\<And>i W' s'. i < j \<Longrightarrow> True \<Longrightarrow> {s'} \<subseteq> W' \<Longrightarrow> ok_ref W' i 0 (again s')" and s: "{s} \<subseteq> W"
  show "ok_ref W j 0 (if_eat ''*'' (chain (lift (\<lambda>c. type_derive c TY_PTR s 0)) again)
       (if_eat ''['' (chain take_token (\<lambda>n. chain (array_length n) (\<lambda>len.
           chain (expect '']'') (\<lambda>_. chain (lift (\<lambda>c. type_derive c TY_ARRAY s len)) again))))
         (ret s)))"
    by (rule ok_pos, insert s, rule ok_weaken, (rule ok_basic again | (simp; fail) | linarith)+)
qed (use assms in auto)

lemma ok_func_type:
  assumes P: "callees P a b" and k: "k \<le> a"
  shows "ok_ref V k 1 (func_type P name)"
proof -
  have knot: "ok_ref W j 0 (chain (lift_opt (\<lambda>c. type_generic c ''Function'' params)) (\<lambda>t.
     chain (update_type t (\<lambda>ty. ty\<lparr>ty_kind := (if name = ''closure'' then TY_CLOSURE else TY_FUNC),
                                    ty_base := Some result\<rparr>)) (\<lambda>_. ret t)))" (is "ok_ref W j 0 ?m")
    if "result \<in> W" "set params \<subseteq> W" for W j result params
  proof (rule okI)
    fix c assume c: "pinv c" "left c \<le> j" "\<forall>r\<in>W. r < length (types c)"
    let ?k = "if name = ''closure'' then TY_CLOSURE else TY_FUNC"
    let ?ty = "generic_fill ''Function'' params (blank_type TY_NAMED (next_id c + 1))"
    have i: "types_ok c" "refs_in c params" using c that by (auto simp: pinv_def refs_in_def)
    have "find_type (generic_match c ''Function'' params) c = None"
    proof (rule ccontr)
      assume "find_type (generic_match c ''Function'' params) c \<noteq> None"
      then obtain t where "t < length (types c)" "generic_match c ''Function'' params (types c ! t)"
        using find_type_Some by blast
      then have "\<not> type_fine (types c ! t)" by (simp add: generic_match_def type_fine_def)
      then show False using c(1) \<open>t < _\<close> by (simp add: pinv_def)
    qed
    then have g: "type_generic c ''Function'' params
        = Some (length (types c), c\<lparr>next_id := next_id c + 1, types := types c @ [?ty]\<rparr>)"
      using type_generic_eq [OF i, of "''Function''"] by (simp add: add_type_def)
    let ?ty' = "?ty\<lparr>ty_kind := ?k, ty_base := Some result\<rparr>"
    let ?c' = "c\<lparr>next_id := next_id c + 1, types := types c @ [?ty']\<rparr>"
    have run: "?m c = Done (length (types c)) ?c'"
      by (simp add: chain_def lift_opt_def g update_type_def ret_def)
    have links: "\<forall>r\<in>type_links ?ty'. r < length (types c)"
      using c(3) that by (auto simp: type_links_def generic_fill_def)
    have "types_ok ?c'" using types_ok_push [OF i(1) links, of ?c'] by simp
    moreover have "type_fine ?ty'" by (simp add: type_fine_def)
    ultimately show "case ?m c of Fuel \<Rightarrow> False | Fail l msg c' \<Rightarrow> True
      | Done x c' \<Rightarrow> pinv c' \<and> ntokens c' = ntokens c \<and> length (types c) \<le> length (types c')
          \<and> depth c' = depth c \<and> pos c + 0 \<le> pos c' \<and> True \<and> (\<forall>r\<in>{x}. r < length (types c'))"
      unfolding run using c(1) by (simp add: pinv_def ntokens_def)
  qed
  show ?thesis unfolding func_type_def
    by (insert k, rule ok_weaken,
        (rule knot callee_rules [OF P] ok_type_items [OF P] ok_basic | (simp; fail) | (auto; fail) | linarith)+)
qed

lemma ok_generic_type:
  assumes P: "callees P a b" and k: "k \<le> a" and name: "name \<noteq> ''Function''"
  shows "ok_ref V k 1 (generic_type P name)"
proof -
  have hd: "ok_ref (V \<union> set items) j 0 (lift (\<lambda>c. type_derive c TY_SLICE (hd items) 0))"
    if "\<not> length items \<noteq> 1" for items j
    using that by (intro ok_type_derive) (cases items; simp)+
  show ?thesis unfolding generic_type_def
    by (insert k name, rule ok_weaken,
        (rule hd callee_rules [OF P] ok_type_items [OF P] ok_basic | (simp; fail) | (auto; fail) | linarith)+)
qed

lemma ok_parse_type:
  assumes P: "callees P (k - 1) b"
  shows "ok_ref V k 1 (parse_type_body P)"
  unfolding parse_type_body_def
  by (rule ok_pos, rule ok_weaken,
      (rule ok_eat ok_func_type [OF P] ok_generic_type [OF P] ok_type_items [OF P] ok_dotted_rest
         ok_type_suffixes ok_basic | (simp; fail) | (auto; fail) | linarith)+)

lemma ok_get_token:
  "(\<And>c. tok_text (peek c) \<noteq> ''Function'' \<Longrightarrow> ok V k s (f c) Q R) \<Longrightarrow> ok V k s (get f) Q R"
proof (rule okI)
  fix c assume a: "\<And>c. tok_text (peek c) \<noteq> ''Function'' \<Longrightarrow> ok V k s (f c) Q R"
    "pinv c" "left c \<le> k" "\<forall>r\<in>V. r < length (types c)"
  have "tok_text (peek c) \<noteq> ''Function''"
    using a(2) by (auto simp: pinv_def token_shape_def peek_def ntokens_def)
  then show "case get f c of Fuel \<Rightarrow> False | Fail l msg c' \<Rightarrow> True
      | Done x c' \<Rightarrow> pinv c' \<and> ntokens c' = ntokens c \<and> length (types c) \<le> length (types c')
          \<and> depth c' = depth c \<and> pos c + s \<le> pos c' \<and> Q x \<and> (\<forall>r\<in>R x. r < length (types c'))"
    using a(1) [of c] a(2-) by (simp add: get_def ok_def)
qed

lemma ok_arguments:
  assumes P: "callees P a b" and k: "k \<le> a" and fin: "fin \<noteq> []"
  shows "okay V k 1 (arguments P fin)"
  unfolding arguments_def
  by (insert k fin, rule ok_weaken, (rule callee_rules [OF P] ok_basic | (simp; fail) | (auto; fail) | linarith)+)

lemma ok_initializer:
  assumes P: "callees P a b" and k: "k \<le> a"
  shows "okay V k 0 (initializer P)"
  unfolding initializer_def
  by (insert k, rule ok_weaken, (rule callee_rules [OF P] ok_basic | (simp; fail) | (auto; fail) | linarith)+)

lemma ok_parameter_loop:
  assumes P: "callees P a b" and k: "k \<le> a"
  shows "okay V k 1 (parameter_loop P xs)"
  unfolding parameter_loop_def
proof (rule ok_loop_plain)
  fix again :: "Node list \<Rightarrow> Node list parser" and j W s
  assume j: "j \<le> k" and again: "\<And>i W' s'. i < j \<Longrightarrow> okay W' i 1 (again s')"
  show "okay W j 1 (chain (get (\<lambda>c. new_node N_VAR (tok_loc (peek c)))) (\<lambda>p.
       if_eat ''...'' (ret (s @ [set_name ''...'' p]))
         (chain (p_type P) (\<lambda>t. chain ident (\<lambda>name. chain (initializer P) (\<lambda>a.
            (let p' = set_a a (set_name name (set_decl_type t p))
             in if_eat '','' (again (s @ [p'])) (ret (s @ [p'])))))))))"
    by (insert j k, rule ok_pos, rule ok_weaken,
      (rule again ok_initializer [OF P] callee_rules [OF P] ok_basic | (simp; fail) | (auto; fail) | linarith)+)
qed

lemma ok_lambda_body:
  assumes P: "callees P a b" and k: "k \<le> a" "k \<le> b"
  shows "okay V k 1 (lambda_body P n)"
  unfolding lambda_body_def
  by (insert k, rule ok_weaken, (rule callee_rules [OF P] ok_basic | (simp; fail) | (auto; fail) | linarith)+)

lemma ok_lambda_parameter:
  assumes P: "callees P a b" and k: "k \<le> a"
  shows "okay V k 1 (lambda_parameter P)"
  unfolding lambda_parameter_def
  by (insert k, rule ok_weaken, (rule callee_rules [OF P] ok_basic | (simp; fail) | (auto; fail) | linarith)+)

lemma ok_lambda_expr:
  assumes P: "callees P a b" and k: "k \<le> Suc a" "k \<le> Suc b"
  shows "okay V k 1 (lambda_expr P t)"
  unfolding lambda_expr_def
  by (insert k, rule ok_weaken, (rule ok_lambda_body [OF P] ok_lambda_parameter [OF P] callee_rules [OF P] ok_basic | (simp; fail) | (auto; fail) | linarith)+)

lemma ok_tuple_rest:
  assumes P: "callees P a b" and k: "k \<le> a"
  shows "okay V k 0 (tuple_rest P t n)"
  unfolding tuple_rest_def
  by (insert k, rule ok_weaken, (rule callee_rules [OF P] ok_basic | (simp; fail) | (auto; fail) | linarith)+)

lemma ok_id_expr:
  assumes P: "callees P a b" and k: "k \<le> a" "k - 1 \<le> b" and t: "tok_text t \<noteq> ''Function''"
  shows "okay V k 0 (id_expr P t n)"
  unfolding id_expr_def
  by (insert k t, rule ok_weaken, (rule ok_lambda_body [OF P] ok_type_items [OF P] callee_rules [OF P] ok_basic | (simp; fail) | (auto; fail) | linarith)+)

lemma ok_atom:
  assumes P: "callees P a b" and k: "k \<le> Suc a" "k \<le> Suc b" and t: "tok_text t \<noteq> ''Function''"
  shows "okay V k 1 (atom P t)"
  unfolding atom_def
  by (insert k t, rule ok_weaken, (rule ok_id_expr [OF P] callee_rules [OF P] ok_basic | (simp; fail) | (auto; fail) | linarith)+)


lemma ok_void_parameters:
  assumes "ok V k s m Q R" and Q: "Q []" "R [] = {}"
  shows "ok V k 0 (get (\<lambda>c. if at c ''void'' \<and> tok_text (tokens c ! (pos c + 1)) = '')''
                 then (\<lambda>c. Done [] (c\<lparr>pos := pos c + 2\<rparr>)) else m)) Q R"
proof (rule okI)
  fix c assume c: "pinv c" "left c \<le> k" "\<forall>r\<in>V. r < length (types c)"
  have step: "pinv (c\<lparr>pos := pos c + 2\<rparr>)" if h: "at c ''void''" "tok_text (tokens c ! (pos c + 1)) = '')''"
  proof -
    let ?c = "c\<lparr>pos := pos c + 1\<rparr>"
    have "pinv ?c" using pinv_step [OF c(1)] pinv_text [OF c(1)] h(1) by (simp add: at_def)
    moreover have "tok_text (peek ?c) \<noteq> []" using h(2) by (simp add: peek_def)
    ultimately have "pinv (?c\<lparr>pos := pos ?c + 1\<rparr>)" using pinv_step pinv_text by blast
    then show ?thesis by simp
  qed
  show "case get (\<lambda>c. if at c ''void'' \<and> tok_text (tokens c ! (pos c + 1)) = '')''
                 then (\<lambda>c. Done [] (c\<lparr>pos := pos c + 2\<rparr>)) else m) c of
        Fuel \<Rightarrow> False | Fail l msg c' \<Rightarrow> True
      | Done x c' \<Rightarrow> pinv c' \<and> ntokens c' = ntokens c \<and> length (types c) \<le> length (types c')
          \<and> depth c' = depth c \<and> pos c + 0 \<le> pos c' \<and> Q x \<and> (\<forall>r\<in>R x. r < length (types c'))"
    using step Q by (rule_tac okD [OF assms(1) c]) (simp_all add: get_def ntokens_def)
qed

lemma ok_parameters:
  assumes P: "callees P a b" and k: "k \<le> a"
  shows "okay V k 0 (parameters P)"
  unfolding parameters_def
  by (insert k, rule ok_weaken,
     (rule ok_void_parameters ok_parameter_loop [OF P] ok_basic | (simp; fail) | (auto; fail) | linarith)+)

lemma ok_operand:
  assumes P: "callees P a b" and k: "k \<le> Suc a" "k \<le> Suc b" and t: "tok_text t \<noteq> ''Function''"
  shows "okay V k 1 (operand P t)"
  unfolding operand_def
  by (insert k t, rule ok_pos, rule ok_weaken,
     (rule ok_lambda_expr [OF P] ok_tuple_rest [OF P] ok_arguments [OF P] ok_atom [OF P] callee_rules [OF P] ok_basic
       | (simp; fail) | (auto; fail) | linarith)+)


lemma ok_index_rest:
  assumes P: "callees P a b" and k: "k \<le> a"
  shows "okay V k 1 (index_rest P n)"
  unfolding index_rest_def
  by (insert k, rule ok_weaken, (rule callee_rules [OF P] ok_basic | (simp; fail) | (auto; fail) | linarith)+)

lemma ok_postfix:
  assumes P: "callees P a b" and k: "k \<le> Suc a"
  shows "okay V k 0 (postfix P t n)"
  unfolding postfix_def Let_def
proof (rule ok_loop_plain)
  fix again :: "Node \<Rightarrow> Node parser" and j W s
  assume j: "j \<le> k" and again: "\<And>i W' s'. i < j \<Longrightarrow> okay W' i 0 (again s')"
  show "okay W j 0 (if_eat ''('' (chain (new_node N_CALL (tok_loc t)) (\<lambda>call. chain (arguments P '')'') (\<lambda>xs.
          again (set_args xs (set_a (Some s) call)))))
     (if_eat ''.'' (chain (get (\<lambda>c. new_node N_MEMBER (tok_loc (peek c)))) (\<lambda>m.
            chain ident (\<lambda>name. again (set_name name (set_a (Some s) m)))))
     (if_eat ''->'' (chain (get (\<lambda>c. new_node N_MEMBER (tok_loc (peek c)))) (\<lambda>m.
            chain ident (\<lambda>name. again (set_name name (set_a (Some s) m)))))
     (if_eat ''['' (chain (index_rest P s) again)
     (get (\<lambda>c. if at c ''++'' \<or> at c ''--'' then
        chain (new_node N_UNARY (tok_loc (peek c))) (\<lambda>u. chain take_token (\<lambda>op.
          again (set_flags {NF_POST} (set_text (tok_text op) (set_a (Some s) u)))))
      else ret s))))))"
    by (insert j k, rule ok_pos, rule ok_weaken,
      (rule again ok_arguments [OF P] ok_index_rest [OF P] callee_rules [OF P] ok_basic | (simp; fail) | (auto; fail) | linarith)+)
qed

lemma ok_primary:
  assumes P: "callees P a b" and k: "k \<le> Suc a" "k \<le> Suc b"
  shows "okay V k 1 (primary P)"
  unfolding primary_def
  by (insert k, rule ok_weaken, rule ok_get_token,
     (rule ok_operand [OF P] ok_postfix [OF P] ok_basic | (simp; fail) | (auto; fail) | linarith)+)

lemma ok_expr:
  assumes P: "callees P a b" and k: "k \<le> Suc a" "k \<le> Suc b"
  shows "okay V k 1 (expr_body P m)"
proof -
  have loop: "okay W i 0 (loop_here (\<lambda>again lhs. get (\<lambda>c.
       let p = precedence (tok_text (peek c))
       in if p \<ge> m then
            chain take_token (\<lambda>op. chain (new_node N_BINARY (tok_loc op)) (\<lambda>n.
            chain (p_expr P (p + (if p = 1 then 0 else 1))) (\<lambda>b.
              again (set_b (Some b) (set_a (Some lhs) (set_text (tok_text op) n))))))
          else ret lhs)) x)" if i: "i \<le> k" for W i x
  proof (rule ok_loop_plain)
    fix again :: "Node \<Rightarrow> Node parser" and j W s
    assume j: "j \<le> i" and again: "\<And>i W' s'. i < j \<Longrightarrow> okay W' i 0 (again s')"
    show "okay W j 0 (get (\<lambda>c. let p = precedence (tok_text (peek c))
       in if p \<ge> m then
            chain take_token (\<lambda>op. chain (new_node N_BINARY (tok_loc op)) (\<lambda>n.
            chain (p_expr P (p + (if p = 1 then 0 else 1))) (\<lambda>b.
              again (set_b (Some b) (set_a (Some s) (set_text (tok_text op) n))))))
          else ret s))"
      by (insert i j k, rule ok_pos, rule ok_weaken,
        (rule again callee_rules [OF P] ok_basic | (simp; fail) | (auto; fail) | linarith)+)
  qed
  show ?thesis unfolding expr_body_def
    by (insert k, rule ok_weaken, (rule loop ok_primary [OF P] ok_basic | (simp; fail) | (auto; fail) | linarith)+)
qed

section \<open>Statements\<close>

lemma ok_more_names: "okay V k 0 more_names"
  unfolding more_names_def
proof (rule ok_loop_plain)
  fix again :: "Node list \<Rightarrow> Node list parser" and j W s
  assume j: "j \<le> k" and again: "\<And>i W' s'. i < j \<Longrightarrow> okay W' i 0 (again s')"
  show "okay W j 0 (if_eat '',''
       (chain (get (\<lambda>c. new_node N_VAR (tok_loc (peek c)))) (\<lambda>p. chain ident (\<lambda>name.
          again (s @ [set_name name p]))))
       (ret s))"
    by (insert j, rule ok_pos, rule ok_weaken, (rule again ok_basic | (simp; fail) | (auto; fail) | linarith)+)
qed

lemma ok_declared_array: "t \<in> V \<Longrightarrow> ok_ref V k 0 (declared_array t)"
  unfolding declared_array_def
  by (rule ok_weaken, (rule ok_basic | (simp; fail) | (auto; fail) | linarith)+)

lemma ok_constructor_args:
  assumes P: "callees P a b" and k: "k \<le> a"
  shows "okay V k 0 (constructor_args P n ty)"
  unfolding constructor_args_def
  by (insert k, rule ok_weaken, (rule ok_arguments [OF P] callee_rules [OF P] ok_basic | (simp; fail) | (auto; fail) | linarith)+)

lemma ok_variable:
  assumes P: "callees P a b" and k: "k \<le> a"
  shows "okay V k 1 (variable P semi)"
  unfolding variable_def
  by (insert k, rule ok_weaken, (rule ok_more_names ok_declared_array ok_constructor_args [OF P] callee_rules [OF P] ok_basic | (simp; fail) | (auto; fail) | linarith)+)

lemma ok_block_loop:
  assumes P: "callees P a b" and k: "k \<le> b"
  shows "okay V k 1 (block_loop P t)"
  unfolding block_loop_def
proof (rule ok_loop_plain)
  fix again :: "Node list \<Rightarrow> Node list parser" and j W s
  assume j: "j \<le> k" and again: "\<And>i W' s'. i < j \<Longrightarrow> okay W' i 1 (again s')"
  show "okay W j 1 (if_eat ''}'' (ret s)
       (get (\<lambda>c. if tok_kind (peek c) = TK_EOF then fail_at (tok_loc t) ''unterminated block''
                 else chain (p_stmt P) (\<lambda>x. again (s @ [x])))))"
    by (insert j k, rule ok_pos, rule ok_weaken,
        (rule again callee_rules [OF P] ok_basic | (simp; fail) | (auto; fail) | linarith)+)
qed

lemma ok_case_body:
  assumes P: "callees P a b" and k: "k \<le> b"
  shows "okay V k 0 (case_body P t)"
  unfolding case_body_def
proof (rule ok_loop_plain)
  fix again :: "Node list \<Rightarrow> Node list parser" and j W s
  assume j: "j \<le> k" and again: "\<And>i W' s'. i < j \<Longrightarrow> okay W' i 0 (again s')"
  show "okay W j 0 (get (\<lambda>c.
     if \<not> keyword c ''case'' \<and> \<not> keyword c ''default'' \<and> \<not> (tok_kind (peek c) = TK_OP \<and> at c ''}'')
     then (if tok_kind (peek c) = TK_EOF then fail_at (tok_loc t) ''unterminated switch''
           else chain (p_stmt P) (\<lambda>x. again (s @ [x])))
     else ret s))"
    by (insert j k, rule ok_pos, rule ok_weaken,
        (rule again callee_rules [OF P] ok_basic | (simp; fail) | (auto; fail) | linarith)+)
qed

lemma ok_case_label:
  assumes P: "callees P a b" and k: "k \<le> Suc a"
  shows "okay V k 1 (case_label P label d item)"
  unfolding case_label_def
  by (insert k, rule ok_weaken, (rule callee_rules [OF P] ok_basic | (simp; fail) | (auto; fail) | linarith)+)

lemma ok_switch_loop:
  assumes P: "callees P a b" and k: "k \<le> a" "k \<le> b"
  shows "okay V k 1 (switch_loop P t)"
  unfolding switch_loop_def
proof (rule ok_loop_plain)
  fix again :: "bool \<times> Node list \<Rightarrow> Node list parser" and j W and s :: "bool \<times> Node list"
  assume j: "j \<le> k" and again: "\<And>i W' s'. i < j \<Longrightarrow> okay W' i 1 (again s')"
  obtain d list where s: "s = (d, list)" by fastforce
  show "okay W j 1 ((\<lambda>(has_default, list).
     if_eat ''}'' (ret list)
       (get (\<lambda>c. let label = peek c in
          if tok_kind label = TK_EOF then fail_at (tok_loc t) ''unterminated switch''
          else chain (new_node N_CASE (tok_loc label)) (\<lambda>item.
               chain (case_label P label has_default item) (\<lambda>(item, has_default).
               chain (expect '':'') (\<lambda>_.
               chain (new_node N_BLOCK (tok_loc label)) (\<lambda>block.
               chain (case_body P t) (\<lambda>stmts.
                 again (has_default, list @ [set_body [set_body stmts block] item]))))))))) s)"
    unfolding s prod.case
    by (insert j k, rule ok_pos, rule ok_weaken,
        (rule again ok_case_label [OF P] ok_case_body [OF P] callee_rules [OF P] ok_basic
          | (simp; fail) | (auto; fail) | linarith)+)
qed


lemma ok_switch_stmt:
  assumes P: "callees P a b" and k: "k \<le> Suc a" "k \<le> Suc b"
  shows "okay V k 1 (switch_stmt P t)"
  unfolding switch_stmt_def
  by (insert k, rule ok_weaken, (rule ok_switch_loop [OF P] callee_rules [OF P] ok_basic | (simp; fail) | (auto; fail) | linarith)+)

lemma ok_for_init:
  assumes P: "callees P a b" and k: "k \<le> a"
  shows "okay V k 0 (for_init P t)"
  unfolding for_init_def
  by (insert k, rule ok_weaken, (rule ok_variable [OF P] callee_rules [OF P] ok_basic | (simp; fail) | (auto; fail) | linarith)+)

lemma ok_expr_unless:
  assumes P: "callees P a b" and k: "k \<le> a"
  shows "okay V k 0 (expr_unless P s)"
  unfolding expr_unless_def
  by (insert k, rule ok_weaken, (rule callee_rules [OF P] ok_basic | (simp; fail) | (auto; fail) | linarith)+)

lemma ok_for_range:
  assumes P: "callees P a b" and k: "k \<le> a" "k \<le> Suc b"
  shows "okay V k 1 (for_range P n)"
  unfolding for_range_def
  by (insert k, rule ok_weaken, (rule callee_rules [OF P] ok_basic | (simp; fail) | (auto; fail) | linarith)+)

lemma ok_for_stmt:
  assumes P: "callees P a b" and k: "k \<le> a" "k \<le> Suc b"
  shows "okay V k 1 (for_stmt P t)"
  unfolding for_stmt_def
  by (insert k, rule ok_weaken, (rule ok_for_range [OF P] ok_for_init [OF P] ok_expr_unless [OF P]
     callee_rules [OF P] ok_basic | (simp; fail) | (auto; fail) | linarith)+)

lemma ok_stmt:
  assumes P: "callees P k (k - 1)"
  shows "okay V k 1 (stmt_body P)"
  unfolding stmt_body_def return_stmt_def if_stmt_def while_stmt_def simple_stmt_def defer_stmt_def
    delete_stmt_def plain_stmt_def expr_stmt_def
  by (rule ok_pos, rule ok_weaken,
     (rule ok_block_loop [OF P] ok_switch_stmt [OF P] ok_for_stmt [OF P] ok_tuple_rest [OF P] ok_expr_unless [OF P]
       ok_variable [OF P] callee_rules [OF P] ok_basic | (simp; fail) | (auto; fail) | linarith)+)

section \<open>Declarations\<close>

lemma ok_enum_number: "okay V k 0 (enum_number v)"
  unfolding enum_number_def
  by (rule ok_weaken, (rule ok_eat ok_basic | (simp; fail) | (auto; fail) | linarith)+)

lemma ok_enum_value: "okay V k 1 (enum_value flags ty owner v)"
  unfolding enum_value_def
  by (rule ok_weaken, (rule ok_enum_number ok_basic | (simp; fail) | (auto; fail) | linarith)+)

lemma ok_enum_loop: "okay V k 1 (enum_loop flags ty owner)"
  unfolding enum_loop_def
proof (rule ok_loop_plain)
  fix again :: "int \<times> Node list \<Rightarrow> Node list parser" and j W and s :: "int \<times> Node list"
  assume j: "j \<le> k" and again: "\<And>i W' s'. i < j \<Longrightarrow> okay W' i 1 (again s')"
  obtain v list where s: "s = (v, list)" by fastforce
  show "okay W j 1 ((\<lambda>(nxt, list).
     if_eat ''}'' (ret list)
       (chain (enum_value flags ty owner nxt) (\<lambda>(val, nxt).
          if_eat '','' (again (nxt, list @ [val]))
            (chain (expect ''}'') (\<lambda>_. ret (list @ [val])))))) s)"
    unfolding s prod.case
    by (insert j, rule ok_pos, rule ok_weaken,
        (rule again ok_enum_value ok_basic | (simp; fail) | (auto; fail) | linarith)+)
qed

lemma ok_declare_type [ok_rules]:
  assumes "\<And>x. type_links (f x) = type_links x" "\<And>x. type_fine x \<Longrightarrow> type_fine (f x)"
  shows "okay V k 0 (declare_type t name ty f)"
  unfolding declare_type_def
  by (insert assms, rule ok_weaken, (rule ok_basic | assumption | (simp; fail) | linarith)+)

lemma links_keep [simp]:
  "type_links (x\<lparr>ty_kind := a\<rparr>) = type_links x" "type_links (x\<lparr>ty_decl := b\<rparr>) = type_links x"
  "type_links (x\<lparr>ty_cname := s\<rparr>) = type_links x"
  by (simp_all add: type_links_def)

lemma fine_keep [simp]:
  "type_fine (x\<lparr>ty_decl := b\<rparr>) = type_fine x" "type_fine (x\<lparr>ty_cname := s\<rparr>) = type_fine x"
  "type_fine (x\<lparr>ty_kind := TY_ENUM\<rparr>)"
  by (simp_all add: type_fine_def)

lemma ok_enum_declaration: "okay V k 1 (enum_declaration flags t)"
  unfolding enum_declaration_def
  by (rule ok_weaken, (rule ok_enum_loop ok_eat ok_declare_type ok_basic | assumption | (simp; fail) | (auto; fail) | linarith)+)

lemma ok_module_declaration: "okay V k 1 (module_declaration t)"
  unfolding module_declaration_def
  by (rule ok_weaken, (rule ok_dotted_rest ok_basic | assumption | (simp; fail) | (auto; fail) | linarith)+)

lemma ok_type_parameters: "okay V k 0 type_parameters"
  unfolding type_parameters_def type_parameter_def
  by (rule ok_weaken, (rule ok_basic | assumption | (simp; fail) | (auto; fail) | linarith)+)

lemma ok_class_loop:
  assumes P: "callees P a b" and k: "k \<le> b"
  shows "okay V k 1 (class_loop P owner)"
  unfolding class_loop_def
proof (rule ok_loop_plain)
  fix again :: "Node list \<Rightarrow> Node list parser" and j W s
  assume j: "j \<le> k" and again: "\<And>i W' s'. i < j \<Longrightarrow> okay W' i 1 (again s')"
  show "okay W j 1 (if_eat ''}'' (ret s) (chain (p_declaration P {} (Some owner)) (\<lambda>d. again (s @ [d]))))"
    by (insert j k, rule ok_pos, rule ok_weaken,
        (rule again callee_rules [OF P] ok_basic | (simp; fail) | (auto; fail) | linarith)+)
qed

lemma ok_class_declaration:
  assumes P: "callees P a b" and k: "k \<le> Suc b"
  shows "okay V k 1 (class_declaration P flags t)"
  unfolding class_declaration_def
  by (insert k, rule ok_weaken, (rule ok_class_loop [OF P] ok_type_parameters ok_eat ok_declare_type ok_basic
     | assumption | (simp; fail) | (auto; fail) | linarith)+)

lemma ok_property_declaration:
  assumes P: "callees P a b" and k: "k \<le> a"
  shows "okay V k 1 (property_declaration P owner t)"
  unfolding property_declaration_def
  by (insert k, rule ok_weaken, (rule callee_rules [OF P] ok_basic | (simp; fail) | (auto; fail) | linarith)+)

lemma ok_function_rest:
  assumes P: "callees P a b" and k: "k \<le> Suc a" "k \<le> Suc b"
  shows "okay V k 1 (function_rest P owner n)"
  unfolding function_rest_def
  by (insert k, rule ok_weaken, (rule ok_parameters [OF P] callee_rules [OF P] ok_basic | (simp; fail) | (auto; fail) | linarith)+)

lemma ok_constructor_declaration:
  assumes P: "callees P a b" and k: "k \<le> Suc a" "k \<le> Suc b"
  shows "okay V k 1 (constructor_declaration P flags owner t)"
  unfolding constructor_declaration_def
  by (insert k, rule ok_weaken, (rule ok_function_rest [OF P] ok_basic | (simp; fail) | (auto; fail) | linarith)+)

lemma ok_destructor_declaration:
  assumes P: "callees P a b" and k: "k \<le> Suc a" "k \<le> Suc b"
  shows "okay V k 1 (destructor_declaration P flags owner t)"
  unfolding destructor_declaration_def
  by (insert k, rule ok_weaken, (rule ok_function_rest [OF P] ok_basic | (simp; fail) | (auto; fail) | linarith)+)

lemma ok_member_declaration:
  assumes P: "callees P a b" and k: "k \<le> a" "k \<le> Suc b"
  shows "okay V k 1 (member_declaration P flags owner t)"
  unfolding member_declaration_def
  by (insert k, rule ok_weaken, (rule ok_function_rest [OF P] ok_type_parameters ok_initializer [OF P]
     callee_rules [OF P] ok_basic | (simp; fail) | (auto; fail) | linarith)+)

lemma ok_declaration:
  assumes P: "callees P k (k - 1)"
  shows "okay V k 1 (declaration_body P flags owner)"
proof (cases owner)
  case None
  show ?thesis unfolding declaration_body_def None option.case
    by (rule ok_pos, rule ok_weaken, (rule ok_enum_declaration ok_module_declaration ok_class_declaration [OF P]
      ok_property_declaration [OF P] ok_member_declaration [OF P] callee_rules [OF P] ok_basic
      | (simp; fail) | (auto; fail) | linarith)+)
next
  case (Some q)
  show ?thesis unfolding declaration_body_def Some option.case
    by (rule ok_pos, rule ok_weaken, (rule ok_enum_declaration ok_module_declaration ok_class_declaration [OF P]
      ok_property_declaration [OF P] ok_member_declaration [OF P] ok_constructor_declaration [OF P]
      ok_destructor_declaration [OF P] callee_rules [OF P] ok_basic
      | (simp; fail) | (auto; fail) | linarith)+)
qed

section \<open>The knot\<close>

lemma callees_parsers: "2 * a < n \<Longrightarrow> 2 * b + 1 < n \<Longrightarrow> callees (parsers n) a b"
proof (induction n arbitrary: a b)
  case (Suc n)
  have type: "ok_ref W j 1 (parse_type_body (parsers n)) \<and> okay W j 1 (expr_body (parsers n) m)"
    if j: "j \<le> a" for W j m
  proof (cases j)
    case 0
    then show ?thesis by (intro conjI; rule_tac ok_pos; simp)
  next
    case (Suc i)
    have "callees (parsers n) i i" by (rule Suc.IH) (use Suc.prems Suc j in auto)
    then show ?thesis using ok_parse_type [of "parsers n" j i] ok_expr [of "parsers n" i i j] Suc by simp
  qed
  have stmt: "okay W j 1 (stmt_body (parsers n)) \<and> okay W j 1 (declaration_body (parsers n) f q)"
    if j: "j \<le> b" for W j f q
  proof (cases j)
    case 0
    then show ?thesis by (intro conjI; rule_tac ok_pos; simp)
  next
    case (Suc i)
    have "callees (parsers n) j (j - 1)" by (rule Suc.IH) (use Suc.prems Suc j in auto)
    then show ?thesis using ok_stmt ok_declaration by blast
  qed
  show ?case using type stmt by (simp add: callees_def)
qed simp

lemma ok_extern_loop:
  assumes P: "callees P a b" and k: "k \<le> b"
  shows "okay V k 1 (extern_loop P xs)"
  unfolding extern_loop_def
proof (rule ok_loop_plain)
  fix again :: "Node list \<Rightarrow> Node list parser" and j W s
  assume j: "j \<le> k" and again: "\<And>i W' s'. i < j \<Longrightarrow> okay W' i 1 (again s')"
  show "okay W j 1 (if_eat ''}'' (ret s) (chain (p_declaration P {NF_EXTERN} None) (\<lambda>d. again (s @ [d]))))"
    by (insert j k, rule ok_pos, rule ok_weaken,
        (rule again callee_rules [OF P] ok_basic | (simp; fail) | (auto; fail) | linarith)+)
qed

lemma ok_program_loop:
  assumes P: "callees P a b" and k: "k \<le> b"
  shows "okay V k 0 (program_loop P)"
  unfolding program_loop_def
proof (rule ok_loop_plain)
  fix again :: "Node list \<Rightarrow> Node list parser" and j W s
  assume j: "j \<le> k" and again: "\<And>i W' s'. i < j \<Longrightarrow> okay W' i 0 (again s')"
  show "okay W j 0 (get (\<lambda>c.
     if tok_kind (peek c) = TK_EOF then ret s
     else if_eat ''extern''
       (chain take_token (\<lambda>t.
          if tok_text t \<noteq> ''C'' then fail_at (tok_loc t) ''expected C after extern''
          else chain (expect ''{'') (\<lambda>_. chain (extern_loop P s) again)))
       (chain (p_declaration P {} None) (\<lambda>d. again (s @ [d])))))"
    by (insert j k, rule ok_pos, rule ok_weaken,
        (rule again ok_extern_loop [OF P] callee_rules [OF P] ok_basic | (simp; fail) | (auto; fail) | linarith)+)
qed

section \<open>The whole parser\<close>

lemma token_shapeI:
  assumes "tokens_ok ts" "\<forall>t\<in>set ts. tok_text t \<noteq> ''Function''"
  shows "token_shape ts"
proof -
  obtain us e where ts: "ts = us @ [e]" and e: "tok_kind e = TK_EOF" "tok_text e = []"
      and us: "\<forall>t\<in>set us. tok_kind t \<noteq> TK_EOF \<and> tok_text t \<noteq> []"
    using assms(1) by (auto simp: tokens_ok_def)
  show ?thesis unfolding token_shape_def
  proof (intro conjI allI impI)
    show "ts \<noteq> []" using ts by simp
    fix i assume i: "i < length ts"
    then show "tok_text (ts ! i) \<noteq> ''Function''" using assms(2) by simp
    show "(tok_kind (ts ! i) = TK_EOF) = (Suc i = length ts)"
      using i us e(1) ts by (cases "i < length us") (auto simp: nth_append)
    show "(tok_text (ts ! i) = []) = (Suc i = length ts)"
      using i us e(2) ts by (cases "i < length us") (auto simp: nth_append)
  qed
qed

lemma push_frame:
  "push grow c k s l = Done u c' \<Longrightarrow> pos c' = pos c \<and> types c' = types c \<and> builtin c' = builtin c \<and> depth c' = depth c"
  by (auto simp: push_def tc_error_def Let_def split: if_splits)

lemma lex_loop_frame:
  "lex_loop grow fname c s line col = Done u c' \<Longrightarrow>
   pos c' = pos c \<and> types c' = types c \<and> builtin c' = builtin c \<and> depth c' = depth c"
proof (induction grow fname c s line col rule: lex_loop.induct)
  case (1 grow fname c s line col)
  show ?case
  proof (cases "s = []")
    case True
    then show ?thesis using 1(3) push_frame by (simp add: lex_loop_end)
  next
    case False
    note step = 1(3) [unfolded lex_loop_step [OF False] Let_def]
    show ?thesis
    proof (cases "lex_one s line col")
      case (Blank s' line' col')
      then show ?thesis using step 1(1) [OF refl False Blank] by simp
    next
      case (Lexed k n)
      obtain u' c1 where p: "push grow c k (take n s) \<lparr>loc_file = fname, loc_line = line, loc_col = col\<rparr> = Done u' c1"
          and l: "lex_loop grow fname c1 (drop n s) line (col + n) = Done u c'"
        using step Lexed by (auto split: res.splits)
      then show ?thesis using 1(2) [OF refl False Lexed p] push_frame [OF p] by simp
    qed (use step in \<open>simp add: tc_error_def\<close>)
  qed
qed

lemma lex_frame:
  "lex grow c fname s = Done u c' \<Longrightarrow>
   pos c' = pos c \<and> types c' = types c \<and> builtin c' = builtin c \<and> depth c' = depth c"
  unfolding lex_def by (rule lex_loop_frame)

lemma loop_ends:
  assumes "\<And>again s c x c'. (\<And>s c x c'. again s c = Done x c' \<Longrightarrow> E c') \<Longrightarrow> f again s c = Done x c' \<Longrightarrow> E c'"
  shows "loop n f s c = Done x c' \<Longrightarrow> E c'"
proof (induction n arbitrary: s c x c')
  case (Suc n)
  then show ?case using assms by (metis loop.simps(2))
qed (simp add: out_of_fuel_def)

lemma chain_Done:
  "chain m f c = Done x c' \<longleftrightarrow> (\<exists>y c1. m c = Done y c1 \<and> f y c1 = Done x c')"
  by (auto simp: chain_def split: res.split)

lemma program_loop_end: "program_loop P c = Done xs c' \<Longrightarrow> tok_kind (peek c') = TK_EOF"
  unfolding program_loop_def loop_here_def
proof (erule loop_ends [rotated])
  fix again :: "Node list \<Rightarrow> Node list parser" and s c x c'
  assume again: "\<And>s c x c'. again s c = Done x c' \<Longrightarrow> tok_kind (peek c') = TK_EOF"
    and run: "get (\<lambda>c. if tok_kind (peek c) = TK_EOF then ret s
     else if_eat ''extern''
       (chain take_token (\<lambda>t. if tok_text t \<noteq> ''C'' then fail_at (tok_loc t) ''expected C after extern''
          else chain (expect ''{'') (\<lambda>_. chain (extern_loop P s) again)))
       (chain (p_declaration P {} None) (\<lambda>d. again (s @ [d])))) c = Done x c'"
  then show "tok_kind (peek c') = TK_EOF"
    by (auto simp: get_def ret_def if_eat_def chain_Done fail_at_def tc_error_def split: if_splits)
qed

text \<open>
  A context in which \<open>load_module\<close> calls the parser: the tokens of one file, read from the first one,
  over the types made so far.
\<close>

definition parse_ready :: "Context \<Rightarrow> bool" where
  "parse_ready c \<longleftrightarrow> tokens_ok (tokens c) \<and> pos c = 0 \<and> types_ok c \<and> (\<forall>t\<in>set (types c). type_fine t)
     \<and> (\<forall>t\<in>set (tokens c). tok_text t \<noteq> ''Function'')"

lemma parse_ready_pinv: "parse_ready c \<Longrightarrow> pinv c"
  by (auto simp: parse_ready_def pinv_def token_shapeI ntokens_def tokens_ok_def)

lemma parse_outcome:
  assumes "pinv c"
  obtains (parsed) p c1 body where "parse c = Done p (c1\<lparr>program := Some p\<rparr>)" "pinv c1" "ntokens c1 = ntokens c"
      "tok_kind (peek c1) = TK_EOF" "depth c1 = depth c" "length (types c) \<le> length (types c1)" "n_body p = body"
  | (rejected) l m c1 where "parse c = Fail l m c1"
proof -
  let ?P = "parsers (parse_fuel c)"
  let ?n = "node N_PROGRAM (tok_loc (peek c)) c"
  obtain p c0 where n: "new_node N_PROGRAM (tok_loc (peek c)) c = Done p c0" and inv: "pinv c0"
      and same: "ntokens c0 = ntokens c" "depth c0 = depth c" "left c0 = left c" "types c0 = types c"
    using assms by (auto simp: new_node_def lift_def node_def pinv_def types_ok_def ntokens_def left_def)
  have P: "callees ?P (left c) (left c)" by (rule callees_parsers) (simp_all add: parse_fuel_def)
  have "okay {} (left c) 0 (program_loop ?P)" by (rule ok_program_loop [OF P]) simp
  then show ?thesis
  proof (rule okD [OF _ inv])
    show "left c0 \<le> left c" using same by simp
    show "\<forall>r\<in>{}. r < length (types c0)" by simp
    fix xs c1 assume r: "program_loop ?P c0 = Done xs c1" "pinv c1" "ntokens c1 = ntokens c0"
      "length (types c0) \<le> length (types c1)" "depth c1 = depth c0"
    have "parse c = Done (set_body xs p) (c1\<lparr>program := Some (set_body xs p)\<rparr>)"
      using n r(1) by (simp add: parse_def chain_def Let_def)
    then show ?thesis using parsed r same program_loop_end [OF r(1)] by simp
  next
    fix l m c1 assume "program_loop ?P c0 = Fail l m c1"
    then have "parse c = Fail l m c1" using n by (simp add: parse_def chain_def)
    then show ?thesis by (rule rejected)
  qed
qed

lemma lex_loop_returns: "lex_loop g fname c s line col \<noteq> Fuel"
proof (induction g fname c s line col rule: lex_loop.induct)
  case (1 g fname c s line col)
  then show ?case by (subst lex_loop.simps) (auto simp: push_def tc_error_def Let_def split: res.splits lexeme.splits)
qed

text \<open>
  Claim C7. \<open>lex\<close> returns on every source text. If none of the tokens is the internal type name \<open>Function\<close>,
  then \<open>parse\<close> returns on them, whatever they are: the parser builds a program or reports an error, and none
  of its loops and recursive calls runs for ever. (With that name a source can make a cyclic type, see
  \<open>func_type_cyclic\<close>.)
\<close>

theorem parse_returns:
  assumes "tokens c = []" "pos c = 0" "types_ok c" "\<forall>t\<in>set (types c). type_fine t"
  shows "lex grow c fname s \<noteq> Fuel
    \<and> (\<forall>u c1. lex grow c fname s = Done u c1 \<and> (\<forall>t\<in>set (tokens c1). tok_text t \<noteq> ''Function'') \<longrightarrow>
         (\<exists>p c'. parse c1 = Done p c') \<or> (\<exists>l m c'. parse c1 = Fail l m c'))"
proof (intro conjI allI impI)
  show "lex grow c fname s \<noteq> Fuel" by (simp add: lex_def lex_loop_returns)
  fix u c1 assume c1: "lex grow c fname s = Done u c1 \<and> (\<forall>t\<in>set (tokens c1). tok_text t \<noteq> ''Function'')"
  then have "parse_ready c1"
    using lex_frame [of grow c fname s u c1] lex_tokens_ok [of grow c fname s u c1] assms
    by (simp add: parse_ready_def types_ok_def)
  then show "(\<exists>p c'. parse c1 = Done p c') \<or> (\<exists>l m c'. parse c1 = Fail l m c')"
    using parse_outcome [OF parse_ready_pinv] by metis
qed

text \<open>
  Claim C22. A successful parse, of tokens none of which is the name \<open>Function\<close>, has read every token: it stops exactly at the end-of-file token, with
  the nesting depth it started with, and it has recorded the program it returns.
\<close>

theorem parse_reads_everything:
  assumes "parse_ready c" "parse c = Done p c'"
  shows "pos c' + 1 = ntokens c' \<and> ntokens c' = ntokens c \<and> depth c' = depth c \<and> program c' = Some p"
proof (rule parse_outcome [OF parse_ready_pinv [OF assms(1)]])
  fix q c1 body assume a: "parse c = Done q (c1\<lparr>program := Some q\<rparr>)" "pinv c1" "ntokens c1 = ntokens c"
      "tok_kind (peek c1) = TK_EOF" "depth c1 = depth c"
  then have "pos c1 + 1 = ntokens c1" by (auto simp: pinv_def token_shape_def peek_def ntokens_def)
  then show ?thesis using a assms(2) by (auto simp: ntokens_def)
qed (use assms(2) in simp)

text \<open>
  Claim C23. From tokens none of which is the name \<open>Function\<close> (see \<open>func_type_cyclic\<close>) the parser only makes
  well-formed types: after a successful parse every link of the type table points to an earlier type, and every fixed array has between 1 and 10000000 elements.
\<close>

theorem parse_types_bounded:
  assumes "parse_ready c" "parse c = Done p c'"
  shows "types_ok c' \<and> (\<forall>t\<in>set (types c'). ty_kind t = TY_ARRAY \<longrightarrow> 1 \<le> ty_count t \<and> ty_count t \<le> 10000000)"
proof (rule parse_outcome [OF parse_ready_pinv [OF assms(1)]])
  fix q c1 body assume a: "parse c = Done q (c1\<lparr>program := Some q\<rparr>)" "pinv c1"
  then have "c' = c1\<lparr>program := Some q\<rparr>" using assms(2) by simp
  then show ?thesis using a(2) by (auto simp: pinv_def type_fine_def)
qed (use assms(2) in simp)

section \<open>Examples\<close>

definition word :: "TokenKind \<Rightarrow> string \<Rightarrow> Token" where
  "word k s = \<lparr>tok_kind = k, tok_text = s, tok_loc = \<lparr>loc_file = ''f'', loc_line = 1, loc_col = 1\<rparr>\<rparr>"

text \<open>
  Rewrite rules that run the parser on a given token list: each fires only on a routine that is
  applied to its context.
\<close>

lemma run_combinators:
  "chain m f c = (case m c of Done x c' \<Rightarrow> f x c' | Fail l msg c' \<Rightarrow> Fail l msg c' | Fuel \<Rightarrow> Fuel)"
  "if_eat s m1 m2 c = (if at c s then m1 (c\<lparr>pos := pos c + 1\<rparr>) else m2 c)"
  "eat s c = (if at c s then Done True (c\<lparr>pos := pos c + 1\<rparr>) else Done False c)"
  "ret x c = Done x c" "fail_at l msg c = tc_error c l msg" "get g c = g c c"
  "lift h c = (case h c of (x, c') \<Rightarrow> Done x c')"
  "lift_opt k c = (case k c of Some (x, c') \<Rightarrow> Done x c' | None \<Rightarrow> Fuel)"
  "loop_here b s0 c = loop (left c + 1) b s0 c"
  "loop (numeral n) b s0 c = b (loop (pred_numeral n) b) s0 c"
  "loop (Suc i) b s0 c = b (loop i b) s0 c"
  "update_type t u c = Done () (c\<lparr>types := (types c)[t := u (types c ! t)]\<rparr>)"
  by (simp_all add: chain_def if_eat_def eat_def ret_def fail_at_def get_def lift_def lift_opt_def loop_here_def
      numeral_eq_Suc update_type_def)

lemma run_routines:
  "p_type (parsers (numeral n)) c = parse_type_body (parsers (pred_numeral n)) c"
  "p_expr (parsers (numeral n)) m c = expr_body (parsers (pred_numeral n)) m c"
  "p_stmt (parsers (numeral n)) c = stmt_body (parsers (pred_numeral n)) c"
  "p_declaration (parsers (numeral n)) f q c = declaration_body (parsers (pred_numeral n)) f q c"
  "p_type (parsers (Suc i)) c = parse_type_body (parsers i) c"
  "p_expr (parsers (Suc i)) m c = expr_body (parsers i) m c"
  "p_stmt (parsers (Suc i)) c = stmt_body (parsers i) c"
  "p_declaration (parsers (Suc i)) f q c = declaration_body (parsers i) f q c"
  by (simp_all add: numeral_eq_Suc)

lemmas run_bodies =
  nested_def [THEN fun_cong] ident_def [THEN fun_cong] take_token_def [THEN fun_cong]
  expect_def [THEN fun_cong] new_node_def [THEN fun_cong] dotted_rest_def [THEN fun_cong]
  sep_list_def [THEN fun_cong] type_items_def [THEN fun_cong] func_type_def [THEN fun_cong]
  generic_type_def [THEN fun_cong] type_suffixes_def [THEN fun_cong] array_length_def [THEN fun_cong]
  parse_type_body_def [THEN fun_cong] initializer_def [THEN fun_cong]
  type_parameters_def [THEN fun_cong] member_declaration_def [THEN fun_cong]
  declaration_body_def [THEN fun_cong] program_loop_def [THEN fun_cong]

lemmas run_data = type_named_def find_type_def prim_kinds_def type_aliases_def type_primitive_def set_builtin_def
  add_type_def blank_type_def type_derive_def type_generic_def type_refs_def equal_fuel_def type_equal.simps
  strtoull_def digits_value_def digit_value_def hex_start_def word_def empty_context_def
  at_def peek_def left_def ntokens_def tc_error_def node_def text_at_def upt_rec isdigit_def

lemmas run_defs = run_combinators run_routines run_bodies run_data

lemma parse_returns_witness:
  "\<exists>c1. lex (\<lambda>_. True) empty_context ''f'' lex_sample = Done () c1
     \<and> ((\<exists>p c'. parse c1 = Done p c') \<or> (\<exists>l m c'. parse c1 = Fail l m c'))"
proof -
  obtain c where c: "lex (\<lambda>_. True) empty_context ''f'' lex_sample = Done () c" "tokens c = sample_tokens"
    using lex_sample_tokens by blast
  moreover have "\<forall>t\<in>set sample_tokens. tok_text t \<noteq> ''Function''" by (simp add: sample_tokens_def)
  ultimately show ?thesis
    using parse_returns [of empty_context "\<lambda>_. True" "''f''" lex_sample] by (auto simp: empty_context_def types_ok_def table_ok_def)
qed

text \<open>The declaration \<open>int a[3];\<close>, an array by the type's suffix.\<close>

definition array_context :: Context where
  "array_context = empty_context\<lparr>tokens := [word TK_ID ''int'', word TK_OP ''['', word TK_INT ''3'', word TK_OP '']'',
     word TK_ID ''a'', word TK_OP '';'', word TK_EOF []]\<rparr>"

lemma array_context_ready: "parse_ready array_context"
proof -
  have "tokens array_context = butlast (tokens array_context) @ [word TK_EOF []]"
    by (simp add: array_context_def)
  then show ?thesis unfolding parse_ready_def tokens_ok_def
    by (intro conjI exI) (auto simp: array_context_def empty_context_def word_def types_ok_def table_ok_def)
qed

lemma array_context_parses:
  "\<exists>p c'. parse array_context = Done p c' \<and> map ty_count (types c') = [0, 3]"
  by (simp add: run_defs parse_def parse_fuel_def array_context_def Let_def
    del: parsers.simps loop.simps One_nat_def)

lemma parse_reads_everything_witness:
  "\<exists>p c'. parse array_context = Done p c' \<and> pos c' + 1 = ntokens c' \<and> program c' = Some p"
proof -
  obtain p c' where "parse array_context = Done p c'" using array_context_parses by blast
  then show ?thesis using parse_reads_everything [OF array_context_ready] by blast
qed

lemma parse_types_bounded_witness:
  "\<exists>p c'. parse array_context = Done p c' \<and> types_ok c' \<and> map ty_count (types c') = [0, 3]"
proof -
  obtain p c' where "parse array_context = Done p c'" "map ty_count (types c') = [0, 3]"
    using array_context_parses by (elim exE conjE) simp
  then show ?thesis using parse_types_bounded [OF array_context_ready, of p c'] by (intro exI conjI) simp_all
qed

text \<open>The type \<open>func<Function<int>(int)>\<close>.\<close>

definition func_context :: Context where
  "func_context = empty_context\<lparr>tokens := [word TK_ID ''func'', word TK_OP ''<'', word TK_ID ''Function'',
     word TK_OP ''<'', word TK_ID ''int'', word TK_OP ''>'', word TK_OP ''('', word TK_ID ''int'', word TK_OP '')'',
     word TK_OP ''>'', word TK_EOF []]\<rparr>"

text \<open>
  The proviso about the name \<open>Function\<close> is needed: \<open>parse_type\<close> builds \<open>func<R(P)>\<close> as the
  generic type \<open>Function\<close> of its parameters and then changes that record in place, so the type
  \<open>func<Function<int>(int)>\<close> finds the record its own result type has just made, and the result is a
  type whose base is itself.
\<close>

lemma func_type_cyclic:
  "case p_type (parsers (parse_fuel func_context)) func_context of
     Done t c' \<Rightarrow> ty_kind (types c' ! t) = TY_FUNC \<and> t < length (types c') \<and> ty_base (types c' ! t) = Some t
   | _ \<Rightarrow> False"
  by (simp add: run_defs parse_fuel_def func_context_def Let_def
    del: parsers.simps loop.simps One_nat_def)

end
