(* ===== verification/Generics.thy ===== *)
theory Generics
  imports Types
begin

text \<open>
  Generic instantiation, \<open>compiler/generic.c\<close>: substituting types for type parameters, cloning a template,
  and the loop that makes instances until there is nothing left to do or there are more than 512. Proved:
  substitution acts on the structure of a type, a clone has the shape of its template, and the loop
  ends with an instance of every template type.
\<close>

section \<open>Substitution\<close>

text \<open>The list of names and types, the newest first. A formal without a name would be the null pointer.\<close>

type_synonym substitution = "(string option \<times> tref) list"

text \<open>A computation along a list, which may fail to return.\<close>

fun thread :: "('c \<Rightarrow> 'a \<Rightarrow> ('b \<times> 'c) option) \<Rightarrow> 'c \<Rightarrow> 'a list \<Rightarrow> ('b list \<times> 'c) option" where
  "thread f c [] = Some ([], c)"
| "thread f c (x # xs) =
     Option.bind (f c x) (\<lambda>(y, c). Option.bind (thread f c xs) (\<lambda>(ys, c). Some (y # ys, c)))"

text \<open>
  \<open>sub_type\<close> with fuel; \<open>None\<close> means that it does not return. A pointer, array or slice without a base does
  not occur; there the code would follow the null pointer.
\<close>

fun sub_type :: "nat \<Rightarrow> substitution \<Rightarrow> Context \<Rightarrow> tref \<Rightarrow> (tref \<times> Context) option" where
  "sub_type 0 m c t = None"
| "sub_type (Suc n) m c t =
     (let ty = types c ! t
      in case (if ty_kind ty = TY_NAMED \<and> ty_items ty = [] then map_of m (Some (ty_name ty)) else None) of
           Some r \<Rightarrow> Some (r, c)
         | None \<Rightarrow>
             if ty_kind ty \<in> {TY_PTR, TY_ARRAY, TY_SLICE} then
               (case ty_base ty of
                  None \<Rightarrow> None
                | Some base \<Rightarrow>
                    Option.bind (sub_type n m c base) (\<lambda>(base, c). Some (type_derive c (ty_kind ty) base (ty_count ty))))
             else if ty_items ty \<noteq> [] then
               Option.bind (thread (sub_type n m) c (ty_items ty)) (\<lambda>(items, c).
                 if ty_kind ty = TY_TUPLE then type_tuple c items
                 else if ty_kind ty = TY_NAMED then type_generic c (ty_name ty) items
                 else Some (t, c))
             else Some (t, c))"

declare sub_type.simps(2) [simp del]

text \<open>The fuel: types refer to older ones, so their place bounds the depth.\<close>

definition sub_ref :: "substitution \<Rightarrow> Context \<Rightarrow> tref option \<Rightarrow> (tref option \<times> Context) option" where
  "sub_ref m c t =
     (case t of None \<Rightarrow> Some (None, c) | Some t \<Rightarrow> map_option (\<lambda>(r, c). (Some r, c)) (sub_type (Suc t) m c t))"

section \<open>Cloning\<close>

fun clone :: "substitution \<Rightarrow> Context \<Rightarrow> Node \<Rightarrow> (Node \<times> Context) option"
  and clone_child :: "substitution \<Rightarrow> Context \<Rightarrow> Node option \<Rightarrow> (Node option \<times> Context) option"
  and clone_chain :: "substitution \<Rightarrow> Context \<Rightarrow> Node list \<Rightarrow> (Node list \<times> Context) option" where
  "clone m c (Node i a b d body params args) =
     (let c = c\<lparr>next_id := next_id c + 2\<rparr>; new = next_id c
      in Option.bind (sub_ref m c (n_type i)) (\<lambda>(ty, c).
         Option.bind (sub_ref m c (n_decl_type i)) (\<lambda>(decl, c).
         Option.bind (clone_child m c a) (\<lambda>(a, c).
         Option.bind (clone_child m c b) (\<lambda>(b, c).
         Option.bind (clone_child m c d) (\<lambda>(d, c).
         Option.bind (clone_chain m c body) (\<lambda>(body, c).
         Option.bind (clone_chain m c params) (\<lambda>(params, c).
         Option.bind (clone_chain m c args) (\<lambda>(args, c).
           Some (Node (i\<lparr>n_id := new, n_cname := None, n_type := ty, n_decl_type := decl\<rparr>) a b d body params args, c))))))))))"
| "clone_child m c None = Some (None, c)"
| "clone_child m c (Some n) = Option.bind (clone m c n) (\<lambda>(n, c). Some (Some n, c))"
| "clone_chain m c [] = Some ([], c)"
| "clone_chain m c (n # ns) =
     Option.bind (clone m c n) (\<lambda>(n, c). Option.bind (clone_chain m c ns) (\<lambda>(ns, c). Some (n # ns, c)))"

section \<open>Which types are instances\<close>

text \<open>\<open>concrete\<close>, with fuel: no name of a type parameter is left in the type.\<close>

fun every :: "('a \<Rightarrow> bool option) \<Rightarrow> 'a list \<Rightarrow> bool option" where
  "every p [] = Some True"
| "every p (x # xs) = (case p x of Some True \<Rightarrow> every p xs | r \<Rightarrow> r)"

fun concrete :: "nat \<Rightarrow> Type list \<Rightarrow> tref \<Rightarrow> bool option" where
  "concrete 0 ts t = None"
| "concrete (Suc n) ts t =
     (let ty = ts ! t
      in if ty_kind ty = TY_NAMED \<and> ty_decl ty = None \<and> ty_items ty = [] then Some False
         else case (case ty_base ty of None \<Rightarrow> Some True | Some base \<Rightarrow> concrete n ts base) of
                Some True \<Rightarrow> every (concrete n ts) (ty_items ty)
              | r \<Rightarrow> r)"

declare concrete.simps(2) [simp del]

definition template_for :: "Node list \<Rightarrow> string \<Rightarrow> Node option" where
  "template_for body name =
     find (\<lambda>n. n_name (info n) = Some name
             \<and> (n_kind (info n) = N_CLASS \<and> n_params n \<noteq> [] \<or> n_kind (info n) = N_FUNCTION \<and> n_args n \<noteq> [])) body"

section \<open>The loop\<close>

definition set_decl :: "tref \<Rightarrow> int \<Rightarrow> Context \<Rightarrow> Context" where
  "set_decl t i c = c\<lparr>types := (types c)[t := (types c ! t)\<lparr>ty_decl := Some i\<rparr>]\<rparr>"

definition set_owner :: "int \<Rightarrow> Node \<Rightarrow> Node" where
  "set_owner i n = Node ((info n)\<lparr>n_owner := Some i\<rparr>) (n_a n) (n_b n) (n_c n) (n_body n) (n_params n) (n_args n)"

text \<open>The clone becomes the declaration of the type.\<close>

definition finish_instance :: "NodeKind \<Rightarrow> string \<Rightarrow> tref \<Rightarrow> Context \<Rightarrow> Node \<Rightarrow> Node \<times> Context" where
  "finish_instance kind name t c dst =
     (let i = n_id (info dst);
          named = (info dst)\<lparr>n_name := Some (name @ ''_inst_'' @ show_int (ty_id (types c ! t)))\<rparr>
      in if kind = N_CLASS
         then (Node (named\<lparr>n_type := Some t\<rparr>) (n_a dst) (n_b dst) (n_c dst) (map (set_owner i) (n_body dst)) [] (n_args dst), set_decl t i c)
         else (Node named (n_a dst) (n_b dst) (n_c dst) (n_body dst) (n_params dst) [], set_decl t i c))"

text \<open>
  One type of the table. The state: whether something has changed in this round, how many instances
  there are, and the declarations of the program.
\<close>

type_synonym expansion = "bool \<times> nat \<times> Node list"

definition formals_of :: "Node \<Rightarrow> Node list" where
  "formals_of src = (if n_kind (info src) = N_CLASS then n_params src else n_args src)"

definition instantiate :: "Node \<Rightarrow> string \<Rightarrow> tref \<Rightarrow> nat \<Rightarrow> Node list \<Rightarrow> Context \<Rightarrow> expansion res" where
  "instantiate src name t instances body c =
     (let actuals = ty_items (types c ! t); formals = formals_of src
      in if instances > 512 then tc_error c (n_loc (info src)) ''generic instantiation limit (512) exceeded''
         else if length formals \<noteq> length actuals
              then tc_error c (n_loc (info src)) (''wrong number of type arguments for '' @ [CHR 0x27] @ name @ [CHR 0x27])
         else case clone (rev (zip (map (\<lambda>f. n_name (info f)) formals) actuals)) c src of
                None \<Rightarrow> Fuel
              | Some (dst, c) \<Rightarrow>
                  let (dst, c) = finish_instance (n_kind (info src)) name t c dst
                  in Done (True, instances, body @ [dst]) c)"

definition wanted :: "Context \<Rightarrow> Node list \<Rightarrow> tref \<Rightarrow> Node option option" where
  "wanted c body t =
     (let ty = types c ! t
      in if ty_kind ty \<noteq> TY_NAMED \<or> ty_alias ty \<noteq> None \<or> ty_items ty = [] \<or> ty_decl ty \<noteq> None then Some None
         else case concrete (Suc t) (types c) t of
                None \<Rightarrow> None
              | Some ready \<Rightarrow> Some (if ready then template_for body (ty_name ty) else None))"

fun expand_types :: "tref list \<Rightarrow> expansion \<Rightarrow> Context \<Rightarrow> expansion res" where
  "expand_types [] e c = Done e c"
| "expand_types (t # ts) (changed, instances, body) c =
     (case wanted c body t of
        None \<Rightarrow> Fuel
      | Some None \<Rightarrow> expand_types ts (changed, instances, body) c
      | Some (Some src) \<Rightarrow>
          (case instantiate src (ty_name (types c ! t)) t (instances + 1) body c of
             Done e c \<Rightarrow> expand_types ts e c
           | r \<Rightarrow> r))"

text \<open>
  \<open>while (changed)\<close>: a round goes over the types there are when it begins, the newest first; the types that
  it makes come at the head of the list, where the next round finds them.
\<close>

fun expand_rounds :: "nat \<Rightarrow> nat \<Rightarrow> Node list \<Rightarrow> Context \<Rightarrow> (nat \<times> Node list) res" where
  "expand_rounds 0 instances body c = Fuel"
| "expand_rounds (Suc n) instances body c =
     (case expand_types (type_refs c) (False, instances, body) c of
        Done (changed, instances, body) c \<Rightarrow>
          if changed then expand_rounds n instances body c else Done (instances, body) c
      | Fail l s c \<Rightarrow> Fail l s c
      | Fuel \<Rightarrow> Fuel)"

text \<open>Every round but the last makes an instance, and the 513th instance is an error.\<close>

definition expand_generics :: "Node list \<Rightarrow> Context \<Rightarrow> (nat \<times> Node list) res" where
  "expand_generics body c = expand_rounds 514 0 body c"

section \<open>Substitution acts on structure\<close>

text \<open>Tables as the operations build them: a derived type has a base, a tuple has neither base nor convention.\<close>

definition regular_type :: "Type \<Rightarrow> bool" where
  "regular_type t \<longleftrightarrow> (ty_kind t \<in> {TY_PTR, TY_ARRAY, TY_SLICE} \<longrightarrow> ty_base t \<noteq> None)
     \<and> (ty_kind t = TY_TUPLE \<longrightarrow> ty_base t = None \<and> ty_callconv t = 0)"

definition regular :: "Context \<Rightarrow> bool" where
  "regular c \<longleftrightarrow> (\<forall>t\<in>set (types c). regular_type t)"

text \<open>
  What substitution should do: put the arguments in the places of the parameters, everywhere in a type.
  \<open>covered\<close> are the types in which the code finds all places: it does not look into function types, nor
  for the constant copies of a parameter.
\<close>

fun sub_shape :: "(string \<Rightarrow> tshape option) \<Rightarrow> tshape \<Rightarrow> tshape" where
  "sub_shape f (Shape k q n name cc b xs) =
     (if k = TY_NAMED \<and> xs = [] \<and> f name \<noteq> None then the (f name)
      else Shape k q n name cc (map_option (sub_shape f) b) (map (sub_shape f) xs))"
| "sub_shape f Loose = Loose"

fun covered :: "(string \<Rightarrow> tshape option) \<Rightarrow> tshape \<Rightarrow> bool" where
  "covered f (Shape k q n name cc b xs) \<longleftrightarrow>
     k \<notin> {TY_FUNC, TY_CLOSURE} \<and> \<not> (k = TY_NAMED \<and> xs = [] \<and> q \<and> f (drop 6 name) \<noteq> None)
     \<and> list_all (covered f) (case b of None \<Rightarrow> [] | Some b \<Rightarrow> [b]) \<and> list_all (covered f) xs"
| "covered f Loose \<longleftrightarrow> False"

text \<open>
  The structure without \<open>const\<close> on derived types, tuples and instances, which the table may add or lose when it
  looks a type up (see \<open>derive_finds_const\<close>).
\<close>

fun sans_const :: "tshape \<Rightarrow> tshape" where
  "sans_const (Shape k q n name cc b xs) =
     Shape k (q \<and> k \<notin> {TY_PTR, TY_ARRAY, TY_SLICE, TY_TUPLE} \<and> \<not> (k = TY_NAMED \<and> xs \<noteq> [])) n name cc
       (map_option sans_const b) (map sans_const xs)"
| "sans_const Loose = Loose"

definition sub_fun :: "substitution \<Rightarrow> Context \<Rightarrow> string \<Rightarrow> tshape option" where
  "sub_fun m c name = map_option (shape (types c)) (map_of m (Some name))"

definition sub_in :: "substitution \<Rightarrow> Context \<Rightarrow> bool" where
  "sub_in m c \<longleftrightarrow> (\<forall>(x, r)\<in>set m. r < length (types c))"

text \<open>What the steps guarantee.\<close>

definition step_ok :: "Context \<Rightarrow> Context \<Rightarrow> bool" where
  "step_ok c c' \<longleftrightarrow> types_ok c' \<and> regular c' \<and> extends c c'"

lemma extends_shape: "extends c c' \<Longrightarrow> types_ok c \<Longrightarrow> t < length (types c) \<Longrightarrow> shape (types c') t = shape (types c) t"
  by (auto simp: extends_def types_ok_def shape_append)

lemma extends_longer: "extends c c' \<Longrightarrow> length (types c) \<le> length (types c')"
  by (auto simp: extends_def)

lemma sub_fun_extends:
  assumes "extends c c'" "types_ok c" "sub_in m c"
  shows "sub_fun m c' = sub_fun m c"
proof
  fix name
  show "sub_fun m c' name = sub_fun m c name"
  proof (cases "map_of m (Some name)")
    case (Some r)
    then have "r < length (types c)" using assms(3) map_of_SomeD [OF Some] by (auto simp: sub_in_def)
    then show ?thesis using Some extends_shape [OF assms(1,2)] by (simp add: sub_fun_def)
  qed (simp add: sub_fun_def)
qed

lemma sub_in_extends: "sub_in m c \<Longrightarrow> extends c c' \<Longrightarrow> sub_in m c'"
  using extends_longer by (fastforce simp: sub_in_def)

lemma regular_push: "regular c \<Longrightarrow> types c' = types c @ [t] \<Longrightarrow> regular_type t \<Longrightarrow> regular c'"
  by (simp add: regular_def)

lemma find_regular: "regular c \<Longrightarrow> t < length (types c) \<Longrightarrow> regular_type (types c ! t)"
  by (simp add: regular_def)

text \<open>The three ways to make a type, by the structure of what they return.\<close>

lemma add_shape:
  assumes ok: "types_ok c" "regular c" and links: "\<And>i. \<forall>r\<in>type_links (fill (blank_type k i)). r < length (types c)"
    and p: "\<And>i. regular_type (fill (blank_type k i))" and d: "add_type c k fill = (r, c')"
  shows "step_ok c c' \<and> r < length (types c') \<and> shape (types c') r = shape_with (shape (types c)) (fill (blank_type k (next_id c + 1)))"
proof -
  let ?t = "fill (blank_type k (next_id c + 1))"
  have r: "r = length (types c)" "types c' = types c @ [?t]" using d by (auto simp: add_type_def)
  have "builtin c' = builtin c" using d by (auto simp: add_type_def)
  then have ok': "types_ok c'" "extends c c'" using types_ok_push [OF ok(1) links r(2)] by simp_all
  have "regular c'" using regular_push [OF ok(2) r(2) p] .
  moreover have "shape (types c') r = shape_with (shape (types c')) ?t"
    using shape_eq [of "types c'" r] ok'(1) r by (simp add: types_ok_def)
  moreover have "shape_with (shape (types c')) ?t = shape_with (shape (types c)) ?t"
    by (rule shape_with_cong) (use links extends_shape [OF ok'(2) ok(1)] in blast)
  ultimately show ?thesis using ok' r by (simp add: step_ok_def)
qed

lemma find_shape:
  assumes "types_ok c" "regular c" "find_type P c = Some r"
  shows "step_ok c c \<and> r < length (types c) \<and> shape (types c) r = shape_with (shape (types c)) (types c ! r)
    \<and> P (types c ! r) \<and> regular_type (types c ! r)"
  using assms find_type_Some [OF assms(3)] find_regular [OF assms(2)] shape_eq [of "types c" r]
  by (simp add: step_ok_def types_ok_def)

lemma derive_shape:
  assumes ok: "types_ok c" "regular c" and b: "b < length (types c)" and k: "k \<in> {TY_PTR, TY_ARRAY, TY_SLICE}"
    and d: "type_derive c k b n = (r, c')"
  shows "step_ok c c' \<and> r < length (types c') \<and> (\<exists>q. shape (types c') r = Shape k q n [] 0 (Some (shape (types c) b)) [])"
proof (cases "find_type (\<lambda>t. ty_kind t = k \<and> ty_base t = Some b \<and> ty_count t = n) c")
  case None
  define F :: "Type \<Rightarrow> Type" where "F = (\<lambda>t. if k = TY_PTR
       then t\<lparr>ty_base := Some b, ty_count := n, ty_name := type_name c b @ ''*'', ty_cname := ty_cname (types c ! b) @ '' *''\<rparr>
       else t\<lparr>ty_base := Some b, ty_count := n,
              ty_name := (if k = TY_ARRAY then type_name c b @ ''['' @ show_nat n @ '']'' else ''Slice<'' @ type_name c b @ ''>''),
              ty_cname := (if k = TY_ARRAY then ''tc_array_'' else ''tc_slice_'') @ show_int (ty_id t)\<rparr>)"
  have F: "ty_kind (F t) = ty_kind t" "ty_base (F t) = Some b" "ty_items (F t) = ty_items t"
    "ty_qualified (F t) = ty_qualified t" "ty_count (F t) = n" for t
    by (simp_all add: F_def)
  have "add_type c k F = (r, c')" using d by (simp add: type_derive_def None F_def)
  from add_shape [OF ok _ _ this] show ?thesis using k b
    by (auto simp: type_links_def regular_type_def shape_with_def F blank_type_def)
next
  case (Some t)
  then have "r = t" "c' = c" using d by (simp_all add: type_derive_def)
  then show ?thesis using find_shape [OF ok Some] k by (auto simp: shape_with_def regular_type_def)
qed

lemma tuple_shape:
  assumes ok: "types_ok c" "regular c" and xs: "refs_in c xs" and d: "type_tuple c xs = Some (r, c')"
  shows "step_ok c c' \<and> r < length (types c') \<and> shape (types c') r = Shape TY_TUPLE False 0 [] 0 None (map (shape (types c)) xs)"
proof -
  have probe: "shape_with f (tuple_probe xs) = Shape TY_TUPLE False 0 [] 0 None (map f xs)"
    "shape_with f (tuple_fill xs (blank_type TY_TUPLE i)) = Shape TY_TUPLE False 0 [] 0 None (map f xs)" for f i
    by (simp_all add: shape_with_def tuple_probe_def tuple_fill_def blank_type_def)
  show ?thesis
  proof (cases "find_type (\<lambda>t. shape_with (shape (types c)) t = shape_with (shape (types c)) (tuple_probe xs)) c")
    case None
    then have "add_type c TY_TUPLE (tuple_fill xs) = (r, c')" using d type_tuple_eq [OF ok(1) xs] by simp
    from add_shape [OF ok _ _ this] show ?thesis using xs unfolding probe
      by (simp add: type_links_def tuple_fill_def blank_type_def refs_in_def regular_type_def)
  next
    case (Some t)
    then have "r = t" "c' = c" using d type_tuple_eq [OF ok(1) xs] by simp_all
    then show ?thesis using find_shape [OF ok Some] by (simp add: probe)
  qed
qed

lemma generic_shape:
  assumes ok: "types_ok c" "regular c" and xs: "refs_in c xs" "xs \<noteq> []" and d: "type_generic c name xs = Some (r, c')"
  shows "step_ok c c' \<and> r < length (types c') \<and> (\<exists>q. shape (types c') r = Shape TY_NAMED q 0 name 0 None (map (shape (types c)) xs))"
proof (cases "find_type (generic_match c name xs) c")
  case None
  then have "add_type c TY_NAMED (generic_fill name xs) = (r, c')" using d type_generic_eq [OF ok(1) xs(1)] by simp
  from add_shape [OF ok _ _ this] show ?thesis using xs
    by (simp add: type_links_def generic_fill_def blank_type_def refs_in_def regular_type_def shape_with_def)
      (rule exI [of _ False], simp)
next
  case (Some t)
  then have "r = t" "c' = c" using d type_generic_eq [OF ok(1) xs(1)] by simp_all
  then show ?thesis using find_shape [OF ok Some] by (auto simp: generic_match_def shape_with_def regular_type_def)
qed

text \<open>Along the items: each step adds to the table and finds the structure that it should.\<close>

definition subbed :: "substitution \<Rightarrow> Context \<Rightarrow> tshape \<Rightarrow> tshape \<Rightarrow> bool" where
  "subbed m c s u \<longleftrightarrow> (covered (sub_fun m c) s \<longrightarrow> sans_const u = sans_const (sub_shape (sub_fun m c) s))"

definition sub_ok :: "substitution \<Rightarrow> Context \<Rightarrow> tref \<Rightarrow> (tref \<times> Context) option \<Rightarrow> bool" where
  "sub_ok m c t p \<longleftrightarrow> (\<exists>r c'. p = Some (r, c') \<and> step_ok c c' \<and> r < length (types c')
     \<and> subbed m c (shape (types c) t) (shape (types c') r))"

lemma step_refl: "types_ok c \<Longrightarrow> regular c \<Longrightarrow> step_ok c c"
  by (simp add: step_ok_def)

lemma step_trans: "step_ok c d \<Longrightarrow> step_ok d e \<Longrightarrow> step_ok c e"
  using extends_trans by (auto simp: step_ok_def)

lemma thread_sub:
  assumes f: "\<And>c t. types_ok c \<Longrightarrow> regular c \<Longrightarrow> sub_in m c \<Longrightarrow> t < k \<Longrightarrow> t < length (types c) \<Longrightarrow> sub_ok m c t (f c t)"
  shows "types_ok c \<Longrightarrow> regular c \<Longrightarrow> sub_in m c \<Longrightarrow> \<forall>t\<in>set ts. t < k \<and> t < length (types c) \<Longrightarrow>
    \<exists>rs c'. thread f c ts = Some (rs, c') \<and> step_ok c c' \<and> refs_in c' rs
      \<and> list_all2 (\<lambda>t r. subbed m c (shape (types c) t) (shape (types c') r)) ts rs"
proof (induction ts arbitrary: c)
  case Nil
  then show ?case by (simp add: step_refl refs_in_def)
next
  case (Cons t ts)
  obtain r d where d: "f c t = Some (r, d)" "step_ok c d" "r < length (types d)"
      "subbed m c (shape (types c) t) (shape (types d) r)"
    using f [of c t] Cons.prems by (auto simp: sub_ok_def)
  have ok: "types_ok d" "regular d" "extends c d" using d(2) by (simp_all add: step_ok_def)
  have len: "length (types c) \<le> length (types d)" using extends_longer [OF ok(3)] .
  have "\<forall>t\<in>set ts. t < k \<and> t < length (types d)" using Cons.prems(4) len by fastforce
  from Cons.IH [OF ok(1,2) sub_in_extends [OF Cons.prems(3) ok(3)] this]
  obtain rs e where e: "thread f d ts = Some (rs, e)" "step_ok d e" "refs_in e rs"
      "list_all2 (\<lambda>t r. subbed m d (shape (types d) t) (shape (types e) r)) ts rs" by blast
  have "extends d e" using e(2) by (simp add: step_ok_def)
  then have "shape (types e) r = shape (types d) r" "r < length (types e)"
    using extends_shape [OF _ ok(1) d(3)] extends_nth d(3) by blast+
  moreover have "list_all2 (\<lambda>t r. subbed m c (shape (types c) t) (shape (types e) r)) ts rs"
    using e(4) Cons.prems extends_shape [OF ok(3)] sub_fun_extends [OF ok(3) _ Cons.prems(3)]
    by (auto simp: list_all2_conv_all_nth subbed_def)
  ultimately show ?case using d e step_trans [OF d(2)] by (simp add: refs_in_def)
qed

lemma subbed_map:
  "list_all2 (\<lambda>t r. subbed m c (f t) (g r)) ts rs \<Longrightarrow> list_all (covered (sub_fun m c)) (map f ts) \<Longrightarrow>
   map (\<lambda>r. sans_const (g r)) rs = map (\<lambda>t. sans_const (sub_shape (sub_fun m c) (f t))) ts"
  by (induction rule: list_all2_induct) (auto simp: subbed_def)

lemma sub_type_ok:
  "types_ok c \<Longrightarrow> regular c \<Longrightarrow> sub_in m c \<Longrightarrow> t < n \<Longrightarrow> t < length (types c) \<Longrightarrow> sub_ok m c t (sub_type n m c t)"
proof (induction n arbitrary: c t)
  case (Suc n)
  define ty where "ty = types c ! t"
  have links: "\<forall>r\<in>type_links ty. r < t" using Suc.prems(1,5) by (simp add: ty_def types_ok_def table_ok_def)
  have sh: "shape (types c) t = shape_with (shape (types c)) ty" using Suc.prems by (simp add: ty_def shape_eq types_ok_def)
  have pl: "regular_type ty" using find_regular [OF Suc.prems(2,5)] by (simp add: ty_def)
  consider r where "ty_kind ty = TY_NAMED" "ty_items ty = []" "map_of m (Some (ty_name ty)) = Some r"
    | "ty_kind ty = TY_NAMED" "ty_items ty = []" "map_of m (Some (ty_name ty)) = None"
    | "ty_kind ty \<in> {TY_PTR, TY_ARRAY, TY_SLICE}"
    | "ty_kind ty \<notin> {TY_PTR, TY_ARRAY, TY_SLICE}" "ty_items ty \<noteq> []"
    | "ty_kind ty \<notin> {TY_PTR, TY_ARRAY, TY_SLICE, TY_NAMED}" "ty_items ty = []" by (cases "map_of m (Some (ty_name ty))") auto
  then show ?case
  proof cases
    case (1 r)
    have "r < length (types c)" using Suc.prems(3) map_of_SomeD [OF 1(3)] by (auto simp: sub_in_def)
    moreover have "sub_type (Suc n) m c t = Some (r, c)" using 1 by (simp add: sub_type.simps(2) ty_def)
    ultimately show ?thesis using 1 Suc.prems sh
      by (simp add: sub_ok_def step_refl shape_with_def sub_fun_def subbed_def)
  next
    case 2
    then have "sub_type (Suc n) m c t = Some (t, c)" by (simp add: sub_type.simps(2) ty_def)
    then show ?thesis using 2 Suc.prems sh by (simp add: sub_ok_def step_refl shape_with_def sub_fun_def subbed_def)
  next
    case 3
    obtain b where b: "ty_base ty = Some b" using pl 3 by (auto simp: regular_type_def)
    have "b < t" using links b by (auto simp: type_links_def)
    then have "sub_ok m c b (sub_type n m c b)" using Suc.IH [OF Suc.prems(1-3)] Suc.prems(4,5) by simp
    then obtain r d where d: "sub_type n m c b = Some (r, d)" "step_ok c d" "r < length (types d)"
        "subbed m c (shape (types c) b) (shape (types d) r)" by (auto simp: sub_ok_def)
    obtain q e where e: "type_derive d (ty_kind ty) r (ty_count ty) = (q, e)" by force
    have run: "sub_type (Suc n) m c t = Some (q, e)" using 3 b d(1) e by (auto simp: sub_type.simps(2) ty_def)
    have "types_ok d" "regular d" using d(2) by (simp_all add: step_ok_def)
    from derive_shape [OF this d(3) 3 e] show ?thesis
      using run step_trans [OF d(2)] sh 3 b d(4) pl by (auto simp: sub_ok_def subbed_def shape_with_def regular_type_def)
  next
    case 4
    have "\<forall>x\<in>set (ty_items ty). x < n \<and> x < length (types c)"
    proof
      fix x assume "x \<in> set (ty_items ty)"
      then have "x < t" using links by (simp add: type_links_def)
      then show "x < n \<and> x < length (types c)" using Suc.prems(4,5) by simp
    qed
    from thread_sub [OF Suc.IH Suc.prems(1-3) this]
    obtain rs d where d: "thread (sub_type n m) c (ty_items ty) = Some (rs, d)" "step_ok c d" "refs_in d rs"
        "list_all2 (\<lambda>t r. subbed m c (shape (types c) t) (shape (types d) r)) (ty_items ty) rs" by blast
    have ok: "types_ok d" "regular d" using d(2) by (simp_all add: step_ok_def)
    note same = subbed_map [OF d(4)]
    have rs: "rs \<noteq> []" using d(4) 4(2) by (cases rs) auto
    have run: "sub_type (Suc n) m c t = (if ty_kind ty = TY_TUPLE then type_tuple d rs
        else if ty_kind ty = TY_NAMED then type_generic d (ty_name ty) rs else Some (t, d))"
      using 4 d(1) by (simp add: sub_type.simps(2) ty_def Let_def)
    show ?thesis
    proof (cases "ty_kind ty = TY_TUPLE \<or> ty_kind ty = TY_NAMED")
      case True
      obtain p1 where p1: "type_tuple d rs = Some p1" using type_tuple_ok [OF ok(1) d(3)] by blast
      obtain p2 where p2: "type_generic d (ty_name ty) rs = Some p2" using type_generic_ok [OF ok(1) d(3)] by blast
      obtain q e where e: "sub_type (Suc n) m c t = Some (q, e)" using run True p1 p2 by (cases p1; cases p2) auto
      show ?thesis
      proof (cases "ty_kind ty = TY_TUPLE")
        case tuple: True
        then have "type_tuple d rs = Some (q, e)" using run e by simp
        from tuple_shape [OF ok d(3) this] show ?thesis
          using e step_trans [OF d(2)] sh 4 pl tuple by (auto simp: sub_ok_def shape_with_def subbed_def regular_type_def comp_def same)
      next
        case False
        then have named: "ty_kind ty = TY_NAMED" "type_generic d (ty_name ty) rs = Some (q, e)" using run e True by simp_all
        from generic_shape [OF ok d(3) rs named(2)] show ?thesis
          using e step_trans [OF d(2)] sh 4 named(1) rs by (auto simp: sub_ok_def shape_with_def subbed_def regular_type_def comp_def same)
      qed
    next
      case False
      have ext: "extends c d" using d(2) by (simp add: step_ok_def)
      have "t < length (types d)" "shape (types d) t = shape (types c) t"
        using extends_shape [OF ext Suc.prems(1,5)] extends_longer [OF ext] Suc.prems(5) by simp_all
      then show ?thesis using run False d(2) 4 sh by (auto simp: sub_ok_def subbed_def shape_with_def)
    qed
  next
    case 5
    then have "sub_type (Suc n) m c t = Some (t, c)" by (auto simp: sub_type.simps(2) ty_def Let_def)
    then show ?thesis using 5 Suc.prems sh pl by (auto simp: sub_ok_def step_refl shape_with_def subbed_def regular_type_def)
  qed
qed simp

section \<open>Clones\<close>

text \<open>The types that a tree refers to are in the table.\<close>

definition info_in :: "Context \<Rightarrow> NodeInfo \<Rightarrow> bool" where
  "info_in c i \<longleftrightarrow> (\<forall>t. n_type i = Some t \<longrightarrow> t < length (types c)) \<and> (\<forall>t. n_decl_type i = Some t \<longrightarrow> t < length (types c))"

fun node_in :: "Context \<Rightarrow> Node \<Rightarrow> bool"
  and child_in :: "Context \<Rightarrow> Node option \<Rightarrow> bool"
  and chain_in :: "Context \<Rightarrow> Node list \<Rightarrow> bool" where
  "node_in c (Node i a b d body params args) \<longleftrightarrow> info_in c i \<and> child_in c a \<and> child_in c b \<and> child_in c d
     \<and> chain_in c body \<and> chain_in c params \<and> chain_in c args"
| "child_in c None = True"
| "child_in c (Some n) = node_in c n"
| "chain_in c [] = True"
| "chain_in c (n # ns) \<longleftrightarrow> node_in c n \<and> chain_in c ns"

text \<open>A tree without what cloning changes: the ids, the C names and the types.\<close>

fun bare :: "Node \<Rightarrow> Node" and bare_child :: "Node option \<Rightarrow> Node option" and bare_chain :: "Node list \<Rightarrow> Node list" where
  "bare (Node i a b d body params args) =
     Node (i\<lparr>n_id := 0, n_cname := None, n_type := None, n_decl_type := None\<rparr>)
       (bare_child a) (bare_child b) (bare_child d) (bare_chain body) (bare_chain params) (bare_chain args)"
| "bare_child None = None"
| "bare_child (Some n) = Some (bare n)"
| "bare_chain [] = []"
| "bare_chain (n # ns) = bare n # bare_chain ns"

lemma in_extends:
  "node_in c n \<Longrightarrow> length (types c) \<le> length (types c') \<Longrightarrow> node_in c' n"
  "child_in c m \<Longrightarrow> length (types c) \<le> length (types c') \<Longrightarrow> child_in c' m"
  "chain_in c ns \<Longrightarrow> length (types c) \<le> length (types c') \<Longrightarrow> chain_in c' ns"
proof (induction n and m and ns rule: node_in_child_in_chain_in.induct)
  case (1 c i a b d body params args)
  then show ?case by (fastforce simp: info_in_def)
qed simp_all

text \<open>A routine returns, and what it guarantees. Routines in sequence.\<close>

definition runs :: "Context \<Rightarrow> ('a \<times> Context) option \<Rightarrow> ('a \<Rightarrow> Context \<Rightarrow> bool) \<Rightarrow> bool" where
  "runs c p Q \<longleftrightarrow> (\<exists>y c'. p = Some (y, c') \<and> step_ok c c' \<and> Q y c')"

lemma runs_bind:
  assumes "runs c p Q" "\<And>y c'. step_ok c c' \<Longrightarrow> Q y c' \<Longrightarrow> runs c' (f y c') R"
  shows "runs c (Option.bind p (\<lambda>(y, c). f y c)) R"
  using assms step_trans by (fastforce simp: runs_def)

definition ready :: "substitution \<Rightarrow> Context \<Rightarrow> bool" where
  "ready m c \<longleftrightarrow> types_ok c \<and> regular c \<and> sub_in m c"

lemma ready_step: "ready m c \<Longrightarrow> step_ok c c' \<Longrightarrow> ready m c'"
  using sub_in_extends by (auto simp: ready_def step_ok_def)

lemma step_length: "step_ok c c' \<Longrightarrow> length (types c) \<le> length (types c')"
  by (simp add: step_ok_def extends_longer)

lemma sub_ref_runs:
  assumes "ready m c" "\<forall>t. x = Some t \<longrightarrow> t < length (types c)"
  shows "runs c (sub_ref m c x) (\<lambda>y c'. \<forall>t. y = Some t \<longrightarrow> t < length (types c'))"
proof (cases x)
  case None
  then show ?thesis using assms step_refl by (auto simp: sub_ref_def ready_def runs_def)
next
  case (Some t)
  then have "sub_ok m c t (sub_type (Suc t) m c t)" using assms sub_type_ok by (simp add: ready_def)
  then show ?thesis using Some by (auto simp: sub_ok_def sub_ref_def runs_def)
qed

definition clones :: "substitution \<Rightarrow> Node \<Rightarrow> bool" where
  "clones m n \<longleftrightarrow> (\<forall>c. ready m c \<longrightarrow> node_in c n \<longrightarrow> runs c (clone m c n) (\<lambda>p c'. node_in c' p \<and> bare p = bare n))"

lemma child_runs:
  assumes "\<And>n. n \<in> set_option x \<Longrightarrow> clones m n" "ready m c" "child_in c x"
  shows "runs c (clone_child m c x) (\<lambda>p c'. child_in c' p \<and> bare_child p = bare_child x)"
proof (cases x)
  case None
  then show ?thesis using assms(2) by (simp add: runs_def ready_def step_refl)
next
  case (Some n)
  then have "runs c (clone m c n) (\<lambda>p c'. node_in c' p \<and> bare p = bare n)" using assms by (simp add: clones_def)
  then show ?thesis using Some by (auto simp: runs_def)
qed

lemma chain_runs:
  "(\<And>n. n \<in> set ns \<Longrightarrow> clones m n) \<Longrightarrow> ready m c \<Longrightarrow> chain_in c ns \<Longrightarrow>
    runs c (clone_chain m c ns) (\<lambda>p c'. chain_in c' p \<and> bare_chain p = bare_chain ns)"
proof (induction ns arbitrary: c)
  case Nil
  then show ?case by (simp add: runs_def ready_def step_refl)
next
  case (Cons n ns)
  have n: "runs c (clone m c n) (\<lambda>p c'. node_in c' p \<and> bare p = bare n)" using Cons.prems by (simp add: clones_def)
  show ?case unfolding clone_chain.simps
  proof (rule runs_bind [OF n])
    fix p d assume d: "step_ok c d" "node_in d p \<and> bare p = bare n"
    have "chain_in d ns" using in_extends(3) [OF _ step_length [OF d(1)]] Cons.prems(3) by simp
    from Cons.IH [OF Cons.prems(1) ready_step [OF Cons.prems(2) d(1)] this]
    have ns: "runs d (clone_chain m d ns) (\<lambda>p c'. chain_in c' p \<and> bare_chain p = bare_chain ns)" by simp
    show "runs d (Option.bind (clone_chain m d ns) (\<lambda>(ns, c). Some (p # ns, c)))
        (\<lambda>q c'. chain_in c' q \<and> bare_chain q = bare_chain (n # ns))"
    proof (rule runs_bind [OF ns])
      fix ps e assume e: "step_ok d e" "chain_in e ps \<and> bare_chain ps = bare_chain ns"
      then show "runs e (Some (p # ps, e)) (\<lambda>q c'. chain_in c' q \<and> bare_chain q = bare_chain (n # ns))"
        using d in_extends(1) [OF _ step_length [OF e(1)]] by (simp add: runs_def step_refl step_ok_def)
    qed
  qed
qed

lemma runs_three:
  assumes "step_ok c c" "\<And>c'. step_ok c c' \<Longrightarrow> runs c' (f c') (\<lambda>y c''. P c'' y)" "\<And>c'. step_ok c c' \<Longrightarrow> runs c' (g c') (\<lambda>y c''. Q c'' y)"
    "\<And>c'. step_ok c c' \<Longrightarrow> runs c' (h c') (\<lambda>y c''. R c'' y)"
    and "\<And>c' c'' y. P c' y \<Longrightarrow> step_ok c' c'' \<Longrightarrow> P c'' y" "\<And>c' c'' y. Q c' y \<Longrightarrow> step_ok c' c'' \<Longrightarrow> Q c'' y"
  obtains x y z c1 c2 c3 where "f c = Some (x, c1)" "g c1 = Some (y, c2)" "h c2 = Some (z, c3)" "step_ok c c3" "P c3 x" "Q c3 y" "R c3 z"
proof -
  obtain x c1 where x: "f c = Some (x, c1)" "step_ok c c1" "P c1 x" using assms(2) [OF assms(1)] by (auto simp: runs_def)
  obtain y c2 where y: "g c1 = Some (y, c2)" "step_ok c1 c2" "Q c2 y" using assms(3) [OF x(2)] by (auto simp: runs_def)
  have c2: "step_ok c c2" by (rule step_trans [OF x(2) y(2)])
  obtain z c3 where z: "h c2 = Some (z, c3)" "step_ok c2 c3" "R c3 z" using assms(4) [OF c2] by (auto simp: runs_def)
  show thesis
    by (rule that [OF x(1) y(1) z(1) step_trans [OF c2 z(2)] _ _ z(3)])
      (use assms(5,6) x(3) y(2,3) z(2) in blast)+
qed

lemma keeps:
  "child_in c x \<and> A \<Longrightarrow> step_ok c c' \<Longrightarrow> child_in c' x \<and> A" "chain_in c ns \<and> A \<Longrightarrow> step_ok c c' \<Longrightarrow> chain_in c' ns \<and> A"
  using in_extends(2,3) step_length by blast+

text \<open>A node, if its children clone.\<close>

lemma node_runs:
  assumes kids: "\<And>n. n \<in> set_option a \<union> set_option b \<union> set_option d \<union> set body \<union> set params \<union> set args \<Longrightarrow> clones m n"
    and r: "ready m c" "info_in c i" "child_in c a" "child_in c b" "child_in c d" "chain_in c body" "chain_in c params" "chain_in c args"
    and c0: "c = c0\<lparr>next_id := next_id c0 + 2\<rparr>"
  shows "runs c (clone m c0 (Node i a b d body params args)) (\<lambda>p c'. node_in c' p \<and> bare p = bare (Node i a b d body params args))"
proof -
  obtain ty c1 where s1: "sub_ref m c (n_type i) = Some (ty, c1)" "step_ok c c1" "\<forall>t. ty = Some t \<longrightarrow> t < length (types c1)"
    using sub_ref_runs [OF r(1), of "n_type i"] r(2) by (auto simp: runs_def info_in_def)
  have "\<forall>t. n_decl_type i = Some t \<longrightarrow> t < length (types c1)" using r(2) step_length [OF s1(2)] by (auto simp: info_in_def)
  then obtain decl c2 where s2: "sub_ref m c1 (n_decl_type i) = Some (decl, c2)" "step_ok c1 c2" "\<forall>t. decl = Some t \<longrightarrow> t < length (types c2)"
    using sub_ref_runs [OF ready_step [OF r(1) s1(2)], of "n_decl_type i"] by (auto simp: runs_def)
  note t2 = step_trans [OF s1(2) s2(2)]
  have refl: "step_ok c' c'" if "step_ok c c'" for c' using that by (simp add: step_ok_def)
  have later: "ready m c' \<and> child_in c' a \<and> child_in c' b \<and> child_in c' d \<and> chain_in c' body \<and> chain_in c' params \<and> chain_in c' args"
    if st: "step_ok c c'" for c'
    using r ready_step [OF r(1) st] in_extends(2,3) [OF _ step_length [OF st]] by simp
  have child: "runs c' (clone_child m c' x) (\<lambda>y c''. child_in c'' y \<and> bare_child y = bare_child x)"
    if "step_ok c2 c'" "x = a \<or> x = b \<or> x = d" for c' x
    using child_runs [of x m c'] kids later [OF step_trans [OF t2 that(1)]] that(2) by blast
  obtain a' b' d' c3 c4 c5 where s5: "clone_child m c2 a = Some (a', c3)" "clone_child m c3 b = Some (b', c4)" "clone_child m c4 d = Some (d', c5)"
      "step_ok c2 c5" "child_in c5 a' \<and> bare_child a' = bare_child a" "child_in c5 b' \<and> bare_child b' = bare_child b"
      "child_in c5 d' \<and> bare_child d' = bare_child d"
    by (rule runs_three [OF refl [OF t2] child child child keeps(1) keeps(1)]; (assumption | simp))
  note t5 = step_trans [OF t2 s5(4)]
  have chain: "runs c' (clone_chain m c' ns) (\<lambda>y c''. chain_in c'' y \<and> bare_chain y = bare_chain ns)"
    if "step_ok c5 c'" "ns = body \<or> ns = params \<or> ns = args" for c' ns
    using chain_runs [of ns m c'] kids later [OF step_trans [OF t5 that(1)]] that(2) by blast
  obtain body' params' args' c6 c7 c8 where s8: "clone_chain m c5 body = Some (body', c6)" "clone_chain m c6 params = Some (params', c7)"
      "clone_chain m c7 args = Some (args', c8)" "step_ok c5 c8" "chain_in c8 body' \<and> bare_chain body' = bare_chain body"
      "chain_in c8 params' \<and> bare_chain params' = bare_chain params" "chain_in c8 args' \<and> bare_chain args' = bare_chain args"
    by (rule runs_three [OF refl [OF t5] chain chain chain keeps(2) keeps(2)]; (assumption | simp))
  let ?p = "Node (i\<lparr>n_id := next_id c, n_cname := None, n_type := ty, n_decl_type := decl\<rparr>) a' b' d' body' params' args'"
  have "clone m c0 (Node i a b d body params args) = Some (?p, c8)"
    using s1(1) s2(1) s5(1-3) s8(1-3) by (simp add: c0 Let_def)
  moreover have "info_in c8 (i\<lparr>n_id := next_id c, n_cname := None, n_type := ty, n_decl_type := decl\<rparr>)"
    using s1(3) s2(3) step_length [OF s2(2)] step_length [OF s5(4)] step_length [OF s8(4)] by (auto simp: info_in_def)
  moreover have "child_in c8 a'" "child_in c8 b'" "child_in c8 d'" using s5(5-7) keeps(1) s8(4) by blast+
  ultimately show ?thesis using step_trans [OF t5 s8(4)] s5(5-7) s8(5-7) by (simp add: runs_def)
qed

text \<open>
  A clone is its template with the types substituted: cloning returns, changes nothing but ids, C
  names and types anywhere in the tree, and refers only to types of the table, which it extends.
\<close>

theorem clone_copies:
  assumes "ready m c" and "node_in c n"
  shows "\<exists>p c'. clone m c n = Some (p, c') \<and> step_ok c c' \<and> node_in c' p \<and> bare p = bare n"
proof -
  have "clones m n"
  proof (induction n)
    case (Node i a b d body params args)
    show ?case unfolding clones_def
    proof (intro allI impI)
      fix c assume c: "ready m c" "node_in c (Node i a b d body params args)"
      let ?c = "c\<lparr>next_id := next_id c + 2\<rparr>"
      have "ready m ?c" "node_in ?c (Node i a b d body params args)"
        using c in_extends(1) [OF c(2), of ?c] by (auto simp: ready_def types_ok_def regular_def sub_in_def)
      then have "runs ?c (clone m c (Node i a b d body params args)) (\<lambda>p c'. node_in c' p \<and> bare p = bare (Node i a b d body params args))"
        by (intro node_runs) (use Node in auto)
      then show "runs c (clone m c (Node i a b d body params args)) (\<lambda>p c'. node_in c' p \<and> bare p = bare (Node i a b d body params args))"
        by (auto simp: runs_def step_ok_def extends_def)
    qed
  qed
  then show ?thesis using assms by (simp add: clones_def runs_def)
qed

section \<open>The loop ends\<close>

lemma every_total: "(\<And>x. x \<in> set xs \<Longrightarrow> p x \<noteq> None) \<Longrightarrow> every p xs \<noteq> None"
  by (induction xs) (auto split: option.splits bool.splits)

lemma concrete_total: "table_ok ts \<Longrightarrow> t < length ts \<Longrightarrow> t < n \<Longrightarrow> concrete n ts t \<noteq> None"
proof (induction n arbitrary: t)
  case (Suc n)
  have links: "r < t" if "r \<in> type_links (ts ! t)" for r using Suc.prems(1,2) that by (simp add: table_ok_def)
  have rec: "concrete n ts r \<noteq> None" if "r \<in> type_links (ts ! t)" for r
    using Suc.IH [of r] Suc.prems links [OF that] by simp
  have items: "every (concrete n ts) (ty_items (ts ! t)) \<noteq> None"
    by (rule every_total) (use rec in \<open>simp add: type_links_def\<close>)
  have base: "(case ty_base (ts ! t) of None \<Rightarrow> Some True | Some b \<Rightarrow> concrete n ts b) \<noteq> None"
    using rec by (cases "ty_base (ts ! t)") (simp_all add: type_links_def)
  show ?case using items base by (auto simp: concrete.simps(2) Let_def split: option.splits bool.splits)
qed simp

text \<open>A program whose nodes refer to types of the table.\<close>

definition world :: "Context \<Rightarrow> Node list \<Rightarrow> bool" where
  "world c body \<longleftrightarrow> types_ok c \<and> regular c \<and> (\<forall>n\<in>set body. node_in c n)"

lemma wanted_total: "world c body \<Longrightarrow> t < length (types c) \<Longrightarrow> wanted c body t \<noteq> None"
  using concrete_total [of "types c" t "Suc t"] by (auto simp: wanted_def world_def types_ok_def Let_def split: option.split)

lemma wanted_in: "wanted c body t = Some (Some src) \<Longrightarrow> src \<in> set body"
  by (auto simp: wanted_def Let_def template_for_def find_Some_iff split: if_splits option.splits)

lemma set_decl_ok:
  assumes "types_ok c" "regular c" "t < length (types c)"
  shows "types_ok (set_decl t i c) \<and> regular (set_decl t i c) \<and> length (types (set_decl t i c)) = length (types c)"
proof -
  have "\<forall>x\<in>set (types (set_decl t i c)). regular_type x"
    using assms(2,3) set_update_subset_insert by (fastforce simp: set_decl_def regular_def regular_type_def)
  moreover have "types_ok (set_decl t i c)"
    using assms by (auto simp: types_ok_def table_ok_def set_decl_def nth_list_update type_links_def)
  ultimately show ?thesis by (simp add: regular_def set_decl_def)
qed

lemma chain_in_set: "chain_in c ns \<longleftrightarrow> (\<forall>n\<in>set ns. node_in c n)"
  by (induction ns) simp_all

lemma set_owner_in [simp]: "node_in c (set_owner i n) = node_in c n" "chain_in c (map (set_owner i) ns) = chain_in c ns"
proof -
  show n: "node_in c (set_owner i n) = node_in c n" for n by (cases n) (simp add: set_owner_def info_in_def)
  show "chain_in c (map (set_owner i) ns) = chain_in c ns" by (induction ns) (simp_all add: n)
qed

lemma finish_in:
  assumes "node_in c n" "t < length (types c)" "finish_instance kind name t c n = (n', c')"
  shows "node_in c n' \<and> (\<exists>i. c' = set_decl t i c)"
proof (cases n)
  case (Node i a b d body params args)
  show ?thesis
  proof (cases "kind = N_CLASS")
    case True
    then show ?thesis using assms Node by (auto simp: finish_instance_def Let_def info_in_def)
  next
    case False
    then show ?thesis using assms Node by (auto simp: finish_instance_def Let_def info_in_def)
  qed
qed

lemma instantiate_ok:
  assumes w: "world c body" "t < length (types c)" "src \<in> set body"
  shows "(\<exists>l s c'. instantiate src name t k body c = Fail l s c')
    \<or> (\<exists>dst c'. instantiate src name t k body c = Done (True, k, body @ [dst]) c' \<and> world c' (body @ [dst])
         \<and> length (types c) \<le> length (types c') \<and> k \<le> 512)"
proof (cases "k > 512 \<or> length (formals_of src) \<noteq> length (ty_items (types c ! t))")
  case True
  then show ?thesis by (auto simp: instantiate_def Let_def tc_error_def)
next
  case False
  define m where "m = rev (zip (map (\<lambda>f. n_name (info f)) (formals_of src)) (ty_items (types c ! t)))"
  have items: "r < length (types c)" if "r \<in> set (ty_items (types c ! t))" for r
    using links_below [of c t] w that by (simp add: world_def type_links_def)
  have "sub_in m c" using items by (auto simp: sub_in_def m_def dest: set_zip_rightD)
  then have "ready m c" using w(1) by (simp add: ready_def world_def)
  then obtain p d where d: "clone m c src = Some (p, d)" "step_ok c d" "node_in d p"
    using clone_copies [of m c src] w by (auto simp: world_def)
  obtain dst e where e: "finish_instance (n_kind (info src)) name t d p = (dst, e)" by force
  have t: "t < length (types d)" using w(2) step_length [OF d(2)] by simp
  obtain i where i: "e = set_decl t i d" "node_in d dst" using finish_in [OF d(3) t e] by blast
  have ok: "types_ok e" "regular e" "length (types e) = length (types d)"
    using set_decl_ok [of d t i] d(2) t i(1) by (simp_all add: step_ok_def)
  have "\<forall>n\<in>set body. node_in e n" using w(1) in_extends(1) [of c _ e] step_length [OF d(2)] ok(3) by (auto simp: world_def)
  moreover have "node_in e dst" using in_extends(1) [OF i(2), of e] ok(3) by simp
  moreover have "instantiate src name t k body c = Done (True, k, body @ [dst]) e"
    using False d(1) e by (simp add: instantiate_def Let_def m_def)
  ultimately show ?thesis using ok False step_length [OF d(2)] by (simp add: world_def)
qed

text \<open>A round: it fails, makes instances, or changes nothing because no type wants one.\<close>

lemma expand_types_ok:
  "world c body \<Longrightarrow> \<forall>t\<in>set ts. t < length (types c) \<Longrightarrow>
    (\<exists>l s c'. expand_types ts (changed, k, body) c = Fail l s c')
    \<or> (\<exists>k' body' c'. expand_types ts (changed, k, body) c = Done (changed \<or> k < k', k', body') c' \<and> world c' body'
         \<and> k \<le> k' \<and> (k < k' \<longrightarrow> k' \<le> 512) \<and> length body' = length body + (k' - k)
         \<and> (k = k' \<longrightarrow> c' = c \<and> body' = body \<and> (\<forall>t\<in>set ts. wanted c body t = Some None)))"
proof (induction ts arbitrary: changed k body c)
  case (Cons t ts)
  obtain r where r: "wanted c body t = Some r" using wanted_total [OF Cons.prems(1)] Cons.prems(2) by fastforce
  show ?case
  proof (cases r)
    case None
    then show ?thesis using Cons.IH [OF Cons.prems(1), of changed k] Cons.prems(2) r by auto
  next
    case (Some src)
    then have src: "src \<in> set body" using wanted_in r by blast
    have t: "t < length (types c)" using Cons.prems(2) by simp
    show ?thesis using instantiate_ok [OF Cons.prems(1) t src, of "ty_name (types c ! t)" "k + 1"]
    proof (elim disjE exE conjE)
      fix l s c' assume "instantiate src (ty_name (types c ! t)) t (k + 1) body c = Fail l s c'"
      then show ?thesis using r Some by simp
    next
      fix dst d assume d: "instantiate src (ty_name (types c ! t)) t (k + 1) body c = Done (True, k + 1, body @ [dst]) d"
        "world d (body @ [dst])" "length (types c) \<le> length (types d)" "k + 1 \<le> 512"
      have "\<forall>t\<in>set ts. t < length (types d)" using Cons.prems(2) d(3) by fastforce
      note ih = Cons.IH [OF d(2) this, of True "k + 1"]
      have run: "expand_types (t # ts) (changed, k, body) c = expand_types ts (True, k + 1, body @ [dst]) d"
        using r Some d(1) by simp
      show ?thesis unfolding run using ih d(4) by (elim disjE exE conjE) auto
    qed
  qed
qed auto

lemma expand_rounds_ok:
  "world c body \<Longrightarrow> k \<le> 512 \<Longrightarrow> 513 < n + k \<Longrightarrow>
    (\<exists>l s c'. expand_rounds n k body c = Fail l s c')
    \<or> (\<exists>k' body' c'. expand_rounds n k body c = Done (k', body') c' \<and> k' \<le> 512 \<and> k \<le> k' \<and> length body' = length body + (k' - k)
         \<and> (\<forall>t<length (types c'). wanted c' body' t = Some None))"
proof (induction n arbitrary: k body c)
  case (Suc n)
  have refs: "\<forall>t\<in>set (type_refs c). t < length (types c)" by simp
  from expand_types_ok [OF Suc.prems(1) refs, of False k] show ?case
  proof (elim disjE exE conjE)
    fix l s c' assume "expand_types (type_refs c) (False, k, body) c = Fail l s c'"
    then show ?thesis by simp
  next
    fix k' body' c'
    assume e: "expand_types (type_refs c) (False, k, body) c = Done (False \<or> k < k', k', body') c'" "world c' body'" "k \<le> k'"
      "k < k' \<longrightarrow> k' \<le> 512" "length body' = length body + (k' - k)"
      "k = k' \<longrightarrow> c' = c \<and> body' = body \<and> (\<forall>t\<in>set (type_refs c). wanted c body t = Some None)"
    show ?thesis
    proof (cases "k < k'")
      case True
      then show ?thesis using Suc.IH [OF e(2), of k'] e Suc.prems(3) by fastforce
    next
      case False
      then show ?thesis using e Suc.prems(2) by auto
    qed
  qed
qed simp

text \<open>
  Claim C19. Instantiation ends: the loop returns or reports an error; when it returns, it has made at most 512
  instances, each a new declaration, and no type of the table still wants one.
\<close>

theorem expand_ends:
  assumes "types_ok c" and "regular c" and "\<forall>n\<in>set body. node_in c n"
  shows "expand_generics body c \<noteq> Fuel
     \<and> (\<forall>k body' c'. expand_generics body c = Done (k, body') c' \<longrightarrow>
          k \<le> 512 \<and> length body' = length body + k \<and> (\<forall>t<length (types c'). wanted c' body' t = Some None))"
proof -
  have "world c body" using assms by (simp add: world_def)
  from expand_rounds_ok [OF this, of 0 514] show ?thesis by (auto simp: expand_generics_def)
qed

text \<open>
  Claim C20. Substitution always returns. For a type without function types and without constant copies of
  a parameter, what it returns has the structure of the type with the structures of the arguments in the
  places of the parameters, through pointers, arrays, slices, tuples and instances, except that the table may
  add or lose \<open>const\<close> on these (not on named and primitive types). The last section is about the other types.
\<close>

theorem sub_type_structure:
  assumes "types_ok c" and "regular c" and "sub_in m c" and "t < length (types c)"
  shows "\<exists>r c'. sub_type (Suc t) m c t = Some (r, c') \<and> types_ok c' \<and> regular c' \<and> extends c c'
     \<and> (covered (sub_fun m c) (shape (types c) t) \<longrightarrow>
         sans_const (shape (types c') r) = sans_const (sub_shape (sub_fun m c) (shape (types c) t)))"
  using sub_type_ok [OF assms(1-3) _ assms(4), of "Suc t"] by (auto simp: sub_ok_def step_ok_def subbed_def)

section \<open>What substitution does not reach\<close>

text \<open>
  Function types keep their parameters as they are, and so do the \<open>const\<close> copies of a type parameter,
  whose name is \<open>const T\<close> and not \<open>T\<close>.
\<close>

lemma function_kept:
  assumes "ready m c" and "t < length (types c)" and "ty_kind (types c ! t) \<in> {TY_FUNC, TY_CLOSURE}" and "ty_items (types c ! t) \<noteq> []"
  shows "\<exists>c'. sub_type (Suc t) m c t = Some (t, c')"
proof -
  have k: "t < Suc t" by simp
  obtain r c' where s: "sub_type (Suc t) m c t = Some (r, c')"
    using sub_type_ok [of c m t "Suc t"] assms by (auto simp: sub_ok_def ready_def)
  then have "r = t" using assms(3,4) by (auto simp: sub_type.simps(2) Let_def split: option.splits Option.bind_splits)
  then show ?thesis using s by blast
qed

lemma const_kept:
  assumes "ty_kind (types c ! t) = TY_NAMED" and "ty_items (types c ! t) = []" and "ty_name (types c ! t) = ''const T''"
    and "map_of m (Some ''const T'') = None"
  shows "sub_type (Suc t) m c t = Some (t, c)"
  using assms by (simp add: sub_type.simps(2))

text \<open>
  \<open>type_derive\<close> does not look at \<open>const\<close>: after \<open>const Slice<int>\<close> every \<open>Slice<int>\<close> is the constant type.
\<close>

lemma derive_finds_const:
  "let (i, c) = type_primitive empty_context TY_I32; (s, c) = type_derive c TY_SLICE i 0; (q, c) = type_const c s; (r, c) = type_derive c TY_SLICE i 0
   in r = q \<and> r \<noteq> s \<and> ty_qualified (types c ! r)"
  by code_simp

section \<open>Examples\<close>

text \<open>The type \<open>Box<T*>\<close> with \<open>T\<close> for \<open>int\<close>, and a program with a template \<open>Box\<close> and the type \<open>Box<int>\<close>.\<close>

definition box_types :: "tref \<times> tref \<times> Context" where
  "box_types =
     (let (i, c) = type_primitive empty_context TY_I32; (t, c) = type_named c ''T''; (p, c) = type_derive c TY_PTR t 0
      in case type_generic c ''Box'' [p] of Some (b, c) \<Rightarrow> (i, b, c) | None \<Rightarrow> (i, p, c))"

definition box_program :: "Node list \<times> Context" where
  "box_program =
     (let (i, c) = type_primitive empty_context TY_I32;
          (b, c) = (case type_generic c ''Box'' [i] of Some r \<Rightarrow> r | None \<Rightarrow> (i, c));
          loc = \<lparr>loc_file = ''a.tc'', loc_line = 1, loc_col = 1\<rparr>;
          (formal, c) = node N_VAR loc c; (box, c) = node N_CLASS loc c
      in ([Node ((info box)\<lparr>n_name := Some ''Box''\<rparr>) None None None [] [Node ((info formal)\<lparr>n_name := Some ''T''\<rparr>) None None None [] [] []] []], c))"

lemma op_okD: "type_op_ok c p \<Longrightarrow> p = (r, c') \<Longrightarrow> types_ok c' \<and> extends c c' \<and> r < length (types c')"
  by (simp add: type_op_ok_def)

lemma box_types_ok:
  "case box_types of (i, b, c) \<Rightarrow> types_ok c \<and> regular c \<and> sub_in [(Some ''T'', i)] c \<and> b < length (types c)
     \<and> covered (sub_fun [(Some ''T'', i)] c) (shape (types c) b)
     \<and> sans_const (sub_shape (sub_fun [(Some ''T'', i)] c) (shape (types c) b))
       = Shape TY_NAMED False 0 ''Box'' 0 None [Shape TY_PTR False 0 [] 0 (Some (Shape TY_I32 False 0 [] 0 None [])) []]"
proof -
  obtain i c1 where 1: "type_primitive empty_context TY_I32 = (i, c1)" by force
  note o1 = op_okD [OF type_primitive_ok [OF types_ok_empty] 1]
  obtain t c2 where 2: "type_named c1 ''T'' = (t, c2)" by force
  note o2 = op_okD [OF type_named_ok [OF o1 [THEN conjunct1]] 2]
  obtain p c3 where 3: "type_derive c2 TY_PTR t 0 = (p, c3)" by force
  have "type_op_ok c2 (type_derive c2 TY_PTR t 0)" using type_derive_ok o2 by simp
  note o3 = op_okD [OF this 3]
  obtain b c4 where 4: "type_generic c3 ''Box'' [p] = Some (b, c4)" "type_op_ok c3 (b, c4)"
    using type_generic_ok [of c3 "[p]" "''Box''"] o3 by (auto simp: refs_in_def)
  have box: "box_types = (i, b, c4)" by (simp add: box_types_def 1 2 3 4(1))
  have ok: "types_ok c4" using 4(2) by (simp add: type_op_ok_def)
  have "case box_types of (i, b, c) \<Rightarrow> list_all regular_type (types c) \<and> i < length (types c) \<and> b < length (types c)
     \<and> covered (sub_fun [(Some ''T'', i)] c) (shape (types c) b)
     \<and> sans_const (sub_shape (sub_fun [(Some ''T'', i)] c) (shape (types c) b))
       = Shape TY_NAMED False 0 ''Box'' 0 None [Shape TY_PTR False 0 [] 0 (Some (Shape TY_I32 False 0 [] 0 None [])) []]"
    by code_simp
  then show ?thesis using ok by (simp add: box list_all_iff regular_def sub_in_def)
qed

theorem sub_type_structure_witness:
  "case box_types of (i, b, c) \<Rightarrow> \<exists>r c'. sub_type (Suc b) [(Some ''T'', i)] c b = Some (r, c')
     \<and> sans_const (shape (types c') r) = Shape TY_NAMED False 0 ''Box'' 0 None [Shape TY_PTR False 0 [] 0 (Some (Shape TY_I32 False 0 [] 0 None [])) []]"
proof -
  obtain i b c where box: "box_types = (i, b, c)" by (metis prod_cases3)
  then have ok: "types_ok c" "regular c" "sub_in [(Some ''T'', i)] c" "b < length (types c)"
      "covered (sub_fun [(Some ''T'', i)] c) (shape (types c) b)"
      "sans_const (sub_shape (sub_fun [(Some ''T'', i)] c) (shape (types c) b))
       = Shape TY_NAMED False 0 ''Box'' 0 None [Shape TY_PTR False 0 [] 0 (Some (Shape TY_I32 False 0 [] 0 None [])) []]"
    using box_types_ok unfolding box by simp_all
  show ?thesis using sub_type_structure [OF ok(1-4)] ok(5,6) by (auto simp: box)
qed

lemma box_program_ok:
  "case box_program of (body, c) \<Rightarrow> types_ok c \<and> regular c \<and> (\<forall>n\<in>set body. node_in c n)"
proof -
  obtain i c1 where 1: "type_primitive empty_context TY_I32 = (i, c1)" by force
  note o1 = op_okD [OF type_primitive_ok [OF types_ok_empty] 1]
  obtain b c2 where 2: "type_generic c1 ''Box'' [i] = Some (b, c2)" "type_op_ok c1 (b, c2)"
    using type_generic_ok [of c1 "[i]" "''Box''"] o1 by (auto simp: refs_in_def)
  have "types_ok c2" using 2(2) by (simp add: type_op_ok_def)
  moreover have "types (snd box_program) = types c2" "builtin (snd box_program) = builtin c2"
    by (simp_all add: box_program_def 1 2(1) node_def Let_def)
  ultimately have "types_ok (snd box_program)" by (simp add: types_ok_def)
  moreover have "case box_program of (body, c) \<Rightarrow> list_all regular_type (types c)" by code_simp
  moreover have "case box_program of (body, c) \<Rightarrow> \<forall>n\<in>set body. node_in c n"
    by (simp add: box_program_def 1 2(1) node_def Let_def info_in_def)
  ultimately show ?thesis unfolding regular_def list_all_iff case_prod_unfold by blast
qed

theorem expand_ends_witness:
  "case box_program of (body, c) \<Rightarrow> \<exists>body' c'. expand_generics body c = Done (1, body') c' \<and> length body' = 2"
proof -
  obtain body c where box: "box_program = (body, c)" by force
  have ok: "types_ok c" "regular c" "\<forall>n\<in>set body. node_in c n" using box_program_ok unfolding box by simp_all
  have one: "case box_program of (body, c) \<Rightarrow> (case expand_generics body c of Done (k, body') c' \<Rightarrow> k = 1 \<and> length body = 1 | _ \<Rightarrow> False)"
    by code_simp
  show ?thesis using expand_ends [OF ok] one by (auto simp: box split: res.splits prod.splits)
qed

theorem clone_copies_witness:
  "case box_program of (body, c) \<Rightarrow> \<exists>p c'. clone [] c (hd body) = Some (p, c') \<and> bare p = bare (hd body)"
proof -
  obtain body c where box: "box_program = (body, c)" by force
  have ok: "types_ok c" "regular c" "\<forall>n\<in>set body. node_in c n" using box_program_ok unfolding box by simp_all
  have "body \<noteq> []" using box by (auto simp: box_program_def Let_def split: prod.splits)
  then have "node_in c (hd body)" using ok(3) by simp
  moreover have "ready [] c" using ok by (simp add: ready_def sub_in_def)
  ultimately show ?thesis using clone_copies [of "[]" c "hd body"] by (auto simp: box)
qed

text \<open>A \<open>const\<close> instance is named \<open>const Box\<close>, for which there is no template, so it is never made.\<close>

lemma const_instance_unseen:
  "let (body, c) = box_program; (q, c) = type_const c 1
   in ty_name (types c ! q) = ''const Box'' \<and> ty_items (types c ! q) = ty_items (types c ! 1)
     \<and> wanted c body 1 = Some (Some (hd body)) \<and> wanted c body q = Some None"
  by code_simp

end
