(* ===== verification/Monitor.thy ===== *)
theory Monitor
  imports Prelude "HOL-Library.Extended_Nat"
begin

text \<open>
  The pattern behind every blocking call of \<open>runtime/concurrent.c\<close>: lock the object's mutex, wait on a
  condition variable while a condition does not hold, change the object, signal or broadcast, unlock.
  A call is one atomic \<open>attempt\<close>, since the mutex is held from the last test of the condition to the
  end of the change; an attempt that finds the condition false puts its thread to sleep. The step
  relation interleaves the calls of any number of threads, with wake-ups that nobody caused. The locale
  \<open>monitor\<close> states what makes such an object free of lost wake-ups; each object of the runtime is an
  interpretation of it.
\<close>

section \<open>Threads and notifications\<close>

datatype 'c effect = Signal 'c | Broadcast 'c

text \<open>A thread is outside the object, asleep in \<open>cond_wait\<close>, or woken and about to retry its call.\<close>

datatype 'p thread = Idle | Asleep 'p | Woken 'p

definition sleeps_on :: "('p \<Rightarrow> 'c option) \<Rightarrow> 'c \<Rightarrow> 'p thread \<Rightarrow> bool" where
  "sleeps_on cv c t \<longleftrightarrow> (case t of Asleep p \<Rightarrow> cv p = Some c | _ \<Rightarrow> False)"

definition woken_on :: "('p \<Rightarrow> 'c option) \<Rightarrow> 'c \<Rightarrow> 'p thread \<Rightarrow> bool" where
  "woken_on cv c t \<longleftrightarrow> (case t of Woken p \<Rightarrow> cv p = Some c | _ \<Rightarrow> False)"

definition wake :: "('p \<Rightarrow> 'c option) \<Rightarrow> 'c \<Rightarrow> 'p thread \<Rightarrow> 'p thread" where
  "wake cv c t = (case t of Asleep p \<Rightarrow> if cv p = Some c then Woken p else t | _ \<Rightarrow> t)"

lemma on_simps [simp]:
  "sleeps_on cv c Idle = False" "sleeps_on cv c (Woken p) = False" "sleeps_on cv c (Asleep p) = (cv p = Some c)"
  "woken_on cv c Idle = False" "woken_on cv c (Asleep p) = False" "woken_on cv c (Woken p) = (cv p = Some c)"
  by (simp_all add: sleeps_on_def woken_on_def)

definition num :: "('a \<Rightarrow> bool) \<Rightarrow> 'a list \<Rightarrow> nat" where
  "num P xs = length (filter P xs)"

lemma num_simps [simp]: "num P [] = 0" "num P (x # xs) = (if P x then 1 else 0) + num P xs"
  by (simp_all add: num_def)

lemma num_update:
  "i < length xs \<Longrightarrow> num P (xs[i := x]) + (if P (xs ! i) then 1 else 0) = num P xs + (if P x then 1 else 0)"
proof (induction xs arbitrary: i)
  case (Cons y ys)
  then show ?case
  proof (cases i)
    case (Suc j)
    then show ?thesis using Cons.IH [of j] Cons.prems by simp
  qed simp
qed simp

lemma num_pos: "0 < num P xs \<longleftrightarrow> (\<exists>i<length xs. P (xs ! i))"
  by (metis filter_empty_conv in_set_conv_nth length_greater_0_conv num_def)

lemma num_nth: "i < length xs \<Longrightarrow> P (xs ! i) \<Longrightarrow> 0 < num P xs"
  using num_pos by blast

text \<open>\<open>cond_signal\<close> wakes one sleeper if there is any, \<open>cond_broadcast\<close> wakes all.\<close>

inductive notify :: "('p \<Rightarrow> 'c option) \<Rightarrow> 'c effect list \<Rightarrow> 'p thread list \<Rightarrow> 'p thread list \<Rightarrow> bool"
  for cv where
  notify_end: "notify cv [] ts ts"
| notify_one: "\<lbrakk>i < length ts; ts ! i = Asleep p; cv p = Some c; notify cv es (ts[i := Woken p]) ts'\<rbrakk>
    \<Longrightarrow> notify cv (Signal c # es) ts ts'"
| notify_nobody: "\<lbrakk>num (sleeps_on cv c) ts = 0; notify cv es ts ts'\<rbrakk> \<Longrightarrow> notify cv (Signal c # es) ts ts'"
| notify_all: "notify cv es (map (wake cv c) ts) ts' \<Longrightarrow> notify cv (Broadcast c # es) ts ts'"

lemma num_wake:
  "num (sleeps_on cv c) (map (wake cv d) ts) = (if c = d then 0 else num (sleeps_on cv c) ts)"
  "num (woken_on cv c) (map (wake cv d) ts)
     = num (woken_on cv c) ts + (if c = d then num (sleeps_on cv c) ts else 0)"
  by (induction ts) (auto simp: wake_def sleeps_on_def woken_on_def split: thread.splits)

lemma num_signal:
  assumes "i < length ts" "ts ! i = Asleep p" "cv p = Some d"
  shows "num (sleeps_on cv c) (ts[i := Woken p]) = num (sleeps_on cv c) ts - (if c = d then 1 else 0)"
    and "num (woken_on cv c) (ts[i := Woken p]) = num (woken_on cv c) ts + (if c = d then 1 else 0)"
  using num_update [OF assms(1), of "sleeps_on cv c" "Woken p"] num_update [OF assms(1), of "woken_on cv c" "Woken p"]
    assms(2,3) by auto

lemma notify_length: "notify cv es ts ts' \<Longrightarrow> length ts' = length ts"
  by (induction rule: notify.induct) simp_all

lemma notify_fewer: "notify cv es ts ts' \<Longrightarrow> num (sleeps_on cv c) ts' \<le> num (sleeps_on cv c) ts"
proof (induction rule: notify.induct)
  case (notify_one i ts p d es ts')
  then show ?case using num_signal(1) [where cv = cv and c = c and d = d, OF notify_one(1-3)] by simp
next
  case (notify_all es d ts ts')
  then show ?case by (simp add: num_wake split: if_splits)
qed auto

lemma notify_broadcast: "notify cv es ts ts' \<Longrightarrow> Broadcast c \<in> set es \<Longrightarrow> num (sleeps_on cv c) ts' = 0"
proof (induction rule: notify.induct)
  case (notify_all es d ts ts')
  then show ?case using notify_fewer [OF notify_all(1), of c] by (auto simp: num_wake)
qed auto

lemma notify_signals:
  "notify cv es ts ts' \<Longrightarrow> 0 < num (sleeps_on cv c) ts' \<Longrightarrow>
   num (woken_on cv c) ts + count_list es (Signal c) \<le> num (woken_on cv c) ts'"
proof (induction rule: notify.induct)
  case (notify_one i ts p d es ts')
  then show ?case using num_signal(2) [where cv = cv and c = c and d = d, OF notify_one(1-3)] by auto
next
  case (notify_nobody d ts es ts')
  then show ?case using notify_fewer [OF notify_nobody(2), of c] by auto
next
  case (notify_all es d ts ts')
  then show ?case using notify_fewer [OF notify_all(1), of c] by (auto simp: num_wake split: if_splits)
qed simp

section \<open>Interleaved calls\<close>

text \<open>
  \<open>attempt p s\<close> is what the call \<open>p\<close> does to the object \<open>s\<close> once it holds the mutex: \<open>None\<close> if it has to wait
  on its condition variable \<open>cv p\<close>, and otherwise its result, the new object and its notifications.
\<close>

type_synonym ('p, 's, 'r, 'c) attempt = "'p \<Rightarrow> 's \<Rightarrow> ('r \<times> 's \<times> 'c effect list) option"

inductive monitor_step :: "('p, 's, 'r, 'c) attempt \<Rightarrow> ('p \<Rightarrow> 'c option) \<Rightarrow> 's \<times> 'p thread list
    \<Rightarrow> (nat \<times> 'p \<times> 'r) list \<Rightarrow> 's \<times> 'p thread list \<Rightarrow> bool"
  for attempt cv where
  call_done: "\<lbrakk>i < length ts; ts ! i = Idle; attempt p s = Some (r, s', es); notify cv es ts ts'\<rbrakk>
    \<Longrightarrow> monitor_step attempt cv (s, ts) [(i, p, r)] (s', ts')"
| call_wait: "\<lbrakk>i < length ts; ts ! i = Idle; attempt p s = None\<rbrakk>
    \<Longrightarrow> monitor_step attempt cv (s, ts) [] (s, ts[i := Asleep p])"
| retry_done: "\<lbrakk>i < length ts; ts ! i = Woken p; attempt p s = Some (r, s', es); notify cv es (ts[i := Idle]) ts'\<rbrakk>
    \<Longrightarrow> monitor_step attempt cv (s, ts) [(i, p, r)] (s', ts')"
| retry_wait: "\<lbrakk>i < length ts; ts ! i = Woken p; attempt p s = None\<rbrakk>
    \<Longrightarrow> monitor_step attempt cv (s, ts) [] (s, ts[i := Asleep p])"
| spurious: "\<lbrakk>i < length ts; ts ! i = Asleep p\<rbrakk>
    \<Longrightarrow> monitor_step attempt cv (s, ts) [] (s, ts[i := Woken p])"

inductive monitor_run :: "('p, 's, 'r, 'c) attempt \<Rightarrow> ('p \<Rightarrow> 'c option) \<Rightarrow> 's \<times> 'p thread list
    \<Rightarrow> (nat \<times> 'p \<times> 'r) list \<Rightarrow> 's \<times> 'p thread list \<Rightarrow> bool"
  for attempt cv x where
  run_start: "monitor_run attempt cv x [] x"
| run_step: "monitor_run attempt cv x es y \<Longrightarrow> monitor_step attempt cv y e z \<Longrightarrow> monitor_run attempt cv x (es @ e) z"

text \<open>The completed calls of a run, in the order of their critical sections, explain the object.\<close>

fun replay :: "('p, 's, 'r, 'c) attempt \<Rightarrow> (nat \<times> 'p \<times> 'r) list \<Rightarrow> 's \<Rightarrow> 's option" where
  "replay attempt [] s = Some s"
| "replay attempt ((i, p, r) # es) s =
     (case attempt p s of
        None \<Rightarrow> None
      | Some (r', s', _) \<Rightarrow> if r' = r then replay attempt es s' else None)"

lemma replay_append:
  "replay attempt (es @ fs) s = Option.bind (replay attempt es s) (replay attempt fs)"
  by (induction attempt es s rule: replay.induct) (auto split: option.split prod.split)

lemma replay_Cons:
  "replay attempt ((i, p, r) # es) s = Some s' \<longleftrightarrow>
   (\<exists>s1 fs. attempt p s = Some (r, s1, fs) \<and> replay attempt es s1 = Some s')"
  by (auto split: option.splits if_splits)

lemma run_replay:
  "monitor_run attempt cv x es y \<Longrightarrow> replay attempt es (fst x) = Some (fst y)"
  by (induction rule: monitor_run.induct) (auto simp: replay_append elim!: monitor_step.cases)

section \<open>Objects without lost wake-ups\<close>

text \<open>
  \<open>avail c s\<close> says how many calls on the condition variable \<open>c\<close> can complete in state \<open>s\<close>. A call waits
  exactly when there is nothing available for it; a call that makes something available notifies,
  once for each unit, and a call that completes uses one up.
\<close>

locale monitor =
  fixes attempt :: "('p, 's, 'r, 'c) attempt" and cv :: "'p \<Rightarrow> 'c option"
    and inv :: "'s \<Rightarrow> bool" and avail :: "'c \<Rightarrow> 's \<Rightarrow> enat"
  assumes keeps: "inv s \<Longrightarrow> attempt p s = Some (r, s', es) \<Longrightarrow> inv s'"
    and waits: "inv s \<Longrightarrow> attempt p s = None \<longleftrightarrow> (\<exists>c. cv p = Some c \<and> avail c s = 0)"
    and covers: "inv s \<Longrightarrow> attempt p s = Some (r, s', es) \<Longrightarrow> Broadcast c \<notin> set es \<Longrightarrow>
      avail c s' + enat (if cv p = Some c then 1 else 0) \<le> avail c s + enat (count_list es (Signal c))"
begin

definition awake :: "'s \<times> 'p thread list \<Rightarrow> bool" where
  "awake x \<longleftrightarrow> inv (fst x) \<and> (\<forall>c. 0 < num (sleeps_on cv c) (snd x) \<longrightarrow>
     avail c (fst x) \<le> enat (num (woken_on cv c) (snd x)))"

lemma awake_start: "inv s \<Longrightarrow> \<forall>t\<in>set ts. t = Idle \<Longrightarrow> awake (s, ts)"
proof -
  assume a: "inv s" "\<forall>t\<in>set ts. t = Idle"
  have "num (sleeps_on cv c) ts = 0" for c
    using a(2) by (metis gr0I num_pos nth_mem on_simps(1))
  then show ?thesis using a(1) by (simp add: awake_def)
qed

lemma awake_done:
  assumes a: "awake (s, ts)" and i: "i < length ts" "ts ! i = Idle \<or> ts ! i = Woken p"
    and call: "attempt p s = Some (r, s', es)" and n: "notify cv es (ts[i := Idle]) ts'"
  shows "awake (s', ts')"
  unfolding awake_def fst_conv snd_conv
proof (intro conjI allI impI)
  have inv: "inv s" using a by (simp add: awake_def)
  show "inv s'" by (rule keeps [OF inv call])
  fix c assume sleep: "0 < num (sleeps_on cv c) ts'"
  let ?w = "if cv p = Some c then 1 else 0 :: nat"
  have same: "num (sleeps_on cv c) (ts[i := Idle]) = num (sleeps_on cv c) ts"
    using num_update [OF i(1), of "sleeps_on cv c" Idle] i(2) by auto
  have less: "num (woken_on cv c) ts \<le> num (woken_on cv c) (ts[i := Idle]) + ?w"
    using num_update [OF i(1), of "woken_on cv c" Idle] i(2) by (auto split: if_splits)
  have "Broadcast c \<notin> set es" using notify_broadcast [OF n] sleep by auto
  from covers [OF inv call this]
  have up: "avail c s' + enat ?w \<le> avail c s + enat (count_list es (Signal c))" .
  have "0 < num (sleeps_on cv c) ts" using notify_fewer [OF n, of c] sleep same by simp
  then have "avail c s \<le> enat (num (woken_on cv c) ts)" using a by (simp add: awake_def)
  then obtain m where m: "avail c s = enat m" "m \<le> num (woken_on cv c) ts"
    by (cases "avail c s") auto
  obtain m' where m': "avail c s' = enat m'" using up m(1) by (cases "avail c s'") auto
  have "m' + ?w \<le> m + count_list es (Signal c)" using up m m' by simp
  then show "avail c s' \<le> enat (num (woken_on cv c) ts')"
    using notify_signals [OF n sleep] less m m' by simp
qed

lemma awake_sleep:
  assumes a: "awake (s, ts)" and i: "i < length ts" "ts ! i = Idle \<or> ts ! i = Woken p" and call: "attempt p s = None"
  shows "awake (s, ts[i := Asleep p])"
  unfolding awake_def fst_conv snd_conv
proof (intro conjI allI impI)
  show inv: "inv s" using a by (simp add: awake_def)
  obtain d where d: "cv p = Some d" "avail d s = 0" using waits [OF inv] call by blast
  fix c assume sleep: "0 < num (sleeps_on cv c) (ts[i := Asleep p])"
  show "avail c s \<le> enat (num (woken_on cv c) (ts[i := Asleep p]))"
  proof (cases "c = d")
    case False
    then have "num (sleeps_on cv c) (ts[i := Asleep p]) = num (sleeps_on cv c) ts"
      "num (woken_on cv c) (ts[i := Asleep p]) = num (woken_on cv c) ts"
      using num_update [OF i(1), of "sleeps_on cv c" "Asleep p"] num_update [OF i(1), of "woken_on cv c" "Asleep p"]
        i(2) d by auto
    then show ?thesis using a sleep by (simp add: awake_def)
  qed (simp add: d)
qed

lemma awake_step: "monitor_step attempt cv x e y \<Longrightarrow> awake x \<Longrightarrow> awake y"
proof (induction rule: monitor_step.induct)
  case (call_done i ts p s r s' es ts')
  then show ?case using awake_done [of s ts i p r s' es ts'] by (metis list_update_id)
next
  case (retry_done i ts p s r s' es ts')
  then show ?case using awake_done by blast
next
  case (spurious i ts p s)
  have "num (sleeps_on cv c) (ts[i := Woken p]) \<le> num (sleeps_on cv c) ts"
    "num (woken_on cv c) ts \<le> num (woken_on cv c) (ts[i := Woken p])" for c
    using num_update [OF spurious(1), of "sleeps_on cv c" "Woken p"]
      num_update [OF spurious(1), of "woken_on cv c" "Woken p"] spurious(2) by (auto split: if_splits)
  then show ?case using spurious(3) unfolding awake_def
    by (metis (no_types, lifting) enat_ord_simps(1) fst_conv le_trans less_le_trans order_trans snd_conv)
qed (blast intro: awake_sleep)+

lemma awake_run: "monitor_run attempt cv x es y \<Longrightarrow> awake x \<Longrightarrow> awake y"
  by (induction rule: monitor_run.induct) (auto intro: awake_step)

text \<open>
  No lost wake-up: whenever a sleeping thread's call could complete, some woken thread waits for the
  mutex with a call that can complete.
\<close>

lemma no_lost_wakeup:
  assumes "monitor_run attempt cv (s0, ts0) es (s, ts)" "inv s0" "\<forall>t\<in>set ts0. t = Idle"
    and i: "i < length ts" "ts ! i = Asleep p" and can: "attempt p s \<noteq> None"
    and cv: "cv p \<noteq> None"
  shows "\<exists>j q. j < length ts \<and> ts ! j = Woken q \<and> cv q = cv p \<and> attempt q s \<noteq> None"
proof -
  have a: "awake (s, ts)" using awake_run [OF assms(1)] awake_start assms(2,3) by blast
  obtain c where c: "cv p = Some c" using cv by blast
  have "0 < num (sleeps_on cv c) ts" using num_nth [OF i(1), of "sleeps_on cv c"] i(2) c by simp
  then have le: "avail c s \<le> enat (num (woken_on cv c) ts)" using a by (simp add: awake_def)
  have inv: "inv s" using a by (simp add: awake_def)
  have some: "avail c s \<noteq> 0" using waits [OF inv, of p] can c by blast
  then have "0 < num (woken_on cv c) ts" using le by (cases "avail c s") (auto simp: zero_enat_def)
  then obtain j where j: "j < length ts" "woken_on cv c (ts ! j)" using num_pos by blast
  then obtain q where q: "ts ! j = Woken q" "cv q = Some c" by (auto simp: woken_on_def split: thread.splits)
  then have "attempt q s \<noteq> None" using waits [OF inv, of q] some by auto
  then show ?thesis using j q c by auto
qed

text \<open>Where no bound is set on the calls that can complete, nobody sleeps.\<close>

lemma unbounded_awake:
  assumes "monitor_run attempt cv (s0, ts0) es (s, ts)" "inv s0" "\<forall>t\<in>set ts0. t = Idle"
    and "cv p = Some c" "avail c s = \<infinity>"
  shows "Asleep p \<notin> set ts"
proof
  assume "Asleep p \<in> set ts"
  then obtain i where "i < length ts" "ts ! i = Asleep p" by (auto simp: in_set_conv_nth)
  then have "0 < num (sleeps_on cv c) ts" using num_nth [of i ts "sleeps_on cv c"] assms(4) by simp
  moreover have "awake (s, ts)" using awake_run [OF assms(1)] awake_start assms(2,3) by blast
  ultimately have "avail c s \<le> enat (num (woken_on cv c) ts)" by (simp add: awake_def)
  then show False using assms(5) by simp
qed

lemma run_keeps: "monitor_run attempt cv x es y \<Longrightarrow> inv (fst x) \<Longrightarrow> inv (fst y)"
proof (induction rule: monitor_run.induct)
  case (run_step es y e z)
  then show ?case by (auto elim!: monitor_step.cases intro: keeps)
qed

end

end
