(* ===== verification/Sync.thy ===== *)
theory Sync
  imports Monitor
begin

text \<open>
  The small objects of \<open>runtime/concurrent.c\<close>: the condition variable built on a Windows semaphore,
  the clock and the sleep, joining a thread, the counting semaphore, the event and the atomic integer.
  Proved: what the Windows condition variable keeps of the promise of a condition variable, no more
  waits of a semaphore complete than units were put into it, neither semaphores nor events lose a
  wake-up, and concurrent additions to an atomic integer add up.
\<close>

section \<open>The condition variable on a Windows semaphore\<close>

text \<open>
  \<open>cond_wait\<close> registers under the variable's lock, then waits for a permit of the kernel semaphore
  whose count is at most \<open>LONG_MAX\<close>. \<open>cond_blocked\<close> is no field of the source: it holds the threads
  between the two. The semaphore gives a permit to any of them.
\<close>

record TcCond =
  cond_permits :: nat
  cond_waiters :: nat
  cond_blocked :: "nat list"

definition long_max :: nat where
  "long_max = 2 ^ 31 - 1"

definition cond_init :: TcCond where
  "cond_init = \<lparr>cond_permits = 0, cond_waiters = 0, cond_blocked = []\<rparr>"

text \<open>\<open>ReleaseSemaphore\<close> fails, changing nothing, when the count would pass the maximum.\<close>

definition release_semaphore :: "nat \<Rightarrow> TcCond \<Rightarrow> TcCond" where
  "release_semaphore n c = (if cond_permits c + n \<le> long_max then c\<lparr>cond_permits := cond_permits c + n\<rparr> else c)"

definition cond_register :: "nat \<Rightarrow> TcCond \<Rightarrow> TcCond" where
  "cond_register i c = c\<lparr>cond_waiters := cond_waiters c + 1, cond_blocked := i # cond_blocked c\<rparr>"

definition cond_resume :: "nat \<Rightarrow> TcCond \<Rightarrow> TcCond option" where
  "cond_resume i c =
     (if i \<notin> set (cond_blocked c) \<or> cond_permits c = 0 then None
      else Some (c\<lparr>cond_permits := cond_permits c - 1, cond_blocked := remove1 i (cond_blocked c)\<rparr>))"

definition cond_signal :: "TcCond \<Rightarrow> TcCond" where
  "cond_signal c = (if cond_waiters c \<noteq> 0
     then release_semaphore 1 (c\<lparr>cond_waiters := cond_waiters c - 1\<rparr>) else c)"

definition cond_broadcast :: "TcCond \<Rightarrow> TcCond" where
  "cond_broadcast c = (if cond_waiters c \<noteq> 0
     then (release_semaphore (cond_waiters c) c)\<lparr>cond_waiters := 0\<rparr> else c)"

text \<open>A thread that waits makes no other call before it has gone on.\<close>

datatype cond_call = Register nat | Resume nat | CondSignal | CondBroadcast

fun cond_run :: "cond_call list \<Rightarrow> TcCond \<Rightarrow> TcCond option" where
  "cond_run [] c = Some c"
| "cond_run (Register i # ks) c =
     (if i \<notin> set (cond_blocked c) \<and> length (cond_blocked c) < long_max then cond_run ks (cond_register i c) else None)"
| "cond_run (Resume i # ks) c = Option.bind (cond_resume i c) (cond_run ks)"
| "cond_run (CondSignal # ks) c = cond_run ks (cond_signal c)"
| "cond_run (CondBroadcast # ks) c = cond_run ks (cond_broadcast c)"

definition cond_ok :: "TcCond \<Rightarrow> bool" where
  "cond_ok c \<longleftrightarrow> length (cond_blocked c) = cond_waiters c + cond_permits c \<and> length (cond_blocked c) \<le> long_max"

lemma cond_ok_init: "cond_ok cond_init"
  by (simp add: cond_ok_def cond_init_def)

lemma cond_ok_steps:
  "cond_ok c \<Longrightarrow> length (cond_blocked c) < long_max \<Longrightarrow> cond_ok (cond_register i c)"
  "cond_ok c \<Longrightarrow> cond_resume i c = Some d \<Longrightarrow> cond_ok d"
  "cond_ok c \<Longrightarrow> cond_ok (cond_signal c)"
  "cond_ok c \<Longrightarrow> cond_ok (cond_broadcast c)"
  by (auto simp: cond_ok_def cond_register_def cond_resume_def cond_signal_def cond_broadcast_def
      release_semaphore_def length_remove1 split: if_splits)

lemma cond_ok_run: "cond_ok c \<Longrightarrow> cond_run ks c = Some d \<Longrightarrow> cond_ok d"
  by (induction ks c rule: cond_run.induct)
     (auto intro: cond_ok_steps split: if_splits simp: bind_eq_Some_conv)

text \<open>How many threads have begun to wait: no more than these can come to be without a permit.\<close>

fun registered :: "cond_call list \<Rightarrow> nat" where
  "registered [] = 0"
| "registered (Register i # ks) = registered ks + 1"
| "registered (k # ks) = registered ks"

lemma cond_waiters_run: "cond_run ks c = Some d \<Longrightarrow> cond_waiters d \<le> cond_waiters c + registered ks"
proof (induction ks c rule: cond_run.induct)
  case (2 i ks c)
  then show ?case by (force simp: cond_register_def split: if_splits)
next
  case (3 i ks c)
  then show ?case by (force simp: cond_resume_def bind_eq_Some_conv split: if_splits)
next
  case (4 ks c)
  have "cond_waiters (cond_signal c) \<le> cond_waiters c" by (simp add: cond_signal_def release_semaphore_def)
  then show ?case using 4 by fastforce
next
  case (5 ks c)
  have "cond_waiters (cond_broadcast c) \<le> cond_waiters c" by (simp add: cond_broadcast_def release_semaphore_def)
  then show ?case using 5 by fastforce
qed simp

text \<open>
  Claim C35. The condition variable that the runtime builds on a Windows semaphore, in every history with
  fewer than \<open>LONG_MAX\<close> waiting threads: a signal gives one more permit if a thread is asleep without one, and
  after a broadcast, whatever happens then, no more threads are asleep without a permit than have begun to
  wait since. So if none does before they have gone on, every thread that was asleep can go on, in any order.
\<close>

theorem cond_windows_wakes:
  assumes "cond_run ks cond_init = Some c"
  shows "cond_permits (cond_signal c) = cond_permits c + (if cond_permits c < length (cond_blocked c) then 1 else 0)
    \<and> (\<forall>ks' d. cond_run ks' (cond_broadcast c) = Some d \<longrightarrow>
         length (cond_blocked d) \<le> cond_permits d + registered ks'
         \<and> (registered ks' = 0 \<longrightarrow> (\<forall>i\<in>set (cond_blocked d). cond_resume i d \<noteq> None)))"
proof (intro conjI allI impI)
  have ok: "cond_ok c" by (rule cond_ok_run [OF cond_ok_init assms])
  then show "cond_permits (cond_signal c) = cond_permits c + (if cond_permits c < length (cond_blocked c) then 1 else 0)"
    by (auto simp: cond_ok_def cond_signal_def release_semaphore_def)
  fix ks' d assume run: "cond_run ks' (cond_broadcast c) = Some d"
  have "cond_waiters (cond_broadcast c) = 0" by (simp add: cond_broadcast_def)
  then have w: "cond_waiters d \<le> registered ks'" using cond_waiters_run [OF run] by simp
  have d: "cond_ok d" by (rule cond_ok_run [OF cond_ok_steps(4) [OF ok] run])
  then show "length (cond_blocked d) \<le> cond_permits d + registered ks'" using w by (simp add: cond_ok_def)
  show "\<forall>i\<in>set (cond_blocked d). cond_resume i d \<noteq> None" if "registered ks' = 0"
  proof
    fix i assume i: "i \<in> set (cond_blocked d)"
    then have "0 < length (cond_blocked d)" by (rule length_pos_if_in_set)
    moreover have "cond_permits d = length (cond_blocked d)" using d w that by (simp add: cond_ok_def)
    ultimately have "0 < cond_permits d" by (simp only:)
    then show "cond_resume i d \<noteq> None" using i by (simp add: cond_resume_def)
  qed
qed

lemma cond_windows_wakes_witness:
  "\<exists>c. cond_run [Register 1, Register 2, Register 3, CondSignal, Resume 2] cond_init = Some c
     \<and> (\<exists>d. cond_run [Resume 3] (cond_broadcast c) = Some d \<and> cond_resume 1 d \<noteq> None)"
proof -
  let ?c = "\<lparr>cond_permits = 0, cond_waiters = 2, cond_blocked = [3, 1]\<rparr>"
  have c: "cond_run [Register 1, Register 2, Register 3, CondSignal, Resume 2] cond_init = Some ?c"
    by (simp add: cond_init_def cond_register_def cond_signal_def cond_resume_def release_semaphore_def long_max_def)
  let ?d = "\<lparr>cond_permits = 1, cond_waiters = 0, cond_blocked = [1]\<rparr>"
  have d: "cond_run [Resume 3] (cond_broadcast ?c) = Some ?d"
    by (simp add: cond_broadcast_def cond_resume_def release_semaphore_def long_max_def)
  from cond_windows_wakes [OF c] d have "cond_resume 1 ?d \<noteq> None" by fastforce
  then show ?thesis using c d by blast
qed

text \<open>
  But a thread that begins to wait may take a permit of those that were asleep. Of two threads that sleep when a
  broadcast comes, one goes on, waits again and goes on at once; the other sleeps on. A condition variable of
  POSIX wakes both. The channels and pools of the runtime are not affected: they broadcast when nobody waits
  again, and otherwise the threads that wait for one condition can stand for each other.
\<close>

lemma wake_up_stolen:
  assumes c: "cond_ok c" "cond_blocked c = [i, j]" and "i \<noteq> j"
  shows "\<exists>d. cond_run [Resume i, Register i, Resume i] (cond_broadcast c) = Some d
     \<and> cond_blocked d = [j] \<and> cond_resume j d = None"
proof -
  have two: "cond_permits c + cond_waiters c = 2" using c by (simp add: cond_ok_def)
  have b: "cond_broadcast c = c\<lparr>cond_permits := 2, cond_waiters := 0\<rparr>"
    using two by (cases c) (auto simp: cond_broadcast_def release_semaphore_def long_max_def)
  show ?thesis unfolding b using assms by (simp add: cond_resume_def cond_register_def long_max_def)
qed

section \<open>Time\<close>

text \<open>\<open>tc_sleep_ms\<close>: the intervals passed to \<open>Sleep\<close>, and the \<open>timespec\<close> passed to \<open>nanosleep\<close>.\<close>

function sleep_windows :: "nat \<Rightarrow> nat list" where
  "sleep_windows ms = (if ms > 0xfffffffe then 0xfffffffe # sleep_windows (ms - 0xfffffffe) else [ms])"
  by pat_completeness auto
termination by (relation "measure id") auto

declare sleep_windows.simps [simp del]

definition sleep_posix :: "nat \<Rightarrow> nat \<times> nat" where
  "sleep_posix ms = (ms div 1000, (ms mod 1000) * 1000000)"

text \<open>\<open>tc_clock_ms\<close> from the performance counter and from \<open>CLOCK_MONOTONIC\<close>, in 64-bit arithmetic.\<close>

definition clock_windows :: "nat \<Rightarrow> nat \<Rightarrow> nat" where
  "clock_windows ticks frequency =
     ((ticks div frequency) * 1000 mod 2 ^ 64 + ((ticks mod frequency) * 1000 mod 2 ^ 64) div frequency) mod 2 ^ 64"

definition clock_posix :: "nat \<Rightarrow> nat \<Rightarrow> nat" where
  "clock_posix sec nsec = (sec * 1000 mod 2 ^ 64 + nsec div 1000000) mod 2 ^ 64"

lemma sleep_windows_sum: "sum_list (sleep_windows ms) = ms"
  by (induction ms rule: sleep_windows.induct) (subst sleep_windows.simps, simp)

lemma sleep_windows_finite: "x \<in> set (sleep_windows ms) \<Longrightarrow> x \<le> 0xfffffffe"
proof (induction ms rule: sleep_windows.induct)
  case (1 ms)
  then show ?case by (subst (asm) (2) sleep_windows.simps) (auto split: if_splits)
qed

lemma scaled_div:
  fixes t f :: nat
  assumes "0 < f"
  shows "t div f * 1000 + t mod f * 1000 div f = t * 1000 div f"
proof -
  have "t * 1000 = (t div f * 1000) * f + t mod f * 1000"
    by (metis add_mult_distrib div_mult_mod_eq mult.assoc mult.commute)
  then show ?thesis using assms by simp
qed

text \<open>
  The clock and the sleep keep time: the Windows clock is the exact number of whole
  milliseconds of the performance counter, also where multiplying the counter first would overflow, the
  intervals of a sleep add up to the time asked for, none of them is the special value \<open>INFINITE\<close>, and
  the \<open>timespec\<close> of the POSIX sleep is normalised.
\<close>

theorem clock_and_sleep_exact:
  assumes "0 < frequency" "frequency * 1000 < 2 ^ 64" "ticks * 1000 div frequency < 2 ^ 64"
  shows "clock_windows ticks frequency = ticks * 1000 div frequency
    \<and> sum_list (sleep_windows ms) = ms \<and> (\<forall>x\<in>set (sleep_windows ms). x < 0xffffffff)
    \<and> fst (sleep_posix ms) * 1000 + snd (sleep_posix ms) div 1000000 = ms \<and> snd (sleep_posix ms) < 1000000000"
proof (intro conjI)
  have "ticks mod frequency * 1000 < frequency * 1000" using assms(1) by simp
  then have "ticks mod frequency * 1000 < 2 ^ 64" using assms(2) by linarith
  moreover have "ticks div frequency * 1000 < 2 ^ 64"
    using scaled_div [OF assms(1), of ticks] assms(3) by linarith
  ultimately show "clock_windows ticks frequency = ticks * 1000 div frequency"
    using scaled_div [OF assms(1), of ticks] assms(3) by (simp add: clock_windows_def)
  show "sum_list (sleep_windows ms) = ms" by (rule sleep_windows_sum)
  show "\<forall>x\<in>set (sleep_windows ms). x < 0xffffffff" using sleep_windows_finite by fastforce
  have "ms mod 1000 < 1000" by simp
  then show "fst (sleep_posix ms) * 1000 + snd (sleep_posix ms) div 1000000 = ms" "snd (sleep_posix ms) < 1000000000"
    unfolding sleep_posix_def fst_conv snd_conv by simp_all
qed

lemma clock_and_sleep_exact_witness:
  "clock_windows (10 ^ 17) (10 ^ 7) = 10 ^ 13 \<and> sum_list (sleep_windows 5000000000) = 5000000000"
  using clock_and_sleep_exact [of "10 ^ 7" "10 ^ 17" 5000000000] by simp

section \<open>Threads\<close>

text \<open>
  Joining: the handle may be null, a thread may have been joined before, and it must not join itself;
  \<open>finished\<close> says whether the operating system's join can return, and \<open>os_ok\<close> whether it succeeds.
\<close>

record TcThread =
  thread_native :: nat
  thread_joined :: bool

definition tc_thread_join :: "nat \<Rightarrow> bool \<Rightarrow> bool \<Rightarrow> TcThread option \<Rightarrow> (int \<times> TcThread option) option" where
  "tc_thread_join self finished os_ok handle =
     (case handle of
        None \<Rightarrow> Some (1, None)
      | Some t \<Rightarrow>
          if thread_joined t then Some (0, Some t)
          else if thread_native t = self then Some (2, Some t)
          else if \<not> finished then None
          else if \<not> os_ok then Some (1, Some t)
          else Some (0, Some (t\<lparr>thread_joined := True\<rparr>)))"

section \<open>Semaphores and events\<close>

record TcSemaphore =
  sem_count :: u64

datatype sem_cv = Changed

definition tc_semaphore_create :: "u64 \<Rightarrow> TcSemaphore" where
  "tc_semaphore_create count = \<lparr>sem_count = count\<rparr>"

datatype sem_call = SemWait | SemPost

definition tc_semaphore_wait :: "TcSemaphore \<Rightarrow> (unit \<times> TcSemaphore \<times> sem_cv effect list) option" where
  "tc_semaphore_wait s =
     (if sem_count s = 0 then None else Some ((), s\<lparr>sem_count := sem_count s - 1\<rparr>, []))"

definition tc_semaphore_post :: "TcSemaphore \<Rightarrow> (unit \<times> TcSemaphore \<times> sem_cv effect list) option" where
  "tc_semaphore_post s =
     Some ((), (if sem_count s < - 1 then s\<lparr>sem_count := sem_count s + 1\<rparr> else s), [Signal Changed])"

fun sem_attempt :: "(sem_call, TcSemaphore, unit, sem_cv) attempt" where
  "sem_attempt SemWait s = tc_semaphore_wait s"
| "sem_attempt SemPost s = tc_semaphore_post s"

fun sem_waits_on :: "sem_call \<Rightarrow> sem_cv option" where
  "sem_waits_on SemWait = Some Changed"
| "sem_waits_on SemPost = None"

text \<open>An event is a semaphore that starts at zero, is set to one and reset to zero.\<close>

datatype event_call = EventWait | EventSet | EventReset

definition tc_event_create :: TcSemaphore where
  "tc_event_create = tc_semaphore_create 0"

definition tc_event_wait :: "TcSemaphore \<Rightarrow> (unit \<times> TcSemaphore \<times> sem_cv effect list) option" where
  "tc_event_wait s = (if sem_count s = 0 then None else Some ((), s, []))"

definition tc_event_set :: "TcSemaphore \<Rightarrow> (unit \<times> TcSemaphore \<times> sem_cv effect list) option" where
  "tc_event_set s = Some ((), s\<lparr>sem_count := 1\<rparr>, [Broadcast Changed])"

definition tc_event_reset :: "TcSemaphore \<Rightarrow> (unit \<times> TcSemaphore \<times> sem_cv effect list) option" where
  "tc_event_reset s = Some ((), s\<lparr>sem_count := 0\<rparr>, [])"

fun event_attempt :: "(event_call, TcSemaphore, unit, sem_cv) attempt" where
  "event_attempt EventWait s = tc_event_wait s"
| "event_attempt EventSet s = tc_event_set s"
| "event_attempt EventReset s = tc_event_reset s"

fun event_waits_on :: "event_call \<Rightarrow> sem_cv option" where
  "event_waits_on EventWait = Some Changed"
| "event_waits_on _ = None"

lemma unat_step:
  "(w :: u64) \<noteq> 0 \<Longrightarrow> unat (w - 1) + 1 = unat w"
  "(w :: u64) < - 1 \<Longrightarrow> unat (w + 1) = unat w + 1"
proof -
  assume "w \<noteq> 0"
  then have "0 < unat w" by (simp add: unat_gt_0)
  then show "unat (w - 1) + 1 = unat w" using \<open>w \<noteq> 0\<close> by (simp add: unat_minus_one)
next
  assume "w < - 1"
  then have "1 + w \<noteq> 0" by (metis add.commute add_eq_0_iff2 less_irrefl)
  then show "unat (w + 1) = unat w + 1" by (metis Suc_eq_plus1 add.commute unatSuc)
qed

interpretation semaphore: monitor sem_attempt sem_waits_on "\<lambda>_. True" "\<lambda>_ s. enat (unat (sem_count s))"
proof (unfold_locales, goal_cases)
  case (2 s p)
  then show ?case
    by (cases p) (auto simp: tc_semaphore_wait_def tc_semaphore_post_def zero_enat_def unat_eq_0)
next
  case (3 s p r s' es c)
  then show ?case
    using unat_step [of "sem_count s"]
    by (cases p; cases c) (auto simp: tc_semaphore_wait_def tc_semaphore_post_def split: if_splits)
qed simp

interpretation event: monitor event_attempt event_waits_on "\<lambda>_. True" "\<lambda>_ s. if sem_count s = 0 then 0 else \<infinity>"
proof (unfold_locales, goal_cases)
  case (2 s p)
  then show ?case by (cases p) (auto simp: tc_event_wait_def tc_event_set_def tc_event_reset_def)
next
  case (3 s p r s' es c)
  then show ?case
    by (cases p; cases c) (auto simp: tc_event_wait_def tc_event_set_def tc_event_reset_def split: if_splits)
qed simp

lemma replay_admits:
  "replay sem_attempt es s = Some s' \<Longrightarrow>
   num (\<lambda>(i, p, r). p = SemWait) es + unat (sem_count s') \<le> unat (sem_count s) + num (\<lambda>(i, p, r). p = SemPost) es"
proof (induction es arbitrary: s)
  case (Cons e es)
  obtain i p r where e: "e = (i, p, r)" by (cases e)
  show ?case
  proof (cases p)
    case SemWait
    then obtain z where z: "sem_count s \<noteq> 0" "replay sem_attempt es (s\<lparr>sem_count := sem_count s - 1\<rparr>) = Some s'"
      using Cons.prems e by (auto simp: tc_semaphore_wait_def split: if_splits)
    show ?thesis using Cons.IH [OF z(2)] unat_step(1) [OF z(1)] e SemWait by simp
  next
    case SemPost
    then have z: "replay sem_attempt es (if sem_count s < - 1 then s\<lparr>sem_count := sem_count s + 1\<rparr> else s) = Some s'"
      using Cons.prems e by (simp add: tc_semaphore_post_def)
    have "unat (sem_count (if sem_count s < - 1 then s\<lparr>sem_count := sem_count s + 1\<rparr> else s)) \<le> unat (sem_count s) + 1"
      using unat_step(2) [of "sem_count s"] by simp
    then show ?thesis using Cons.IH [OF z] e SemPost by simp
  qed
qed simp

text \<open>
  A semaphore admits no more waits than it has units: in every interleaving of the waits and
  posts of any number of threads, the waits that have completed and the units that are left together are
  at most the initial count and the posts.
\<close>

theorem semaphore_admits:
  assumes "monitor_run sem_attempt sem_waits_on (tc_semaphore_create n, ts0) es (s, ts)"
  shows "num (\<lambda>(i, p, r). p = SemWait) es + unat (sem_count s) \<le> unat n + num (\<lambda>(i, p, r). p = SemPost) es"
  using replay_admits [of es "tc_semaphore_create n" s] run_replay [OF assms] by (simp add: tc_semaphore_create_def)

text \<open>A run of three threads: the first two wait and sleep, the third posts and wakes one of them.\<close>

lemma sample_sem_run:
  "monitor_run sem_attempt sem_waits_on (tc_semaphore_create 0, [Idle, Idle, Idle])
     [(2, SemPost, ())] (tc_semaphore_create 1, [Woken SemWait, Asleep SemWait, Idle])"
proof -
  let ?step = "monitor_step sem_attempt sem_waits_on" and ?s = "tc_semaphore_create 0"
  have wait: "sem_attempt SemWait ?s = None" by (simp add: tc_semaphore_wait_def tc_semaphore_create_def)
  have s1: "?step (?s, [Idle, Idle, Idle]) [] (?s, [Asleep SemWait, Idle, Idle])"
    using call_wait [of 0 "[Idle, Idle, Idle]" sem_attempt, OF _ _ wait] by simp
  have s2: "?step (?s, [Asleep SemWait, Idle, Idle]) [] (?s, [Asleep SemWait, Asleep SemWait, Idle])"
    using call_wait [of 1 "[Asleep SemWait, Idle, Idle]" sem_attempt, OF _ _ wait] by simp
  have n: "notify sem_waits_on [Signal Changed] [Asleep SemWait, Asleep SemWait, Idle]
      [Woken SemWait, Asleep SemWait, Idle]"
    by (rule notify_one [of 0 _ SemWait]) (simp_all add: notify_end)
  have s3: "?step (?s, [Asleep SemWait, Asleep SemWait, Idle]) [(2, SemPost, ())]
      (tc_semaphore_create 1, [Woken SemWait, Asleep SemWait, Idle])"
    by (rule call_done [OF _ _ _ n]) (simp_all add: tc_semaphore_post_def tc_semaphore_create_def word_gt_0)
  show ?thesis using run_step [OF run_step [OF run_step [OF run_start s1] s2] s3] by simp
qed

lemma semaphore_admits_witness:
  "num (\<lambda>(i, p, r). p = SemWait) [(2::nat, SemPost, ())] + unat (1 :: u64) \<le> 0 + 1"
  using semaphore_admits [OF sample_sem_run] by (simp add: tc_semaphore_create_def)

text \<open>
  A semaphore loses no wake-up: in every reachable state in which a thread sleeps although
  the count is positive, some other thread has been woken and its wait can complete.
\<close>

theorem semaphore_no_lost_wakeup:
  assumes "monitor_run sem_attempt sem_waits_on (tc_semaphore_create n, ts0) es (s, ts)"
    "\<forall>t\<in>set ts0. t = Idle" "Asleep SemWait \<in> set ts" "sem_count s \<noteq> 0"
  shows "Woken SemWait \<in> set ts \<and> tc_semaphore_wait s \<noteq> None"
proof -
  obtain i where i: "i < length ts" "ts ! i = Asleep SemWait" using assms(3) by (auto simp: in_set_conv_nth)
  have "sem_attempt SemWait s \<noteq> None" using assms(4) by (simp add: tc_semaphore_wait_def)
  from semaphore.no_lost_wakeup [OF assms(1) TrueI assms(2) i this]
  obtain k q where "k < length ts" "ts ! k = Woken q" "sem_waits_on q = sem_waits_on SemWait" by auto
  then show ?thesis using assms(4) by (cases q) (auto simp: in_set_conv_nth tc_semaphore_wait_def)
qed

lemma semaphore_no_lost_wakeup_witness:
  "Woken SemWait \<in> set [Woken SemWait, Asleep SemWait, Idle] \<and> tc_semaphore_wait (tc_semaphore_create 1) \<noteq> None"
  using semaphore_no_lost_wakeup [OF sample_sem_run] by (simp add: tc_semaphore_create_def)

text \<open>An event that is set has no sleeper left.\<close>

lemma event_set_releases_all:
  assumes "monitor_run event_attempt event_waits_on (tc_event_create, ts0) es (s, ts)"
    "\<forall>t\<in>set ts0. t = Idle" "sem_count s \<noteq> 0"
  shows "Asleep EventWait \<notin> set ts"
  using event.unbounded_awake [OF assms(1) _ assms(2)] assms(3) by simp

section \<open>Atomic integers\<close>

record TcAtomic =
  atomic_value :: u64

datatype atomic_call = AtomicLoad | AtomicStore u64 | AtomicAdd u64

definition tc_atomic_create :: "u64 \<Rightarrow> TcAtomic" where
  "tc_atomic_create v = \<lparr>atomic_value = v\<rparr>"

definition tc_atomic_load :: "TcAtomic \<Rightarrow> u64" where
  "tc_atomic_load a = atomic_value a"

definition tc_atomic_store :: "u64 \<Rightarrow> TcAtomic \<Rightarrow> TcAtomic" where
  "tc_atomic_store v a = a\<lparr>atomic_value := v\<rparr>"

definition tc_atomic_add :: "u64 \<Rightarrow> TcAtomic \<Rightarrow> u64 \<times> TcAtomic" where
  "tc_atomic_add v a = (atomic_value a, a\<lparr>atomic_value := atomic_value a + v\<rparr>)"

fun atomic_attempt :: "(atomic_call, TcAtomic, u64, sem_cv) attempt" where
  "atomic_attempt AtomicLoad a = Some (tc_atomic_load a, a, [])"
| "atomic_attempt (AtomicStore v) a = Some (v, tc_atomic_store v a, [])"
| "atomic_attempt (AtomicAdd v) a = (case tc_atomic_add v a of (old, a') \<Rightarrow> Some (old, a', []))"

text \<open>The additions of a history: what each added and what it returned.\<close>

fun additions :: "(nat \<times> atomic_call \<times> u64) list \<Rightarrow> (u64 \<times> u64) list" where
  "additions [] = []"
| "additions ((i, AtomicAdd v, old) # es) = (v, old) # additions es"
| "additions (_ # es) = additions es"

fun running_totals :: "u64 \<Rightarrow> (u64 \<times> u64) list \<Rightarrow> u64 option" where
  "running_totals t [] = Some t"
| "running_totals t ((v, old) # xs) = (if old = t then running_totals (t + v) xs else None)"

lemma replay_additions:
  "replay atomic_attempt es a = Some a' \<Longrightarrow> \<forall>(i, p, r)\<in>set es. \<forall>v. p \<noteq> AtomicStore v \<Longrightarrow>
   running_totals (atomic_value a) (additions es) = Some (atomic_value a')"
proof (induction es arbitrary: a)
  case (Cons e es)
  obtain i p r where e: "e = (i, p, r)" by (cases e)
  show ?case
  proof (cases p)
    case (AtomicAdd v)
    then show ?thesis using Cons.prems Cons.IH [of "a\<lparr>atomic_value := atomic_value a + v\<rparr>"] e
      by (simp add: tc_atomic_add_def split: if_splits)
  qed (use Cons e in \<open>auto simp: tc_atomic_load_def split: if_splits\<close>)
qed simp

text \<open>
  Concurrent additions to an atomic integer are not lost: in every interleaving of additions
  and loads, each addition returns the total of all those before it, and the final value is the initial
  one plus all of them, modulo \<open>2 ^ 64\<close>.
\<close>

theorem atomic_add_totals:
  assumes "monitor_run atomic_attempt (\<lambda>_. None) (tc_atomic_create v, ts0) es (a, ts)"
    "\<forall>(i, p, r)\<in>set es. \<forall>v. p \<noteq> AtomicStore v"
  shows "running_totals v (additions es) = Some (atomic_value a)"
  using replay_additions [OF _ assms(2), of "tc_atomic_create v" a] run_replay [OF assms(1)]
  by (simp add: tc_atomic_create_def)

lemma atomic_add_totals_witness: "running_totals 5 (additions [(0, AtomicAdd 7, 5)]) = Some (12 :: u64)"
proof -
  have "monitor_step atomic_attempt (\<lambda>_. None) (tc_atomic_create 5, [Idle]) [(0, AtomicAdd 7, 5)]
      (tc_atomic_create 12, [Idle])"
    by (rule call_done [where es = "[]"]) (simp_all add: tc_atomic_add_def tc_atomic_create_def notify_end)
  from run_step [OF run_start this] show ?thesis
    using atomic_add_totals [of 5 "[Idle]" "[(0, AtomicAdd 7, 5)]" "tc_atomic_create 12" "[Idle]"]
    by (simp add: tc_atomic_create_def)
qed

end
