(* ===== verification/Channel.thy ===== *)
theory Channel
  imports Sync
begin

text \<open>
  Queues. The locale \<open>fifo\<close> is the interface of a first-in-first-out queue: what is taken out, followed
  by what is left, is what was put in. The bounded channel of \<open>runtime/concurrent.c\<close> is a ring buffer of
  bytes with two condition variables; here it is modelled, shown to be such a queue, and shown to lose
  no message and no wake-up under every interleaving of senders and receivers.
\<close>

section \<open>The interface of a queue\<close>

datatype 'a queue_event = Put 'a | Got 'a | Other

fun puts :: "'a queue_event list \<Rightarrow> 'a list" where
  "puts [] = []" | "puts (Put x # es) = x # puts es" | "puts (e # es) = puts es"

fun gots :: "'a queue_event list \<Rightarrow> 'a list" where
  "gots [] = []" | "gots (Got x # es) = x # gots es" | "gots (e # es) = gots es"

fun queue_path :: "('a queue_event \<Rightarrow> 's \<Rightarrow> 's \<Rightarrow> bool) \<Rightarrow> 'a queue_event list \<Rightarrow> 's \<Rightarrow> 's \<Rightarrow> bool" where
  "queue_path queue_step [] s s' \<longleftrightarrow> s = s'"
| "queue_path queue_step (e # es) s s'' \<longleftrightarrow> (\<exists>s'. queue_step e s s' \<and> queue_path queue_step es s' s'')"

locale fifo =
  fixes contents :: "'s \<Rightarrow> 'a list" and inv :: "'s \<Rightarrow> bool" and queue_step :: "'a queue_event \<Rightarrow> 's \<Rightarrow> 's \<Rightarrow> bool"
  assumes step_keeps: "inv s \<Longrightarrow> queue_step e s s' \<Longrightarrow> inv s'"
    and put_law: "inv s \<Longrightarrow> queue_step (Put x) s s' \<Longrightarrow> contents s' = contents s @ [x]"
    and got_law: "inv s \<Longrightarrow> queue_step (Got x) s s' \<Longrightarrow> contents s = x # contents s'"
    and other_law: "inv s \<Longrightarrow> queue_step Other s s' \<Longrightarrow> contents s' = contents s"
begin

lemma path_fifo:
  "inv s \<Longrightarrow> queue_path queue_step es s s' \<Longrightarrow> inv s' \<and> gots es @ contents s' = contents s @ puts es"
proof (induction es arbitrary: s)
  case (Cons e es)
  then obtain s1 where s1: "queue_step e s s1" "queue_path queue_step es s1 s'" by auto
  have IH: "inv s' \<and> gots es @ contents s' = contents s1 @ puts es"
    by (rule Cons.IH [OF step_keeps [OF Cons.prems(1) s1(1)] s1(2)])
  show ?case
  proof (cases e)
    case (Put x)
    then show ?thesis using put_law [OF Cons.prems(1)] s1(1) IH by simp
  next
    case (Got x)
    then show ?thesis using got_law [OF Cons.prems(1)] s1(1) IH by simp
  next
    case Other
    then show ?thesis using other_law [OF Cons.prems(1)] s1(1) IH by simp
  qed
qed simp

end

section \<open>Channels\<close>

record TcChannel =
  ch_capacity :: nat
  ch_element_size :: nat
  ch_head :: nat
  ch_count :: nat
  ch_closed :: bool
  ch_data :: "byte list"

datatype chan_cv = Readable | Writable

datatype chan_call = Send "byte list" | Receive | Close

text \<open>A result: the returned code and what was copied to the destination.\<close>

type_synonym chan_result = "int \<times> byte list"

definition tc_channel_create :: "(nat \<Rightarrow> byte list option) \<Rightarrow> nat \<Rightarrow> nat \<Rightarrow> TcChannel option" where
  "tc_channel_create malloc capacity esize =
     (if capacity = 0 \<or> esize = 0 \<or> esize > size_max \<or> capacity > size_max div esize then None
      else case malloc (capacity * esize) of
             None \<Rightarrow> None
           | Some block \<Rightarrow> Some \<lparr>ch_capacity = capacity, ch_element_size = esize, ch_head = 0, ch_count = 0,
                               ch_closed = False, ch_data = block\<rparr>)"

definition tc_channel_send ::
  "byte list \<Rightarrow> TcChannel \<Rightarrow> (chan_result \<times> TcChannel \<times> chan_cv effect list) option" where
  "tc_channel_send msg c =
     (if ch_count c = ch_capacity c \<and> \<not> ch_closed c then None
      else if ch_closed c then Some ((1, []), c, [])
      else let index = (ch_head c + ch_count c) mod 2 ^ 64 mod ch_capacity c
           in Some ((0, []),
                c\<lparr>ch_data := blit (index * ch_element_size c) (take (ch_element_size c) msg) (ch_data c),
                  ch_count := ch_count c + 1\<rparr>,
                [Signal Readable]))"

definition tc_channel_receive :: "TcChannel \<Rightarrow> (chan_result \<times> TcChannel \<times> chan_cv effect list) option" where
  "tc_channel_receive c =
     (if ch_count c = 0 \<and> \<not> ch_closed c then None
      else if ch_count c = 0 then Some ((1, []), c, [])
      else Some ((0, take (ch_element_size c) (drop (ch_head c * ch_element_size c) (ch_data c))),
             c\<lparr>ch_head := (ch_head c + 1) mod ch_capacity c, ch_count := ch_count c - 1\<rparr>,
             [Signal Writable]))"

definition tc_channel_close :: "TcChannel \<Rightarrow> TcChannel \<times> chan_cv effect list" where
  "tc_channel_close c = (c\<lparr>ch_closed := True\<rparr>, [Broadcast Readable, Broadcast Writable])"

fun chan_attempt :: "(chan_call, TcChannel, chan_result, chan_cv) attempt" where
  "chan_attempt (Send msg) c = tc_channel_send msg c"
| "chan_attempt Receive c = tc_channel_receive c"
| "chan_attempt Close c = (case tc_channel_close c of (c', es) \<Rightarrow> Some ((0, []), c', es))"

fun chan_waits_on :: "chan_call \<Rightarrow> chan_cv option" where
  "chan_waits_on (Send msg) = Some Writable"
| "chan_waits_on Receive = Some Readable"
| "chan_waits_on Close = None"

section \<open>Invariant and contents\<close>

text \<open>No block is as large as half the address space.\<close>

definition chan_ok :: "TcChannel \<Rightarrow> bool" where
  "chan_ok c \<longleftrightarrow> 0 < ch_capacity c \<and> 0 < ch_element_size c \<and> length (ch_data c) = ch_capacity c * ch_element_size c
     \<and> length (ch_data c) < 2 ^ 63 \<and> ch_head c < ch_capacity c \<and> ch_count c \<le> ch_capacity c"

definition slot :: "TcChannel \<Rightarrow> nat \<Rightarrow> byte list" where
  "slot c i = take (ch_element_size c) (drop (i * ch_element_size c) (ch_data c))"

definition chan_contents :: "TcChannel \<Rightarrow> byte list list" where
  "chan_contents c = map (\<lambda>i. slot c ((ch_head c + i) mod ch_capacity c)) [0..<ch_count c]"

lemma chan_okD:
  assumes "chan_ok c"
  shows "0 < ch_capacity c" "ch_head c < ch_capacity c" "ch_count c \<le> ch_capacity c" "ch_capacity c < 2 ^ 63"
    "length (ch_data c) = ch_capacity c * ch_element_size c" "0 < ch_element_size c"
proof -
  have "ch_capacity c * 1 \<le> ch_capacity c * ch_element_size c"
    using assms by (intro mult_le_mono2) (simp add: chan_ok_def)
  then show "ch_capacity c < 2 ^ 63" using assms unfolding chan_ok_def by linarith
qed (use assms in \<open>auto simp: chan_ok_def\<close>)

text \<open>What the runtime relies on about \<open>malloc\<close> for a ring buffer.\<close>

definition malloc_below :: "(nat \<Rightarrow> byte list option) \<Rightarrow> bool" where
  "malloc_below malloc \<longleftrightarrow> malloc_ok malloc \<and> (\<forall>n b. malloc n = Some b \<longrightarrow> n < 2 ^ 63)"

lemma create_ok:
  assumes "malloc_below malloc" "tc_channel_create malloc capacity esize = Some c"
  shows "chan_ok c" "chan_contents c = []" "ch_element_size c = esize" "ch_capacity c = capacity"
proof -
  let ?bad = "capacity = 0 \<or> esize = 0 \<or> esize > size_max \<or> capacity > size_max div esize"
  have good: "\<not> ?bad"
  proof
    assume ?bad
    then have "tc_channel_create malloc capacity esize = None" unfolding tc_channel_create_def by (rule if_P)
    then show False using assms(2) by simp
  qed
  then have pre: "capacity \<noteq> 0" "esize \<noteq> 0" by simp_all
  have "tc_channel_create malloc capacity esize = (case malloc (capacity * esize) of None \<Rightarrow> None
      | Some block \<Rightarrow> Some \<lparr>ch_capacity = capacity, ch_element_size = esize, ch_head = 0, ch_count = 0,
                         ch_closed = False, ch_data = block\<rparr>)"
    unfolding tc_channel_create_def by (rule if_not_P [OF good])
  then obtain block where b: "malloc (capacity * esize) = Some block"
      and c: "c = \<lparr>ch_capacity = capacity, ch_element_size = esize, ch_head = 0, ch_count = 0,
                         ch_closed = False, ch_data = block\<rparr>"
    using assms(2) by (cases "malloc (capacity * esize)") simp_all
  have "length block = capacity * esize" "capacity * esize < 2 ^ 63"
    using assms(1) b by (auto simp: malloc_below_def malloc_ok_def)
  then show "chan_ok c" "chan_contents c = []" "ch_element_size c = esize" "ch_capacity c = capacity"
    using pre by (simp_all add: c chan_ok_def chan_contents_def)
qed

lemma slot_blit:
  fixes d :: "'a list"
  assumes "length v = n" "i < k" "j < k" "length d = k * n"
  shows "take n (drop (j * n) (blit (i * n) v d)) = (if i = j then v else take n (drop (j * n) d))"
proof -
  have le: "i * n + n \<le> k * n" using assms(2) by (metis Suc_leI add.commute mult_Suc mult_le_mono1)
  consider "i = j" | "j < i" | "i < j" by linarith
  then show ?thesis
  proof cases
    case 1
    then show ?thesis using le assms by simp
  next
    case 2
    then have "j * n + n \<le> i * n" by (metis Suc_leI add.commute mult_Suc mult_le_mono1)
    then have "take (j * n + n) (blit (i * n) v d) = take (j * n + n) d" using le assms by simp
    then show ?thesis using 2 by (metis add_diff_cancel_left' drop_take less_irrefl)
  next
    case 3
    then have "i * n + n \<le> j * n" by (metis Suc_leI add.commute mult_Suc mult_le_mono1)
    then show ?thesis using 3 le assms by simp
  qed
qed

lemma mod_sum_less:
  fixes h i n :: nat
  assumes "h < n" "i < n"
  shows "(h + i) mod n = (if h + i < n then h + i else h + i - n)"
  using assms by (simp add: le_mod_geq mod_if)

lemma ring_distinct:
  fixes h i j n :: nat
  assumes "h < n" "i < n" "j < n" "i \<noteq> j"
  shows "(h + i) mod n \<noteq> (h + j) mod n"
  using assms mod_sum_less [OF assms(1,2)] mod_sum_less [OF assms(1,3)] by (auto split: if_splits)

lemma send_sent:
  assumes ok: "chan_ok c" and len: "length msg = ch_element_size c"
    and run: "tc_channel_send msg c = Some ((0, b), c', es)"
  shows "chan_ok c'" "chan_contents c' = chan_contents c @ [msg]" "ch_element_size c' = ch_element_size c"
    "ch_closed c' = ch_closed c" "es = [Signal Readable]" "ch_count c' = ch_count c + 1"
    "ch_capacity c' = ch_capacity c" "ch_count c < ch_capacity c"
proof -
  note o = chan_okD [OF ok]
  have opened: "\<not> ch_closed c" "ch_count c \<noteq> ch_capacity c" using run by (auto simp: tc_channel_send_def split: if_splits)
  let ?i = "(ch_head c + ch_count c) mod ch_capacity c"
  have small: "(ch_head c + ch_count c) mod 2 ^ 64 = ch_head c + ch_count c" using o by simp
  have c': "c' = c\<lparr>ch_data := blit (?i * ch_element_size c) msg (ch_data c), ch_count := ch_count c + 1\<rparr>"
    and es: "es = [Signal Readable]"
    using run opened len small by (auto simp: tc_channel_send_def Let_def)
  have i: "?i < ch_capacity c" using o by simp
  then have fit: "?i * ch_element_size c + length msg \<le> length (ch_data c)"
    using o len by (metis Suc_leI add.commute mult_Suc mult_le_mono1)
  show "chan_ok c'" using ok opened fit o by (simp add: c' chan_ok_def)
  have slot: "slot c' j = (if j = ?i then msg else slot c j)" if "j < ch_capacity c" for j
    using slot_blit [OF len i that, of "ch_data c"] o by (simp add: slot_def c')
  have "slot c' ((ch_head c + j) mod ch_capacity c) = slot c ((ch_head c + j) mod ch_capacity c)" if "j < ch_count c" for j
  proof -
    have "(ch_head c + j) mod ch_capacity c \<noteq> ?i"
      using ring_distinct [OF o(2), of j "ch_count c"] that opened o by simp
    then show ?thesis using slot [of "(ch_head c + j) mod ch_capacity c"] o by simp
  qed
  then show "chan_contents c' = chan_contents c @ [msg]"
    using slot [OF i] by (simp add: chan_contents_def c')
qed (use run ok in \<open>auto simp: tc_channel_send_def chan_ok_def Let_def split: if_splits\<close>)

lemma receive_received:
  assumes ok: "chan_ok c" and run: "tc_channel_receive c = Some ((0, b), c', es)"
  shows "chan_ok c'" "chan_contents c = b # chan_contents c'" "ch_element_size c' = ch_element_size c"
proof -
  note o = chan_okD [OF ok]
  have n: "ch_count c \<noteq> 0" using run by (cases "ch_closed c"; cases "ch_count c = 0") (simp_all add: tc_channel_receive_def)
  have run': "c\<lparr>ch_head := (ch_head c + 1) mod ch_capacity c, ch_count := ch_count c - 1\<rparr> = c'"
    "slot c (ch_head c) = b"
    using run n by (simp_all add: tc_channel_receive_def slot_def)
  have shift: "((ch_head c + 1) mod ch_capacity c + j) mod ch_capacity c = (ch_head c + Suc j) mod ch_capacity c" for j
    using mod_add_left_eq [of "ch_head c + 1" "ch_capacity c" j] by simp
  have up: "[0..<ch_count c] = 0 # map Suc [0..<ch_count c - 1]"
    using n by (cases "ch_count c") (simp_all add: map_Suc_upt upt_conv_Cons del: upt_Suc)
  have "chan_contents c = slot c (ch_head c) # map (\<lambda>i. slot c ((ch_head c + Suc i) mod ch_capacity c)) [0..<ch_count c - 1]"
    unfolding chan_contents_def up using o(2) by simp
  also have "map (\<lambda>i. slot c ((ch_head c + Suc i) mod ch_capacity c)) [0..<ch_count c - 1] = chan_contents c'"
    unfolding chan_contents_def run'(1) [symmetric] by (simp add: slot_def mod_add_left_eq)
  finally show "chan_contents c = b # chan_contents c'" by (simp only: run')
  show "chan_ok c'" using ok by (auto simp: run'(1) [symmetric] chan_ok_def)
  show "ch_element_size c' = ch_element_size c" by (simp add: run'(1) [symmetric])
qed

section \<open>Concurrent use\<close>

text \<open>The calls that can complete: all of them once the channel is closed.\<close>

definition chan_avail :: "chan_cv \<Rightarrow> TcChannel \<Rightarrow> enat" where
  "chan_avail cv c =
     (if ch_closed c then \<infinity>
      else enat (case cv of Readable \<Rightarrow> ch_count c | Writable \<Rightarrow> ch_capacity c - ch_count c))"

lemma chan_send_cases:
  assumes "tc_channel_send msg c = Some (r, c', es)"
  obtains (sent) "r = (0, [])" "\<not> ch_closed c" "es = [Signal Readable]" "ch_count c' = ch_count c + 1"
      "ch_capacity c' = ch_capacity c" "ch_closed c' = ch_closed c" "ch_count c \<noteq> ch_capacity c"
      "chan_ok c \<longrightarrow> length (ch_data c') = length (ch_data c)" "ch_head c' = ch_head c" "ch_element_size c' = ch_element_size c"
  | (refused) "r = (1, [])" "ch_closed c" "c' = c" "es = []"
proof (cases "ch_closed c")
  case False
  let ?index = "(ch_head c + ch_count c) mod 2 ^ 64 mod ch_capacity c"
  have "length (blit (?index * ch_element_size c) (take (ch_element_size c) msg) (ch_data c)) = length (ch_data c)"
    if "chan_ok c"
  proof (rule length_blit)
    have i: "?index < ch_capacity c" using chan_okD(1) [OF that] by simp
    have "?index * ch_element_size c + ch_element_size c \<le> length (ch_data c)"
      using chan_okD(5) [OF that] i by (metis Suc_leI add.commute mult_Suc mult_le_mono1)
    then show "?index * ch_element_size c + length (take (ch_element_size c) msg) \<le> length (ch_data c)"
      by simp
  qed
  moreover have "ch_count c \<noteq> ch_capacity c" using assms False by (auto simp: tc_channel_send_def)
  moreover from this have "r = (0, [])" "es = [Signal Readable]"
    "c' = c\<lparr>ch_data := blit (?index * ch_element_size c) (take (ch_element_size c) msg) (ch_data c),
            ch_count := ch_count c + 1\<rparr>"
    using assms False by (simp_all add: tc_channel_send_def Let_def)
  ultimately show ?thesis using False by (intro sent) simp_all
qed (use refused assms in \<open>auto simp: tc_channel_send_def\<close>)

lemma chan_receive_cases:
  assumes "tc_channel_receive c = Some (r, c', es)"
  obtains (received) b where "r = (0, b)" "0 < ch_count c" "es = [Signal Writable]" "ch_count c' = ch_count c - 1"
      "ch_capacity c' = ch_capacity c" "ch_closed c' = ch_closed c" "ch_data c' = ch_data c"
      "ch_head c' = (ch_head c + 1) mod ch_capacity c" "ch_element_size c' = ch_element_size c"
  | (refused) "r = (1, [])" "ch_closed c" "ch_count c = 0" "c' = c" "es = []"
proof (cases "ch_count c = 0")
  case True
  have "ch_closed c" using assms True unfolding tc_channel_receive_def by (metis option.distinct(1))
  then show ?thesis using refused assms True by (simp add: tc_channel_receive_def)
next
  case False
  then have "r = (0, slot c (ch_head c))" "es = [Signal Writable]"
    "c' = c\<lparr>ch_head := (ch_head c + 1) mod ch_capacity c, ch_count := ch_count c - 1\<rparr>"
    using assms by (simp_all add: tc_channel_receive_def slot_def)
  then show ?thesis using False by (intro received) simp_all
qed

lemma chan_keeps: "chan_ok c \<Longrightarrow> chan_attempt p c = Some (r, c', es) \<Longrightarrow> chan_ok c'"
proof (cases p)
  case (Send msg)
  assume a: "chan_ok c" "chan_attempt p c = Some (r, c', es)"
  then have "tc_channel_send msg c = Some (r, c', es)" using Send by simp
  then show ?thesis by (cases rule: chan_send_cases) (use a(1) in \<open>auto simp: chan_ok_def\<close>)
next
  case Receive
  assume a: "chan_ok c" "chan_attempt p c = Some (r, c', es)"
  then have "tc_channel_receive c = Some (r, c', es)" using Receive by simp
  then show ?thesis by (cases rule: chan_receive_cases) (use a(1) in \<open>auto simp: chan_ok_def\<close>)
next
  case Close
  assume "chan_ok c" "chan_attempt p c = Some (r, c', es)"
  then show ?thesis using Close by (auto simp: tc_channel_close_def chan_ok_def)
qed

interpretation channel: monitor chan_attempt chan_waits_on chan_ok chan_avail
proof (unfold_locales, goal_cases)
  case (1 c p r c' es)
  then show ?case by (rule chan_keeps)
next
  case (2 c p)
  then show ?case
    by (cases p) (auto simp: tc_channel_send_def tc_channel_receive_def tc_channel_close_def chan_avail_def
        chan_ok_def zero_enat_def Let_def)
next
  case (3 c p r c' es cv)
  show ?case
  proof (cases p)
    case (Send msg)
    then have "tc_channel_send msg c = Some (r, c', es)" using 3(2) by simp
    then show ?thesis
      by (cases rule: chan_send_cases) (use 3(1) Send in \<open>cases cv; auto simp: chan_avail_def chan_ok_def\<close>)+
  next
    case Receive
    then have "tc_channel_receive c = Some (r, c', es)" using 3(2) by simp
    then show ?thesis
      by (cases rule: chan_receive_cases) (use 3(1) Receive in \<open>cases cv; auto simp: chan_avail_def chan_ok_def\<close>)+
  next
    case Close
    then show ?thesis using 3 by (cases cv) (auto simp: tc_channel_close_def)
  qed
qed

section \<open>Messages in transit\<close>

fun chan_event :: "nat \<times> chan_call \<times> chan_result \<Rightarrow> byte list queue_event" where
  "chan_event (i, Send msg, r) = (if fst r = 0 then Put msg else Other)"
| "chan_event (i, Receive, r) = (if fst r = 0 then Got (snd r) else Other)"
| "chan_event (i, Close, r) = Other"

definition chan_step :: "byte list queue_event \<Rightarrow> TcChannel \<Rightarrow> TcChannel \<Rightarrow> bool" where
  "chan_step e c c' \<longleftrightarrow> (\<exists>i p r es. chan_attempt p c = Some (r, c', es) \<and> e = chan_event (i, p, r)
     \<and> (\<forall>msg. p = Send msg \<longrightarrow> length msg = ch_element_size c))"

lemma chan_step_contents:
  assumes ok: "chan_ok c" and step: "chan_step e c c'"
  shows "case e of Put x \<Rightarrow> chan_contents c' = chan_contents c @ [x]
     | Got x \<Rightarrow> chan_contents c = x # chan_contents c' | Other \<Rightarrow> chan_contents c' = chan_contents c"
proof -
  obtain i p r es where run: "chan_attempt p c = Some (r, c', es)" and e: "e = chan_event (i, p, r)"
      and len: "\<forall>msg. p = Send msg \<longrightarrow> length msg = ch_element_size c"
    using step unfolding chan_step_def by blast
  show ?thesis
  proof (cases p)
    case (Send msg)
    then have s: "tc_channel_send msg c = Some (r, c', es)" using run by simp
    then show ?thesis
    proof (cases rule: chan_send_cases)
      case sent
      then show ?thesis using send_sent(2) [OF ok] s len e Send by simp
    next
      case refused
      then show ?thesis using e Send by simp
    qed
  next
    case Receive
    then have s: "tc_channel_receive c = Some (r, c', es)" using run by simp
    then show ?thesis
    proof (cases rule: chan_receive_cases)
      case (received b)
      then show ?thesis using receive_received(2) [OF ok] s e Receive by simp
    next
      case refused
      then show ?thesis using e Receive by simp
    qed
  next
    case Close
    then have "c' = c\<lparr>ch_closed := True\<rparr>" using run by (simp add: tc_channel_close_def)
    then show ?thesis using e Close by (simp add: chan_contents_def slot_def)
  qed
qed

interpretation channel_queue: fifo chan_contents chan_ok chan_step
proof (unfold_locales, goal_cases)
  case (1 c e c')
  then show ?case using chan_keeps unfolding chan_step_def by blast
next
  case (2 c x c')
  then show ?case using chan_step_contents by fastforce
next
  case (3 c x c')
  then show ?case using chan_step_contents by fastforce
next
  case (4 c c')
  then show ?case using chan_step_contents by fastforce
qed

lemma chan_size: "chan_attempt p c = Some (r, c', es) \<Longrightarrow> chan_ok c \<Longrightarrow> ch_element_size c' = ch_element_size c \<and> ch_capacity c' = ch_capacity c"
proof (cases p)
  case (Send msg)
  assume "chan_attempt p c = Some (r, c', es)"
  then have "tc_channel_send msg c = Some (r, c', es)" using Send by simp
  then show ?thesis by (cases rule: chan_send_cases) simp_all
next
  case Receive
  assume "chan_attempt p c = Some (r, c', es)"
  then have "tc_channel_receive c = Some (r, c', es)" using Receive by simp
  then show ?thesis by (cases rule: chan_receive_cases) simp_all
next
  case Close
  assume "chan_attempt p c = Some (r, c', es)"
  then show ?thesis using Close by (auto simp: tc_channel_close_def)
qed

lemma replay_path:
  "chan_ok c \<Longrightarrow> replay chan_attempt es c = Some c' \<Longrightarrow>
   \<forall>(i, p, r)\<in>set es. \<forall>msg. p = Send msg \<longrightarrow> length msg = ch_element_size c \<Longrightarrow>
   queue_path chan_step (map chan_event es) c c' \<and> ch_capacity c' = ch_capacity c"
proof (induction es arbitrary: c)
  case (Cons e es)
  obtain i p r where e: "e = (i, p, r)" by (cases e)
  obtain c1 fs where a: "chan_attempt p c = Some (r, c1, fs)" and rest: "replay chan_attempt es c1 = Some c'"
    using Cons.prems(2) unfolding e replay_Cons by blast
  have keep: "chan_ok c1" "ch_element_size c1 = ch_element_size c" "ch_capacity c1 = ch_capacity c"
    using chan_keeps [OF Cons.prems(1) a] chan_size [OF a Cons.prems(1)] by simp_all
  have "chan_step (chan_event e) c c1"
    unfolding chan_step_def e
  proof (intro exI conjI)
    show "chan_attempt p c = Some (r, c1, fs)" by (rule a)
    show "\<forall>msg. p = Send msg \<longrightarrow> length msg = ch_element_size c" using Cons.prems(3) e by simp
  qed simp
  moreover have "queue_path chan_step (map chan_event es) c1 c' \<and> ch_capacity c' = ch_capacity c1"
    using Cons.IH [OF keep(1) rest] Cons.prems(3) keep(2) by simp
  ultimately show ?case unfolding list.map queue_path.simps using keep(3) by metis
qed simp

text \<open>
  Claim C3. A channel delivers every message exactly once and in order: in every interleaving of any
  number of senders, receivers and closers, the messages received so far followed by those in the ring
  buffer are the messages whose send returned 0, and the buffer never holds more than its capacity.
\<close>

theorem channel_delivers_in_order:
  assumes "malloc_below malloc" "tc_channel_create malloc capacity esize = Some c0"
    "monitor_run chan_attempt chan_waits_on (c0, ts0) es (c, ts)"
    "\<forall>(i, p, r)\<in>set es. \<forall>msg. p = Send msg \<longrightarrow> length msg = esize"
  shows "gots (map chan_event es) @ chan_contents c = puts (map chan_event es)
     \<and> length (chan_contents c) \<le> capacity"
proof -
  note c0 = create_ok [OF assms(1,2)]
  have "replay chan_attempt es c0 = Some c" using run_replay [OF assms(3)] by simp
  then have path: "queue_path chan_step (map chan_event es) c0 c" "ch_capacity c = ch_capacity c0"
    using replay_path [OF c0(1), of es c] assms(4) c0(3) by blast+
  have "chan_ok c \<and> gots (map chan_event es) @ chan_contents c = chan_contents c0 @ puts (map chan_event es)"
    using channel_queue.path_fifo [OF c0(1) path(1)] .
  then show ?thesis using c0(2,4) path(2) chan_okD(3) [of c] by (simp add: chan_contents_def)
qed

text \<open>
  Claim C24. A channel loses no wake-up: whenever a sender or receiver sleeps although the channel has
  room or a message for it, a thread that waits for the same has been woken and can complete its call;
  and when the channel is closed nobody sleeps on it.
\<close>

theorem channel_no_lost_wakeup:
  assumes "malloc_below malloc" "tc_channel_create malloc capacity esize = Some c0" "\<forall>t\<in>set ts0. t = Idle"
    "monitor_run chan_attempt chan_waits_on (c0, ts0) es (c, ts)" "Asleep p \<in> set ts" "p \<noteq> Close"
  shows "\<not> ch_closed c \<and> (chan_attempt p c \<noteq> None \<longrightarrow>
     (\<exists>q. Woken q \<in> set ts \<and> chan_waits_on q = chan_waits_on p \<and> chan_attempt q c \<noteq> None))"
proof (intro conjI impI)
  note ok = create_ok(1) [OF assms(1,2)]
  obtain v where v: "chan_waits_on p = Some v" using assms(6) by (cases p) auto
  show "\<not> ch_closed c"
  proof
    assume "ch_closed c"
    then have "chan_avail v c = \<infinity>" by (simp add: chan_avail_def)
    then show False using channel.unbounded_awake [OF assms(4) ok assms(3) v] assms(5) by blast
  qed
  assume can: "chan_attempt p c \<noteq> None"
  obtain i where i: "i < length ts" "ts ! i = Asleep p" using assms(5) by (auto simp: in_set_conv_nth)
  have "chan_waits_on p \<noteq> None" using v by simp
  from channel.no_lost_wakeup [OF assms(4) ok assms(3) i can this]
  show "\<exists>q. Woken q \<in> set ts \<and> chan_waits_on q = chan_waits_on p \<and> chan_attempt q c \<noteq> None"
    by (auto simp: in_set_conv_nth)
qed

section \<open>An example run\<close>

definition malloc_half :: "nat \<Rightarrow> byte list option" where
  "malloc_half n = (if n < 2 ^ 63 then Some (replicate n 0) else None)"

definition sample_chan :: "bool \<Rightarrow> nat \<Rightarrow> byte \<Rightarrow> TcChannel" where
  "sample_chan shut count b = \<lparr>ch_capacity = 1, ch_element_size = 1, ch_head = 0, ch_count = count,
     ch_closed = shut, ch_data = [b]\<rparr>"

lemma malloc_half_below: "malloc_below malloc_half"
  by (auto simp: malloc_below_def malloc_ok_def malloc_half_def split: if_splits)

lemma sample_chan_create: "tc_channel_create malloc_half 1 1 = Some (sample_chan False 0 0)"
  by (simp add: tc_channel_create_def malloc_half_def sample_chan_def size_max_def)

text \<open>Two receivers fall asleep; a send wakes the first.\<close>

lemma sample_chan_run:
  "monitor_run chan_attempt chan_waits_on (sample_chan False 0 0, [Idle, Idle, Idle])
     [(2, Send [7], (0, []))] (sample_chan False 1 7, [Woken Receive, Asleep Receive, Idle])"
proof -
  let ?step = "monitor_step chan_attempt chan_waits_on" and ?c = "sample_chan False 0 0"
  have wait: "chan_attempt Receive ?c = None" by (simp add: tc_channel_receive_def sample_chan_def)
  have s1: "?step (?c, [Idle, Idle, Idle]) [] (?c, [Asleep Receive, Idle, Idle])"
    using call_wait [of 0 "[Idle, Idle, Idle]" chan_attempt, OF _ _ wait] by simp
  have s2: "?step (?c, [Asleep Receive, Idle, Idle]) [] (?c, [Asleep Receive, Asleep Receive, Idle])"
    using call_wait [of 1 "[Asleep Receive, Idle, Idle]" chan_attempt, OF _ _ wait] by simp
  have n: "notify chan_waits_on [Signal Readable] [Asleep Receive, Asleep Receive, Idle]
      [Woken Receive, Asleep Receive, Idle]"
    by (rule notify_one [of 0 _ Receive]) (simp_all add: notify_end)
  have s3: "?step (?c, [Asleep Receive, Asleep Receive, Idle]) [(2, Send [7], (0, []))]
      (sample_chan False 1 7, [Woken Receive, Asleep Receive, Idle])"
    by (rule call_done [OF _ _ _ n]) (simp_all add: tc_channel_send_def sample_chan_def blit_def)
  show ?thesis using run_step [OF run_step [OF run_step [OF run_start s1] s2] s3] by simp
qed

lemma channel_delivers_in_order_witness:
  "[] @ chan_contents (sample_chan False 1 7) = [[7]] \<and> length (chan_contents (sample_chan False 1 7)) \<le> 1"
  using channel_delivers_in_order [OF malloc_half_below sample_chan_create sample_chan_run] by simp

lemma channel_no_lost_wakeup_witness:
  "\<exists>q. Woken q \<in> set [Woken Receive, Asleep Receive, Idle] \<and> chan_attempt q (sample_chan False 1 7) \<noteq> None"
proof -
  have "chan_attempt Receive (sample_chan False 1 7) \<noteq> None"
    by (simp add: tc_channel_receive_def sample_chan_def)
  then show ?thesis
    using channel_no_lost_wakeup [OF malloc_half_below sample_chan_create _ sample_chan_run, of Receive] by auto
qed

end
