(* ===== verification/Pool.thy ===== *)
theory Pool
  imports Channel "HOL-Library.Multiset"
begin

text \<open>
  The thread pool, the futures and the task scheduler of \<open>runtime/concurrent.c\<close>. The pool's queue is a
  linked list of allocated jobs with a head and a tail pointer, modelled over an explicit store; it is
  shown to be a queue in the sense of \<open>fifo\<close>, and pool, future and scheduler are monitors. Proved: the
  pool runs every accepted job exactly once and in order, and its workers only leave when all of them
  have been taken; a future completes once, everybody who waits for it gets that value, and every
  continuation runs exactly once; no wake-up is lost; the scheduler waits for all the tasks begun.
\<close>

section \<open>The pool\<close>

text \<open>A job is an action with its argument, both opaque to the pool; a job cell also has the next pointer.\<close>

type_synonym job = "nat \<times> nat"

record TcJob =
  job_work :: job
  job_next :: "nat option"

text \<open>
  The store maps the addresses of the allocated job cells to their contents. A cell leaves it when a
  worker has unlinked it; the worker owns it from then on and frees it after the action.
\<close>

record TcPool =
  pool_store :: "nat \<Rightarrow> TcJob option"
  pool_head :: "nat option"
  pool_tail :: "nat option"
  pool_workers :: nat
  pool_stopping :: bool

text \<open>\<open>tc_pool_create\<close>: \<open>starts k\<close> says whether thread \<open>k\<close> can be started; a pool that cannot start all is destroyed.\<close>

definition tc_pool_create :: "bool \<Rightarrow> (nat \<Rightarrow> bool) \<Rightarrow> int \<Rightarrow> TcPool option" where
  "tc_pool_create memory starts workers =
     (if workers < 1 \<or> workers > 256 \<or> \<not> memory then None
      else if list_all starts [0..<nat workers]
      then Some \<lparr>pool_store = (\<lambda>_. None), pool_head = None, pool_tail = None, pool_workers = nat workers,
                  pool_stopping = False\<rparr>
      else None)"

datatype pool_cv = Available

datatype pool_call = Worker | Submit "nat option" "nat option" nat | Stop

text \<open>
  What a call returns: a worker the job to run or the order to leave, \<open>tc_pool_submit\<close> its code. The
  first argument of \<open>Submit\<close> is what \<open>malloc\<close> returns, which is never a block in use; the second is the
  action, null or not.
\<close>

datatype pool_result = Work job | Leave | Code int

definition fresh_job :: "TcPool \<Rightarrow> nat option \<Rightarrow> nat option" where
  "fresh_job p a = (case a of None \<Rightarrow> None | Some x \<Rightarrow> if pool_store p x = None then Some x else None)"

definition tc_pool_submit ::
  "nat option \<Rightarrow> nat option \<Rightarrow> nat \<Rightarrow> TcPool \<Rightarrow> (pool_result \<times> TcPool \<times> pool_cv effect list) option" where
  "tc_pool_submit memory action argument p =
     (case action of
        None \<Rightarrow> Some (Code 1, p, [])
      | Some act \<Rightarrow>
          (case fresh_job p memory of
             None \<Rightarrow> Some (Code 2, p, [])
           | Some j \<Rightarrow>
               if pool_stopping p then Some (Code 3, p, [])
               else
                 let store = (pool_store p)(j \<mapsto> \<lparr>job_work = (act, argument), job_next = None\<rparr>);
                     p1 = (case pool_tail p of
                             Some t \<Rightarrow> p\<lparr>pool_store := store(t := map_option (job_next_update (\<lambda>_. Some j)) (store t))\<rparr>
                           | None \<Rightarrow> p\<lparr>pool_store := store, pool_head := Some j\<rparr>)
                 in Some (Code 0, p1\<lparr>pool_tail := Some j\<rparr>, [Signal Available])))"

text \<open>One turn of \<open>pool_worker\<close>, up to running the job.\<close>

definition pool_worker :: "TcPool \<Rightarrow> (pool_result \<times> TcPool \<times> pool_cv effect list) option" where
  "pool_worker p =
     (case pool_head p of
        None \<Rightarrow> if \<not> pool_stopping p then None else Some (Leave, p, [])
      | Some h \<Rightarrow>
          (case pool_store p h of
             None \<Rightarrow> None
           | Some job \<Rightarrow>
               let p1 = p\<lparr>pool_head := job_next job, pool_store := (pool_store p)(h := None)\<rparr>;
                   p2 = (if pool_head p1 = None then p1\<lparr>pool_tail := None\<rparr> else p1)
               in Some (Work (job_work job), p2, [])))"

text \<open>\<open>tc_pool_destroy\<close> stops the pool, then joins the workers.\<close>

definition pool_stop :: "TcPool \<Rightarrow> TcPool \<times> pool_cv effect list" where
  "pool_stop p = (p\<lparr>pool_stopping := True\<rparr>, [Broadcast Available])"

fun pool_attempt :: "(pool_call, TcPool, pool_result, pool_cv) attempt" where
  "pool_attempt Worker p = pool_worker p"
| "pool_attempt (Submit memory action argument) p = tc_pool_submit memory action argument p"
| "pool_attempt Stop p = (case pool_stop p of (p', es) \<Rightarrow> Some (Leave, p', es))"

fun pool_waits_on :: "pool_call \<Rightarrow> pool_cv option" where
  "pool_waits_on Worker = Some Available"
| "pool_waits_on _ = None"

section \<open>The linked list\<close>

text \<open>The addresses and the jobs on a list of cells, which may be broken or cyclic (\<open>None\<close>).\<close>

partial_function (option) chain_from :: "(nat \<Rightarrow> TcJob option) \<Rightarrow> nat option \<Rightarrow> nat list option" where
  "chain_from store a =
     (case a of
        None \<Rightarrow> Some []
      | Some x \<Rightarrow>
          (case store x of
             None \<Rightarrow> None
           | Some j \<Rightarrow> Option.bind (chain_from store (job_next j)) (\<lambda>xs. Some (x # xs))))"

lemma chain_from_None [simp]: "chain_from store None = Some []"
  by (simp add: chain_from.simps)

lemma chain_from_Some:
  "chain_from store (Some x) = Some xs \<longleftrightarrow>
   (\<exists>j ys. store x = Some j \<and> chain_from store (job_next j) = Some ys \<and> xs = x # ys)"
  by (subst chain_from.simps) (auto split: option.split simp: bind_eq_Some_conv)

lemma chain_from_same:
  "chain_from store a = Some xs \<Longrightarrow> \<forall>x\<in>set xs. store' x = store x \<Longrightarrow> chain_from store' a = Some xs"
proof (induction xs arbitrary: a)
  case Nil
  then show ?case by (cases a) (auto simp: chain_from_Some)
next
  case (Cons x xs)
  then obtain j where "a = Some x" "store x = Some j" "chain_from store (job_next j) = Some xs"
    by (cases a) (auto simp: chain_from_Some)
  then show ?case using Cons by (simp add: chain_from_Some)
qed

definition pool_ok :: "TcPool \<Rightarrow> bool" where
  "pool_ok p \<longleftrightarrow> (\<exists>xs. chain_from (pool_store p) (pool_head p) = Some xs \<and> distinct xs
     \<and> pool_tail p = (if xs = [] then None else Some (last xs))
     \<and> (xs \<noteq> [] \<longrightarrow> (\<exists>j. pool_store p (last xs) = Some j \<and> job_next j = None)))"

definition pool_list :: "TcPool \<Rightarrow> nat list" where
  "pool_list p = the (chain_from (pool_store p) (pool_head p))"

definition pool_jobs :: "TcPool \<Rightarrow> job list" where
  "pool_jobs p = map (\<lambda>a. job_work (the (pool_store p a))) (pool_list p)"

lemma chain_from_stored: "chain_from store a = Some xs \<Longrightarrow> x \<in> set xs \<Longrightarrow> store x \<noteq> None"
proof (induction xs arbitrary: a)
  case (Cons y ys)
  then obtain j where "a = Some y" "store y = Some j" "chain_from store (job_next j) = Some ys"
    by (cases a) (auto simp: chain_from_Some)
  then show ?case using Cons by auto
qed simp

lemma pool_okI:
  assumes "chain_from (pool_store p) (pool_head p) = Some xs" "distinct xs"
    "pool_tail p = (if xs = [] then None else Some (last xs))"
    "xs \<noteq> [] \<Longrightarrow> \<exists>j. pool_store p (last xs) = Some j \<and> job_next j = None"
  shows "pool_ok p" "pool_list p = xs"
  using assms by (auto simp: pool_ok_def pool_list_def)

lemma pool_okE:
  assumes "pool_ok p"
  obtains xs where "chain_from (pool_store p) (pool_head p) = Some xs" "distinct xs"
    "pool_tail p = (if xs = [] then None else Some (last xs))"
    "xs \<noteq> [] \<Longrightarrow> \<exists>j. pool_store p (last xs) = Some j \<and> job_next j = None" "pool_list p = xs"
  using assms by (auto simp: pool_ok_def pool_list_def)

text \<open>Appending a cell behind the last one.\<close>

lemma chain_append:
  assumes "chain_from store a = Some xs" "distinct xs" "xs \<noteq> []" "store j = None"
  shows "chain_from (store(j \<mapsto> cell\<lparr>job_next := None\<rparr>, last xs \<mapsto> (the (store (last xs)))\<lparr>job_next := Some j\<rparr>)) a
    = Some (xs @ [j])"
  using assms
proof (induction xs arbitrary: a)
  case (Cons x xs)
  let ?s = "store(j \<mapsto> cell\<lparr>job_next := None\<rparr>, last xs \<mapsto> (the (store (last xs)))\<lparr>job_next := Some j\<rparr>)"
  obtain c where c: "a = Some x" "store x = Some c" "chain_from store (job_next c) = Some xs"
    using Cons.prems(1) by (cases a) (auto simp: chain_from_Some)
  have xj: "x \<noteq> j" using c(2) Cons.prems(4) by auto
  show ?case
  proof (cases "xs = []")
    case True
    then show ?thesis using c xj by (simp add: chain_from_Some)
  next
    case False
    have "chain_from ?s (job_next c) = Some (xs @ [j])"
      by (rule Cons.IH [OF c(3) _ False Cons.prems(4)]) (use Cons.prems(2) in simp)
    moreover have "?s x = Some c" using xj c(2) Cons.prems(2) False last_in_set [OF False] by auto
    ultimately have "chain_from ?s (Some x) = Some (x # (xs @ [j]))" unfolding chain_from_Some by blast
    then show ?thesis using False c(1) by (simp del: fun_upd_apply)
  qed
qed simp

lemma list_end:
  assumes "chain_from store a = Some xs" "xs \<noteq> []"
  shows "\<exists>c. store (last xs) = Some c \<and> job_next c = None"
  using assms
proof (induction xs arbitrary: a)
  case (Cons x xs)
  then obtain c where c: "store x = Some c" "chain_from store (job_next c) = Some xs"
    by (cases a) (auto simp: chain_from_Some)
  then show ?case using Cons.IH [OF c(2)] by (cases "xs = []"; cases "job_next c") (auto simp: chain_from_Some)
qed simp

lemma submit_accepted:
  assumes ok: "pool_ok p" and run: "tc_pool_submit memory (Some act) argument p = Some (Code 0, p', es)"
  shows "pool_ok p'" "pool_jobs p' = pool_jobs p @ [(act, argument)]" "es = [Signal Available]"
    "pool_stopping p' = pool_stopping p" "\<not> pool_stopping p" "length (pool_list p') = length (pool_list p) + 1"
proof -
  obtain xs where xs: "chain_from (pool_store p) (pool_head p) = Some xs" "distinct xs"
      "pool_tail p = (if xs = [] then None else Some (last xs))" "pool_list p = xs"
    using ok by (rule pool_okE)
  obtain j where j: "pool_store p j = None" "fresh_job p memory = Some j"
    using run by (auto simp: tc_pool_submit_def fresh_job_def split: option.splits if_splits)
  have open_: "\<not> pool_stopping p" using run j by (auto simp: tc_pool_submit_def)
  then show "\<not> pool_stopping p" .
  let ?cell = "\<lparr>job_work = (act, argument), job_next = None\<rparr>"
  let ?store = "(pool_store p)(j \<mapsto> ?cell)"
  have notin: "j \<notin> set xs" using chain_from_stored [OF xs(1), of j] j(1) by auto
  have goal: "pool_ok p' \<and> pool_list p' = xs @ [j] \<and> es = [Signal Available] \<and> pool_stopping p' = pool_stopping p
    \<and> (\<forall>x\<in>set (xs @ [j]). map_option job_work (pool_store p' x)
         = (if x = j then Some (act, argument) else map_option job_work (pool_store p x)))"
  proof (cases "xs = []")
    case True
    then have p': "p' = p\<lparr>pool_store := ?store, pool_head := Some j, pool_tail := Some j\<rparr>"
      and es: "es = [Signal Available]"
      using run j open_ xs(3) by (simp_all add: tc_pool_submit_def Let_def)
    have c: "chain_from (pool_store p') (pool_head p') = Some [j]" by (simp add: p' chain_from_Some)
    show ?thesis using pool_okI [OF c] True es p' by simp
  next
    case False
    obtain c where c: "pool_store p (last xs) = Some c" "job_next c = None" using list_end [OF xs(1) False] by blast
    have ne: "last xs \<noteq> j" using notin False by auto
    have p': "p' = p\<lparr>pool_store := ?store(last xs \<mapsto> c\<lparr>job_next := Some j\<rparr>), pool_tail := Some j\<rparr>"
      and es: "es = [Signal Available]"
      using run j open_ xs(3) False c(1) ne by (simp_all add: tc_pool_submit_def Let_def)
    have ch: "chain_from (pool_store p') (pool_head p') = Some (xs @ [j])"
      using chain_append [OF xs(1,2) False j(1), of ?cell] c(1) by (simp add: p')
    show ?thesis using pool_okI [OF ch] xs(2) notin es c(1) ne by (simp add: p')
  qed
  then show "pool_ok p'" "es = [Signal Available]" "pool_stopping p' = pool_stopping p"
    "length (pool_list p') = length (pool_list p) + 1" using xs(4) by simp_all
  have "map (\<lambda>a. job_work (the (pool_store p' a))) xs = map (\<lambda>a. job_work (the (pool_store p a))) xs"
  proof (rule map_cong [OF refl])
    fix x assume x: "x \<in> set xs"
    then have "x \<noteq> j" "pool_store p x \<noteq> None" using notin chain_from_stored [OF xs(1)] by auto
    then show "job_work (the (pool_store p' x)) = job_work (the (pool_store p x))"
      using goal x by (cases "pool_store p' x"; cases "pool_store p x") fastforce+
  qed
  moreover have "job_work (the (pool_store p' j)) = (act, argument)"
    using goal by (cases "pool_store p' j") auto
  ultimately show "pool_jobs p' = pool_jobs p @ [(act, argument)]"
    using goal xs(4) by (simp add: pool_jobs_def)
qed

lemma submit_refused:
  assumes "tc_pool_submit memory action argument p = Some (r, p', es)" "r \<noteq> Code 0"
  shows "p' = p" "es = []" "r \<in> {Code 1, Code 2, Code 3}"
  using assms by (auto simp: tc_pool_submit_def Let_def split: option.splits if_splits)

lemma worker_took:
  assumes ok: "pool_ok p" and run: "pool_worker p = Some (Work w, p', es)"
  shows "pool_ok p'" "pool_jobs p = w # pool_jobs p'" "es = []" "pool_stopping p' = pool_stopping p"
    "length (pool_list p) = length (pool_list p') + 1"
proof -
  obtain xs where xs: "chain_from (pool_store p) (pool_head p) = Some xs" "distinct xs"
      "pool_tail p = (if xs = [] then None else Some (last xs))" "pool_list p = xs"
    using ok by (rule pool_okE)
  obtain h where h: "pool_head p = Some h" using run by (auto simp: pool_worker_def split: option.splits if_splits)
  then obtain c ys where c: "pool_store p h = Some c" "chain_from (pool_store p) (job_next c) = Some ys" "xs = h # ys"
    using xs(1) by (auto simp: chain_from_Some)
  let ?store = "(pool_store p)(h := None)"
  have p': "p' = p\<lparr>pool_head := job_next c, pool_store := ?store,
      pool_tail := (if job_next c = None then None else pool_tail p)\<rparr>" and w: "w = job_work c" and es: "es = []"
    using run h c(1) by (auto simp: pool_worker_def Let_def)
  have ch: "chain_from (pool_store p') (pool_head p') = Some ys"
    using chain_from_same [OF c(2), of ?store] c(3) xs(2) by (auto simp: p')
  have empty: "job_next c = None \<longleftrightarrow> ys = []" using c(2) by (cases "job_next c") (auto simp: chain_from_Some)
  have new: "pool_ok p' \<and> pool_list p' = ys"
    using pool_okI [OF ch] c(3) xs(2,3) empty list_end [OF ch] by (auto simp: p')
  then show "pool_ok p'" "es = []" "pool_stopping p' = pool_stopping p"
    "length (pool_list p) = length (pool_list p') + 1" using es xs(4) c(3) by (simp_all add: p')
  have "map (\<lambda>a. job_work (the (pool_store p' a))) ys = map (\<lambda>a. job_work (the (pool_store p a))) ys"
    using c(3) xs(2) by (intro map_cong) (auto simp: p')
  then show "pool_jobs p = w # pool_jobs p'"
    using new xs(4) c w by (simp add: pool_jobs_def)
qed

lemma worker_cases:
  assumes ok: "pool_ok p" and run: "pool_worker p = Some (r, p', es)"
  obtains (work) w where "r = Work w" | (leave) "r = Leave" "p' = p" "es = []" "pool_list p = []" "pool_stopping p"
proof (cases "pool_head p")
  case None
  then show ?thesis using run leave by (auto simp: pool_worker_def pool_list_def split: if_splits)
next
  case (Some h)
  then obtain c where "pool_store p h = Some c" using run by (auto simp: pool_worker_def split: option.splits)
  then show ?thesis using run Some work [of "job_work c"] by (simp add: pool_worker_def Let_def)
qed

section \<open>The pool in concurrent use\<close>

definition pool_avail :: "pool_cv \<Rightarrow> TcPool \<Rightarrow> enat" where
  "pool_avail cv p = (if pool_stopping p then \<infinity> else enat (length (pool_list p)))"

lemma pool_okay_stop: "pool_ok (p\<lparr>pool_stopping := b\<rparr>) = pool_ok p" "pool_list (p\<lparr>pool_stopping := b\<rparr>) = pool_list p"
  "pool_jobs (p\<lparr>pool_stopping := b\<rparr>) = pool_jobs p"
  by (simp_all add: pool_ok_def pool_list_def pool_jobs_def)

text \<open>The outcomes of a call, and what each does to the queue.\<close>

fun pool_event :: "nat \<times> pool_call \<times> pool_result \<Rightarrow> job queue_event" where
  "pool_event (i, Submit memory (Some act) argument, r) = (if r = Code 0 then Put (act, argument) else Other)"
| "pool_event (i, Worker, Work w) = Got w"
| "pool_event (i, c, r) = Other"

lemma pool_call_cases:
  assumes ok: "pool_ok p" and run: "pool_attempt c p = Some (r, p', es)"
  obtains (submitted) act argument memory where "c = Submit memory (Some act) argument" "r = Code 0" "pool_ok p'"
      "pool_jobs p' = pool_jobs p @ [(act, argument)]" "es = [Signal Available]" "\<not> pool_stopping p" "\<not> pool_stopping p'"
      "length (pool_list p') = length (pool_list p) + 1"
  | (taken) w where "c = Worker" "r = Work w" "pool_ok p'" "pool_jobs p = w # pool_jobs p'" "es = []"
      "pool_stopping p' = pool_stopping p" "length (pool_list p) = length (pool_list p') + 1"
  | (left_) "c = Worker" "r = Leave" "p' = p" "es = []" "pool_list p = []" "pool_stopping p"
  | (refused) memory action argument where "c = Submit memory action argument" "r \<noteq> Code 0" "p' = p" "es = []"
  | (stopped) "c = Stop" "r = Leave" "p' = p\<lparr>pool_stopping := True\<rparr>" "es = [Broadcast Available]"
proof (cases c)
  case Worker
  then have w: "pool_worker p = Some (r, p', es)" using run by simp
  show ?thesis
  proof (rule worker_cases [OF ok w])
    fix x assume "r = Work x"
    then show ?thesis using taken [of x] worker_took [OF ok] w Worker by simp
  next
    assume "r = Leave" "p' = p" "es = []" "pool_list p = []" "pool_stopping p"
    then show ?thesis using left_ Worker by blast
  qed
next
  case (Submit memory action argument)
  then have s: "tc_pool_submit memory action argument p = Some (r, p', es)" using run by simp
  show ?thesis
  proof (cases "r = Code 0")
    case True
    then obtain act where act: "action = Some act" using s by (cases action) (auto simp: tc_pool_submit_def)
    then show ?thesis using submitted Submit submit_accepted [OF ok] s True by simp
  next
    case False
    then show ?thesis using refused Submit submit_refused(1,2) [OF s] by blast
  qed
next
  case Stop
  then show ?thesis using run stopped by (simp add: pool_stop_def)
qed

lemma pool_keeps:
  assumes "pool_ok p" "pool_attempt c p = Some (r, p', es)"
  shows "pool_ok p'"
  using assms by (rule pool_call_cases) (simp_all add: pool_okay_stop assms(1))

lemma pool_worker_waits:
  assumes "pool_ok p"
  shows "pool_worker p = None \<longleftrightarrow> pool_list p = [] \<and> \<not> pool_stopping p"
proof -
  obtain xs where xs: "chain_from (pool_store p) (pool_head p) = Some xs" "pool_list p = xs"
    using assms by (rule pool_okE)
  show ?thesis
  proof (cases "pool_head p")
    case None
    then show ?thesis using xs by (auto simp: pool_worker_def)
  next
    case (Some h)
    then obtain c ys where "pool_store p h = Some c" "xs = h # ys" using xs(1) by (auto simp: chain_from_Some)
    then show ?thesis using xs Some by (simp add: pool_worker_def Let_def)
  qed
qed

lemma tc_pool_submit_total: "tc_pool_submit memory action argument p \<noteq> None"
  by (auto simp: tc_pool_submit_def Let_def split: option.split)

interpretation pool: monitor pool_attempt pool_waits_on pool_ok pool_avail
proof (unfold_locales, goal_cases)
  case (1 p c r p' es)
  then show ?case by (rule pool_keeps)
next
  case (2 p c)
  show ?case
  proof (cases c)
    case Worker
    then show ?thesis using pool_worker_waits [OF 2] by (auto simp: pool_avail_def zero_enat_def)
  qed (use tc_pool_submit_total in \<open>auto simp: pool_stop_def\<close>)
next
  case (3 p c r p' es cv)
  have av: "cv = Available" by (cases cv)
  show ?case using 3(1,2)
    by (rule pool_call_cases) (use 3(3) in \<open>auto simp: pool_avail_def av one_enat_def\<close>)
qed

definition pool_step :: "job queue_event \<Rightarrow> TcPool \<Rightarrow> TcPool \<Rightarrow> bool" where
  "pool_step e p p' \<longleftrightarrow> (\<exists>i c r es. pool_attempt c p = Some (r, p', es) \<and> e = pool_event (i, c, r))"

lemma pool_step_jobs:
  assumes "pool_ok p" "pool_step e p p'"
  shows "pool_ok p' \<and> (case e of Put x \<Rightarrow> pool_jobs p' = pool_jobs p @ [x]
     | Got x \<Rightarrow> pool_jobs p = x # pool_jobs p' | Other \<Rightarrow> pool_jobs p' = pool_jobs p)"
proof -
  obtain i c r es where a: "pool_attempt c p = Some (r, p', es)" "e = pool_event (i, c, r)"
    using assms(2) unfolding pool_step_def by blast
  have "pool_event (i, Submit memory action argument, r) = Other" if "r \<noteq> Code 0" for memory action argument
    using that by (cases action) simp_all
  then show ?thesis using a(2) by (rule_tac pool_call_cases [OF assms(1) a(1)]) (simp_all add: assms(1) pool_okay_stop)
qed

interpretation pool_queue: fifo pool_jobs pool_ok pool_step
proof (unfold_locales, goal_cases)
  case (1 p e p')
  then show ?case using pool_step_jobs by blast
qed (use pool_step_jobs in fastforce)+

lemma pool_replay_path:
  "replay pool_attempt es p = Some p' \<Longrightarrow> queue_path pool_step (map pool_event es) p p'"
proof (induction es arbitrary: p)
  case (Cons e es)
  obtain i c r where e: "e = (i, c, r)" by (cases e)
  then obtain p1 fs where p1: "pool_attempt c p = Some (r, p1, fs)" "replay pool_attempt es p1 = Some p'"
    using Cons.prems unfolding e replay_Cons by blast
  have "pool_step (pool_event e) p p1" unfolding pool_step_def e using p1(1) by blast
  then show ?case unfolding list.map queue_path.simps using Cons.IH [OF p1(2)] by blast
qed simp

lemma drained_stays:
  assumes "pool_ok p" "pool_attempt c p = Some (r, p', es)" "pool_list p = []" "pool_stopping p"
  shows "pool_list p' = [] \<and> pool_stopping p'"
  using assms(1,2) by (rule pool_call_cases) (use assms(3,4) in \<open>simp_all add: pool_okay_stop\<close>)

lemma replay_drained:
  "pool_ok p \<Longrightarrow> replay pool_attempt es p = Some p' \<Longrightarrow>
   (\<exists>i. (i, Worker, Leave) \<in> set es) \<or> pool_list p = [] \<and> pool_stopping p \<Longrightarrow> pool_list p' = [] \<and> pool_stopping p'"
proof (induction es arbitrary: p)
  case (Cons e es)
  obtain i c r where e: "e = (i, c, r)" by (cases e)
  then obtain p1 fs where p1: "pool_attempt c p = Some (r, p1, fs)" "replay pool_attempt es p1 = Some p'"
    using Cons.prems(2) unfolding e replay_Cons by blast
  have "(\<exists>i. (i, Worker, Leave) \<in> set es) \<or> pool_list p1 = [] \<and> pool_stopping p1"
  proof (cases "c = Worker \<and> r = Leave")
    case True
    then have "pool_list p = [] \<and> pool_stopping p"
      using p1(1) by (rule_tac pool_call_cases [OF Cons.prems(1) p1(1)]) simp_all
    then show ?thesis using drained_stays [OF Cons.prems(1) p1(1)] by blast
  next
    case False
    then show ?thesis using Cons.prems(3) drained_stays [OF Cons.prems(1) p1(1)] e by auto
  qed
  then show ?case using Cons.IH [OF pool_keeps [OF Cons.prems(1) p1(1)] p1(2)] by blast
qed simp

lemma pool_create_ok:
  assumes "tc_pool_create memory starts workers = Some p"
  shows "pool_ok p" "pool_jobs p = []" "pool_list p = []" "\<not> pool_stopping p"
proof -
  have p: "p = \<lparr>pool_store = (\<lambda>_. None), pool_head = None, pool_tail = None, pool_workers = nat workers,
      pool_stopping = False\<rparr>"
    using assms by (auto simp: tc_pool_create_def split: if_splits)
  show "pool_ok p" "pool_jobs p = []" "pool_list p = []" "\<not> pool_stopping p"
    by (simp_all add: p pool_ok_def pool_jobs_def pool_list_def)
qed

text \<open>
  Claim C13. The pool runs every accepted job exactly once: in every interleaving of submitters, workers
  and a stop, the jobs the workers have taken followed by those still queued are the jobs whose
  submission returned 0, in order; and once a worker has left, no accepted job remains behind.
\<close>

theorem pool_runs_all_jobs:
  assumes "tc_pool_create memory starts workers = Some p0"
    "monitor_run pool_attempt pool_waits_on (p0, ts0) es (p, ts)"
  shows "gots (map pool_event es) @ pool_jobs p = puts (map pool_event es)
     \<and> ((\<exists>i. (i, Worker, Leave) \<in> set es) \<longrightarrow> gots (map pool_event es) = puts (map pool_event es))"
proof -
  note p0 = pool_create_ok [OF assms(1)]
  have r: "replay pool_attempt es p0 = Some p" using run_replay [OF assms(2)] by simp
  have "pool_ok p \<and> gots (map pool_event es) @ pool_jobs p = pool_jobs p0 @ puts (map pool_event es)"
    by (rule pool_queue.path_fifo [OF p0(1) pool_replay_path [OF r]])
  moreover have "(\<exists>i. (i, Worker, Leave) \<in> set es) \<longrightarrow> pool_jobs p = []"
    using replay_drained [OF p0(1) r] by (simp add: pool_jobs_def)
  ultimately show ?thesis using p0(2) by (metis append_Nil append_Nil2)
qed

text \<open>
  Claim C25. No job waits for a worker that sleeps: whenever a worker of the pool is asleep although a
  job is queued, another worker has been woken and will find one, and no worker sleeps once the pool
  is stopping.
\<close>

theorem pool_no_lost_wakeup:
  assumes "tc_pool_create memory starts workers = Some p0" "\<forall>t\<in>set ts0. t = Idle"
    "monitor_run pool_attempt pool_waits_on (p0, ts0) es (p, ts)" "Asleep Worker \<in> set ts"
  shows "\<not> pool_stopping p \<and> (pool_jobs p \<noteq> [] \<longrightarrow> Woken Worker \<in> set ts)"
proof (intro conjI impI)
  note ok = pool_create_ok(1) [OF assms(1)]
  show "\<not> pool_stopping p"
    using pool.unbounded_awake [OF assms(3) ok assms(2), of Worker Available] assms(4) by (auto simp: pool_avail_def)
  assume "pool_jobs p \<noteq> []"
  then have "pool_list p \<noteq> []" by (auto simp: pool_jobs_def)
  moreover have "pool_ok p" using pool.run_keeps [OF assms(3)] ok by simp
  ultimately have can: "pool_attempt Worker p \<noteq> None" using pool_worker_waits by simp
  obtain i where i: "i < length ts" "ts ! i = Asleep Worker" using assms(4) by (auto simp: in_set_conv_nth)
  obtain j q where "j < length ts" "ts ! j = Woken q" "pool_waits_on q = pool_waits_on Worker"
    using pool.no_lost_wakeup [OF assms(3) ok assms(2) i can] by auto
  then show "Woken Worker \<in> set ts" by (cases q) (auto simp: in_set_conv_nth)
qed

section \<open>An example run of the pool\<close>

definition sample_pool :: TcPool where
  "sample_pool = \<lparr>pool_store = (\<lambda>_. None), pool_head = None, pool_tail = None, pool_workers = 2, pool_stopping = False\<rparr>"

definition sample_pool_job :: TcPool where
  "sample_pool_job = \<lparr>pool_store = [5 \<mapsto> \<lparr>job_work = (7, 8), job_next = None\<rparr>], pool_head = Some 5,
     pool_tail = Some 5, pool_workers = 2, pool_stopping = False\<rparr>"

lemma sample_pool_create: "tc_pool_create True (\<lambda>_. True) 2 = Some sample_pool"
  by (simp add: tc_pool_create_def sample_pool_def list_all_iff)

lemma sample_pool_run:
  "monitor_run pool_attempt pool_waits_on (sample_pool, [Idle, Idle, Idle])
     [(2, Submit (Some 5) (Some 7) 8, Code 0)] (sample_pool_job, [Woken Worker, Asleep Worker, Idle])"
proof -
  let ?step = "monitor_step pool_attempt pool_waits_on"
  have wait: "pool_attempt Worker sample_pool = None" by (simp add: pool_worker_def sample_pool_def)
  have s1: "?step (sample_pool, [Idle, Idle, Idle]) [] (sample_pool, [Asleep Worker, Idle, Idle])"
    using call_wait [of 0 "[Idle, Idle, Idle]" pool_attempt, OF _ _ wait] by simp
  have s2: "?step (sample_pool, [Asleep Worker, Idle, Idle]) [] (sample_pool, [Asleep Worker, Asleep Worker, Idle])"
    using call_wait [of 1 "[Asleep Worker, Idle, Idle]" pool_attempt, OF _ _ wait] by simp
  have n: "notify pool_waits_on [Signal Available] [Asleep Worker, Asleep Worker, Idle]
      [Woken Worker, Asleep Worker, Idle]"
    by (rule notify_one [of 0 _ Worker]) (simp_all add: notify_end)
  have s3: "?step (sample_pool, [Asleep Worker, Asleep Worker, Idle]) [(2, Submit (Some 5) (Some 7) 8, Code 0)]
      (sample_pool_job, [Woken Worker, Asleep Worker, Idle])"
    by (rule call_done [OF _ _ _ n])
       (simp_all add: tc_pool_submit_def fresh_job_def sample_pool_def sample_pool_job_def Let_def)
  show ?thesis using run_step [OF run_step [OF run_step [OF run_start s1] s2] s3] by simp
qed

lemma pool_runs_all_jobs_run: "pool_jobs sample_pool_job = [(7, 8)]"
  by (simp add: pool_jobs_def pool_list_def sample_pool_job_def chain_from.simps)

lemma pool_runs_all_jobs_witness: "[] @ pool_jobs sample_pool_job = [(7, 8)]"
  using pool_runs_all_jobs [OF sample_pool_create sample_pool_run] by simp

lemma pool_no_lost_wakeup_witness:
  "pool_jobs sample_pool_job \<noteq> [] \<and> Woken Worker \<in> set [Woken Worker, Asleep Worker, Idle]"
proof -
  have "pool_jobs sample_pool_job \<noteq> []" using pool_runs_all_jobs_run by simp
  then show ?thesis using pool_no_lost_wakeup [OF sample_pool_create _ sample_pool_run] by simp
qed

section \<open>Futures\<close>

text \<open>A continuation: an action with its argument, and the pool to run it on, if any.\<close>

type_synonym continuation = "job \<times> nat option"

record TcFuture =
  fut_refs :: u64
  fut_size :: nat
  fut_complete :: bool
  fut_error :: int
  fut_continuations :: "continuation list"
  fut_data :: "byte list"

definition tc_future_create :: "bool \<Rightarrow> nat \<Rightarrow> nat \<Rightarrow> TcFuture option" where
  "tc_future_create memory header bytes =
     (if bytes > size_max - header \<or> \<not> memory then None
      else Some \<lparr>fut_refs = 1, fut_size = bytes, fut_complete = False, fut_error = 0, fut_continuations = [],
                 fut_data = replicate bytes 0\<rparr>)"

definition tc_future_retain :: "TcFuture \<Rightarrow> TcFuture" where
  "tc_future_retain f = f\<lparr>fut_refs := fut_refs f + 1\<rparr>"

text \<open>Whether the future is disposed, and the future otherwise.\<close>

definition tc_future_release :: "TcFuture \<Rightarrow> bool \<times> TcFuture" where
  "tc_future_release f = (let refs = fut_refs f - 1 in (refs = 0, f\<lparr>fut_refs := refs\<rparr>))"

text \<open>
  The calls that lock the future. The result has the returned code, the bytes copied out and the
  continuations the caller runs after it has unlocked, in order.
\<close>

datatype future_call = Complete "byte list option" int | Ready | Get bool | Then bool continuation

type_synonym future_result = "int \<times> byte list \<times> continuation list"

datatype future_cv = Completed

definition tc_future_complete ::
  "byte list option \<Rightarrow> int \<Rightarrow> TcFuture \<Rightarrow> (future_result \<times> TcFuture \<times> future_cv effect list) option" where
  "tc_future_complete msg error f =
     (if fut_complete f then Some ((1, [], []), f, [])
      else Some ((0, [], fut_continuations f),
        f\<lparr>fut_data := (case msg of Some v \<Rightarrow> if fut_size f \<noteq> 0 then blit 0 (take (fut_size f) v) (fut_data f) else fut_data f
                             | None \<Rightarrow> fut_data f),
          fut_complete := True, fut_error := error, fut_continuations := []\<rparr>,
        [Broadcast Completed]))"

definition tc_future_ready :: "TcFuture \<Rightarrow> int" where
  "tc_future_ready f = (if fut_complete f then 1 else 0)"

definition tc_future_get ::
  "bool \<Rightarrow> TcFuture \<Rightarrow> (future_result \<times> TcFuture \<times> future_cv effect list) option" where
  "tc_future_get destination f =
     (if \<not> fut_complete f then None
      else Some ((fut_error f, if destination \<and> fut_size f \<noteq> 0 then take (fut_size f) (fut_data f) else [], []), f, []))"

definition tc_future_then ::
  "bool \<Rightarrow> continuation \<Rightarrow> TcFuture \<Rightarrow> (future_result \<times> TcFuture \<times> future_cv effect list) option" where
  "tc_future_then memory k f =
     (if \<not> memory then Some ((2, [], []), f, [])
      else if fut_complete f then Some ((0, [], [k]), f, [])
      else Some ((0, [], []), f\<lparr>fut_continuations := k # fut_continuations f\<rparr>, []))"

fun future_attempt :: "(future_call, TcFuture, future_result, future_cv) attempt" where
  "future_attempt (Complete msg error) f = tc_future_complete msg error f"
| "future_attempt Ready f = Some ((tc_future_ready f, [], []), f, [])"
| "future_attempt (Get destination) f = tc_future_get destination f"
| "future_attempt (Then memory k) f = tc_future_then memory k f"

fun future_waits_on :: "future_call \<Rightarrow> future_cv option" where
  "future_waits_on (Get destination) = Some Completed"
| "future_waits_on _ = None"

text \<open>
  A continuation runs on its pool, or, where there is none or the pool refuses it, at once in the
  calling thread.
\<close>

datatype where_run = Inline | Queued nat

definition run_continuation :: "(nat \<Rightarrow> job \<Rightarrow> int) \<Rightarrow> continuation \<Rightarrow> where_run" where
  "run_continuation submit k =
     (case snd k of None \<Rightarrow> Inline | Some p \<Rightarrow> if submit p (fst k) \<noteq> 0 then Inline else Queued p)"

definition future_ok :: "TcFuture \<Rightarrow> bool" where
  "future_ok f \<longleftrightarrow> length (fut_data f) = fut_size f \<and> (fut_complete f \<longrightarrow> fut_continuations f = [])"

lemma future_keeps: "future_ok f \<Longrightarrow> future_attempt c f = Some (r, f', es) \<Longrightarrow> future_ok f'"
  by (cases c) (auto simp: future_ok_def tc_future_complete_def tc_future_get_def tc_future_then_def
      blit_def split: if_splits option.splits)

interpretation future: monitor future_attempt future_waits_on future_ok
  "\<lambda>_ f. if fut_complete f then \<infinity> else 0"
proof (unfold_locales, goal_cases)
  case (1 f c r f' es)
  then show ?case by (rule future_keeps)
next
  case (2 f c)
  then show ?case by (cases c) (auto simp: tc_future_complete_def tc_future_get_def tc_future_then_def)
next
  case (3 f c r f' es cv)
  have cv: "cv = Completed" by (cases cv)
  show ?case using 3 by (cases c)
    (auto simp: cv tc_future_complete_def tc_future_get_def tc_future_then_def split: if_splits)
qed

text \<open>The continuations registered by the completed calls, and those handed out to be run.\<close>

fun registered :: "(nat \<times> future_call \<times> future_result) list \<Rightarrow> continuation list" where
  "registered [] = []"
| "registered ((i, Then memory k, r) # es) = (if fst r = 0 then k # registered es else registered es)"
| "registered (e # es) = registered es"

fun handed_out :: "(nat \<times> future_call \<times> future_result) list \<Rightarrow> continuation list" where
  "handed_out [] = []"
| "handed_out ((i, c, r) # es) = snd (snd r) @ handed_out es"

text \<open>What the waiting calls return.\<close>

definition gets_return :: "(nat \<times> future_call \<times> future_result) list \<Rightarrow> int \<Rightarrow> byte list \<Rightarrow> bool" where
  "gets_return es error bytes \<longleftrightarrow>
     (\<forall>(i, c, r)\<in>set es. \<forall>d. c = Get d \<longrightarrow> r = (error, if d then bytes else [], []))"

lemma future_continuations:
  "future_ok f \<Longrightarrow> replay future_attempt es f = Some f' \<Longrightarrow>
   mset (handed_out es) + mset (fut_continuations f') = mset (fut_continuations f) + mset (registered es)
   \<and> future_ok f'"
proof (induction es arbitrary: f)
  case (Cons e es)
  obtain i c r where e: "e = (i, c, r)" by (cases e)
  then obtain f1 fs where f1: "future_attempt c f = Some (r, f1, fs)" "replay future_attempt es f1 = Some f'"
    using Cons.prems(2) unfolding e replay_Cons by blast
  have ok: "future_ok f1" by (rule future_keeps [OF Cons.prems(1) f1(1)])
  have "mset (snd (snd r)) + mset (fut_continuations f1)
      = mset (fut_continuations f) + mset (registered [e])"
    using f1(1) Cons.prems(1) e
    by (cases c) (auto simp: future_ok_def tc_future_complete_def tc_future_get_def tc_future_then_def split: if_splits)
  note first = this
  have IH: "mset (handed_out es) + mset (fut_continuations f') = mset (fut_continuations f1) + mset (registered es)"
    "future_ok f'" using Cons.IH [OF ok f1(2)] by simp_all
  have "mset (handed_out (e # es)) + mset (fut_continuations f')
      = mset (snd (snd r)) + (mset (handed_out es) + mset (fut_continuations f'))" using e by simp
  also have "\<dots> = (mset (snd (snd r)) + mset (fut_continuations f1)) + mset (registered es)"
    unfolding IH(1) by (simp only: union_assoc)
  also have "\<dots> = mset (fut_continuations f) + mset (registered (e # es))"
    unfolding first using e by (cases c) simp_all
  finally show ?case using IH(2) by simp
qed simp

definition completions :: "(nat \<times> future_call \<times> future_result) list \<Rightarrow> (byte list option \<times> int) list" where
  "completions es = map (\<lambda>(i, c, r). case c of Complete msg error \<Rightarrow> (msg, error))
     (filter (\<lambda>(i, c, r). (\<exists>msg error. c = Complete msg error) \<and> fst r = 0) es)"

lemma completions_simps [simp]:
  "completions [] = []"
  "completions ((i, Complete msg error, r) # es) = (if fst r = 0 then (msg, error) # completions es else completions es)"
  "completions ((i, Ready, r) # es) = completions es" "completions ((i, Get d, r) # es) = completions es"
  "completions ((i, Then m k, r) # es) = completions es"
  by (simp_all add: completions_def)

lemma gets_return_Cons:
  "gets_return ((i, c, r) # es) error bytes \<longleftrightarrow>
   (\<forall>d. c = Get d \<longrightarrow> r = (error, if d then bytes else [], [])) \<and> gets_return es error bytes"
  by (simp add: gets_return_def)

text \<open>A completed future does not change, except for its references.\<close>

lemma completed_stays:
  assumes "fut_complete f" "future_ok f" "future_attempt c f = Some (r, f', es)"
  shows "f' = f" "c = Complete msg error \<Longrightarrow> fst r = 1"
    "c = Get d \<Longrightarrow> r = (fut_error f, if d then fut_data f else [], [])"
  using assms by (cases c;
    auto simp: tc_future_complete_def tc_future_get_def tc_future_then_def future_ok_def split: if_splits)+

lemma completed_replay:
  "fut_complete f \<Longrightarrow> future_ok f \<Longrightarrow> replay future_attempt es f = Some f' \<Longrightarrow>
   f' = f \<and> completions es = [] \<and> gets_return es (fut_error f) (fut_data f)"
proof (induction es)
  case Nil
  then show ?case by (simp add: gets_return_def)
next
  case (Cons e es)
  obtain i c r where e: "e = (i, c, r)" by (cases e)
  then obtain f1 fs where f1: "future_attempt c f = Some (r, f1, fs)" "replay future_attempt es f1 = Some f'"
    using Cons.prems(3) unfolding e replay_Cons by blast
  note stay = completed_stays [OF Cons.prems(1,2) f1(1)]
  have "f' = f \<and> completions es = [] \<and> gets_return es (fut_error f) (fut_data f)"
    using Cons.IH [OF Cons.prems(1,2)] f1(2) stay(1) by simp
  then show ?case using stay(2,3) e by (cases c) (auto simp: gets_return_Cons)
qed

text \<open>The value a future holds after a completion.\<close>

definition completed_data :: "nat \<Rightarrow> byte list option \<Rightarrow> byte list" where
  "completed_data n msg = (case msg of Some v \<Rightarrow> blit 0 (take n v) (replicate n 0) | None \<Rightarrow> replicate n 0)"

definition waiting_future :: "nat \<Rightarrow> TcFuture \<Rightarrow> bool" where
  "waiting_future n f \<longleftrightarrow> \<not> fut_complete f \<and> fut_size f = n \<and> fut_data f = replicate n 0 \<and> future_ok f"

lemma waiting_replay:
  "waiting_future n f \<Longrightarrow> replay future_attempt es f = Some f' \<Longrightarrow>
   (if fut_complete f' then \<exists>msg. completions es = [(msg, fut_error f')] \<and> fut_data f' = completed_data n msg
      \<and> gets_return es (fut_error f') (fut_data f')
    else completions es = [] \<and> (\<forall>(i, c, r)\<in>set es. \<forall>d. c \<noteq> Get d))"
proof (induction es arbitrary: f)
  case Nil
  then show ?case by (simp add: waiting_future_def)
next
  case (Cons e es)
  obtain i c r where e: "e = (i, c, r)" by (cases e)
  then obtain f1 fs where f1: "future_attempt c f = Some (r, f1, fs)" "replay future_attempt es f1 = Some f'"
    using Cons.prems(2) unfolding e replay_Cons by blast
  note w = Cons.prems(1) [unfolded waiting_future_def]
  have ok1: "future_ok f1" by (rule future_keeps [OF _ f1(1)]) (use w in simp)
  show ?case
  proof (cases c)
    case (Complete msg error)
    then have "r = (0, [], fut_continuations f)" "fut_complete f1" "fut_error f1 = error"
      "fut_data f1 = completed_data n msg"
      using f1(1) w by (auto simp: tc_future_complete_def completed_data_def blit_def split: option.split)
    then show ?thesis using completed_replay [OF _ ok1 f1(2)] e Complete by (simp add: gets_return_Cons)
  next
    case Ready
    then have "waiting_future n f1" "c \<noteq> Get d" for d using f1(1) w by (auto simp: waiting_future_def)
    then show ?thesis using Cons.IH [OF _ f1(2)] e Ready by (auto simp: gets_return_Cons)
  next
    case (Get d)
    then show ?thesis using f1(1) w by (simp add: tc_future_get_def)
  next
    case (Then memory k)
    then have "waiting_future n f1" using f1(1) w
      by (auto simp: tc_future_then_def waiting_future_def future_ok_def split: if_splits)
    then show ?thesis using Cons.IH [OF _ f1(2)] e Then by (auto simp: gets_return_Cons)
  qed
qed

lemma future_create_waiting:
  assumes "tc_future_create memory header bytes = Some f"
  shows "waiting_future bytes f" "future_ok f" "fut_continuations f = []"
  using assms by (auto simp: tc_future_create_def waiting_future_def future_ok_def split: if_splits)

text \<open>
  Claim C26. A future completes at most once and everybody sees that one result: in every interleaving
  at most one completion is accepted, no \<open>tc_future_get\<close> returns before it, and each returns exactly its
  error and its bytes (zero bytes where the value is null).
\<close>

theorem future_single_result:
  assumes "tc_future_create memory header bytes = Some f0"
    "monitor_run future_attempt future_waits_on (f0, ts0) es (f, ts)"
  shows "if fut_complete f then \<exists>msg. completions es = [(msg, fut_error f)] \<and> fut_data f = completed_data bytes msg
      \<and> gets_return es (fut_error f) (fut_data f)
    else completions es = [] \<and> (\<forall>(i, c, r)\<in>set es. \<forall>d. c \<noteq> Get d)"
  using waiting_replay [OF future_create_waiting(1) [OF assms(1)]] run_replay [OF assms(2)] by simp

text \<open>
  Claim C27. Every continuation runs exactly once: in every interleaving of completions and
  registrations, the continuations handed out to be run and those still waiting are together the ones
  that were registered, each as often; and none is waiting once the future is complete.
\<close>

theorem future_runs_continuations_once:
  assumes "tc_future_create memory header bytes = Some f0"
    "monitor_run future_attempt future_waits_on (f0, ts0) es (f, ts)"
  shows "mset (handed_out es) + mset (fut_continuations f) = mset (registered es)
     \<and> (fut_complete f \<longrightarrow> mset (handed_out es) = mset (registered es))"
proof -
  have "replay future_attempt es f0 = Some f" using run_replay [OF assms(2)] by simp
  from future_continuations [OF future_create_waiting(2) [OF assms(1)] this]
  show ?thesis using future_create_waiting(3) [OF assms(1)] by (auto simp: future_ok_def)
qed

definition sample_future :: "bool \<Rightarrow> int \<Rightarrow> continuation list \<Rightarrow> byte list \<Rightarrow> TcFuture" where
  "sample_future over error ks bytes = \<lparr>fut_refs = 1, fut_size = 1, fut_complete = over, fut_error = error,
     fut_continuations = ks, fut_data = bytes\<rparr>"

lemma sample_future_create: "tc_future_create True 96 1 = Some (sample_future False 0 [] [0])"
  by (simp add: tc_future_create_def sample_future_def size_max_def)

lemma sample_future_run:
  "monitor_run future_attempt future_waits_on (sample_future False 0 [] [0], [Idle])
     [(0, Then True ((1, 2), None), (0, [], [])), (0, Complete (Some [9]) 3, (0, [], [((1, 2), None)])),
      (0, Get True, (3, [9], []))]
     (sample_future True 3 [] [9], [Idle])"
proof -
  let ?step = "monitor_step future_attempt future_waits_on" and ?k = "((1, 2), None) :: continuation"
  have n: "notify future_waits_on [Broadcast Completed] [Idle] [Idle]"
    by (rule notify_all) (simp add: wake_def notify_end)
  have s1: "?step (sample_future False 0 [] [0], [Idle]) [(0, Then True ?k, (0, [], []))]
      (sample_future False 0 [?k] [0], [Idle])"
    by (rule call_done [where es = "[]"]) (simp_all add: tc_future_then_def sample_future_def notify_end)
  have s2: "?step (sample_future False 0 [?k] [0], [Idle]) [(0, Complete (Some [9]) 3, (0, [], [?k]))]
      (sample_future True 3 [] [9], [Idle])"
    by (rule call_done [OF _ _ _ n]) (simp_all add: tc_future_complete_def sample_future_def blit_def)
  have s3: "?step (sample_future True 3 [] [9], [Idle]) [(0, Get True, (3, [9], []))] (sample_future True 3 [] [9], [Idle])"
    by (rule call_done [where es = "[]"]) (simp_all add: tc_future_get_def sample_future_def notify_end)
  show ?thesis using run_step [OF run_step [OF run_step [OF run_start s1] s2] s3] by simp
qed

lemma future_single_result_witness: "\<exists>msg. [(Some [9 :: byte], 3 :: int)] = [(msg, 3)] \<and> completed_data 1 msg = [9]"
  using future_single_result [OF sample_future_create sample_future_run] by (simp add: sample_future_def)

lemma future_runs_continuations_once_witness:
  "mset [((1, 2), None) :: continuation] = mset (registered [(0, Then True ((1, 2), None), (0, [], []))])"
  using future_runs_continuations_once [OF sample_future_create sample_future_run] by (simp add: sample_future_def)

section \<open>The scheduler\<close>

text \<open>
  The tasks begun and not ended; \<open>main\<close> shuts the scheduler down when there is none. The counter of the
  source has 64 bits and every pending task is an allocated object, so counting up does not overflow;
  counting down wraps below zero.
\<close>

record TcScheduler =
  sched_pool :: "TcPool option"
  sched_pending :: nat

datatype sched_call = TaskBegin | TaskEnd | Shutdown

datatype sched_cv = TasksFinished

definition tc_scheduler_start :: "bool \<Rightarrow> (nat \<Rightarrow> bool) \<Rightarrow> int \<Rightarrow> TcScheduler \<Rightarrow> TcScheduler outcome" where
  "tc_scheduler_start memory starts workers s =
     (if sched_pool s \<noteq> None then Ret s
      else case tc_pool_create memory starts workers of
             None \<Rightarrow> Panic ''abort''
           | Some p \<Rightarrow> Ret (s\<lparr>sched_pending := 0, sched_pool := Some p\<rparr>))"

definition tc_task_begin :: "TcScheduler \<Rightarrow> TcScheduler" where
  "tc_task_begin s = s\<lparr>sched_pending := sched_pending s + 1\<rparr>"

definition tc_task_end :: "TcScheduler \<Rightarrow> TcScheduler \<times> sched_cv effect list" where
  "tc_task_end s =
     (let n = usub (sched_pending s) 1 in (s\<lparr>sched_pending := n\<rparr>, if n = 0 then [Broadcast TasksFinished] else []))"

text \<open>The part of \<open>tc_scheduler_shutdown\<close> under the lock.\<close>

definition shutdown_wait :: "TcScheduler \<Rightarrow> (unit \<times> TcScheduler \<times> sched_cv effect list) option" where
  "shutdown_wait s = (if sched_pending s \<noteq> 0 then None else Some ((), s, []))"

fun sched_attempt :: "(sched_call, TcScheduler, unit, sched_cv) attempt" where
  "sched_attempt TaskBegin s = Some ((), tc_task_begin s, [])"
| "sched_attempt TaskEnd s = (case tc_task_end s of (s', es) \<Rightarrow> Some ((), s', es))"
| "sched_attempt Shutdown s = shutdown_wait s"

fun sched_waits_on :: "sched_call \<Rightarrow> sched_cv option" where
  "sched_waits_on Shutdown = Some TasksFinished"
| "sched_waits_on _ = None"

interpretation scheduler: monitor sched_attempt sched_waits_on "\<lambda>_. True"
  "\<lambda>_ s. if sched_pending s = 0 then \<infinity> else 0"
proof (unfold_locales, goal_cases)
  case (2 s c)
  then show ?case by (cases c) (auto simp: shutdown_wait_def tc_task_begin_def tc_task_end_def Let_def)
next
  case (3 s c r s' es cv)
  then show ?case
    by (cases c; cases cv) (auto simp: shutdown_wait_def tc_task_begin_def tc_task_end_def Let_def split: if_splits)
qed simp

text \<open>No task ends that has not begun.\<close>

fun balanced :: "nat \<Rightarrow> (nat \<times> sched_call \<times> unit) list \<Rightarrow> bool" where
  "balanced n [] = True"
| "balanced n ((i, TaskBegin, r) # es) = balanced (n + 1) es"
| "balanced n ((i, TaskEnd, r) # es) = (0 < n \<and> balanced (n - 1) es)"
| "balanced n ((i, Shutdown, r) # es) = balanced n es"

lemma pending_counts:
  "replay sched_attempt es s = Some s' \<Longrightarrow> balanced (sched_pending s) es \<Longrightarrow>
   sched_pending s' + num (\<lambda>(i, c, r). c = TaskEnd) es = sched_pending s + num (\<lambda>(i, c, r). c = TaskBegin) es"
proof (induction es arbitrary: s)
  case (Cons e es)
  obtain i c r where e: "e = (i, c, r)" by (cases e)
  then obtain s1 fs where s1: "sched_attempt c s = Some (r, s1, fs)" "replay sched_attempt es s1 = Some s'"
    using Cons.prems(1) unfolding e replay_Cons by blast
  have "balanced (sched_pending s1) es"
    using s1(1) Cons.prems(2) e
    by (cases c) (auto simp: tc_task_begin_def tc_task_end_def shutdown_wait_def Let_def split: if_splits)
  from Cons.IH [OF s1(2) this] show ?case using s1(1) Cons.prems(2) e
    by (cases c) (auto simp: tc_task_begin_def tc_task_end_def shutdown_wait_def Let_def split: if_splits)
qed simp

text \<open>
  Claim C28. The program ends only after its tasks: in every interleaving in which no task ends that has
  not begun, the shutdown can pass exactly when every task begun has ended, and \<open>main\<close> is not left
  asleep then.
\<close>

theorem shutdown_waits_for_tasks:
  assumes "tc_scheduler_start memory starts workers \<lparr>sched_pool = None, sched_pending = p\<rparr> = Ret s0"
    "\<forall>t\<in>set ts0. t = Idle" "monitor_run sched_attempt sched_waits_on (s0, ts0) es (s, ts)" "balanced 0 es"
  shows "(shutdown_wait s \<noteq> None \<longleftrightarrow> num (\<lambda>(i, c, r). c = TaskEnd) es = num (\<lambda>(i, c, r). c = TaskBegin) es)
     \<and> (Asleep Shutdown \<in> set ts \<longrightarrow> num (\<lambda>(i, c, r). c = TaskEnd) es < num (\<lambda>(i, c, r). c = TaskBegin) es)"
proof -
  have s0: "sched_pending s0 = 0"
    using assms(1) by (auto simp: tc_scheduler_start_def split: option.splits)
  have r: "replay sched_attempt es s0 = Some s" using run_replay [OF assms(3)] by simp
  have count: "sched_pending s + num (\<lambda>(i, c, r). c = TaskEnd) es = num (\<lambda>(i, c, r). c = TaskBegin) es"
    using pending_counts [OF r] s0 assms(4) by simp
  have "Asleep Shutdown \<in> set ts \<Longrightarrow> sched_pending s \<noteq> 0"
    using scheduler.unbounded_awake [OF assms(3) TrueI assms(2), of Shutdown TasksFinished]
    by (cases "sched_pending s = 0") simp_all
  then show ?thesis using count by (auto simp: shutdown_wait_def)
qed

lemma shutdown_waits_for_tasks_witness:
  "\<not> (shutdown_wait \<lparr>sched_pool = Some sample_pool, sched_pending = 1\<rparr> \<noteq> None)"
proof -
  have start: "tc_scheduler_start True (\<lambda>_. True) 2 \<lparr>sched_pool = None, sched_pending = 3\<rparr>
      = Ret \<lparr>sched_pool = Some sample_pool, sched_pending = 0\<rparr>"
    by (simp add: tc_scheduler_start_def sample_pool_create)
  have "monitor_step sched_attempt sched_waits_on (\<lparr>sched_pool = Some sample_pool, sched_pending = 0\<rparr>, [Idle])
      [(0, TaskBegin, ())] (\<lparr>sched_pool = Some sample_pool, sched_pending = 1\<rparr>, [Idle])"
    by (rule call_done [where es = "[]"]) (simp_all add: tc_task_begin_def notify_end)
  from shutdown_waits_for_tasks [OF start _ run_step [OF run_start this]] show ?thesis
    by (simp del: not_None_eq)
qed

end
