(* ===== verification/Utf8.thy ===== *)
theory Utf8
  imports Protobuf
begin

text \<open>
  Characters of the terminal interface, \<open>runtime/tui.c\<close>: encoding a code point as UTF-8 and decoding
  the character at a position of a string. Proved: decoding gives back what was encoded and stops right
  behind it; on any bytes at all decoding makes progress, stays inside the string and yields a code
  point that can be encoded; and the UTF-8 check of the Protobuf runtime accepts exactly the
  concatenations of encoded characters.
\<close>

section \<open>Encoding and decoding\<close>

definition scalar :: "u32 \<Rightarrow> bool" where
  "scalar cp \<longleftrightarrow> \<not> (cp > 0x10ffff \<or> (cp \<ge> 0xd800 \<and> cp \<le> 0xdfff))"

definition tc_utf8_encode :: "u32 \<Rightarrow> byte list" where
  "tc_utf8_encode cp0 =
     (let cp = (if cp0 > 0x10ffff \<or> (cp0 \<ge> 0xd800 \<and> cp0 \<le> 0xdfff) then 0xfffd else cp0)
      in if cp < 128 then [ucast cp]
         else if cp < 2048 then [ucast (0xc0 OR drop_bit 6 cp), ucast (0x80 OR (cp AND 63))]
         else if cp < 65536 then [ucast (0xe0 OR drop_bit 12 cp), ucast (0x80 OR (drop_bit 6 cp AND 63)),
                                  ucast (0x80 OR (cp AND 63))]
         else [ucast (0xf0 OR drop_bit 18 cp), ucast (0x80 OR (drop_bit 12 cp AND 63)),
               ucast (0x80 OR (drop_bit 6 cp AND 63)), ucast (0x80 OR (cp AND 63))])"

text \<open>How many continuation bytes follow a first byte, and the bits it carries.\<close>

definition decode_lead :: "byte \<Rightarrow> (nat \<times> u32) option" where
  "decode_lead first =
     (if first \<ge> 0xc2 \<and> first \<le> 0xdf then Some (1, ucast (first AND 31))
      else if first \<ge> 0xe0 \<and> first \<le> 0xef then Some (2, ucast (first AND 15))
      else if first \<ge> 0xf0 \<and> first \<le> 0xf4 then Some (3, ucast (first AND 7))
      else None)"

fun decode_tail :: "u32 \<Rightarrow> byte list \<Rightarrow> u32 option" where
  "decode_tail cp [] = Some cp"
| "decode_tail cp (b # bs) =
     (if b AND 0xc0 \<noteq> 0x80 then None else decode_tail (push_bit 6 cp OR ucast (b AND 63)) bs)"

definition decode_bad :: "nat \<Rightarrow> u32 \<Rightarrow> bool" where
  "decode_bad continuation cp \<longleftrightarrow> (continuation = 1 \<and> cp < 128) \<or> (continuation = 2 \<and> cp < 2048)
     \<or> (continuation = 3 \<and> cp < 65536) \<or> cp > 0x10ffff \<or> (cp \<ge> 0xd800 \<and> cp \<le> 0xdfff)"

text \<open>The code point at a position and the position behind it.\<close>

definition tc_utf8_decode :: "byte list \<Rightarrow> nat \<Rightarrow> u32 \<times> nat" where
  "tc_utf8_decode xs p =
     (if p \<ge> length xs then (0, p)
      else
        let first = xs ! p; p1 = p + 1
        in if first < 128 then (ucast first, p1)
           else case decode_lead first of
                  None \<Rightarrow> (0xfffd, p1)
                | Some (continuation, cp0) \<Rightarrow>
                    if p1 + continuation > length xs then (0xfffd, p1)
                    else case decode_tail cp0 (take continuation (drop p1 xs)) of
                           None \<Rightarrow> (0xfffd, p1)
                         | Some cp \<Rightarrow> if decode_bad continuation cp then (0xfffd, p1) else (cp, p1 + continuation))"

section \<open>Bytes as numbers\<close>

lemma or_disjoint:
  fixes x c :: "'a::len word"
  assumes "unat x < 2 ^ j" "j \<le> k"
  shows "push_bit k c OR x = push_bit k c + x"
proof (rule disjunctive_add [symmetric])
  fix n
  have "x = take_bit j x" using take_bit_small [OF assms(1)] by simp
  then have "bit x n \<Longrightarrow> n < j" by (metis bit_take_bit_iff)
  then show "\<not> bit (push_bit k c) n \<or> \<not> bit x n" using assms(2) by (auto simp: bit_push_bit_iff)
qed

lemma lead_bytes:
  fixes x :: u32
  shows "unat x < 32 \<Longrightarrow> ucast (0xc0 OR x) = (of_nat (192 + unat x) :: byte)"
    and "unat x < 16 \<Longrightarrow> ucast (0xe0 OR x) = (of_nat (224 + unat x) :: byte)"
    and "unat x < 8 \<Longrightarrow> ucast (0xf0 OR x) = (of_nat (240 + unat x) :: byte)"
    and "unat x < 64 \<Longrightarrow> ucast (0x80 OR x) = (of_nat (128 + unat x) :: byte)"
proof -
  have c: "(0xc0 :: u32) = push_bit 6 3" "(0xe0 :: u32) = push_bit 5 7" "(0xf0 :: u32) = push_bit 4 15"
    "(0x80 :: u32) = push_bit 7 1" by simp_all
  have u: "ucast (of_nat n + x :: u32) = (of_nat (n + unat x) :: byte)" if "n + unat x < 2 ^ 32" for n
    using that by (simp add: word_unat_eq_iff unsigned_ucast_eq unat_word_ariths take_bit_nat_eq_self unat_of_nat
        take_bit_eq_mod mod_add_eq)
  show "unat x < 32 \<Longrightarrow> ucast (0xc0 OR x) = (of_nat (192 + unat x) :: byte)"
    using or_disjoint [of x 5 6 3] u [of 192] unfolding c(1) by simp
  show "unat x < 16 \<Longrightarrow> ucast (0xe0 OR x) = (of_nat (224 + unat x) :: byte)"
    using or_disjoint [of x 4 5 7] u [of 224] unfolding c(2) by simp
  show "unat x < 8 \<Longrightarrow> ucast (0xf0 OR x) = (of_nat (240 + unat x) :: byte)"
    using or_disjoint [of x 3 4 15] u [of 240] unfolding c(3) by simp
  show "unat x < 64 \<Longrightarrow> ucast (0x80 OR x) = (of_nat (128 + unat x) :: byte)"
    using or_disjoint [of x 6 7 1] u [of 128] unfolding c(4) by simp
qed

text \<open>The encoding in terms of numbers.\<close>

definition utf8_bytes :: "nat \<Rightarrow> byte list" where
  "utf8_bytes n =
     (if n < 128 then [of_nat n]
      else if n < 2048 then [of_nat (192 + n div 64), of_nat (128 + n mod 64)]
      else if n < 65536 then [of_nat (224 + n div 4096), of_nat (128 + n div 64 mod 64), of_nat (128 + n mod 64)]
      else [of_nat (240 + n div 262144), of_nat (128 + n div 4096 mod 64), of_nat (128 + n div 64 mod 64),
            of_nat (128 + n mod 64)])"

lemma unat_parts:
  fixes cp :: u32
  shows "unat (drop_bit k cp) = unat cp div 2 ^ k" "unat (cp AND 63) = unat cp mod 64"
proof -
  show "unat (drop_bit k cp) = unat cp div 2 ^ k" 
    by (simp only: unsigned_drop_bit_eq drop_bit_eq_div [where ?'a = nat] take_bit_nat_eq_self [OF unsigned_less])
  have "cp AND 63 = take_bit 6 cp" by (simp add: word_masks take_bit_eq_mask)
  then have "unat (cp AND 63) = take_bit 6 (unat cp)" by (simp only: unsigned_take_bit_eq)
  then show "unat (cp AND 63) = unat cp mod 64" by (simp add: take_bit_eq_mod)
qed

lemma encode_bytes: "scalar cp \<Longrightarrow> tc_utf8_encode cp = utf8_bytes (unat cp)"
proof -
  assume s: "scalar cp"
  have lt: "unat cp < 0x110000" using s by (simp add: scalar_def not_less word_le_nat_alt)
  have d: "unat cp div 4096 mod 64 < 64" "unat cp div 64 mod 64 < 64" "unat cp mod 64 < 64" by simp_all
  have one: "cp < 128 \<Longrightarrow> (ucast cp :: byte) = of_nat (unat cp)" by (simp add: of_nat_unat)
  have two: "cp < 2048 \<longleftrightarrow> unat cp < 2048" "cp < 128 \<longleftrightarrow> unat cp < 128" "cp < 65536 \<longleftrightarrow> unat cp < 65536"
    by (simp_all add: word_less_nat_alt)
  show ?thesis
    using s lt d one lead_bytes(1) [of "drop_bit 6 cp"] lead_bytes(2) [of "drop_bit 12 cp"]
      lead_bytes(3) [of "drop_bit 18 cp"] lead_bytes(4) [of "drop_bit 12 cp AND 63"]
      lead_bytes(4) [of "drop_bit 6 cp AND 63"] lead_bytes(4) [of "cp AND 63"]
    by (auto simp: tc_utf8_encode_def utf8_bytes_def scalar_def Let_def two unat_parts)
qed

section \<open>Reading encoded bytes back\<close>

lemma byte_facts:
  assumes "n < 256"
  shows "unat (of_nat n :: byte) = n" "of_nat n AND (31 :: byte) = of_nat (n mod 32)"
    "of_nat n AND (15 :: byte) = of_nat (n mod 16)" "of_nat n AND (7 :: byte) = of_nat (n mod 8)"
    "of_nat n AND (63 :: byte) = of_nat (n mod 64)" "(ucast (of_nat n :: byte) :: u32) = of_nat n"
    "of_nat n AND (0xc0 :: byte) = of_nat (n div 64 * 64)"
proof -
  show u: "unat (of_nat n :: byte) = n" using assms by (simp add: unat_of_nat)
  have m: "of_nat n AND mask k = (of_nat (n mod 2 ^ k) :: byte)" for k
    by (simp only: take_bit_eq_mask [symmetric] take_bit_of_nat take_bit_eq_mod [where ?'a = nat])
  show "of_nat n AND (31 :: byte) = of_nat (n mod 32)" "of_nat n AND (15 :: byte) = of_nat (n mod 16)"
    "of_nat n AND (7 :: byte) = of_nat (n mod 8)" "of_nat n AND (63 :: byte) = of_nat (n mod 64)"
    using m [of 5] m [of 4] m [of 3] m [of 6] by (simp_all add: word_masks)
  show "(ucast (of_nat n :: byte) :: u32) = of_nat n"
    using assms by (simp add: word_unat_eq_iff unsigned_ucast_eq u unat_of_nat take_bit_nat_eq_self)
  have "(of_nat n :: byte) AND 0xc0 = push_bit 6 (drop_bit 6 (of_nat n))"
  proof (rule bit_word_eqI)
    fix i assume "i < LENGTH(8)"
    then have "i \<in> {0, 1, 2, 3, 4, 5, 6, 7}" by auto
    then show "bit ((of_nat n :: byte) AND 0xc0) i = bit (push_bit 6 (drop_bit 6 (of_nat n :: byte))) i"
      by (auto simp: bit_simps)
  qed
  also have "\<dots> = of_nat (n div 64 * 64)"
  proof (rule word_unat_eq_iff [THEN iffD2])
    have "n div 64 * 64 < 256" using assms by simp
    then have t: "take_bit LENGTH(8) (n div 64 * 64) = n div 64 * 64" by (simp add: take_bit_nat_eq_self)
    have d: "unat (drop_bit 6 (of_nat n :: byte)) = drop_bit 6 n"
      using take_bit_nat_eq_self [OF unsigned_less [of "of_nat n :: byte"]]
      by (simp only: unsigned_drop_bit_eq u)
    have "unat (push_bit 6 (drop_bit 6 (of_nat n :: byte))) = take_bit LENGTH(8) (push_bit 6 (drop_bit 6 n))"
      by (simp only: unsigned_push_bit_eq d)
    also have "push_bit 6 (drop_bit 6 n) = n div 64 * 64" by (simp add: push_bit_eq_mult drop_bit_eq_div)
    finally have "unat (push_bit 6 (drop_bit 6 (of_nat n :: byte))) = take_bit LENGTH(8) (n div 64 * 64)" .
    then show "unat (push_bit 6 (drop_bit 6 (of_nat n :: byte))) = unat (of_nat (n div 64 * 64) :: byte)"
      by (simp only: unsigned_of_nat of_nat_id)
  qed
  finally show "of_nat n AND (0xc0 :: byte) = of_nat (n div 64 * 64)" .
qed

text \<open>Decoding looks only at the bytes from the position on.\<close>

definition decode_char :: "byte list \<Rightarrow> u32 \<times> nat" where
  "decode_char ys =
     (case ys of
        [] \<Rightarrow> (0, 0)
      | first # zs \<Rightarrow>
          if first < 128 then (ucast first, 1)
          else case decode_lead first of
                 None \<Rightarrow> (0xfffd, 1)
               | Some (n, cp0) \<Rightarrow>
                   if n > length zs then (0xfffd, 1)
                   else case decode_tail cp0 (take n zs) of
                          None \<Rightarrow> (0xfffd, 1)
                        | Some cp \<Rightarrow> if decode_bad n cp then (0xfffd, 1) else (cp, 1 + n))"

lemma decode_drop:
  assumes "p < length xs"
  shows "tc_utf8_decode xs p = (fst (decode_char (drop p xs)), p + snd (decode_char (drop p xs)))"
proof -
  have d: "drop p xs = xs ! p # drop (p + 1) xs" using assms by (simp add: Cons_nth_drop_Suc)
  have l: "p + 1 + n > length xs \<longleftrightarrow> n > length (drop (p + 1) xs)" for n using assms by auto
  show ?thesis unfolding tc_utf8_decode_def d decode_char_def list.case l Let_def
    using assms by (auto split: option.split)
qed

lemma decode_char_length: "ys \<noteq> [] \<Longrightarrow> 1 \<le> snd (decode_char ys) \<and> snd (decode_char ys) \<le> length ys"
  by (cases ys) (auto simp: decode_char_def split: option.split)

lemma div_mod_part:
  fixes c b m :: nat
  assumes "m < b"
  shows "(c * b + m) mod b = m" "(c * b + m) div b = c"
  using assms by simp_all

lemma tail_step:
  assumes "m < 64"
  shows "decode_tail (of_nat a) (of_nat (128 + m) # bs) = decode_tail (of_nat (a * 64 + m)) bs"
proof -
  have lt: "128 + m < 256" using assms by simp
  have c: "of_nat (128 + m) AND (0xc0 :: byte) = 0x80"
    using byte_facts(7) [OF lt] div_mod_part(2) [OF assms, of 2] by simp
  have "push_bit 6 (of_nat a) OR (of_nat m :: u32) = push_bit 6 (of_nat a) + of_nat m"
    by (rule or_disjoint [of _ 6]) (use assms in \<open>simp_all add: unat_of_nat\<close>)
  also have "\<dots> = of_nat (a * 64 + m)" by (simp add: push_bit_eq_mult mult.commute)
  finally have s: "push_bit 6 (of_nat a) OR (of_nat m :: u32) = of_nat (a * 64 + m)" .
  have "(128 + m) mod 64 = m" using div_mod_part(1) [OF assms, of 2] by simp
  then have "of_nat (128 + m) AND (63 :: byte) = of_nat m" using byte_facts(5) [OF lt] by simp
  moreover have "(ucast (of_nat m :: byte) :: u32) = of_nat m" using byte_facts(6) [of m] assms by simp
  ultimately show ?thesis using c s by simp
qed

lemma lead_cases:
  assumes "n < 256"
  shows "194 \<le> n \<Longrightarrow> n \<le> 223 \<Longrightarrow> decode_lead (of_nat n) = Some (1, of_nat (n mod 32))"
    "224 \<le> n \<Longrightarrow> n \<le> 239 \<Longrightarrow> decode_lead (of_nat n) = Some (2, of_nat (n mod 16))"
    "240 \<le> n \<Longrightarrow> n \<le> 244 \<Longrightarrow> decode_lead (of_nat n) = Some (3, of_nat (n mod 8))"
  using byte_facts(1) [OF assms] byte_facts(2-4) [OF assms] byte_facts(6) [of "n mod 32"]
    byte_facts(6) [of "n mod 16"] byte_facts(6) [of "n mod 8"]
  by (auto simp: decode_lead_def word_le_nat_alt)

lemma scalar_nat:
  assumes "n < 2 ^ 32"
  shows "scalar (of_nat n) \<longleftrightarrow> n < 0x110000 \<and> \<not> (0xd800 \<le> n \<and> n \<le> 0xdfff)"
proof -
  have u: "unat (of_nat n :: u32) = n" using assms by (simp add: unat_of_nat)
  show ?thesis by (auto simp: scalar_def word_le_nat_alt word_less_nat_alt u)
qed

lemma bad_nat:
  assumes "n < 2 ^ 32"
  shows "decode_bad k (of_nat n) \<longleftrightarrow> (k = 1 \<and> n < 128) \<or> (k = 2 \<and> n < 2048) \<or> (k = 3 \<and> n < 65536)
    \<or> \<not> scalar (of_nat n)"
proof -
  have u: "unat (of_nat n :: u32) = n" using assms by (simp add: unat_of_nat)
  show ?thesis by (auto simp: decode_bad_def scalar_def word_le_nat_alt word_less_nat_alt u)
qed

lemma first_not_ascii: "128 \<le> n \<Longrightarrow> n < 256 \<Longrightarrow> \<not> (of_nat n :: byte) < 128"
  using byte_facts(1) [of n] by (simp add: word_less_nat_alt)

text \<open>The bytes of a character that is not ASCII: a lead byte and continuation bytes that decode.\<close>

lemma utf8_shape:
  assumes s: "scalar (of_nat n)" and lt: "n < 2 ^ 32" and n: "128 \<le> n"
  obtains l bs a where "utf8_bytes n = of_nat l # bs" "128 \<le> l" "l < 256" "decode_lead (of_nat l) = Some (length bs, a)"
    "decode_tail a bs = Some (of_nat n)" "\<not> decode_bad (length bs) (of_nat n)" "length bs \<noteq> 0"
proof -
  have sc: "n < 0x110000" using s scalar_nat [OF lt] by simp
  have rem: "n mod 64 < 64" "n div 64 mod 64 < 64" "n div 4096 mod 64 < 64" by simp_all
  consider "n < 2048" | "2048 \<le> n" "n < 65536" | "65536 \<le> n" by linarith
  then show ?thesis
  proof cases
    case 1
    let ?l = "192 + n div 64" and ?bs = "[of_nat (128 + n mod 64)]"
    have l: "194 \<le> ?l" "?l \<le> 223" using 1 n by auto
    have "?l mod 32 = n div 64" using div_mod_part(1) [of "n div 64" 32 6] 1 by simp
    then have lead: "decode_lead (of_nat ?l) = Some (1, of_nat (n div 64))" using lead_cases(1) [of ?l] l by simp
    have "decode_tail (of_nat (n div 64)) ?bs = Some (of_nat (n div 64 * 64 + n mod 64))"
      by (simp only: tail_step [OF rem(1)] decode_tail.simps(1))
    then have t: "decode_tail (of_nat (n div 64)) ?bs = Some (of_nat n)" by simp
    show ?thesis
      by (rule that [of ?l ?bs "of_nat (n div 64)"]) (use lead t l 1 n s in \<open>simp_all add: utf8_bytes_def bad_nat [OF lt]\<close>)
  next
    case 2
    let ?l = "224 + n div 4096" and ?bs = "[of_nat (128 + n div 64 mod 64), of_nat (128 + n mod 64)]"
    have l: "224 \<le> ?l" "?l \<le> 239" using 2 by auto
    have "?l mod 16 = n div 4096" using div_mod_part(1) [of "n div 4096" 16 14] 2 by simp
    then have lead: "decode_lead (of_nat ?l) = Some (2, of_nat (n div 4096))" using lead_cases(2) [of ?l] l by simp
    have split: "(n div 4096 * 64 + n div 64 mod 64) * 64 + n mod 64 = n"
      using div_mult_mod_eq [of "n div 64" 64] div_mult_mod_eq [of n 64] by (simp add: div_mult2_eq [symmetric])
    have "decode_tail (of_nat (n div 4096)) ?bs = Some (of_nat ((n div 4096 * 64 + n div 64 mod 64) * 64 + n mod 64))"
      by (simp only: tail_step [OF rem(1)] tail_step [OF rem(2)] decode_tail.simps(1))
    then have t: "decode_tail (of_nat (n div 4096)) ?bs = Some (of_nat n)" by (simp only: split)
    show ?thesis
      by (rule that [of ?l ?bs "of_nat (n div 4096)"]) (use lead t l 2 s in \<open>simp_all add: utf8_bytes_def bad_nat [OF lt]\<close>)
  next
    case 3
    let ?l = "240 + n div 262144" and ?bs = "[of_nat (128 + n div 4096 mod 64), of_nat (128 + n div 64 mod 64), of_nat (128 + n mod 64)]"
    have l: "240 \<le> ?l" "?l \<le> 244" using sc by auto
    have "?l mod 8 = n div 262144" using div_mod_part(1) [of "n div 262144" 8 30] sc by simp
    then have lead: "decode_lead (of_nat ?l) = Some (3, of_nat (n div 262144))" using lead_cases(3) [of ?l] l by simp
    have split: "((n div 262144 * 64 + n div 4096 mod 64) * 64 + n div 64 mod 64) * 64 + n mod 64 = n"
      using div_mult_mod_eq [of "n div 4096" 64] div_mult_mod_eq [of "n div 64" 64] div_mult_mod_eq [of n 64]
      by (simp add: div_mult2_eq [symmetric])
    have "decode_tail (of_nat (n div 262144)) ?bs
        = Some (of_nat (((n div 262144 * 64 + n div 4096 mod 64) * 64 + n div 64 mod 64) * 64 + n mod 64))"
      by (simp only: tail_step [OF rem(1)] tail_step [OF rem(2)] tail_step [OF rem(3)] decode_tail.simps(1))
    then have t: "decode_tail (of_nat (n div 262144)) ?bs = Some (of_nat n)" by (simp only: split)
    show ?thesis
      by (rule that [of ?l ?bs "of_nat (n div 262144)"]) (use lead t l 3 s in \<open>simp_all add: utf8_bytes_def bad_nat [OF lt]\<close>)
  qed
qed

lemma decode_utf8_bytes:
  assumes s: "scalar (of_nat n)" and lt: "n < 2 ^ 32"
  shows "decode_char (utf8_bytes n @ zs) = (of_nat n, length (utf8_bytes n))"
proof (cases "n < 128")
  case True
  then show ?thesis using byte_facts(1) [of n] byte_facts(6) [of n]
    by (simp add: utf8_bytes_def decode_char_def word_less_nat_alt)
next
  case False
  then show ?thesis
    by (rule_tac utf8_shape [OF s lt]) (simp_all add: decode_char_def first_not_ascii)
qed

lemma decode_char_scalar: "ys \<noteq> [] \<Longrightarrow> scalar (fst (decode_char ys))"
proof (cases ys)
  case (Cons first zs)
  have "scalar (ucast first)" if "first < 128"
  proof -
    have lt: "unat first < 128" using that by (simp add: word_less_nat_alt)
    then have "ucast first = (of_nat (unat first) :: u32)" using byte_facts(6) [of "unat first"] by simp
    then show ?thesis using scalar_nat [of "unat first"] lt by simp
  qed
  then show ?thesis using Cons
    by (auto simp: decode_char_def decode_bad_def scalar_def split: option.split)
qed simp

text \<open>
  Claim C38. Encoding and decoding of characters are inverse: wherever the encoding of a code point
  stands in a string, decoding at its first byte yields the code point and the position right behind
  it; values that are no Unicode scalar are encoded as the replacement character.
\<close>

theorem utf8_decode_encode:
  "tc_utf8_decode (xs @ tc_utf8_encode cp @ ys) (length xs)
    = (if scalar cp then cp else 0xfffd, length xs + length (tc_utf8_encode cp))"
proof -
  obtain c :: u32 where c: "c = (if scalar cp then cp else 0xfffd)" by blast
  have sc: "scalar c" by (simp add: c scalar_def)
  have "tc_utf8_encode cp = tc_utf8_encode c" by (auto simp: c tc_utf8_encode_def scalar_def Let_def)
  also have "\<dots> = utf8_bytes (unat c)" by (rule encode_bytes [OF sc])
  finally have e: "tc_utf8_encode cp = utf8_bytes (unat c)" .
  have ne: "utf8_bytes n \<noteq> []" for n by (simp add: utf8_bytes_def)
  have lt: "unat c < 2 ^ 32" by (rule order_less_le_trans [OF unsigned_less]) simp
  have d: "decode_char (utf8_bytes (unat c) @ ys) = (c, length (utf8_bytes (unat c)))"
    using decode_utf8_bytes [OF _ lt] sc by simp
  show ?thesis unfolding e c [symmetric]
    using decode_drop [of "length xs" "xs @ utf8_bytes (unat c) @ ys"] d ne by simp
qed

text \<open>Decoding arbitrary bytes makes progress and yields a scalar.\<close>

lemma utf8_decode_progress:
  assumes "p < length xs" "tc_utf8_decode xs p = (cp, q)"
  shows "p < q \<and> q \<le> length xs \<and> scalar cp"
proof -
  have ne: "drop p xs \<noteq> []" using assms(1) by simp
  show ?thesis using assms decode_drop [OF assms(1)] decode_char_length [OF ne] decode_char_scalar [OF ne] by auto
qed

section \<open>The UTF-8 check of the Protobuf runtime\<close>

lemma lead_same: "utf8_lead b = decode_lead b"
  by (simp add: utf8_lead_def decode_lead_def)

lemma tail_same:
  "utf8_tail n v xs = (if n \<le> length xs
     then map_option (\<lambda>cp. (cp, drop n xs)) (decode_tail v (take n xs)) else utf8_tail n v xs)"
  by (induction n v xs rule: utf8_tail.induct) auto

lemma bad_same: "decode_bad n v \<longleftrightarrow> (n = 1 \<and> v < 128) \<or> utf8_bad n v"
  by (auto simp: decode_bad_def utf8_bad_def)

lemma valid_utf8_bytes:
  assumes s: "scalar (of_nat n)" and lt: "n < 2 ^ 32"
  shows "pb_valid_loop (utf8_bytes n @ zs) = pb_valid_loop zs"
proof (cases "n < 128")
  case True
  then show ?thesis using byte_facts(1) [of n] by (simp add: utf8_bytes_def word_less_nat_alt)
next
  case False
  then obtain l bs a where b: "utf8_bytes n = of_nat l # bs" "128 \<le> l" "l < 256" "decode_lead (of_nat l) = Some (length bs, a)"
    "decode_tail a bs = Some (of_nat n)" "\<not> decode_bad (length bs) (of_nat n)"
    using utf8_shape [OF s lt] by (metis not_less)
  have "utf8_tail (length bs) a (bs @ zs) = Some (of_nat n, zs)"
    using b(5) by (subst tail_same) simp
  then show ?thesis using b first_not_ascii [OF b(2,3)] by (simp add: lead_same bad_same)
qed

lemma cont_form:
  assumes "b AND 0xc0 = (0x80 :: byte)"
  obtains m where "m < 64" "b = of_nat (128 + m)"
proof -
  have lt: "unat b < 256" using unsigned_less [of b] by simp
  have "of_nat (unat b div 64 * 64) = (of_nat 128 :: byte)"
    using byte_facts(7) [OF lt] assms by simp
  then have "unat (of_nat (unat b div 64 * 64) :: byte) = unat (of_nat 128 :: byte)" by (rule arg_cong)
  moreover have "unat b div 64 * 64 < 256" using lt by simp
  ultimately have "unat b div 64 * 64 = 128" by (simp only: byte_facts(1))
  then have "128 + unat b mod 64 = unat b" using div_mult_mod_eq [of "unat b" 64] by simp
  then have "b = of_nat (128 + unat b mod 64)" by simp
  then show ?thesis using that [of "unat b mod 64"] by simp
qed

lemma cont_tail:
  "decode_tail (of_nat a) bs = Some cp \<Longrightarrow>
   \<exists>ms. (\<forall>m\<in>set ms. m < 64) \<and> bs = map (\<lambda>m. of_nat (128 + m)) ms \<and> cp = of_nat (foldl (\<lambda>v m. v * 64 + m) a ms)"
proof (induction bs arbitrary: a)
  case (Cons b bs)
  then have "b AND 0xc0 = 0x80" by (auto split: if_splits)
  then obtain m where m: "m < 64" "b = of_nat (128 + m)" by (rule cont_form)
  then have "decode_tail (of_nat (a * 64 + m)) bs = Some cp" using Cons.prems tail_step [OF m(1)] by metis
  then obtain ms where "\<forall>m\<in>set ms. m < 64" "bs = map (\<lambda>m. of_nat (128 + m)) ms"
      "cp = of_nat (foldl (\<lambda>v m. v * 64 + m) (a * 64 + m) ms)"
    using Cons.IH by blast
  then show ?case using m by (intro exI [of _ "m # ms"]) simp
qed simp

lemma lead_form:
  assumes "decode_lead b = Some (n, a)"
  obtains k where "n = 1" "b = of_nat (192 + k)" "a = of_nat k" "k < 32"
  | k where "n = 2" "b = of_nat (224 + k)" "a = of_nat k" "k < 16"
  | k where "n = 3" "b = of_nat (240 + k)" "a = of_nat k" "k < 5"
proof -
  have lt: "unat b < 256" using unsigned_less [of b] by simp
  have b: "b = of_nat (unat b)" by simp
  consider "194 \<le> unat b" "unat b \<le> 223" | "224 \<le> unat b" "unat b \<le> 239" | "240 \<le> unat b" "unat b \<le> 244"
    using assms by (auto simp: decode_lead_def word_le_nat_alt split: if_splits)
  then show ?thesis
  proof cases
    case 1
    then have "192 + (unat b - 192) = unat b" "unat b - 192 < 32" by auto
    then show ?thesis using that(1) [of "unat b - 192"] lead_cases(1) [OF lt] 1 assms div_mod_part(1) [of "unat b - 192" 32 6] by simp
  next
    case 2
    then have "224 + (unat b - 224) = unat b" "unat b - 224 < 16" by auto
    then show ?thesis using that(2) [of "unat b - 224"] lead_cases(2) [OF lt] 2 assms div_mod_part(1) [of "unat b - 224" 16 14] by simp
  next
    case 3
    then have "240 + (unat b - 240) = unat b" "unat b - 240 < 5" by auto
    then show ?thesis using that(3) [of "unat b - 240"] lead_cases(3) [OF lt] 3 assms div_mod_part(1) [of "unat b - 240" 8 30] by simp
  qed
qed

text \<open>What decodes is the encoding of what it decodes to.\<close>

lemma decoded_is_encoded:
  assumes lead: "decode_lead b = Some (n, a)" and tail: "decode_tail a bs = Some cp" and len: "length bs = n"
    and ok: "\<not> decode_bad n cp"
  shows "b # bs = tc_utf8_encode cp" "scalar cp"
proof -
  show sc: "scalar cp" using ok by (simp add: decode_bad_def scalar_def)
  have enc: "tc_utf8_encode cp = utf8_bytes (unat cp)" by (rule encode_bytes [OF sc])
  have u: "unat (of_nat v :: u32) = v" if "v < 2 ^ 32" for v using that by (simp add: unat_of_nat)
  show "b # bs = tc_utf8_encode cp"
    using lead
  proof (cases rule: lead_form)
    case (1 k)
    then obtain m where m: "m < 64" "bs = [of_nat (128 + m)]" "cp = of_nat (k * 64 + m)"
      using cont_tail [of k bs cp] tail len by (auto simp: length_Suc_conv)
    have v: "k * 64 + m < 2048" "unat cp = k * 64 + m" using 1(4) m u [of "k * 64 + m"] by auto
    have "128 \<le> unat cp" using ok 1(1) by (simp add: decode_bad_def word_le_nat_alt word_less_nat_alt not_less)
    then show ?thesis unfolding enc using v m 1 div_mod_part [OF m(1), of k] by (simp add: utf8_bytes_def)
  next
    case (2 k)
    then obtain m1 m2 where m: "m1 < 64" "m2 < 64" "bs = [of_nat (128 + m1), of_nat (128 + m2)]"
        "cp = of_nat ((k * 64 + m1) * 64 + m2)"
      using cont_tail [of k bs cp] tail len by (auto simp: length_Suc_conv numeral_2_eq_2)
    let ?v = "(k * 64 + m1) * 64 + m2"
    have v: "?v < 65536" "unat cp = ?v" using 2(4) m u [of ?v] by auto
    have ge: "2048 \<le> unat cp" using ok 2(1) by (simp add: decode_bad_def word_le_nat_alt word_less_nat_alt not_less)
    have "?v div 64 = k * 64 + m1" "?v mod 64 = m2" using div_mod_part [OF m(2), of "k * 64 + m1"] by simp_all
    moreover have "?v div 4096 = k" "(k * 64 + m1) mod 64 = m1"
      using div_mod_part [OF m(1), of k] div_mult2_eq [of ?v 64 64] calculation(1) by simp_all
    ultimately show ?thesis unfolding enc using v ge m(3) 2(2) by (simp add: utf8_bytes_def)
  next
    case (3 k)
    then obtain m1 m2 m3 where m: "m1 < 64" "m2 < 64" "m3 < 64" "bs = [of_nat (128 + m1), of_nat (128 + m2), of_nat (128 + m3)]"
        "cp = of_nat (((k * 64 + m1) * 64 + m2) * 64 + m3)"
      using cont_tail [of k bs cp] tail len by (auto simp: length_Suc_conv numeral_3_eq_3)
    let ?w = "(k * 64 + m1) * 64 + m2" and ?v = "((k * 64 + m1) * 64 + m2) * 64 + m3"
    have v: "?v < 2 ^ 32" "unat cp = ?v" using 3(4) m u [of ?v] by auto
    have ge: "65536 \<le> unat cp" using ok 3(1) by (simp add: decode_bad_def word_le_nat_alt word_less_nat_alt not_less)
    have a: "?v div 64 = ?w" "?v mod 64 = m3" using div_mod_part [OF m(3), of ?w] by simp_all
    have b': "?w div 64 = k * 64 + m1" "?w mod 64 = m2" using div_mod_part [OF m(2), of "k * 64 + m1"] by simp_all
    have c: "(k * 64 + m1) div 64 = k" "(k * 64 + m1) mod 64 = m1" using div_mod_part [OF m(1), of k] by simp_all
    have d: "?v div 4096 = k * 64 + m1" using div_mult2_eq [of ?v 64 64] a b' by simp
    have "?v div 262144 = k" using div_mult2_eq [of ?v 4096 64] d c by simp
    then show ?thesis unfolding enc using v ge m(4) 3(2) a b' c d by (simp add: utf8_bytes_def)
  qed
qed

lemma ascii_is_encoded:
  assumes "b < (128 :: byte)"
  shows "[b] = tc_utf8_encode (ucast b)" "scalar (ucast b)"
proof -
  have lt: "unat b < 128" using assms by (simp add: word_less_nat_alt)
  have u: "(ucast b :: u32) = of_nat (unat b)" using byte_facts(6) [of "unat b"] lt by simp
  show sc: "scalar (ucast b)" using scalar_nat [of "unat b"] lt unfolding u by simp
  have small: "unat (of_nat v :: u32) = v" if "v < 2 ^ 32" for v using that by (simp add: unat_of_nat)
  have "unat b < 2 ^ 32" using lt by simp
  then have "unat (ucast b :: u32) = unat b" by (simp only: u small)
  then show "[b] = tc_utf8_encode (ucast b)" using encode_bytes [OF sc] lt by (simp add: utf8_bytes_def)
qed

lemma pb_valid_encoded: "pb_valid_loop xs \<Longrightarrow> \<exists>cps. (\<forall>cp\<in>set cps. scalar cp) \<and> xs = concat (map tc_utf8_encode cps)"
proof (induction xs rule: length_induct)
  case (1 xs)
  show ?case
  proof (cases xs)
    case Nil
    then show ?thesis by (intro exI [of _ "[]"]) simp
  next
    case (Cons b ys)
    have ne: "tc_utf8_encode cp \<noteq> []" for cp by (simp add: tc_utf8_encode_def Let_def)
    have step: "\<exists>cp zs. scalar cp \<and> xs = tc_utf8_encode cp @ zs \<and> pb_valid_loop zs"
    proof (cases "b < 128")
      case True
      then show ?thesis using ascii_is_encoded [OF True] 1(2) Cons by (intro exI [of _ "ucast b"] exI [of _ ys]) auto
    next
      case False
      then obtain n a v zs where d: "decode_lead b = Some (n, a)" "n \<le> length ys" "utf8_tail n a ys = Some (v, zs)"
          "\<not> utf8_bad n v" "pb_valid_loop zs"
      proof -
        have v: "case decode_lead b of None \<Rightarrow> False | Some (count, val) \<Rightarrow>
            if count > length ys then False
            else (case utf8_tail count val ys of None \<Rightarrow> False
                  | Some (v, zs) \<Rightarrow> if utf8_bad count v then False else pb_valid_loop zs)"
          using 1(2) Cons False by (simp add: lead_same)
        then obtain n a where l: "decode_lead b = Some (n, a)" by (cases "decode_lead b") auto
        then have n: "n \<le> length ys" using v by (cases "n \<le> length ys") auto
        then obtain v' zs where "utf8_tail n a ys = Some (v', zs)" using v l by (cases "utf8_tail n a ys") auto
        then show ?thesis using that [OF l n] v l n by (auto split: if_splits)
      qed
      then have t: "decode_tail a (take n ys) = Some v" "zs = drop n ys" by (subst (asm) tail_same, auto)+
      have "\<not> (n = 1 \<and> v < 128)"
      proof
        assume n: "n = 1 \<and> v < 128"
        obtain k where k: "b = of_nat (192 + k)" "a = of_nat k" "k < 32"
          using d(1) n by (cases rule: lead_form) auto
        obtain ms where ms: "\<forall>m\<in>set ms. m < 64" "take n ys = map (\<lambda>m. of_nat (128 + m)) ms"
            "v = of_nat (foldl (\<lambda>v m. v * 64 + m) k ms)"
          using cont_tail [of k "take n ys" v] t(1) k(2) by blast
        have "length ms = 1" using arg_cong [OF ms(2), of length] n d(2) by simp
        then obtain m where m: "m < 64" "v = of_nat (k * 64 + m)" using ms(1,3) by (auto simp: length_Suc_conv)
        have "k * 64 + m < 2 ^ 32" using m k(3) by simp
        then have "unat v = k * 64 + m" unfolding m(2) by (simp only: unat_of_nat) simp
        then have "k < 2" using n by (simp add: word_less_nat_alt)
        moreover have "194 \<le> unat b" using d(1) n by (auto simp: decode_lead_def word_le_nat_alt split: if_splits)
        ultimately show False using k(1,3) byte_facts(1) [of "192 + k"] by simp
      qed
      then have ok: "\<not> decode_bad n v" using d(4) bad_same by blast
      have "length (take n ys) = n" using d(2) by simp
      from decoded_is_encoded [OF d(1) t(1) this ok]
      have e: "b # take n ys = tc_utf8_encode v" "scalar v" .
      have "xs = (b # take n ys) @ zs" using Cons t(2) by simp
      then have "xs = tc_utf8_encode v @ zs" "scalar v" unfolding e(1) using e(2) by simp_all
      then show ?thesis using d(5) by blast
    qed
    then obtain cp zs where s: "scalar cp" "xs = tc_utf8_encode cp @ zs" "pb_valid_loop zs" by blast
    then have "length zs < length xs" using ne [of cp] by simp
    then obtain cps where "\<forall>cp\<in>set cps. scalar cp" "zs = concat (map tc_utf8_encode cps)" using 1(1) s(3) by blast
    then show ?thesis using s by (intro exI [of _ "cp # cps"]) simp
  qed
qed

text \<open>
  The UTF-8 check of the Protobuf runtime agrees with the encoder of the terminal runtime: it
  accepts a string exactly if the string is a sequence of encoded Unicode scalars (and its pointer is
  not null unless it is empty).
\<close>

theorem pb_valid_utf8_exact:
  "tc_pb_valid_utf8 s \<longleftrightarrow> \<not> (ts_data s = None \<and> ts_length s \<noteq> 0)
     \<and> (\<exists>cps. (\<forall>cp\<in>set cps. scalar cp) \<and> ts_bytes s = concat (map tc_utf8_encode cps))"
proof -
  have "pb_valid_loop (concat (map tc_utf8_encode cps))" if "\<forall>cp\<in>set cps. scalar cp" for cps
    using that
  proof (induction cps)
    case (Cons cp cps)
    have lt: "unat cp < 2 ^ 32" by (rule order_less_le_trans [OF unsigned_less]) simp
    show ?case using Cons valid_utf8_bytes [OF _ lt] by (simp add: encode_bytes)
  qed simp
  then show ?thesis using pb_valid_encoded by (auto simp: tc_pb_valid_utf8_def)
qed

end
