(* ===== verification/Screen.thy ===== *)
theory Screen
  imports Utf8
begin

text \<open>
  The screen of \<open>runtime/tui.c\<close>: the grid of cells that a program draws (\<open>back\<close>) and the one it has
  sent to the terminal (\<open>front\<close>), creating and resizing a window, clearing it, drawing characters and
  clipped text. A write outside the grid, and an \<open>int\<close> subtraction that overflows, is \<open>None\<close>. Proved: no
  drawing call writes outside the grid, whatever its arguments. What is sent to the terminal is in
  \<open>Render\<close>, the queue of events in \<open>Events\<close>, the widgets in \<open>Widget\<close>.
\<close>

section \<open>Cells and windows\<close>

record TcUiCell =
  cell_codepoint :: u32
  cell_foreground :: u32
  cell_background :: u32
  cell_attributes :: byte
  cell_width :: byte

record TcUiEvent =
  ev_kind :: int
  ev_key :: int
  ev_x :: int
  ev_y :: int
  ev_width :: int
  ev_height :: int
  ev_codepoint :: u32

record TcUi =
  ui_width :: int
  ui_height :: int
  ui_headless :: bool
  ui_changed :: int
  ui_front :: "TcUiCell list"
  ui_back :: "TcUiCell list"
  ui_events :: "TcUiEvent list"
  ui_event_read :: u32
  ui_event_write :: u32

text \<open>What \<open>memset\<close> and \<open>calloc\<close> leave in a cell.\<close>

definition unknown_cell :: TcUiCell where
  "unknown_cell = \<lparr>cell_codepoint = - 1, cell_foreground = - 1, cell_background = - 1, cell_attributes = - 1,
     cell_width = - 1\<rparr>"

definition zero_cell :: TcUiCell where
  "zero_cell = \<lparr>cell_codepoint = 0, cell_foreground = 0, cell_background = 0, cell_attributes = 0, cell_width = 0\<rparr>"

definition zero_event :: TcUiEvent where
  "zero_event = \<lparr>ev_kind = 0, ev_key = 0, ev_x = 0, ev_y = 0, ev_width = 0, ev_height = 0, ev_codepoint = 0\<rparr>"

text \<open>Storing at an index of an array; outside the array the behaviour of the program is undefined.\<close>

definition poke :: "nat \<Rightarrow> 'a \<Rightarrow> 'a list \<Rightarrow> 'a list option" where
  "poke i x xs = (if i < length xs then Some (xs[i := x]) else None)"

text \<open>\<open>for (x = a; x < a + n; x++) body\<close>\<close>

primrec for_to :: "nat \<Rightarrow> (int \<Rightarrow> 's \<Rightarrow> 's option) \<Rightarrow> int \<Rightarrow> 's \<Rightarrow> 's option" where
  "for_to 0 body x s = Some s"
| "for_to (Suc n) body x s = Option.bind (body x s) (for_to n body (x + 1))"

lemma for_to_keeps:
  assumes "\<And>k s. k < n \<Longrightarrow> I (x + int k) s \<Longrightarrow> \<exists>s'. body (x + int k) s = Some s' \<and> I (x + int k + 1) s'" "I x s"
  shows "\<exists>s'. for_to n body x s = Some s' \<and> I (x + int n) s'"
  using assms
proof (induction n arbitrary: x s)
  case (Suc n)
  obtain s1 where s1: "body x s = Some s1" "I (x + 1) s1" using Suc.prems(1) [of 0 s] Suc.prems(2) by auto
  have "\<exists>s'. body (x + 1 + int k) s = Some s' \<and> I (x + 1 + int k + 1) s'" if "k < n" "I (x + 1 + int k) s" for k s
    using Suc.prems(1) [of "Suc k" s] that by (simp add: add_ac)
  from Suc.IH [OF this s1(2)] show ?case using s1(1) by (simp add: add_ac)
qed simp

definition tc_ui_width :: "u32 \<Rightarrow> int" where
  "tc_ui_width cp =
     (if cp \<ge> 0x1100 \<and>
         ((cp \<le> 0x115f) \<or> (cp \<ge> 0x2329 \<and> cp \<le> 0x232a) \<or> (cp \<ge> 0x2e80 \<and> cp \<le> 0xa4cf) \<or>
          (cp \<ge> 0xac00 \<and> cp \<le> 0xd7a3) \<or> (cp \<ge> 0xf900 \<and> cp \<le> 0xfaff) \<or>
          (cp \<ge> 0xfe10 \<and> cp \<le> 0xfe19) \<or> (cp \<ge> 0xfe30 \<and> cp \<le> 0xfe6f) \<or>
          (cp \<ge> 0xff00 \<and> cp \<le> 0xff60) \<or> (cp \<ge> 0xffe0 \<and> cp \<le> 0xffe6) \<or>
          (cp \<ge> 0x1f300 \<and> cp \<le> 0x1faff) \<or> (cp \<ge> 0x20000 \<and> cp \<le> 0x3fffd))
      then 2 else 1)"

text \<open>\<open>memory\<close> says whether both grids can be allocated.\<close>

definition tc_ui_resize_impl :: "bool \<Rightarrow> int \<Rightarrow> int \<Rightarrow> TcUi \<Rightarrow> int \<times> TcUi" where
  "tc_ui_resize_impl memory width height ui =
     (if width < 1 \<or> height < 1 \<or> width > 1000 \<or> height > 1000 then (3, ui)
      else if \<not> memory then (8, ui)
      else let cells = nat (width * height)
           in (0, ui\<lparr>ui_front := replicate cells unknown_cell, ui_back := replicate cells zero_cell,
                     ui_width := width, ui_height := height\<rparr>))"

text \<open>A window that has just been allocated.\<close>

definition fresh_ui :: "bool \<Rightarrow> TcUi" where
  "fresh_ui headless = \<lparr>ui_width = 0, ui_height = 0, ui_headless = headless, ui_changed = 0, ui_front = [], ui_back = [],
     ui_events = replicate 64 zero_event, ui_event_read = 0, ui_event_write = 0\<rparr>"

definition tc_ui_clear :: "u32 \<Rightarrow> u32 \<Rightarrow> TcUi \<Rightarrow> TcUi option" where
  "tc_ui_clear fg bg ui =
     (let n = nat (ui_width ui * ui_height ui);
          cell = zero_cell\<lparr>cell_codepoint := 32, cell_foreground := fg, cell_background := bg, cell_width := 1\<rparr>
      in if n \<le> length (ui_back ui) then Some (ui\<lparr>ui_back := replicate n cell @ drop n (ui_back ui)\<rparr>) else None)"

definition put_cell :: "u32 \<Rightarrow> u32 \<Rightarrow> u32 \<Rightarrow> int \<Rightarrow> TcUiCell" where
  "put_cell cp fg bg width = zero_cell\<lparr>cell_codepoint := cp, cell_foreground := fg, cell_background := bg,
     cell_width := of_int width\<rparr>"

definition tc_ui_put :: "int \<Rightarrow> int \<Rightarrow> u32 \<Rightarrow> u32 \<Rightarrow> u32 \<Rightarrow> TcUi \<Rightarrow> TcUi option" where
  "tc_ui_put x y codepoint fg bg ui =
     (let width = tc_ui_width codepoint
      in if x < 0 \<or> x \<ge> ui_width ui \<or> y < 0 \<or> y \<ge> ui_height ui then Some ui
         else
           let cp = (if codepoint < 32 \<or> (codepoint \<ge> 127 \<and> codepoint < 160) then 32 else codepoint);
               narrow = (width = 2 \<and> x + 1 \<ge> ui_width ui);
               cell = put_cell (if narrow then 32 else cp) fg bg (if narrow then 1 else width);
               i = nat (y * ui_width ui + x)
           in Option.bind (poke i cell (ui_back ui)) (\<lambda>cells.
              Option.bind (if width = 2 \<and> \<not> narrow
                           then poke (i + 1) (cell\<lparr>cell_codepoint := 0, cell_width := 0\<rparr>) cells else Some cells)
                (\<lambda>cells. Some (ui\<lparr>ui_back := cells\<rparr>))))"

lemma utf8_decode_less: "p < length xs \<Longrightarrow> (cp, q) = tc_utf8_decode xs p \<Longrightarrow> length xs - q < length xs - p"
  using utf8_decode_progress [of p xs cp q] by (metis diff_less_mono2)

text \<open>\<open>while (spaces-- && x - start < width) put(x++)\<close>\<close>

fun tab_loop :: "int \<Rightarrow> int \<Rightarrow> int \<Rightarrow> u32 \<Rightarrow> u32 \<Rightarrow> nat \<Rightarrow> int \<Rightarrow> TcUi \<Rightarrow> (int \<times> TcUi) option" where
  "tab_loop start width y fg bg 0 x ui = Some (x, ui)"
| "tab_loop start width y fg bg (Suc spaces) x ui =
     (if x - start < width
      then Option.bind (tc_ui_put x y 32 fg bg ui) (tab_loop start width y fg bg spaces (x + 1))
      else Some (x, ui))"

function text_clip_loop ::
  "int \<Rightarrow> int \<Rightarrow> int \<Rightarrow> byte list \<Rightarrow> u32 \<Rightarrow> u32 \<Rightarrow> nat \<Rightarrow> int \<Rightarrow> TcUi \<Rightarrow> TcUi option" where
  "text_clip_loop start width y str fg bg p x ui =
     (if p < length str \<and> x - start < width then
        case tc_utf8_decode str p of
          (cp, p') \<Rightarrow>
            if cp = 10 then Some ui
            else if cp = 9 then
              Option.bind (tab_loop start width y fg bg (nat (4 - (x - start) mod 4)) x ui)
                (\<lambda>(x', ui'). text_clip_loop start width y str fg bg p' x' ui')
            else if x - start + tc_ui_width cp > width then Some ui
            else Option.bind (tc_ui_put x y cp fg bg ui)
                   (text_clip_loop start width y str fg bg p' (x + tc_ui_width cp))
      else Some ui)"
  by pat_completeness auto
termination
  by (relation "measure (\<lambda>(start, width, y, str, fg, bg, p, x, ui). length str - p)")
     (auto dest: utf8_decode_less)

declare text_clip_loop.simps [simp del]

definition tc_ui_text_clip :: "int \<Rightarrow> int \<Rightarrow> TinyString \<Rightarrow> u32 \<Rightarrow> u32 \<Rightarrow> int \<Rightarrow> TcUi \<Rightarrow> TcUi option" where
  "tc_ui_text_clip x y s fg bg width ui = text_clip_loop x width y (ts_bytes s) fg bg 0 x ui"

definition tc_ui_text :: "int \<Rightarrow> int \<Rightarrow> TinyString \<Rightarrow> u32 \<Rightarrow> u32 \<Rightarrow> TcUi \<Rightarrow> TcUi option" where
  "tc_ui_text x y s fg bg ui =
     (if ui_width ui - x \<ge> 2 ^ 31 then None else tc_ui_text_clip x y s fg bg (ui_width ui - x) ui)"

section \<open>No write outside the grid\<close>

definition ui_ok :: "TcUi \<Rightarrow> bool" where
  "ui_ok ui \<longleftrightarrow> 1 \<le> ui_width ui \<and> ui_width ui \<le> 1000 \<and> 1 \<le> ui_height ui \<and> ui_height ui \<le> 1000
     \<and> length (ui_back ui) = nat (ui_width ui * ui_height ui) \<and> length (ui_front ui) = length (ui_back ui)
     \<and> length (ui_events ui) = 64 \<and> unat (ui_event_write ui - ui_event_read ui) \<le> 64"

text \<open>A drawing call changes the drawn grid only, and keeps its size.\<close>

definition draws :: "TcUi \<Rightarrow> TcUi option \<Rightarrow> bool" where
  "draws ui r \<longleftrightarrow> (\<exists>cells. r = Some (ui\<lparr>ui_back := cells\<rparr>) \<and> length cells = length (ui_back ui))"

lemma draws_same: "draws ui (Some ui)"
  unfolding draws_def by (intro exI [of _ "ui_back ui"]) simp

lemma draws_trans: "draws ui r \<Longrightarrow> r = Some ui' \<Longrightarrow> draws ui' r' \<Longrightarrow> draws ui r'"
  by (auto simp: draws_def)

lemma draws_ok: "draws ui r \<Longrightarrow> ui_ok ui \<Longrightarrow> \<exists>ui'. r = Some ui' \<and> ui_ok ui'"
  by (auto simp: draws_def ui_ok_def)

lemma grid_index:
  fixes w h x y :: int
  assumes "0 \<le> x" "x < w" "0 \<le> y" "y < h"
  shows "nat (y * w + x) < nat (w * h)"
proof -
  have "y * w + x < (y + 1) * w" using assms(2) by (simp add: distrib_right)
  also have "\<dots> \<le> h * w" using assms by (intro mult_right_mono) simp_all
  finally show ?thesis using assms by (simp add: mult.commute)
qed

lemma put_draws: "ui_ok ui \<Longrightarrow> draws ui (tc_ui_put x y cp fg bg ui)"
proof (cases "x < 0 \<or> x \<ge> ui_width ui \<or> y < 0 \<or> y \<ge> ui_height ui")
  case True
  then show ?thesis using draws_same by (simp add: tc_ui_put_def Let_def)
next
  case False
  assume ok: "ui_ok ui"
  let ?i = "nat (y * ui_width ui + x)"
  have i: "?i < length (ui_back ui)" using grid_index [of x "ui_width ui" y "ui_height ui"] False ok by (simp add: ui_ok_def)
  have j: "?i + 1 < length (ui_back ui)" if "x + 1 < ui_width ui"
    using grid_index [of "x + 1" "ui_width ui" y "ui_height ui"] that False ok by (simp add: ui_ok_def nat_add_distrib)
  have d: "draws ui (Option.bind (poke ?i c (ui_back ui)) (\<lambda>cells. Option.bind (if wide then poke (?i + 1) c' cells else Some cells)
      (\<lambda>cells. Some (ui\<lparr>ui_back := cells\<rparr>))))" if "wide \<Longrightarrow> x + 1 < ui_width ui" for c c' wide
  proof (cases wide)
    case True
    then show ?thesis using i j that unfolding draws_def by (intro exI [of _ "(ui_back ui)[?i := c, ?i + 1 := c']"]) (simp add: poke_def)
  next
    case False
    then show ?thesis using i unfolding draws_def by (intro exI [of _ "(ui_back ui)[?i := c]"]) (simp add: poke_def)
  qed
  show ?thesis unfolding tc_ui_put_def Let_def using False by (simp only: if_False) (rule d, linarith)
qed

lemma tab_draws:
  "ui_ok ui \<Longrightarrow> \<exists>x' ui'. tab_loop start width y fg bg n x ui = Some (x', ui') \<and> draws ui (Some ui')"
proof (induction n arbitrary: x ui)
  case 0
  then show ?case using draws_same by simp
next
  case (Suc n)
  show ?case
  proof (cases "x - start < width")
    case True
    obtain ui1 where u: "tc_ui_put x y 32 fg bg ui = Some ui1" "ui_ok ui1"
      using draws_ok [OF put_draws] Suc.prems by blast
    obtain x' ui' where "tab_loop start width y fg bg n (x + 1) ui1 = Some (x', ui')" "draws ui1 (Some ui')"
      using Suc.IH [OF u(2)] by blast
    then show ?thesis using True u(1) draws_trans [OF put_draws [OF Suc.prems] u(1)] by simp
  next
    case False
    then show ?thesis using draws_same by simp
  qed
qed

lemma text_clip_loop_draws: "ui_ok ui \<Longrightarrow> draws ui (text_clip_loop start width y str fg bg p x ui)"
proof (induction start width y str fg bg p x ui rule: text_clip_loop.induct)
  case (1 start width y str fg bg p x ui)
  obtain cp p' where d: "tc_utf8_decode str p = (cp, p')" by fastforce
  show ?case
  proof (cases "p < length str \<and> x - start < width \<and> cp \<noteq> 10")
    case False
    then show ?thesis using draws_same d by (subst text_clip_loop.simps) auto
  next
    case go: True
    then have g: "p < length str \<and> x - start < width" by blast
    show ?thesis
    proof (cases "cp = 9")
      case True
      obtain x' ui' where t: "tab_loop start width y fg bg (nat (4 - (x - start) mod 4)) x ui = Some (x', ui')"
          "draws ui (Some ui')" using tab_draws [OF 1(3)] by blast
      then have "ui_ok ui'" using draws_ok 1(3) by blast
      then have "draws ui' (text_clip_loop start width y str fg bg p' x' ui')"
        using 1(1) [OF g d [symmetric] _ True t(1) refl] go by simp
      then show ?thesis using go d t True draws_trans [OF t(2) refl] by (subst text_clip_loop.simps) simp
    next
      case False
      show ?thesis
      proof (cases "x - start + tc_ui_width cp > width")
        case True
        then show ?thesis using go d False draws_same by (subst text_clip_loop.simps) simp
      next
        case fits: False
        obtain ui1 where u: "tc_ui_put x y cp fg bg ui = Some ui1" "ui_ok ui1"
          using draws_ok [OF put_draws] 1(3) by blast
        have "draws ui1 (text_clip_loop start width y str fg bg p' (x + tc_ui_width cp) ui1)"
            using 1(2) [OF g d [symmetric] _ False fits u] go by simp
        then show ?thesis using go d False fits u(1) draws_trans [OF put_draws [OF 1(3)] u(1)]
          by (subst text_clip_loop.simps) simp
      qed
    qed
  qed
qed

lemma text_clip_draws: "ui_ok ui \<Longrightarrow> draws ui (tc_ui_text_clip x y s fg bg width ui)"
  by (simp add: tc_ui_text_clip_def text_clip_loop_draws)

lemma text_draws: "ui_ok ui \<Longrightarrow> - (2 ^ 31) + 1000 < x \<Longrightarrow> draws ui (tc_ui_text x y s fg bg ui)"
  by (simp add: tc_ui_text_def text_clip_draws ui_ok_def)

lemma clear_draws: "ui_ok ui \<Longrightarrow> draws ui (tc_ui_clear fg bg ui)"
  by (auto simp: tc_ui_clear_def draws_def ui_ok_def Let_def intro!: exI)

end
