(* ===== verification/Render.thy ===== *)
theory Render
  imports Screen
begin

text \<open>
  Rendering, \<open>runtime/tui.c\<close>: the growing buffer of bytes, \<open>tc_ui_render\<close>, which walks over the grid and
  writes the cells that differ from what was sent before, and \<open>tc_ui_snapshot\<close>. What the bytes do on a
  terminal is in \<open>Terminal\<close>.
\<close>

section \<open>The buffer of bytes\<close>

text \<open>
  The bytes written so far and the size of the block; a failed \<open>realloc\<close> ends the process. A write
  behind the end of the block is \<open>None\<close>.
\<close>

record TcUiBytes =
  ub_data :: "byte list"
  ub_capacity :: nat

definition ub_empty :: TcUiBytes where
  "ub_empty = \<lparr>ub_data = [], ub_capacity = 0\<rparr>"

definition tc_ui_append :: "byte list \<Rightarrow> TcUiBytes \<Rightarrow> TcUiBytes option" where
  "tc_ui_append bytes b =
     (let need = length (ub_data b) + length bytes + 1;
          capacity = (if need > ub_capacity b
                      then double_until (if ub_capacity b \<noteq> 0 then ub_capacity b else 256) need
                      else ub_capacity b)
      in if need \<le> capacity then Some \<lparr>ub_data = ub_data b @ bytes, ub_capacity = capacity\<rparr> else None)"

lemma append_Some: "\<exists>c. tc_ui_append bytes b = Some \<lparr>ub_data = ub_data b @ bytes, ub_capacity = c\<rparr>"
  using double_until_ge by (auto simp: tc_ui_append_def Let_def)

section \<open>Rendering\<close>

text \<open>The three escape sequences with their \<open>snprintf\<close> formats.\<close>

definition move_bytes :: "int \<Rightarrow> int \<Rightarrow> byte list" where
  "move_bytes y x = 27 # to_bytes (''['' @ show_int y @ '';'' @ show_int x @ ''H'')"

definition colour_bytes :: "string \<Rightarrow> u32 \<Rightarrow> byte list" where
  "colour_bytes ground c =
     27 # to_bytes (''['' @ ground @ '';2;'' @ show_nat (unat (drop_bit 16 c AND 255)) @ '';''
       @ show_nat (unat (drop_bit 8 c AND 255)) @ '';'' @ show_nat (unat (c AND 255)) @ ''m'')"

record rendering =
  rd_ui :: TcUi
  rd_bytes :: TcUiBytes
  rd_last_x :: int
  rd_last_y :: int
  rd_fg :: u32
  rd_bg :: u32

definition render_move :: "int \<Rightarrow> int \<Rightarrow> rendering \<Rightarrow> rendering option" where
  "render_move y x r =
     (if rd_last_y r \<noteq> y \<or> rd_last_x r \<noteq> x
      then Option.bind (tc_ui_append (move_bytes (y + 1) (x + 1)) (rd_bytes r)) (\<lambda>b. Some (r\<lparr>rd_bytes := b\<rparr>))
      else Some r)"

definition render_colours :: "TcUiCell \<Rightarrow> rendering \<Rightarrow> rendering option" where
  "render_colours cell r =
     (if rd_fg r \<noteq> cell_foreground cell \<or> rd_bg r \<noteq> cell_background cell
      then let fg = cell_foreground cell; bg = cell_background cell
           in Option.bind (tc_ui_append (colour_bytes ''38'' fg @ colour_bytes ''48'' bg) (rd_bytes r))
                (\<lambda>b. Some (r\<lparr>rd_fg := fg, rd_bg := bg, rd_bytes := b\<rparr>))
      else Some r)"

definition render_glyph :: "TcUiCell \<Rightarrow> rendering \<Rightarrow> rendering option" where
  "render_glyph cell r =
     Option.bind (tc_ui_append (tc_utf8_encode (if cell_codepoint cell \<noteq> 0 then cell_codepoint cell else 32)) (rd_bytes r))
       (\<lambda>b. Some (r\<lparr>rd_bytes := b\<rparr>))"

definition render_cell :: "int \<Rightarrow> int \<Rightarrow> rendering \<Rightarrow> rendering option" where
  "render_cell y x r =
     (let ui = rd_ui r; i = nat (y * ui_width ui + x)
      in if \<not> (i < length (ui_back ui) \<and> i < length (ui_front ui)) then None
         else
           let cell = ui_back ui ! i
           in if cell = ui_front ui ! i then Some r
              else
                let r = r\<lparr>rd_ui := ui\<lparr>ui_front := (ui_front ui)[i := cell], ui_changed := ui_changed ui + 1\<rparr>\<rparr>
                in if cell_width cell = 0 then Some r
                   else Option.bind (render_move y x r) (\<lambda>r.
                        Option.bind (render_colours cell r) (\<lambda>r.
                        Option.bind (render_glyph cell r) (\<lambda>r.
                        Some (r\<lparr>rd_last_x := x + uint (cell_width cell), rd_last_y := y\<rparr>)))))"

definition tc_ui_render :: "TcUi \<Rightarrow> (TinyString \<times> TcUi) option" where
  "tc_ui_render ui =
     Option.bind (for_to (nat (ui_height ui)) (\<lambda>y. for_to (nat (ui_width ui)) (render_cell y) 0) 0
        \<lparr>rd_ui = ui\<lparr>ui_changed := 0\<rparr>, rd_bytes = ub_empty, rd_last_x = - 2, rd_last_y = - 2, rd_fg = - 1, rd_bg = - 1\<rparr>)
     (\<lambda>r. Option.bind (if ub_capacity (rd_bytes r) = 0 then tc_ui_append [] (rd_bytes r) else Some (rd_bytes r))
     (\<lambda>b. Some (ts_of (ub_data b), rd_ui r)))"

text \<open>The drawn grid as text.\<close>

definition snapshot_cell :: "TcUi \<Rightarrow> int \<Rightarrow> int \<Rightarrow> TcUiBytes \<Rightarrow> TcUiBytes option" where
  "snapshot_cell ui y x b =
     (let i = nat (y * ui_width ui + x)
      in if \<not> i < length (ui_back ui) then None
         else
           let cell = ui_back ui ! i
           in if cell_width cell = 0 then Some b
              else tc_ui_append (tc_utf8_encode (if cell_codepoint cell \<noteq> 0 then cell_codepoint cell else 32)) b)"

definition tc_ui_snapshot :: "TcUi \<Rightarrow> TinyString option" where
  "tc_ui_snapshot ui =
     Option.bind (for_to (nat (ui_height ui)) (\<lambda>y b.
         Option.bind (for_to (nat (ui_width ui)) (snapshot_cell ui y) 0 b) (tc_ui_append (to_bytes [char_of (10 :: nat)])))
         0 ub_empty)
     (\<lambda>b. Some (ts_of (ub_data b)))"

end
