(* ===== verification/Terminal.thy ===== *)
theory Terminal
  imports Render
begin

text \<open>
  What \<open>tc_ui_render\<close> of \<open>runtime/tui.c\<close> does on a terminal. A terminal is modelled by how it reads
  bytes and by what it does with the commands that the program uses: moving the cursor, setting the
  colours and printing a character, which takes one or two columns and wipes the other half of a wide
  character that it overwrites. Proved: if the terminal shows the cells that were sent before (or
  anything where none were), then it shows the drawn grid once it has read what \<open>tc_ui_render\<close> returns;
  and rendering again sends nothing.
\<close>

section \<open>The terminal\<close>

text \<open>
  A column of the terminal holds a character, the second half of a wide character, or what the
  program does not know about.
\<close>

datatype shown = Lead u32 u32 u32 | Tail | Blank

datatype command = MoveTo int int | Fore u32 | Ground u32 | Print u32

record terminal =
  tm_cells :: "int \<Rightarrow> int \<Rightarrow> shown"
  tm_x :: int
  tm_y :: int
  tm_fg :: u32
  tm_bg :: u32

definition rgb :: "u32 \<Rightarrow> u32" where
  "rgb c = c AND 0xffffff"

definition wide :: "shown \<Rightarrow> bool" where
  "wide s \<longleftrightarrow> (case s of Lead cp fg bg \<Rightarrow> tc_ui_width cp = 2 | _ \<Rightarrow> False)"

text \<open>Before the columns from \<open>a\<close> up to \<open>b\<close> of a row are overwritten: the halves left over are wiped.\<close>

definition wipe_halves :: "int \<Rightarrow> int \<Rightarrow> (int \<Rightarrow> shown) \<Rightarrow> int \<Rightarrow> shown" where
  "wipe_halves a b row x =
     (if x = a - 1 \<and> wide (row x) then Blank else if x = b \<and> wide (row (b - 1)) then Blank else row x)"

definition print_row :: "int \<Rightarrow> u32 \<Rightarrow> u32 \<Rightarrow> u32 \<Rightarrow> (int \<Rightarrow> shown) \<Rightarrow> int \<Rightarrow> shown" where
  "print_row a cp fg bg row x =
     (if x = a then Lead cp fg bg else if x = a + 1 \<and> tc_ui_width cp = 2 then Tail
      else wipe_halves a (a + tc_ui_width cp) row x)"

fun exec :: "command \<Rightarrow> terminal \<Rightarrow> terminal" where
  "exec (MoveTo y x) t = t\<lparr>tm_y := y, tm_x := x\<rparr>"
| "exec (Fore c) t = t\<lparr>tm_fg := c\<rparr>"
| "exec (Ground c) t = t\<lparr>tm_bg := c\<rparr>"
| "exec (Print cp) t =
     t\<lparr>tm_cells := (\<lambda>y. if y = tm_y t then print_row (tm_x t) cp (tm_fg t) (tm_bg t) (tm_cells t y) else tm_cells t y),
       tm_x := tm_x t + tc_ui_width cp\<rparr>"

text \<open>A wide character is followed by its second half.\<close>

definition terminal_ok :: "terminal \<Rightarrow> bool" where
  "terminal_ok t \<longleftrightarrow> (\<forall>y x. wide (tm_cells t y x) \<longrightarrow> tm_cells t y (x + 1) = Tail)"

text \<open>The bytes of a command: rows and columns count from 1.\<close>

fun command_bytes :: "command \<Rightarrow> byte list" where
  "command_bytes (MoveTo y x) = move_bytes (y + 1) (x + 1)"
| "command_bytes (Fore c) = colour_bytes ''38'' c"
| "command_bytes (Ground c) = colour_bytes ''48'' c"
| "command_bytes (Print cp) = tc_utf8_encode cp"

text \<open>What a cell looks like.\<close>

definition view :: "TcUiCell \<Rightarrow> shown" where
  "view c =
     (if cell_width c = 0 then Tail
      else Lead (if cell_codepoint c = 0 then 32 else if scalar (cell_codepoint c) then cell_codepoint c else 0xfffd)
             (rgb (cell_foreground c)) (rgb (cell_background c)))"

text \<open>
  A grid as the drawing calls leave it when no wide character has been cut in two: every cell has the
  width of its character, a wide character is followed by an empty cell in the same row and every empty
  cell follows a wide character. No cell holds a control character, and no cell has both colours \<open>0xffffffff\<close>, which the renderer takes for
  the colours that it starts with.
\<close>

definition cell_ok :: "nat \<Rightarrow> TcUiCell list \<Rightarrow> nat \<Rightarrow> bool" where
  "cell_ok w cells i \<longleftrightarrow>
     (let c = cells ! i
      in (if cell_width c = 0 then i mod w \<noteq> 0 \<and> cell_width (cells ! (i - 1)) = 2
          else uint (cell_width c) = tc_ui_width (cell_codepoint c)
            \<and> (cell_width c = 2 \<longrightarrow> Suc i mod w \<noteq> 0 \<and> Suc i < length cells \<and> cell_width (cells ! Suc i) = 0))
         \<and> (cell_codepoint c = 0 \<or> (32 \<le> cell_codepoint c \<and> \<not> (127 \<le> cell_codepoint c \<and> cell_codepoint c < 160)))
         \<and> \<not> (cell_foreground c = - 1 \<and> cell_background c = - 1))"

definition grid_ok :: "nat \<Rightarrow> TcUiCell list \<Rightarrow> bool" where
  "grid_ok w cells \<longleftrightarrow> (\<forall>i < length cells. cell_ok w cells i)"

text \<open>The terminal shows the cells of a grid, as far as they have been sent.\<close>

definition displays :: "nat \<Rightarrow> TcUiCell list \<Rightarrow> terminal \<Rightarrow> bool" where
  "displays w cells t \<longleftrightarrow>
     (\<forall>i < length cells. cells ! i \<noteq> unknown_cell \<longrightarrow> tm_cells t (int (i div w)) (int (i mod w)) = view (cells ! i))"

section \<open>Reading the bytes\<close>

text \<open>The terminal's reading of a number, of one command and of a whole output.\<close>

fun read_number :: "nat \<Rightarrow> byte list \<Rightarrow> nat \<times> byte list" where
  "read_number n [] = (n, [])"
| "read_number n (b # bs) = (if 48 \<le> b \<and> b \<le> 57 then read_number (10 * n + (unat b - 48)) bs else (n, b # bs))"

text \<open>The numbers of an escape sequence, separated by semicolons, and the letter that ends it.\<close>

fun read_numbers :: "nat \<Rightarrow> byte list \<Rightarrow> (nat list \<times> byte \<times> byte list) option" where
  "read_numbers 0 bs = None"
| "read_numbers (Suc k) bs =
     (case read_number 0 bs of
        (n, []) \<Rightarrow> None
      | (n, b # more_bytes) \<Rightarrow>
          if b = 59 then map_option (\<lambda>(ns, r). (n # ns, r)) (read_numbers k more_bytes) else Some ([n], b, more_bytes))"

definition colour_of :: "nat \<Rightarrow> nat \<Rightarrow> nat \<Rightarrow> u32" where
  "colour_of r g b = of_nat (65536 * r + 256 * g + b)"

definition sequence :: "nat list \<Rightarrow> byte \<Rightarrow> command option" where
  "sequence ns b =
     (if b = 72 \<and> length ns = 2 then Some (MoveTo (int (ns ! 0) - 1) (int (ns ! 1) - 1))
      else if b = 109 \<and> length ns = 5 \<and> ns ! 1 = 2 \<and> ns ! 0 = 38 then Some (Fore (colour_of (ns ! 2) (ns ! 3) (ns ! 4)))
      else if b = 109 \<and> length ns = 5 \<and> ns ! 1 = 2 \<and> ns ! 0 = 48 then Some (Ground (colour_of (ns ! 2) (ns ! 3) (ns ! 4)))
      else None)"

definition read_command :: "byte list \<Rightarrow> (command \<times> byte list) option" where
  "read_command bs =
     (if bs \<noteq> [] \<and> bs ! 0 = 27 then
        if 1 < length bs \<and> bs ! 1 = 91 then
          Option.bind (read_numbers 5 (drop 2 bs)) (\<lambda>(ns, b, more_bytes). map_option (\<lambda>c. (c, more_bytes)) (sequence ns b))
        else None
      else let (cp, p) = tc_utf8_decode bs 0 in Some (Print cp, drop p bs))"

function terminal_reads :: "byte list \<Rightarrow> terminal \<Rightarrow> terminal option" where
  "terminal_reads bs t =
     (if bs = [] then Some t
      else case read_command bs of
             None \<Rightarrow> None
           | Some (c, more_bytes) \<Rightarrow> if length more_bytes < length bs then terminal_reads more_bytes (exec c t) else None)"
  by pat_completeness auto
termination by (relation "measure (\<lambda>(bs, t). length bs)") auto

declare terminal_reads.simps [simp del]

text \<open>The commands that the renderer sends.\<close>

fun command_ok :: "command \<Rightarrow> bool" where
  "command_ok (MoveTo y x) \<longleftrightarrow> 0 \<le> y \<and> 0 \<le> x"
| "command_ok (Fore c) \<longleftrightarrow> rgb c = c"
| "command_ok (Ground c) \<longleftrightarrow> rgb c = c"
| "command_ok (Print cp) \<longleftrightarrow> scalar cp \<and> 32 \<le> cp"

lemma to_bytes_append [simp]: "to_bytes (s @ s') = to_bytes s @ to_bytes s'"
  by (simp add: to_bytes_def)

lemma to_bytes_Cons: "to_bytes (c # s) = of_nat (of_char c) # to_bytes s"
  by (simp add: to_bytes_def)

lemma to_bytes_Nil [simp]: "to_bytes [] = []"
  by (simp add: to_bytes_def)

lemma read_digit:
  assumes "d < 10"
  shows "read_number n (to_bytes [digit d] @ bs) = read_number (10 * n + d) bs"
proof -
  have b: "of_nat (of_char (digit d)) = (of_nat (48 + d) :: byte)" using assms by (simp add: digit_def)
  have u: "unat (of_nat (48 + d) :: byte) = 48 + d" using assms by (simp only: unsigned_of_nat take_bit_eq_mod) simp
  have "(48 :: byte) \<le> of_nat (48 + d)" "of_nat (48 + d) \<le> (57 :: byte)"
    using assms by (simp_all only: word_le_nat_alt u) simp_all
  then show ?thesis unfolding to_bytes_Cons b by (simp only: to_bytes_Nil append.simps read_number.simps u) simp
qed

lemma read_show_nat:
  "read_number k (to_bytes (show_nat n) @ bs) = read_number (10 ^ length (show_nat n) * k + n) bs"
proof (induction n arbitrary: bs rule: show_nat.induct)
  case (1 n)
  show ?case
  proof (cases "n < 10")
    case True
    then show ?thesis using read_digit by (simp add: show_nat.simps [of n])
  next
    case False
    have "read_number k (to_bytes (show_nat n) @ bs)
        = read_number k (to_bytes (show_nat (n div 10)) @ to_bytes [digit (n mod 10)] @ bs)"
      using False by (simp add: show_nat.simps [of n])
    also have "\<dots> = read_number (10 ^ length (show_nat (n div 10)) * k + n div 10) (to_bytes [digit (n mod 10)] @ bs)"
      by (rule 1 [OF False])
    also have "\<dots> = read_number (10 * (10 ^ length (show_nat (n div 10)) * k + n div 10) + n mod 10) bs"
      by (rule read_digit) simp
    also have "10 * (10 ^ length (show_nat (n div 10)) * k + n div 10) + n mod 10 = 10 ^ length (show_nat n) * k + n"
      using False by (simp add: show_nat.simps [of n] algebra_simps)
    finally show ?thesis .
  qed
qed

lemma read_number_stop:
  assumes "\<not> (48 \<le> b \<and> b \<le> 57)"
  shows "read_number 0 (to_bytes (show_nat n) @ b # bs) = (n, b # bs)"
  unfolding read_show_nat using assms by auto

lemma read_numbers_step:
  "read_numbers (Suc k) (to_bytes (show_nat n) @ 59 # bs) = map_option (\<lambda>(ns, r). (n # ns, r)) (read_numbers k bs)"
  using read_number_stop [of 59 n bs] by simp

lemma read_numbers_end:
  "b = 72 \<or> b = 109 \<Longrightarrow> read_numbers (Suc k) (to_bytes (show_nat n) @ b # bs) = Some ([n], b, bs)"
  using read_number_stop [of b n bs] by auto

lemma unat_mask:
  fixes c :: u32
  shows "unat (c AND mask n) = unat c mod 2 ^ n"
  by (simp only: take_bit_eq_mask [symmetric] unsigned_take_bit_eq) (simp only: take_bit_eq_mod)

lemma rgb_parts:
  fixes n :: nat
  shows "65536 * (n div 65536 mod 256) + 256 * (n div 256 mod 256) + n mod 256 = n mod 2 ^ 24"
proof -
  have "n mod 2 ^ 24 = n mod (256 * 65536)" by simp
  also have "\<dots> = 256 * (n div 256 mod 65536) + n mod 256" by (simp only: mod_mult2_eq [of n 256 65536])
  also have "n div 256 mod 65536 = n div 256 mod (256 * 256)" by simp
  also have "\<dots> = 256 * (n div 256 div 256 mod 256) + n div 256 mod 256" by (simp only: mod_mult2_eq)
  finally show ?thesis by (simp add: div_mult2_eq [symmetric] algebra_simps)
qed

lemma colour_parts:
  "colour_of (unat (drop_bit 16 c AND 255)) (unat (drop_bit 8 c AND 255)) (unat (c AND 255)) = rgb c"
proof -
  have m: "(255 :: u32) = mask 8" "(0xffffff :: u32) = mask 24" by (simp_all add: mask_eq_exp_minus_1)
  have p: "unat (drop_bit 16 c AND 255) = unat c div 65536 mod 256" "unat (drop_bit 8 c AND 255) = unat c div 256 mod 256"
    "unat (c AND 255) = unat c mod 256"
    unfolding m unat_mask unat_parts by simp_all
  have "unat (rgb c) = unat c mod 2 ^ 24" unfolding rgb_def m unat_mask ..
  then have "colour_of (unat c div 65536 mod 256) (unat c div 256 mod 256) (unat c mod 256) = of_nat (unat (rgb c))"
    by (simp only: colour_of_def rgb_parts)
  then show ?thesis unfolding p by simp
qed

lemma five: "(5 :: nat) = Suc (Suc (Suc (Suc (Suc 0))))"
  by simp

lemma read_move:
  assumes "0 \<le> y" "0 \<le> x"
  shows "read_command (move_bytes (y + 1) (x + 1) @ bs) = Some (MoveTo y x, bs)"
proof -
  have m: "move_bytes (y + 1) (x + 1) @ bs
      = 27 # 91 # to_bytes (show_nat (nat (y + 1))) @ 59 # to_bytes (show_nat (nat (x + 1))) @ 72 # bs"
    using assms by (simp add: move_bytes_def show_int_def to_bytes_Cons)
  have "read_numbers 5 (to_bytes (show_nat (nat (y + 1))) @ 59 # to_bytes (show_nat (nat (x + 1))) @ 72 # bs)
      = Some ([nat (y + 1), nat (x + 1)], 72, bs)"
    unfolding five read_numbers_step by (subst read_numbers_end) simp_all
  then show ?thesis using assms unfolding m read_command_def sequence_def by simp
qed

lemma read_colour:
  fixes n :: nat
  assumes "(g = ''38'' \<and> n = 38) \<or> (g = ''48'' \<and> n = 48)"
  shows "read_command (colour_bytes g c @ bs) = Some (if n = 38 then Fore (rgb c) else Ground (rgb c), bs)"
proof -
  let ?r = "unat (drop_bit 16 c AND 255)" and ?g = "unat (drop_bit 8 c AND 255)" and ?b = "unat (c AND 255)"
  have g: "g = show_nat n" "''2'' = show_nat 2"
    using assms by (elim disjE conjE, simp_all only:) (code_simp)+
  have m: "colour_bytes g c @ bs = 27 # 91 # to_bytes (show_nat n) @ 59 # to_bytes (show_nat 2) @ 59 #
      to_bytes (show_nat ?r) @ 59 # to_bytes (show_nat ?g) @ 59 # to_bytes (show_nat ?b) @ 109 # bs"
    unfolding g(1) g(2) [symmetric] by (simp add: colour_bytes_def to_bytes_Cons)
  have "read_numbers 5 (to_bytes (show_nat n) @ 59 # to_bytes (show_nat 2) @ 59 #
      to_bytes (show_nat ?r) @ 59 # to_bytes (show_nat ?g) @ 59 # to_bytes (show_nat ?b) @ 109 # bs)
      = Some ([n, 2, ?r, ?g, ?b], 109, bs)"
    unfolding five read_numbers_step by (subst read_numbers_end) simp_all
  then show ?thesis using assms unfolding m read_command_def sequence_def by (auto simp: colour_parts)
qed

lemma unat_u32: "unat (cp :: u32) < 2 ^ 32"
proof -
  have "unat cp < 2 ^ LENGTH(32)" by (rule unsigned_less)
  then show ?thesis by simp
qed

lemma encoded_not_escape:
  assumes "scalar cp" "32 \<le> cp"
  shows "\<exists>b bs. tc_utf8_encode cp = b # bs \<and> b \<noteq> 27"
proof -
  have "32 \<le> unat cp" using assms(2) by (simp add: word_le_nat_alt)
  show ?thesis
  proof (cases "unat cp < 128")
    case True
    have "unat (of_nat (unat cp) :: byte) = unat cp" using True by (simp only: unsigned_of_nat take_bit_eq_mod) simp
    then have "(of_nat (unat cp) :: byte) \<noteq> 27" using \<open>32 \<le> unat cp\<close> by auto
    then show ?thesis using True encode_bytes [OF assms(1)] by (simp add: utf8_bytes_def)
  next
    case False
    show ?thesis
    proof (rule utf8_shape [of "unat cp"])
      show "scalar (of_nat (unat cp))" "unat cp < 2 ^ 32" "128 \<le> unat cp" using assms(1) False unat_u32 by simp_all
      fix l bs assume l: "utf8_bytes (unat cp) = of_nat l # bs" "128 \<le> l" "l < 256"
      have "unat (of_nat l :: byte) = l" using l(3) by (simp only: unsigned_of_nat take_bit_eq_mod) simp
      then have "(of_nat l :: byte) \<noteq> 27" using l(2) by auto
      then show ?thesis using l(1) encode_bytes [OF assms(1)] by simp
    qed
  qed
qed

lemma read_print:
  assumes "scalar cp" "32 \<le> cp"
  shows "read_command (tc_utf8_encode cp @ bs) = Some (Print cp, bs)"
proof -
  obtain b ys where e: "tc_utf8_encode cp = b # ys" "b \<noteq> 27" using encoded_not_escape [OF assms] by blast
  have "decode_char (tc_utf8_encode cp @ bs) = (cp, length (tc_utf8_encode cp))"
    using decode_utf8_bytes [of "unat cp" bs] encode_bytes [OF assms(1)] assms(1) unat_u32 [of cp] by simp
  then have "tc_utf8_decode (tc_utf8_encode cp @ bs) 0 = (cp, length (tc_utf8_encode cp))"
    using decode_drop [of 0 "tc_utf8_encode cp @ bs"] e(1) by simp
  then show ?thesis using e unfolding read_command_def by simp
qed

lemma read_command_bytes: "command_ok c \<Longrightarrow> read_command (command_bytes c @ bs) = Some (c, bs)"
  using read_move read_colour [of "''38''" 38] read_colour [of "''48''" 48] read_print by (cases c) (simp_all del: One_nat_def)

lemma command_bytes_nonempty: "command_ok c \<Longrightarrow> command_bytes c \<noteq> []"
  by (cases c) (use encoded_not_escape in \<open>fastforce simp: move_bytes_def colour_bytes_def\<close>)+

lemma terminal_reads_commands:
  "\<forall>c\<in>set cmds. command_ok c \<Longrightarrow> terminal_reads (concat (map command_bytes cmds)) t = Some (fold exec cmds t)"
proof (induction cmds arbitrary: t)
  case Nil
  then show ?case by (simp add: terminal_reads.simps)
next
  case (Cons c cmds)
  then have "command_ok c" by simp
  then show ?case using Cons.IH [of "exec c t"] Cons.prems command_bytes_nonempty read_command_bytes
    by (subst terminal_reads.simps) simp
qed

section \<open>Rendering brings the terminal up to date\<close>

lemma exec_ok: "terminal_ok t \<Longrightarrow> terminal_ok (exec c t)"
proof (cases c)
  case (Print cp)
  assume ok: "terminal_ok t"
  have row: "wide (print_row a cp fg bg row x) \<Longrightarrow> print_row a cp fg bg row (x + 1) = Tail"
    if r: "\<forall>x. wide (row x) \<longrightarrow> row (x + 1) = Tail" for a fg bg row x
  proof -
    assume w: "wide (print_row a cp fg bg row x)"
    consider "x = a" | "x \<noteq> a" by blast
    then show ?thesis
    proof cases
      case 1
      then show ?thesis using w by (simp add: print_row_def wide_def)
    next
      case 2
      have x: "x \<noteq> a - 1" "wide (row x)" "\<not> (x = a + 1 \<and> tc_ui_width cp = 2)"
        using w 2 by (auto simp: print_row_def wipe_halves_def wide_def split: if_splits)
      then have t: "row (x + 1) = Tail" using r by blast
      have "x + 1 \<noteq> a + tc_ui_width cp" using x 2 by (auto simp: tc_ui_width_def split: if_splits)
      then show ?thesis using x 2 t by (simp add: print_row_def wipe_halves_def wide_def)
    qed
  qed
  show ?thesis using ok row unfolding terminal_ok_def Print by simp
qed (simp_all add: terminal_ok_def)

definition cell_at :: "nat \<Rightarrow> terminal \<Rightarrow> nat \<Rightarrow> shown" where
  "cell_at w t j = tm_cells t (int (j div w)) (int (j mod w))"

lemma same_row:
  assumes "j div w = i div w"
  shows "int (j mod w) = int (i mod w) + (int j - int i)"
proof -
  have "int j = int (j div w * w) + int (j mod w)" "int i = int (i div w * w) + int (i mod w)"
    by (metis div_mult_mod_eq of_nat_add)+
  then show ?thesis using assms by simp
qed

lemma print_at:
  assumes "tm_y t = int (i div w)" "tm_x t = int (i mod w)"
  shows "cell_at w (exec (Print cp) t) j =
     (if j div w \<noteq> i div w then cell_at w t j
      else if j = i then Lead cp (tm_fg t) (tm_bg t)
      else if j = Suc i \<and> tc_ui_width cp = 2 then Tail
      else if Suc j = i \<and> wide (cell_at w t j) then Blank
      else if int j = int i + tc_ui_width cp
              \<and> wide (tm_cells t (int (i div w)) (int (i mod w) + tc_ui_width cp - 1)) then Blank
      else cell_at w t j)"
proof (cases "j div w = i div w")
  case True
  define X where "X = int (j mod w)"
  note m = same_row [OF True, folded X_def]
  have e: "X = int (i mod w) \<longleftrightarrow> j = i" "X = int (i mod w) + 1 \<longleftrightarrow> j = Suc i"
    "X = int (i mod w) - 1 \<longleftrightarrow> Suc j = i"
    "X = int (i mod w) + tc_ui_width cp \<longleftrightarrow> int j = int i + tc_ui_width cp"
    unfolding m by linarith+
  have "print_row (int (i mod w)) cp fg bg row X =
     (if j = i then Lead cp fg bg
      else if j = Suc i \<and> tc_ui_width cp = 2 then Tail
      else if Suc j = i \<and> wide (row X) then Blank
      else if int j = int i + tc_ui_width cp \<and> wide (row (int (i mod w) + tc_ui_width cp - 1)) then Blank
      else row X)" for row fg bg
    unfolding print_row_def wipe_halves_def e by (cases "Suc j = i") (simp_all add: e(3) [symmetric])
  then show ?thesis unfolding cell_at_def using True assms by (simp add: X_def)
next
  case False
  then show ?thesis using assms by (simp add: cell_at_def)
qed

lemma rgb_rgb: "rgb (rgb c) = rgb c"
  by (simp add: rgb_def and.assoc)

lemma colour_bytes_rgb [simp]: "colour_bytes g (rgb c) = colour_bytes g c"
proof -
  have m: "(0xffffff :: u32) = mask 24" "(255 :: u32) = mask 8" by (simp_all add: mask_eq_exp_minus_1)
  have "drop_bit n (rgb c) AND 255 = drop_bit n c AND 255" if "n \<le> 16" for n
    using that unfolding rgb_def m by (intro bit_word_eqI) (auto simp: bit_simps)
  from this [of 16] this [of 8] this [of 0] show ?thesis by (simp add: colour_bytes_def)
qed

lemma encode_fixed: "tc_utf8_encode (if scalar cp then cp else 0xfffd) = tc_utf8_encode cp"
  by (simp add: scalar_def tc_utf8_encode_def Let_def)

lemma width_fixed: "tc_ui_width (if scalar cp then cp else 0xfffd) = tc_ui_width cp"
proof (cases "scalar cp")
  case False
  then have "cp > 0x10ffff \<or> (cp \<ge> 0xd800 \<and> cp \<le> 0xdfff)" by (simp add: scalar_def)
  then have "tc_ui_width cp = 1"
    by (auto simp: tc_ui_width_def word_le_nat_alt word_less_nat_alt)
  moreover have "tc_ui_width 0xfffd = 1" by (simp add: tc_ui_width_def)
  ultimately show ?thesis using False by simp
qed simp

text \<open>What a cell shows as a character, and the command that prints it.\<close>

definition shown_codepoint :: "TcUiCell \<Rightarrow> u32" where
  "shown_codepoint c =
     (if cell_codepoint c = 0 then 32 else if scalar (cell_codepoint c) then cell_codepoint c else 0xfffd)"

lemma view_lead:
  "cell_width c \<noteq> 0 \<Longrightarrow> view c = Lead (shown_codepoint c) (rgb (cell_foreground c)) (rgb (cell_background c))"
  by (simp add: view_def shown_codepoint_def)

lemma view_tail: "view c = Tail \<longleftrightarrow> cell_width c = 0"
  by (simp add: view_def)

lemma shown_width: "tc_ui_width (shown_codepoint c) = tc_ui_width (cell_codepoint c)"
proof (cases "cell_codepoint c = 0")
  case True
  have "tc_ui_width 32 = tc_ui_width 0" by (simp add: tc_ui_width_def)
  then show ?thesis using True by (simp add: shown_codepoint_def)
next
  case False
  then show ?thesis using width_fixed [of "cell_codepoint c"] by (simp only: shown_codepoint_def if_False)
qed

lemma width_range: "1 \<le> tc_ui_width cp \<and> tc_ui_width cp \<le> 2"
  by (simp add: tc_ui_width_def)

lemma uint_two: "uint (c :: byte) = 2 \<longleftrightarrow> c = 2"
  by (simp add: word_uint_eq_iff)

text \<open>
  The terminal shows the cells before \<open>i\<close>, the later ones that need not change, and the second half of
  a wide character that was printed just before \<open>i\<close>.
\<close>

definition up_to :: "nat \<Rightarrow> TcUiCell list \<Rightarrow> TcUiCell list \<Rightarrow> nat \<Rightarrow> terminal \<Rightarrow> bool" where
  "up_to w back front i t \<longleftrightarrow> terminal_ok t
     \<and> (\<forall>j < i. j < length back \<longrightarrow> cell_at w t j = view (back ! j))
     \<and> (\<forall>j \<ge> i. j < length back \<longrightarrow> front ! j \<noteq> unknown_cell \<longrightarrow> view (back ! j) = view (front ! j)
          \<longrightarrow> cell_at w t j = view (front ! j))
     \<and> (i < length back \<longrightarrow> cell_width (back ! i) = 0 \<longrightarrow> cell_at w t i = Tail)"

lemma next_column:
  assumes "Suc i mod w \<noteq> 0"
  shows "Suc i div w = i div w" "Suc i mod w = Suc (i mod w)"
proof -
  show m: "Suc i mod w = Suc (i mod w)" using assms by (auto simp: mod_Suc split: if_splits)
  show "Suc i div w = i div w" using assms by (auto simp: div_Suc)
qed

lemma tail_after:
  assumes "terminal_ok t" "wide (cell_at w t i)" "Suc i mod w \<noteq> 0"
  shows "cell_at w t (Suc i) = Tail"
proof -
  have "tm_cells t (int (i div w)) (int (i mod w) + 1) = Tail"
    using assms(1,2) unfolding terminal_ok_def cell_at_def by blast
  then show ?thesis unfolding cell_at_def next_column [OF assms(3)] by (simp only: of_nat_Suc add.commute)
qed

lemma cell_ok_not_unknown: "cell_ok w cells i \<Longrightarrow> cells ! i \<noteq> unknown_cell"
  by (auto simp: cell_ok_def unknown_cell_def Let_def)

lemma cell_ok_tail:
  assumes "cell_ok w cells (Suc i)" "cell_width (cells ! Suc i) = 0"
  shows "Suc i mod w \<noteq> 0" "cell_width (cells ! i) = 2"
  using assms by (simp_all add: cell_ok_def Let_def)

lemma cell_ok_width:
  "cell_ok w cells i \<Longrightarrow> cell_width (cells ! i) \<noteq> 0 \<Longrightarrow> uint (cell_width (cells ! i)) = tc_ui_width (cell_codepoint (cells ! i))"
  by (simp add: cell_ok_def Let_def)

lemma cell_ok_wide:
  assumes "cell_ok w cells i" "cell_width (cells ! i) = 2"
  shows "Suc i mod w \<noteq> 0" "Suc i < length cells" "cell_width (cells ! Suc i) = 0"
  using assms by (simp_all add: cell_ok_def Let_def)

lemma wide_view:
  assumes "cell_ok w cells i"
  shows "wide (view (cells ! i)) \<longleftrightarrow> cell_width (cells ! i) = 2"
proof (cases "cell_width (cells ! i) = 0")
  case True
  then show ?thesis by (simp add: view_def wide_def)
next
  case False
  have "wide (view (cells ! i)) \<longleftrightarrow> tc_ui_width (shown_codepoint (cells ! i)) = 2"
    by (simp only: view_lead [OF False] wide_def shown.case)
  then show ?thesis by (simp only: shown_width cell_ok_width [OF assms False, symmetric] uint_two)
qed

lemma up_to_skip:
  assumes u: "up_to w back front i t" and g: "grid_ok w back" and i: "i < length back"
    and s: "back ! i = front ! i \<or> cell_width (back ! i) = 0"
  shows "up_to w back front (Suc i) t"
proof -
  have ok: "cell_ok w back j" if "j < length back" for j using g that by (simp add: grid_ok_def)
  have here: "cell_at w t i = view (back ! i)"
  proof (cases "cell_width (back ! i) = 0")
    case True
    then show ?thesis using u i by (simp add: up_to_def view_def)
  next
    case False
    then have f: "back ! i = front ! i" using s by blast
    then have "front ! i \<noteq> unknown_cell" using cell_ok_not_unknown [OF ok [OF i]] by simp
    then show ?thesis using u i f unfolding up_to_def by fastforce
  qed
  have "cell_at w t (Suc i) = Tail" if n: "Suc i < length back" "cell_width (back ! Suc i) = 0"
  proof (rule tail_after)
    show "terminal_ok t" using u by (simp add: up_to_def)
    show "wide (cell_at w t i)" using wide_view [OF ok [OF i]] cell_ok_tail [OF ok [OF n(1)] n(2)] here by simp
    show "Suc i mod w \<noteq> 0" by (rule cell_ok_tail [OF ok [OF n(1)] n(2)])
  qed
  then show ?thesis using u here unfolding up_to_def by (auto simp: less_Suc_eq)
qed

lemma up_to_print:
  assumes u: "up_to w back front i t" and g: "grid_ok w back" and i: "i < length back"
    and c: "cell_width (back ! i) \<noteq> 0"
    and t: "tm_y t = int (i div w)" "tm_x t = int (i mod w)" "tm_fg t = rgb (cell_foreground (back ! i))"
      "tm_bg t = rgb (cell_background (back ! i))"
  shows "up_to w back front (Suc i) (exec (Print (shown_codepoint (back ! i))) t)"
proof -
  let ?cp = "shown_codepoint (back ! i)"
  let ?t = "exec (Print ?cp) t"
  have ok: "cell_ok w back j" if "j < length back" for j using g that by (simp add: grid_ok_def)
  have tok: "terminal_ok t" using u by (simp add: up_to_def)
  have width: "tc_ui_width ?cp = uint (cell_width (back ! i))" using cell_ok_width [OF ok [OF i] c] by (simp add: shown_width)
  note at = print_at [OF t(1,2), of ?cp, folded cell_at_def]
  have before: "cell_at w ?t j = view (back ! j)" if j: "j < i" for j
  proof -
    have v: "cell_at w t j = view (back ! j)" using u j i by (simp add: up_to_def)
    have "\<not> (Suc j = i \<and> wide (cell_at w t j))"
    proof
      assume a: "Suc j = i \<and> wide (cell_at w t j)"
      then have "cell_width (back ! j) = 2" using wide_view [OF ok, of j] v j i by simp
      from cell_ok_wide(3) [OF ok this] a c j i show False by simp
    qed
    moreover have "int j \<noteq> int i + tc_ui_width ?cp" using j width_range [of ?cp] by linarith
    ultimately show ?thesis using j v unfolding at by (simp only: if_False) auto
  qed
  have here: "cell_at w ?t i = view (back ! i)" unfolding at using t c by (simp add: view_lead)
  have half: "cell_at w ?t (Suc i) = Tail" if n: "Suc i < length back" "cell_width (back ! Suc i) = 0"
  proof -
    note l = cell_ok_tail [OF ok [OF n(1)] n(2)]
    then show ?thesis unfolding at using next_column [OF l(1)] width by simp
  qed
  have later: "cell_at w ?t j = view (front ! j)"
    if j: "Suc i \<le> j" "j < length back" "front ! j \<noteq> unknown_cell" "view (back ! j) = view (front ! j)" for j
  proof -
    have v: "cell_at w t j = view (back ! j)" using u j unfolding up_to_def by simp
    show ?thesis
    proof (cases "j div w = i div w \<and> int j = int i + tc_ui_width ?cp
        \<and> wide (tm_cells t (int (i div w)) (int (i mod w) + tc_ui_width ?cp - 1))")
      case True
      then have row: "j div w = i div w" and d: "int j = int i + tc_ui_width ?cp"
        and w': "wide (tm_cells t (int (i div w)) (int (i mod w) + tc_ui_width ?cp - 1))" by blast+
      have "tm_cells t (int (i div w)) (int (i mod w) + tc_ui_width ?cp) = Tail"
        using tok w' unfolding terminal_ok_def by fastforce
      then have "cell_at w t j = Tail" unfolding cell_at_def row same_row [OF row] using d by simp
      then have z: "cell_width (back ! j) = 0" using v by (simp add: view_tail)
      obtain k where k: "j = Suc k" using j(1) by (cases j) simp_all
      have lead: "cell_width (back ! k) = 2"
        by (rule cell_ok_tail(2) [OF ok [OF j(2), unfolded k] z [unfolded k]])
      then have "k \<noteq> i" using width d k by auto
      then have "tc_ui_width ?cp = 2" "k = Suc i" using d k width_range [of ?cp] by auto
      then have "cell_width (back ! k) = 0" using cell_ok_wide(3) [OF ok [OF i]] width uint_two by simp
      then show ?thesis using lead by simp
    next
      case False
      show ?thesis
      proof (cases "j = Suc i \<and> tc_ui_width ?cp = 2")
        case True
        then have two: "cell_width (back ! i) = 2" using width uint_two by simp
        note n = cell_ok_wide [OF ok [OF i] two]
        then show ?thesis using half n(2) True j(4) by (simp add: view_def)
      next
        case no: False
        have "cell_at w ?t j = cell_at w t j" unfolding at using False no j(1) by auto
        then show ?thesis using v j(4) by simp
      qed
    qed
  qed
  show ?thesis unfolding up_to_def
    using exec_ok [OF tok, of "Print ?cp"] before here half later by (auto simp: less_Suc_eq simp del: exec.simps)
qed

text \<open>
  What holds when the cells before \<open>i\<close> have been visited: the bytes written so far are those of
  commands after which the terminal is up to date that far, and its cursor and colours are the ones the
  renderer remembers.
\<close>

definition sent :: "TcUi \<Rightarrow> terminal \<Rightarrow> nat \<Rightarrow> rendering \<Rightarrow> command list \<Rightarrow> bool" where
  "sent ui t0 i r cmds \<longleftrightarrow>
     (let t = fold exec cmds t0; back = ui_back ui; front = ui_front ui
      in rd_ui r = ui\<lparr>ui_front := take i back @ drop i front,
                       ui_changed := int (length (filter (\<lambda>j. back ! j \<noteq> front ! j) [0..<i]))\<rparr>
       \<and> ub_data (rd_bytes r) = concat (map command_bytes cmds) \<and> (\<forall>c\<in>set cmds. command_ok c)
       \<and> (0 \<le> rd_last_x r \<longrightarrow> tm_x t = rd_last_x r \<and> tm_y t = rd_last_y r)
       \<and> ((rd_fg r = - 1 \<and> rd_bg r = - 1) \<or> (tm_fg t = rgb (rd_fg r) \<and> tm_bg t = rgb (rd_bg r)))
       \<and> up_to (nat (ui_width ui)) back front i t)"

lemma up_to_cong: "tm_cells t' = tm_cells t \<Longrightarrow> up_to w back front i t' = up_to w back front i t"
  by (simp add: up_to_def terminal_ok_def cell_at_def)

text \<open>Bringing the cursor to the cell, then the colours, then the character.\<close>

lemma render_move_sends:
  assumes "0 \<le> rd_last_x r \<Longrightarrow> tm_x t = rd_last_x r \<and> tm_y t = rd_last_y r" "0 \<le> x" "0 \<le> y"
  shows "\<exists>b cmds. render_move y x r = Some (r\<lparr>rd_bytes := b\<rparr>)
     \<and> ub_data b = ub_data (rd_bytes r) @ concat (map command_bytes cmds)
     \<and> (\<forall>c\<in>set cmds. command_ok c) \<and> fold exec cmds t = t\<lparr>tm_x := x, tm_y := y\<rparr>"
proof (cases "rd_last_y r \<noteq> y \<or> rd_last_x r \<noteq> x")
  case True
  obtain c where "tc_ui_append (move_bytes (y + 1) (x + 1)) (rd_bytes r)
      = Some \<lparr>ub_data = ub_data (rd_bytes r) @ move_bytes (y + 1) (x + 1), ub_capacity = c\<rparr>" using append_Some by blast
  then show ?thesis using True assms by (intro exI conjI exI [of _ "[MoveTo y x]"]) (auto simp: render_move_def)
next
  case False
  then have "t\<lparr>tm_x := x, tm_y := y\<rparr> = t" using assms by simp
  then show ?thesis using False
    by (intro exI [of _ "rd_bytes r"] exI [of _ "[]"]) (simp add: render_move_def)
qed

lemma render_colours_sends:
  assumes "(rd_fg r = - 1 \<and> rd_bg r = - 1) \<or> (tm_fg t = rgb (rd_fg r) \<and> tm_bg t = rgb (rd_bg r))"
    and "\<not> (cell_foreground cell = - 1 \<and> cell_background cell = - 1)"
  shows "\<exists>b cmds. render_colours cell r
       = Some (r\<lparr>rd_fg := cell_foreground cell, rd_bg := cell_background cell, rd_bytes := b\<rparr>)
     \<and> ub_data b = ub_data (rd_bytes r) @ concat (map command_bytes cmds)
     \<and> (\<forall>c\<in>set cmds. command_ok c)
     \<and> fold exec cmds t = t\<lparr>tm_fg := rgb (cell_foreground cell), tm_bg := rgb (cell_background cell)\<rparr>"
proof (cases "rd_fg r \<noteq> cell_foreground cell \<or> rd_bg r \<noteq> cell_background cell")
  case True
  let ?fg = "cell_foreground cell" and ?bg = "cell_background cell"
  let ?new = "colour_bytes ''38'' ?fg @ colour_bytes ''48'' ?bg"
  obtain c where a: "tc_ui_append ?new (rd_bytes r) = Some \<lparr>ub_data = ub_data (rd_bytes r) @ ?new, ub_capacity = c\<rparr>"
    using append_Some by blast
  show ?thesis
    by (rule exI [of _ "\<lparr>ub_data = ub_data (rd_bytes r) @ ?new, ub_capacity = c\<rparr>"],
        rule exI [of _ "[Fore (rgb ?fg), Ground (rgb ?bg)]"])
       (use True a in \<open>simp add: render_colours_def Let_def rgb_rgb\<close>)
next
  case False
  then have "t\<lparr>tm_fg := rgb (cell_foreground cell), tm_bg := rgb (cell_background cell)\<rparr> = t"
    "r\<lparr>rd_fg := cell_foreground cell, rd_bg := cell_background cell, rd_bytes := rd_bytes r\<rparr> = r"
    using assms by auto
  then show ?thesis using False
    by (intro exI [of _ "rd_bytes r"] exI [of _ "[]"]) (simp add: render_colours_def)
qed

lemma render_glyph_sends:
  "\<exists>b. render_glyph cell r = Some (r\<lparr>rd_bytes := b\<rparr>)
     \<and> ub_data b = ub_data (rd_bytes r) @ command_bytes (Print (shown_codepoint cell))"
proof -
  let ?new = "tc_utf8_encode (if cell_codepoint cell \<noteq> 0 then cell_codepoint cell else 32)"
  obtain c where "tc_ui_append ?new (rd_bytes r) = Some \<lparr>ub_data = ub_data (rd_bytes r) @ ?new, ub_capacity = c\<rparr>"
    using append_Some by blast
  moreover have "?new = command_bytes (Print (shown_codepoint cell))"
    using encode_fixed [of "cell_codepoint cell"] by (simp add: shown_codepoint_def)
  ultimately show ?thesis
    by (intro exI [of _ "\<lparr>ub_data = ub_data (rd_bytes r) @ ?new, ub_capacity = c\<rparr>"]) (simp add: render_glyph_def)
qed

lemma front_step:
  assumes "i < length back" "length front = length back"
  shows "(take i back @ drop i front)[i := back ! i] = take (Suc i) back @ drop (Suc i) front"
    and "back ! i = front ! i \<Longrightarrow> take i back @ drop i front = take (Suc i) back @ drop (Suc i) front"
proof -
  have d: "drop i front = front ! i # drop (Suc i) front" using assms by (simp add: Cons_nth_drop_Suc)
  have t: "take (Suc i) back = take i back @ [back ! i]" by (rule take_Suc_conv_app_nth [OF assms(1)])
  show "(take i back @ drop i front)[i := back ! i] = take (Suc i) back @ drop (Suc i) front"
    unfolding d t using assms by (simp add: list_update_append)
  show "back ! i = front ! i \<Longrightarrow> take i back @ drop i front = take (Suc i) back @ drop (Suc i) front"
    unfolding d t by simp
qed

text \<open>Visiting one cell.\<close>

lemma render_cell_sends:
  assumes s: "sent ui t0 i r cmds" and g: "grid_ok (nat (ui_width ui)) (ui_back ui)"
    and len: "length (ui_front ui) = length (ui_back ui)" "i < length (ui_back ui)"
    and pos: "nat (y * ui_width ui + x) = i" "y = int (i div nat (ui_width ui))" "x = int (i mod nat (ui_width ui))"
  shows "\<exists>r' cmds'. render_cell y x r = Some r' \<and> sent ui t0 (Suc i) r' cmds'"
proof -
  let ?drawn = "ui_back ui" and ?front = "ui_front ui" and ?t = "fold exec cmds t0"
  let ?cell = "?drawn ! i"
  let ?ui = "ui\<lparr>ui_front := take (Suc i) ?drawn @ drop (Suc i) ?front,
     ui_changed := int (length (filter (\<lambda>j. ?drawn ! j \<noteq> ?front ! j) [0..<Suc i]))\<rparr>"
  have ui: "rd_ui r = ui\<lparr>ui_front := take i ?drawn @ drop i ?front,
      ui_changed := int (length (filter (\<lambda>j. ?drawn ! j \<noteq> ?front ! j) [0..<i]))\<rparr>"
    and bytes: "ub_data (rd_bytes r) = concat (map command_bytes cmds)"
    and cmds: "\<forall>c\<in>set cmds. command_ok c"
    and cursor: "0 \<le> rd_last_x r \<Longrightarrow> tm_x ?t = rd_last_x r \<and> tm_y ?t = rd_last_y r"
    and colours: "(rd_fg r = - 1 \<and> rd_bg r = - 1) \<or> (tm_fg ?t = rgb (rd_fg r) \<and> tm_bg ?t = rgb (rd_bg r))"
    and up: "up_to (nat (ui_width ui)) ?drawn ?front i ?t"
    using s unfolding sent_def Let_def by blast+
  have front: "ui_front (rd_ui r) ! i = ?front ! i" using len by (simp add: ui nth_append)
  have at: "nat (y * ui_width (rd_ui r) + x) = i" and here: "ui_back (rd_ui r) ! i = ?cell" using pos(1) by (simp_all add: ui)
  have range: "i < length (ui_back (rd_ui r)) \<and> i < length (ui_front (rd_ui r))" using len by (simp add: ui)
  show ?thesis
  proof (cases "?cell = ?front ! i")
    case True
    have "rd_ui r = ?ui" using True front_step(2) [OF len(2,1) True] by (simp add: ui)
    then have "sent ui t0 (Suc i) r cmds"
      using s up_to_skip [OF up g len(2)] True unfolding sent_def Let_def by simp
    moreover have "render_cell y x r = Some r"
      unfolding render_cell_def Let_def at here front using True range by (simp only: simp_thms if_False if_True)
    ultimately show ?thesis by blast
  next
    case differs: False
    let ?r = "r\<lparr>rd_ui := ?ui\<rparr>"
    have ui': "rd_ui r\<lparr>ui_front := (ui_front (rd_ui r))[i := ?cell], ui_changed := ui_changed (rd_ui r) + 1\<rparr> = ?ui"
      using differs front_step(1) [OF len(2,1)] by (simp add: ui)
    have cell: "render_cell y x r =
       (if cell_width ?cell = 0 then Some ?r
        else Option.bind (render_move y x ?r) (\<lambda>r. Option.bind (render_colours ?cell r) (\<lambda>r.
             Option.bind (render_glyph ?cell r) (\<lambda>r. Some (r\<lparr>rd_last_x := x + uint (cell_width ?cell), rd_last_y := y\<rparr>)))))"
      unfolding render_cell_def Let_def at here using differs front range by (simp add: ui')
    show ?thesis
    proof (cases "cell_width ?cell = 0")
      case True
      have "sent ui t0 (Suc i) ?r cmds"
        using bytes cmds cursor colours up_to_skip [OF up g len(2)] True unfolding sent_def Let_def by simp
      then show ?thesis using cell True by auto
    next
      case False
      obtain b1 c1 where 1: "render_move y x ?r = Some (?r\<lparr>rd_bytes := b1\<rparr>)"
          "ub_data b1 = ub_data (rd_bytes ?r) @ concat (map command_bytes c1)"
          "\<forall>c\<in>set c1. command_ok c" "fold exec c1 ?t = ?t\<lparr>tm_x := x, tm_y := y\<rparr>"
        using render_move_sends [of ?r ?t x y] cursor pos(2,3) by auto
      let ?r1 = "?r\<lparr>rd_bytes := b1\<rparr>" and ?t1 = "?t\<lparr>tm_x := x, tm_y := y\<rparr>"
      have ok: "cell_ok (nat (ui_width ui)) ?drawn i" using g len(2) by (simp add: grid_ok_def)
      then have nc: "\<not> (cell_foreground ?cell = - 1 \<and> cell_background ?cell = - 1)" by (simp add: cell_ok_def Let_def)
      obtain b2 c2 where 2: "render_colours ?cell ?r1
          = Some (?r1\<lparr>rd_fg := cell_foreground ?cell, rd_bg := cell_background ?cell, rd_bytes := b2\<rparr>)"
          "ub_data b2 = ub_data b1 @ concat (map command_bytes c2)"
          "\<forall>c\<in>set c2. command_ok c" "fold exec c2 ?t1 = ?t1\<lparr>tm_fg := rgb (cell_foreground ?cell), tm_bg := rgb (cell_background ?cell)\<rparr>"
        using render_colours_sends [of ?r1 ?t1 ?cell] colours nc by auto
      let ?r2 = "?r1\<lparr>rd_fg := cell_foreground ?cell, rd_bg := cell_background ?cell, rd_bytes := b2\<rparr>"
      let ?t2 = "?t1\<lparr>tm_fg := rgb (cell_foreground ?cell), tm_bg := rgb (cell_background ?cell)\<rparr>"
      obtain b3 where 3: "render_glyph ?cell ?r2 = Some (?r2\<lparr>rd_bytes := b3\<rparr>)"
          "ub_data b3 = ub_data b2 @ command_bytes (Print (shown_codepoint ?cell))"
        using render_glyph_sends [of ?cell ?r2] by auto
      let ?cmds = "cmds @ c1 @ c2 @ [Print (shown_codepoint ?cell)]"
      let ?r3 = "?r2\<lparr>rd_bytes := b3, rd_last_x := x + uint (cell_width ?cell), rd_last_y := y\<rparr>"
      have t3: "fold exec ?cmds t0 = exec (Print (shown_codepoint ?cell)) ?t2" using 1(4) 2(4) by simp
      have up2: "up_to (nat (ui_width ui)) ?drawn ?front i ?t2"
        by (rule iffD2 [OF up_to_cong up]) simp
      have "up_to (nat (ui_width ui)) ?drawn ?front (Suc i) (fold exec ?cmds t0)"
        unfolding t3 by (rule up_to_print [OF up2 g len(2) False]) (use pos in simp_all)
      moreover have "tc_ui_width (shown_codepoint ?cell) = uint (cell_width ?cell)"
        using cell_ok_width [OF ok False] by (simp add: shown_width)
      then have "tm_x (fold exec ?cmds t0) = x + uint (cell_width ?cell) \<and> tm_y (fold exec ?cmds t0) = y
          \<and> tm_fg (fold exec ?cmds t0) = rgb (cell_foreground ?cell) \<and> tm_bg (fold exec ?cmds t0) = rgb (cell_background ?cell)"
        unfolding t3 by simp
      moreover have "ub_data b3 = concat (map command_bytes ?cmds)" using bytes 1(2) 2(2) 3(2) by simp
      moreover have "32 \<le> shown_codepoint ?cell \<and> scalar (shown_codepoint ?cell)"
        using ok by (auto simp: cell_ok_def Let_def shown_codepoint_def scalar_def)
      then have "\<forall>c\<in>set ?cmds. command_ok c" using cmds 1(3) 2(3) by auto
      ultimately have "sent ui t0 (Suc i) ?r3 ?cmds"
        unfolding sent_def Let_def by (simp del: fold_append map_append concat_append upt_Suc)
      moreover have "render_cell y x r = Some ?r3" unfolding cell using False 1(1) 2(1) 3(1) by simp
      ultimately show ?thesis by blast
    qed
  qed
qed


lemma render_row_sends:
  assumes ok: "ui_ok ui" and g: "grid_ok (nat (ui_width ui)) (ui_back ui)" and y: "0 \<le> y" "y < ui_height ui"
    and s: "\<exists>cmds. sent ui t0 (nat y * nat (ui_width ui)) r cmds"
  shows "\<exists>r'. for_to (nat (ui_width ui)) (render_cell y) 0 r = Some r'
     \<and> (\<exists>cmds. sent ui t0 (nat (y + 1) * nat (ui_width ui)) r' cmds)"
proof -
  let ?w = "nat (ui_width ui)"
  let ?I = "\<lambda>x r. \<exists>cmds. sent ui t0 (nat y * ?w + nat x) r cmds"
  have "\<exists>r'. for_to ?w (render_cell y) 0 r = Some r' \<and> ?I (0 + int ?w) r'"
  proof (rule for_to_keeps [where I = ?I])
    show "?I 0 r" using s by simp
    fix k r assume k: "k < ?w" "?I (0 + int k) r"
    let ?i = "nat y * ?w + k"
    obtain cmds where "sent ui t0 ?i r cmds" using k by auto
    moreover have "length (ui_front ui) = length (ui_back ui)" using ok by (simp add: ui_ok_def)
    moreover have "?i < length (ui_back ui)"
      using grid_index [of "int k" "ui_width ui" y "ui_height ui"] k(1) y ok
      by (simp add: ui_ok_def nat_add_distrib nat_mult_distrib)
    moreover have "nat (y * ui_width ui + int k) = ?i" "y = int (?i div ?w)" "int k = int (?i mod ?w)"
      using k(1) y ok by (simp_all add: ui_ok_def nat_add_distrib nat_mult_distrib)
    ultimately have "\<exists>r' cmds'. render_cell y (int k) r = Some r' \<and> sent ui t0 (Suc ?i) r' cmds'"
      by (rule render_cell_sends [OF _ g])
    then show "\<exists>r'. render_cell y (0 + int k) r = Some r' \<and> ?I (0 + int k + 1) r'" by (auto simp: nat_add_distrib)
  qed
  moreover have "nat (y + 1) * ?w = nat y * ?w + ?w" using y(1) by (simp add: nat_add_distrib)
  ultimately show ?thesis by (simp only: add_0 nat_int)
qed

lemma render_sends:
  assumes ok: "ui_ok ui" and g: "grid_ok (nat (ui_width ui)) (ui_back ui)" and t: "terminal_ok t"
    and shown: "displays (nat (ui_width ui)) (ui_front ui) t"
  shows "\<exists>out cmds. tc_ui_render ui = Some (out, ui\<lparr>ui_front := ui_back ui, ui_changed :=
         int (length (filter (\<lambda>j. ui_back ui ! j \<noteq> ui_front ui ! j) [0..<length (ui_back ui)]))\<rparr>)
     \<and> ts_bytes out = concat (map command_bytes cmds) \<and> (\<forall>c\<in>set cmds. command_ok c)
     \<and> displays (nat (ui_width ui)) (ui_back ui) (fold exec cmds t)"
proof -
  let ?w = "nat (ui_width ui)"
  define r0 where "r0 = \<lparr>rd_ui = ui\<lparr>ui_changed := 0\<rparr>, rd_bytes = ub_empty, rd_last_x = - 2, rd_last_y = - 2,
    rd_fg = - 1, rd_bg = - 1\<rparr>"
  have "grid_ok ?w (ui_back ui)" using g .
  have first: "\<not> cell_width (ui_back ui ! 0) = 0" if "0 < length (ui_back ui)"
    using g that by (auto simp: grid_ok_def cell_ok_def Let_def)
  have "up_to ?w (ui_back ui) (ui_front ui) 0 t"
    using t shown first ok unfolding up_to_def displays_def cell_at_def ui_ok_def by auto
  then have "sent ui t 0 r0 []" unfolding sent_def by (simp add: r0_def ub_empty_def)
  then have s0: "\<exists>cmds. sent ui t (nat 0 * ?w) r0 cmds" by auto
  obtain r where r: "for_to (nat (ui_height ui)) (\<lambda>y. for_to ?w (render_cell y) 0) 0 r0 = Some r"
      "\<exists>cmds. sent ui t (nat (0 + int (nat (ui_height ui))) * ?w) r cmds"
    using for_to_keeps [where I = "\<lambda>y r. \<exists>cmds. sent ui t (nat y * ?w) r cmds" and n = "nat (ui_height ui)"
        and body = "\<lambda>y. for_to ?w (render_cell y) 0" and x = 0 and s = r0]
      render_row_sends [OF ok g] s0 by auto
  have n: "nat (ui_height ui) * ?w = length (ui_back ui)"
    using ok by (simp add: ui_ok_def nat_mult_distrib mult.commute)
  have "nat (0 + int (nat (ui_height ui))) * ?w = length (ui_back ui)" using n by (simp only: add_0 nat_int)
  then obtain cmds where "sent ui t (length (ui_back ui)) r cmds" using r(2) by auto
  then have s: "rd_ui r = ui\<lparr>ui_front := ui_back ui, ui_changed :=
        int (length (filter (\<lambda>j. ui_back ui ! j \<noteq> ui_front ui ! j) [0..<length (ui_back ui)]))\<rparr>"
      "ub_data (rd_bytes r) = concat (map command_bytes cmds)" "\<forall>c\<in>set cmds. command_ok c"
      "displays ?w (ui_back ui) (fold exec cmds t)"
    using ok unfolding sent_def Let_def up_to_def displays_def cell_at_def by (simp_all add: ui_ok_def)
  obtain b where b: "(if ub_capacity (rd_bytes r) = 0 then tc_ui_append [] (rd_bytes r) else Some (rd_bytes r)) = Some b"
      "ub_data b = ub_data (rd_bytes r)"
    using append_Some [of "[]" "rd_bytes r"] by (cases "ub_capacity (rd_bytes r) = 0") auto
  have "tc_ui_render ui = Some (ts_of (ub_data b), rd_ui r)"
    using r(1) b(1) unfolding tc_ui_render_def r0_def by simp
  then show ?thesis using s b(2) by auto
qed

text \<open>Where nothing differs, nothing is sent.\<close>

lemma render_same:
  assumes ok: "ui_ok ui" and same: "ui_front ui = ui_back ui"
  shows "tc_ui_render ui = Some (ts_of [], ui\<lparr>ui_changed := 0\<rparr>)"
proof -
  define r0 where "r0 = \<lparr>rd_ui = ui\<lparr>ui_changed := 0\<rparr>, rd_bytes = ub_empty, rd_last_x = - 2, rd_last_y = - 2,
    rd_fg = - 1, rd_bg = - 1\<rparr>"
  have ui: "ui_back (rd_ui r0) = ui_back ui" "ui_front (rd_ui r0) = ui_back ui" "ui_width (rd_ui r0) = ui_width ui"
    by (simp_all add: r0_def same)
  have cell: "render_cell y x r0 = Some r0" if "0 \<le> x" "x < ui_width ui" "0 \<le> y" "y < ui_height ui" for x y
    using grid_index [OF that] ok unfolding render_cell_def Let_def ui by (simp add: ui_ok_def)
  have row: "for_to (nat (ui_width ui)) (render_cell y) 0 r0 = Some r0" if "0 \<le> y" "y < ui_height ui" for y
    using for_to_keeps [where I = "\<lambda>_ r. r = r0" and n = "nat (ui_width ui)" and body = "render_cell y" and x = 0 and s = r0]
      cell [OF _ _ that] by auto
  have "for_to (nat (ui_height ui)) (\<lambda>y. for_to (nat (ui_width ui)) (render_cell y) 0) 0 r0 = Some r0"
    using for_to_keeps [where I = "\<lambda>_ r. r = r0" and n = "nat (ui_height ui)"
        and body = "\<lambda>y. for_to (nat (ui_width ui)) (render_cell y) 0" and x = 0 and s = r0] row by auto
  moreover obtain c where "tc_ui_append [] ub_empty = Some \<lparr>ub_data = [], ub_capacity = c\<rparr>"
    using append_Some [of "[]" ub_empty] by (auto simp: ub_empty_def)
  moreover have "rd_ui r0 = ui\<lparr>ui_changed := 0\<rparr>" "rd_bytes r0 = ub_empty" by (simp_all add: r0_def)
  ultimately show ?thesis unfolding tc_ui_render_def r0_def [symmetric] by (simp add: ub_empty_def)
qed

text \<open>
  Claim C4. Rendering brings the terminal up to date. Take a window whose drawn grid is well formed and
  a terminal that shows the cells sent before (nothing is asked where none were sent, as after a
  resize). \<open>tc_ui_render\<close> returns; the terminal reads all of what it returned as commands and then shows
  the drawn grid, cell by cell; the window remembers that, counts the cells that changed, and rendering
  once more sends nothing.
\<close>

theorem render_updates_terminal:
  assumes "ui_ok ui" "grid_ok (nat (ui_width ui)) (ui_back ui)" "terminal_ok t"
    and "displays (nat (ui_width ui)) (ui_front ui) t"
  shows "\<exists>out ui' t' ui''. tc_ui_render ui = Some (out, ui')
     \<and> terminal_reads (ts_bytes out) t = Some t' \<and> terminal_ok t' \<and> displays (nat (ui_width ui)) (ui_back ui) t'
     \<and> ui_back ui' = ui_back ui \<and> ui_front ui' = ui_back ui
     \<and> ui_changed ui' = int (card {j. j < length (ui_back ui) \<and> ui_back ui ! j \<noteq> ui_front ui ! j})
     \<and> tc_ui_render ui' = Some (ts_of [], ui'') \<and> ui_changed ui'' = 0"
proof -
  let ?n = "length (ui_back ui)"
  define ui' where "ui' = ui\<lparr>ui_front := ui_back ui,
    ui_changed := int (length (filter (\<lambda>j. ui_back ui ! j \<noteq> ui_front ui ! j) [0..<?n]))\<rparr>"
  obtain out cmds where r: "tc_ui_render ui = Some (out, ui')"
      "ts_bytes out = concat (map command_bytes cmds)" "\<forall>c\<in>set cmds. command_ok c"
      "displays (nat (ui_width ui)) (ui_back ui) (fold exec cmds t)"
    using render_sends [OF assms] unfolding ui'_def by blast
  have ok: "ui_ok ui'" using assms(1) by (simp add: ui'_def ui_ok_def)
  have "terminal_ok (fold exec cmds t)" using assms(3) exec_ok by (induction cmds arbitrary: t) simp_all
  moreover have "ui_changed ui' = int (card {j. j < ?n \<and> ui_back ui ! j \<noteq> ui_front ui ! j})"
    using length_filter_conv_card [of "\<lambda>j. ui_back ui ! j \<noteq> ui_front ui ! j" "[0..<?n]"]
    by (simp add: ui'_def cong: conj_cong)
  ultimately show ?thesis
    using r render_same [OF ok] terminal_reads_commands [OF r(3), of t] by (auto simp: ui'_def)
qed
definition demo_window :: TcUi where
  "demo_window = \<lparr>ui_width = 3, ui_height = 1, ui_headless = True, ui_changed = 0,
     ui_front = replicate 3 unknown_cell,
     ui_back = [put_cell 0x4e00 1 2 2, put_cell 0 1 2 0, put_cell 98 1 2 1],
     ui_events = replicate 64 zero_event, ui_event_read = 0, ui_event_write = 0\<rparr>"

definition blank_terminal :: terminal where
  "blank_terminal = \<lparr>tm_cells = (\<lambda>y x. Blank), tm_x = 0, tm_y = 0, tm_fg = 0, tm_bg = 0\<rparr>"

lemma demo_parts:
  "ui_width demo_window = 3" "length (ui_back demo_window) = 3" "ui_front demo_window = replicate 3 unknown_cell"
  "ui_back demo_window = [put_cell 0x4e00 1 2 2, put_cell 0 1 2 0, put_cell 98 1 2 1]"
  by (simp_all add: demo_window_def)

lemma demo_ok: "ui_ok demo_window" "grid_ok 3 (ui_back demo_window)" "displays 3 (ui_front demo_window) blank_terminal"
  "terminal_ok blank_terminal"
proof -
  show "ui_ok demo_window" by (simp add: ui_ok_def demo_window_def)
  have c: "cell_ok 3 (ui_back demo_window) 0" "cell_ok 3 (ui_back demo_window) 1" "cell_ok 3 (ui_back demo_window) 2"
    by (simp_all add: demo_parts cell_ok_def put_cell_def zero_cell_def tc_ui_width_def)
  have "i = 0 \<or> i = 1 \<or> i = 2" if "i < 3" for i :: nat using that by linarith
  then show "grid_ok 3 (ui_back demo_window)" unfolding grid_ok_def demo_parts(2) using c by blast
  show "displays 3 (ui_front demo_window) blank_terminal" by (simp add: displays_def demo_parts)
  show "terminal_ok blank_terminal" by (simp add: terminal_ok_def blank_terminal_def wide_def)
qed

lemma render_updates_terminal_witness:
  "\<exists>out ui' t'. tc_ui_render demo_window = Some (out, ui') \<and> terminal_reads (ts_bytes out) blank_terminal = Some t'
     \<and> tm_cells t' 0 0 = Lead 0x4e00 1 2 \<and> tm_cells t' 0 1 = Tail \<and> tm_cells t' 0 2 = Lead 98 1 2"
proof -
  have w: "nat (ui_width demo_window) = 3" by (simp add: demo_parts)
  obtain out ui' t' where r: "tc_ui_render demo_window = Some (out, ui')"
      "terminal_reads (ts_bytes out) blank_terminal = Some t'" "displays 3 (ui_back demo_window) t'"
    using render_updates_terminal [of demo_window blank_terminal, unfolded w, OF demo_ok(1,2,4,3)] by blast
  have v: "view (ui_back demo_window ! 0) = Lead 0x4e00 1 2" "view (ui_back demo_window ! 1) = Tail"
    "view (ui_back demo_window ! 2) = Lead 98 1 2" "\<forall>i\<in>{0, 1, 2}. ui_back demo_window ! i \<noteq> unknown_cell"
    by (simp_all add: demo_parts view_def put_cell_def zero_cell_def unknown_cell_def rgb_def scalar_def)
  have "tm_cells t' (int (i div 3)) (int (i mod 3)) = view (ui_back demo_window ! i)" if "i \<in> {0, 1, 2}" for i
    using r(3) [unfolded displays_def demo_parts(2), rule_format, of i] that v(4) by fastforce
  from this [of 0] this [of 1] this [of 2] have "tm_cells t' 0 0 = Lead 0x4e00 1 2 \<and> tm_cells t' 0 1 = Tail \<and> tm_cells t' 0 2 = Lead 98 1 2"
    unfolding v by simp
  then show ?thesis using r by blast
qed

text \<open>What the drawing calls leave is well formed, as long as no wide character is cut in two.\<close>

lemma clear_grid_ok:
  assumes "ui_ok ui" "\<not> (fg = - 1 \<and> bg = - 1)"
  shows "\<exists>ui'. tc_ui_clear fg bg ui = Some ui' \<and> grid_ok w (ui_back ui')"
  using assms by (simp add: tc_ui_clear_def ui_ok_def Let_def grid_ok_def cell_ok_def zero_cell_def tc_ui_width_def)

text \<open>Replacing one cell, and two neighbouring cells of a row.\<close>

lemma cell_ok_update:
  assumes ok: "cell_ok w cells j" and j: "j < length cells" "cells' ! j = cells ! j" "length cells' = length cells"
    and before: "j mod w \<noteq> 0 \<Longrightarrow> cell_width (cells ! j) = 0 \<Longrightarrow> cells' ! (j - 1) = cells ! (j - 1)"
    and after: "Suc j < length cells \<Longrightarrow> cell_width (cells ! j) = 2 \<Longrightarrow> cells' ! Suc j = cells ! Suc j"
  shows "cell_ok w cells' j"
  using ok before after unfolding cell_ok_def Let_def j(2,3) by (auto split: if_splits)

definition plain_cell :: "TcUiCell \<Rightarrow> bool" where
  "plain_cell c \<longleftrightarrow> (cell_codepoint c = 0 \<or> (32 \<le> cell_codepoint c \<and> \<not> (127 \<le> cell_codepoint c \<and> cell_codepoint c < 160)))
     \<and> \<not> (cell_foreground c = - 1 \<and> cell_background c = - 1)"

lemma grid_ok_narrow:
  assumes g: "grid_ok w cells" and i: "i < length cells" "cell_width (cells ! i) \<noteq> 0"
    and n: "Suc i mod w \<noteq> 0 \<Longrightarrow> Suc i < length cells \<Longrightarrow> cell_width (cells ! Suc i) \<noteq> 0"
    and c: "plain_cell c" "cell_width c = 1" "tc_ui_width (cell_codepoint c) = 1"
  shows "grid_ok w (cells[i := c])"
  unfolding grid_ok_def
proof (intro allI impI)
  fix j assume j: "j < length (cells[i := c])"
  show "cell_ok w (cells[i := c]) j"
  proof (cases "j = i")
    case True
    then show ?thesis using c i(1) by (simp add: cell_ok_def plain_cell_def)
  next
    case False
    have ok: "cell_ok w cells k" if "k < length cells" for k using g that by (simp add: grid_ok_def)
    show ?thesis
    proof (rule cell_ok_update [OF ok])
      assume "j mod w \<noteq> 0" "cell_width (cells ! j) = 0"
      then have "j - 1 \<noteq> i" using n j by (cases j) auto
      then show "cells[i := c] ! (j - 1) = cells ! (j - 1)" by simp
    next
      assume a: "Suc j < length cells" "cell_width (cells ! j) = 2"
      then have "cell_width (cells ! Suc j) = 0" using cell_ok_wide(3) [OF ok] j by simp
      then have "Suc j \<noteq> i" using i(2) by blast
      then show "cells[i := c] ! Suc j = cells ! Suc j" by simp
    qed (use j False in simp_all)
  qed
qed

lemma grid_ok_wide:
  assumes g: "grid_ok w cells" and i: "Suc i < length cells" "Suc i mod w \<noteq> 0" "cell_width (cells ! i) \<noteq> 0"
    and n: "Suc (Suc i) mod w \<noteq> 0 \<Longrightarrow> Suc (Suc i) < length cells \<Longrightarrow> cell_width (cells ! Suc (Suc i)) \<noteq> 0"
    and c: "plain_cell c" "cell_width c = 2" "tc_ui_width (cell_codepoint c) = 2"
    and d: "plain_cell d" "cell_width d = 0"
  shows "grid_ok w (cells[i := c, Suc i := d])"
  unfolding grid_ok_def
proof (intro allI impI)
  fix j assume j: "j < length (cells[i := c, Suc i := d])"
  show "cell_ok w (cells[i := c, Suc i := d]) j"
  proof (cases "j = i \<or> j = Suc i")
    case True
    then show ?thesis using c d i by (auto simp: cell_ok_def plain_cell_def)
  next
    case False
    have ok: "cell_ok w cells k" if "k < length cells" for k using g that by (simp add: grid_ok_def)
    show ?thesis
    proof (rule cell_ok_update [OF ok])
      assume "j mod w \<noteq> 0" "cell_width (cells ! j) = 0"
      then have "j - 1 \<noteq> Suc i" "j - 1 \<noteq> i" using n j False by (cases j; auto)+
      then show "cells[i := c, Suc i := d] ! (j - 1) = cells ! (j - 1)" by simp
    next
      assume a: "Suc j < length cells" "cell_width (cells ! j) = 2"
      then have "cell_width (cells ! Suc j) = 0" using cell_ok_wide(3) [OF ok] j by simp
      then have "Suc j \<noteq> i" using i(3) by blast
      then show "cells[i := c, Suc i := d] ! Suc j = cells ! Suc j" using False by simp
    qed (use j False in simp_all)
  qed
qed

lemma column_mod:
  assumes "0 \<le> x" "0 \<le> y" "0 < width" "int k + x \<le> width"
  shows "(nat (y * width + x) + k) mod nat width = (if int k + x = width then 0 else nat x + k)"
proof -
  have "0 \<le> y * width" using assms by simp
  then have "(nat (y * width + x) + k) mod nat width = (nat x + k) mod nat width"
    using assms by (simp add: nat_add_distrib nat_mult_distrib add.assoc)
  moreover have "int k + x = width \<Longrightarrow> nat x + k = nat width" "int k + x \<noteq> width \<Longrightarrow> nat x + k < nat width"
    using assms by linarith+
  ultimately show ?thesis by (cases "int k + x = width") simp_all
qed

text \<open>The two ways in which a character is put: as one cell, or as a wide cell with its empty cell.\<close>

lemma put_cells:
  assumes "ui_ok ui" "0 \<le> x" "x < ui_width ui" "0 \<le> y" "y < ui_height ui" "\<not> (fg = - 1 \<and> bg = - 1)"
  shows "\<exists>c. plain_cell c \<and> plain_cell (c\<lparr>cell_codepoint := 0, cell_width := 0\<rparr>) \<and>
    (if tc_ui_width cp = 2 \<and> x + 1 < ui_width ui
     then cell_width c = 2 \<and> tc_ui_width (cell_codepoint c) = 2 \<and> Suc (nat (y * ui_width ui + x)) < length (ui_back ui)
       \<and> tc_ui_put x y cp fg bg ui = Some (ui\<lparr>ui_back := (ui_back ui)[nat (y * ui_width ui + x) := c,
           Suc (nat (y * ui_width ui + x)) := c\<lparr>cell_codepoint := 0, cell_width := 0\<rparr>]\<rparr>)
     else cell_width c = 1 \<and> tc_ui_width (cell_codepoint c) = 1
       \<and> tc_ui_put x y cp fg bg ui = Some (ui\<lparr>ui_back := (ui_back ui)[nat (y * ui_width ui + x) := c]\<rparr>))"
proof -
  let ?i = "nat (y * ui_width ui + x)" and ?cells = "ui_back ui"
  define narrow where "narrow \<longleftrightarrow> tc_ui_width cp = 2 \<and> ui_width ui \<le> x + 1"
  define shown where "shown = (if narrow \<or> cp < 32 \<or> (127 \<le> cp \<and> cp < 160) then 32 else cp)"
  let ?c = "put_cell shown fg bg (if narrow then 1 else tc_ui_width cp)"
  have i: "?i < length ?cells" using grid_index [OF assms(2-5)] assms(1) by (simp add: ui_ok_def)
  have plain: "plain_cell ?c" "plain_cell (?c\<lparr>cell_codepoint := 0, cell_width := 0\<rparr>)"
    using assms(6) by (auto simp: plain_cell_def put_cell_def zero_cell_def shown_def)
  have w1: "tc_ui_width cp = 1 \<or> tc_ui_width cp = 2" by (simp add: tc_ui_width_def)
  have tw: "tc_ui_width 32 = 1" "cp < 32 \<or> (127 \<le> cp \<and> cp < 160) \<Longrightarrow> tc_ui_width cp = 1"
    by (auto simp: tc_ui_width_def word_le_nat_alt word_less_nat_alt)
  show ?thesis
  proof (cases "tc_ui_width cp = 2 \<and> x + 1 < ui_width ui")
    case False
    then have c: "(if narrow then 1 else tc_ui_width cp) = 1" using w1 by (auto simp: narrow_def)
    have "tc_ui_put x y cp fg bg ui = Some (ui\<lparr>ui_back := ?cells[?i := ?c]\<rparr>)"
      using assms(2-5) i False c unfolding tc_ui_put_def Let_def poke_def narrow_def shown_def by (auto split: if_splits)
    moreover have "cell_width ?c = 1" unfolding c by (simp add: put_cell_def)
    moreover have "tc_ui_width (cell_codepoint ?c) = 1" using tw False w1 by (auto simp: put_cell_def shown_def narrow_def)
    ultimately show ?thesis using False plain by (intro exI [of _ ?c]) simp
  next
    case True
    then have fits: "x + 1 < ui_width ui" "tc_ui_width cp = 2" "\<not> narrow" by (auto simp: narrow_def)
    have i2: "Suc ?i < length ?cells"
      using grid_index [of "x + 1" "ui_width ui" y "ui_height ui"] fits assms by (simp add: ui_ok_def nat_add_distrib)
    have "tc_ui_put x y cp fg bg ui
        = Some (ui\<lparr>ui_back := ?cells[?i := ?c, Suc ?i := ?c\<lparr>cell_codepoint := 0, cell_width := 0\<rparr>]\<rparr>)"
      using assms(2-5) i i2 fits unfolding tc_ui_put_def Let_def poke_def narrow_def shown_def by auto
    moreover have "cell_width ?c = 2" using fits by (simp add: put_cell_def)
    moreover have "tc_ui_width (cell_codepoint ?c) = 2" using tw fits by (auto simp: put_cell_def shown_def)
    ultimately show ?thesis using True plain i2 by (intro exI [of _ ?c]) simp
  qed
qed

text \<open>
  Claim C34. Drawing a character keeps the grid well formed (every wide character in two neighbouring
  cells of one row, no control characters) whenever it does not cut a wide character in two: the first
  cell that it takes is not the second half of one, nor is the cell behind the last.
\<close>

theorem put_keeps_grid:
  assumes "ui_ok ui" "grid_ok (nat (ui_width ui)) (ui_back ui)" "\<not> (fg = - 1 \<and> bg = - 1)"
    and "0 \<le> x" "x < ui_width ui" "0 \<le> y" "y < ui_height ui"
    and "cell_width (ui_back ui ! nat (y * ui_width ui + x)) \<noteq> 0"
    and "x + tc_ui_width cp < ui_width ui \<Longrightarrow> cell_width (ui_back ui ! nat (y * ui_width ui + x + tc_ui_width cp)) \<noteq> 0"
  shows "\<exists>ui'. tc_ui_put x y cp fg bg ui = Some ui' \<and> ui_ok ui' \<and> grid_ok (nat (ui_width ui)) (ui_back ui')"
proof -
  let ?w = "nat (ui_width ui)" and ?i = "nat (y * ui_width ui + x)" and ?cells = "ui_back ui"
  obtain ui' where u: "tc_ui_put x y cp fg bg ui = Some ui'" "ui_ok ui'"
    using draws_ok [OF put_draws [OF assms(1)] assms(1)] by blast
  have i: "?i < length ?cells" using grid_index [OF assms(4,5,6,7)] assms(1) by (simp add: ui_ok_def)
  have pos: "0 < ui_width ui" "0 \<le> y * ui_width ui" using assms(4-7) by simp_all
  have w1: "tc_ui_width cp = 1 \<or> tc_ui_width cp = 2" by (simp add: tc_ui_width_def)
  have next_free: "cell_width (?cells ! (?i + k)) \<noteq> 0"
    if "int k = tc_ui_width cp" "int k + x \<le> ui_width ui" "(?i + k) mod ?w \<noteq> 0" for k
  proof -
    have "nat (y * ui_width ui + x + tc_ui_width cp) = ?i + k" using that(1) assms(4) pos by (simp add: nat_add_distrib)
    moreover have "x + tc_ui_width cp < ui_width ui"
      using that column_mod [OF assms(4,6) pos(1) that(2)] by (auto split: if_splits)
    ultimately show ?thesis using assms(9) by simp
  qed
  obtain c where c: "plain_cell c" "plain_cell (c\<lparr>cell_codepoint := 0, cell_width := 0\<rparr>)"
      "if tc_ui_width cp = 2 \<and> x + 1 < ui_width ui
       then cell_width c = 2 \<and> tc_ui_width (cell_codepoint c) = 2 \<and> Suc ?i < length ?cells
         \<and> tc_ui_put x y cp fg bg ui = Some (ui\<lparr>ui_back := ?cells[?i := c, Suc ?i := c\<lparr>cell_codepoint := 0, cell_width := 0\<rparr>]\<rparr>)
       else cell_width c = 1 \<and> tc_ui_width (cell_codepoint c) = 1
         \<and> tc_ui_put x y cp fg bg ui = Some (ui\<lparr>ui_back := ?cells[?i := c]\<rparr>)"
    using put_cells [OF assms(1,4-7,3), of cp] by blast
  have "grid_ok ?w (ui_back ui')"
  proof (cases "tc_ui_width cp = 2 \<and> x + 1 < ui_width ui")
    case False
    have "cell_width (?cells ! Suc ?i) \<noteq> 0" if "Suc ?i mod ?w \<noteq> 0"
      using column_mod [of x y "ui_width ui" 1] next_free [of 1] False w1 that assms(4-6) pos by (auto split: if_splits)
    then show ?thesis using grid_ok_narrow [OF assms(2) i assms(8) _ c(1)] c(3) u False by auto
  next
    case True
    have "Suc ?i mod ?w \<noteq> 0" using column_mod [of x y "ui_width ui" 1] True assms(4,6) pos by simp
    moreover have "cell_width (?cells ! Suc (Suc ?i)) \<noteq> 0" if "Suc (Suc ?i) mod ?w \<noteq> 0"
      using next_free [of 2] True that by simp
    ultimately show ?thesis using grid_ok_wide [OF assms(2) _ _ assms(8) _ c(1) _ _ c(2)] c(3) u True by auto
  qed
  then show ?thesis using u by blast
qed

lemma put_keeps_grid_witness:
  "\<exists>ui'. tc_ui_put 2 0 0x4e01 1 2 demo_window = Some ui' \<and> grid_ok 3 (ui_back ui')"
proof -
  have w: "tc_ui_width 0x4e01 = 2" "ui_height demo_window = 1" by (simp_all add: tc_ui_width_def demo_window_def)
  show ?thesis
    using put_keeps_grid [of demo_window 1 2 2 0 "0x4e01"] demo_ok by (auto simp: demo_parts w put_cell_def)
qed

lemma render_result:
  assumes "r0 = \<lparr>rd_ui = ui\<lparr>ui_changed := 0\<rparr>, rd_bytes = ub_empty, rd_last_x = - 2, rd_last_y = - 2, rd_fg = - 1, rd_bg = - 1\<rparr>"
    and "for_to (nat (ui_height ui)) (\<lambda>y. for_to (nat (ui_width ui)) (render_cell y) 0) 0 r0 = Some r"
    and "(if ub_capacity (rd_bytes r) = 0 then tc_ui_append [] (rd_bytes r) else Some (rd_bytes r)) = Some b"
  shows "tc_ui_render ui = Some (ts_of (ub_data b), rd_ui r)"
  using assms(2,3) unfolding tc_ui_render_def assms(1) [symmetric] by simp

text \<open>A window that has been sent, and the terminal that shows it.\<close>

definition sent_window :: TcUi where
  "sent_window = demo_window\<lparr>ui_front := ui_back demo_window\<rparr>"

definition sent_terminal :: terminal where
  "sent_terminal = blank_terminal\<lparr>tm_cells := (\<lambda>y x.
     if y = 0 \<and> x = 0 then Lead 0x4e00 1 2 else if y = 0 \<and> x = 1 then Tail
     else if y = 0 \<and> x = 2 then Lead 98 1 2 else Blank)\<rparr>"

lemma sent_terminal_shows: "displays 3 (ui_front sent_window) sent_terminal" "terminal_ok sent_terminal"
proof -
  have v: "view (put_cell 0x4e00 1 2 2) = Lead 0x4e00 1 2" "view (put_cell 0 1 2 0) = Tail" "view (put_cell 98 1 2 1) = Lead 98 1 2"
    by (simp_all add: view_def put_cell_def zero_cell_def rgb_def scalar_def)
  show "displays 3 (ui_front sent_window) sent_terminal"
    unfolding displays_def
  proof (intro allI impI)
    fix i assume "i < length (ui_front sent_window)"
    then have "i < 3" by (simp add: sent_window_def demo_parts)
    then consider "i = 0" | "i = 1" | "i = 2" by linarith
    then show "tm_cells sent_terminal (int (i div 3)) (int (i mod 3)) = view (ui_front sent_window ! i)"
      by cases (simp_all add: sent_window_def sent_terminal_def demo_parts v)
  qed
  have "\<not> wide (Lead 98 1 2)" by (simp add: wide_def tc_ui_width_def)
  then show "terminal_ok sent_terminal" by (auto simp: terminal_ok_def sent_terminal_def wide_def blank_terminal_def)
qed

text \<open>
  Drawing over the second half of a wide character leaves the screen out of step with the
  terminal: \<open>tc_ui_put\<close> does not clear the first half, the renderer sees one changed cell and sends only
  that, and the terminal wipes the first half, which the window still takes for the wide character; so
  the next rendering, finding nothing changed, will not repair it.
\<close>

theorem put_over_half_splits:
  "\<exists>ui' out ui'' t'. tc_ui_put 1 0 98 1 2 sent_window = Some ui' \<and> tc_ui_render ui' = Some (out, ui'')
     \<and> ui_back ui'' ! 0 = put_cell 0x4e00 1 2 2
     \<and> terminal_reads (ts_bytes out) sent_terminal = Some t' \<and> tm_cells t' 0 0 = Blank
     \<and> tc_ui_render ui'' = Some (ts_of [], ui''\<lparr>ui_changed := 0\<rparr>)"
proof -
  let ?b = "put_cell 98 1 2 1"
  define ui' where "ui' = sent_window\<lparr>ui_back := [put_cell 0x4e00 1 2 2, ?b, ?b]\<rparr>"
  have put: "tc_ui_put 1 0 98 1 2 sent_window = Some ui'"
    by (simp add: tc_ui_put_def Let_def sent_window_def ui'_def demo_window_def poke_def tc_ui_width_def)
  have ne: "put_cell 98 1 2 1 \<noteq> put_cell 0 1 2 0" by (simp add: put_cell_def zero_cell_def)
  let ?cmds = "[MoveTo 0 1, Fore 1, Ground 2, Print 98]"
  define r0 where "r0 = \<lparr>rd_ui = ui'\<lparr>ui_changed := 0\<rparr>, rd_bytes = ub_empty, rd_last_x = - 2, rd_last_y = - 2,
    rd_fg = - 1, rd_bg = - 1\<rparr>"
  define ui'' where "ui'' = ui'\<lparr>ui_front := ui_back ui', ui_changed := 1\<rparr>"
  have size: "ui_width ui' = 3" "ui_height ui' = 1" by (simp_all add: ui'_def sent_window_def demo_window_def)
  have c0: "render_cell 0 0 r0 = Some r0"
    by (simp add: render_cell_def Let_def r0_def ui'_def sent_window_def demo_window_def)
  obtain k1 where k1: "tc_ui_append (move_bytes 1 2) ub_empty = Some \<lparr>ub_data = move_bytes 1 2, ub_capacity = k1\<rparr>"
    using append_Some [of _ ub_empty] by (auto simp: ub_empty_def)
  obtain k2 where k2: "tc_ui_append (colour_bytes ''38'' 1 @ colour_bytes ''48'' 2) \<lparr>ub_data = move_bytes 1 2, ub_capacity = k1\<rparr>
      = Some \<lparr>ub_data = move_bytes 1 2 @ colour_bytes ''38'' 1 @ colour_bytes ''48'' 2, ub_capacity = k2\<rparr>"
    using append_Some [of "colour_bytes ''38'' 1 @ colour_bytes ''48'' 2" "\<lparr>ub_data = move_bytes 1 2, ub_capacity = k1\<rparr>"]
    by auto
  obtain k3 where k3: "tc_ui_append (tc_utf8_encode 98) \<lparr>ub_data = move_bytes 1 2 @ colour_bytes ''38'' 1 @ colour_bytes ''48'' 2,
      ub_capacity = k2\<rparr> = Some \<lparr>ub_data = concat (map command_bytes ?cmds), ub_capacity = k3\<rparr>"
    using append_Some [of "tc_utf8_encode 98"
        "\<lparr>ub_data = move_bytes 1 2 @ colour_bytes ''38'' 1 @ colour_bytes ''48'' 2, ub_capacity = k2\<rparr>"] by auto
  let ?r1 = "\<lparr>rd_ui = ui'', rd_bytes = \<lparr>ub_data = concat (map command_bytes ?cmds), ub_capacity = k3\<rparr>, rd_last_x = 2,
    rd_last_y = 0, rd_fg = 1, rd_bg = 2\<rparr>"
  have parts: "cell_width ?b = 1" "cell_foreground ?b = 1" "cell_background ?b = 2" "cell_codepoint ?b = 98"
    by (simp_all add: put_cell_def)
  have ui'': "ui'\<lparr>ui_front := [put_cell 0x4e00 1 2 2, ?b, ?b], ui_changed := 1\<rparr> = ui''"
    by (simp add: ui''_def ui'_def)
  have c1: "render_cell 0 1 r0 = Some ?r1"
    using ne k1 k2 k3 ui'' by (simp add: render_cell_def Let_def r0_def size render_move_def render_colours_def render_glyph_def
        parts) (simp add: ui'_def sent_window_def demo_parts parts)
  have c2: "render_cell 0 2 ?r1 = Some ?r1"
    by (simp add: render_cell_def Let_def ui''_def size) (simp add: ui'_def)
  obtain b where b: "(if ub_capacity (rd_bytes ?r1) = 0 then tc_ui_append [] (rd_bytes ?r1) else Some (rd_bytes ?r1)) = Some b"
      "ub_data b = concat (map command_bytes ?cmds)"
    using append_Some [of "[]" "rd_bytes ?r1"] by (cases "k3 = 0") auto
  have "for_to 3 (render_cell 0) 0 r0 = Some ?r1" using c0 c1 c2 by (simp add: numeral_3_eq_3)
  then have loop: "for_to (nat (ui_height ui')) (\<lambda>y. for_to (nat (ui_width ui')) (render_cell y) 0) 0 r0 = Some ?r1"
    by (simp add: size)
  then have "tc_ui_render ui' = Some (ts_of (ub_data b), ui'')"
    using render_result [OF r0_def loop b(1)] by simp
  then obtain out where r: "tc_ui_render ui' = Some (out, ui'')" "ts_bytes out = concat (map command_bytes ?cmds)"
    using b(2) by auto
  have ok: "ui_ok ui''" by (simp add: ui''_def ui'_def sent_window_def demo_window_def ui_ok_def)
  have "terminal_reads (ts_bytes out) sent_terminal = Some (fold exec ?cmds sent_terminal)"
    unfolding r(2) by (rule terminal_reads_commands) (simp add: rgb_def scalar_def)
  moreover have "tm_cells (fold exec ?cmds sent_terminal) 0 0 = Blank"
    by (simp add: sent_terminal_def print_row_def wipe_halves_def wide_def tc_ui_width_def)
  ultimately show ?thesis using put r render_same [OF ok] by (auto simp: ui''_def ui'_def)
qed

end
