(* ===== verification/TextBuffer.thy ===== *)
theory TextBuffer
  imports Prelude
begin

text \<open>
  The contract of an editable text: what a client of the gap buffer (the text box of
  \<open>runtime/tui.c\<close>) relies on. A text is a byte list with a cursor; positions move by
  UTF-8 characters, that is, they skip continuation bytes. The locale \<open>text_buffer\<close> states
  the laws of the operations; what follows from them is proved once, inside it.
\<close>

section \<open>Characters of a byte string\<close>

definition is_cont :: "byte \<Rightarrow> bool" where
  "is_cont b \<longleftrightarrow> b AND 0xc0 = 0x80"

text \<open>The position after the character at \<open>p\<close>, and the start of the character before \<open>p\<close>.\<close>

definition text_next :: "byte list \<Rightarrow> nat \<Rightarrow> nat" where
  "text_next xs p =
     (if p < length xs then p + 1 + length (takeWhile is_cont (drop (p + 1) xs)) else p)"

fun text_back :: "byte list \<Rightarrow> nat \<Rightarrow> nat" where
  "text_back xs 0 = 0"
| "text_back xs (Suc p) = (if is_cont (xs ! Suc p) then text_back xs p else Suc p)"

definition text_prev :: "byte list \<Rightarrow> nat \<Rightarrow> nat" where
  "text_prev xs p = (if p = 0 then 0 else text_back xs (p - 1))"

text \<open>A position where a character starts, or an end of the text.\<close>

definition char_boundary :: "byte list \<Rightarrow> nat \<Rightarrow> bool" where
  "char_boundary xs p \<longleftrightarrow> p = 0 \<or> length xs \<le> p \<or> \<not> is_cont (xs ! p)"

lemma text_next_bounds: "p < length xs \<Longrightarrow> p < text_next xs p \<and> text_next xs p \<le> length xs"
  using length_takeWhile_le [of is_cont "drop (p + 1) xs"] by (auto simp: text_next_def)

lemma text_next_boundary: "p < length xs \<Longrightarrow> char_boundary xs (text_next xs p)"
proof -
  assume p: "p < length xs"
  let ?ys = "drop (p + 1) xs"
  let ?n = "length (takeWhile is_cont ?ys)"
  show ?thesis
  proof (cases "?n < length ?ys")
    case True
    then have "\<not> is_cont (?ys ! ?n)" by (rule nth_length_takeWhile)
    then show ?thesis using True p by (simp add: char_boundary_def text_next_def)
  next
    case False
    then have "length xs \<le> p + 1 + ?n" using p by simp
    then show ?thesis using p by (simp add: char_boundary_def text_next_def)
  qed
qed

lemma text_next_between: "p < q \<Longrightarrow> q < text_next xs p \<Longrightarrow> is_cont (xs ! q)"
proof -
  assume pq: "p < q" "q < text_next xs p"
  then have p: "p < length xs" by (auto simp: text_next_def split: if_splits)
  let ?ys = "drop (p + 1) xs"
  have i: "q - (p + 1) < length (takeWhile is_cont ?ys)"
    using pq p by (simp add: text_next_def)
  then have "is_cont (takeWhile is_cont ?ys ! (q - (p + 1)))"
    using nth_mem set_takeWhileD by fastforce
  then have "is_cont (?ys ! (q - (p + 1)))"
    using i by (simp add: takeWhile_nth)
  then show ?thesis using pq p by simp
qed

lemma text_back_le: "text_back xs p \<le> p"
  by (induction p) (auto simp: le_SucI)

lemma text_back_boundary: "char_boundary xs (text_back xs p)"
  by (induction p) (auto simp: char_boundary_def)

lemma text_back_between: "text_back xs p < q \<Longrightarrow> q \<le> p \<Longrightarrow> is_cont (xs ! q)"
  using text_back_le [of xs] by (induction p) (auto simp: le_Suc_eq split: if_splits)

lemma text_back_unique:
  assumes "q \<le> p" and "q = 0 \<or> \<not> is_cont (xs ! q)" and "\<forall>i. q < i \<and> i \<le> p \<longrightarrow> is_cont (xs ! i)"
  shows "text_back xs p = q"
  using assms by (induction p) (auto simp: le_Suc_eq)

lemma text_prev_lt: "0 < p \<Longrightarrow> text_prev xs p < p"
  using text_back_le [of xs "p - 1"] by (auto simp: text_prev_def)

lemma text_prev_le: "text_prev xs p \<le> p"
  using text_back_le [of xs "p - 1"] by (auto simp: text_prev_def)

lemma text_prev_boundary: "char_boundary xs (text_prev xs p)"
  by (auto simp: text_prev_def text_back_boundary) (simp add: char_boundary_def)

lemma text_prev_unique:
  assumes "q < p" and "q = 0 \<or> \<not> is_cont (xs ! q)" and "\<forall>i. q < i \<and> i < p \<longrightarrow> is_cont (xs ! i)"
  shows "text_prev xs p = q"
proof -
  have "\<forall>i. q < i \<and> i \<le> p - 1 \<longrightarrow> is_cont (xs ! i)" "q \<le> p - 1" "p \<noteq> 0"
    using assms by auto
  then show ?thesis
    using assms(2) text_back_unique [of q "p - 1" xs] by (simp add: text_prev_def)
qed

text \<open>The two moves are inverse to each other on character boundaries.\<close>

lemma text_prev_next: "p < length xs \<Longrightarrow> char_boundary xs p \<Longrightarrow> text_prev xs (text_next xs p) = p"
  by (rule text_prev_unique) (auto simp: text_next_bounds text_next_between char_boundary_def)

lemma text_next_unique:
  assumes "p < q" "q \<le> length xs" "\<forall>i. p < i \<and> i < q \<longrightarrow> is_cont (xs ! i)" "char_boundary xs q"
  shows "text_next xs p = q"
proof (rule ccontr)
  assume neq: "text_next xs p \<noteq> q"
  have b: "p < text_next xs p" "text_next xs p \<le> length xs" "char_boundary xs (text_next xs p)"
    using assms text_next_bounds [of p xs] text_next_boundary [of p xs] by auto
  show False
  proof (cases "text_next xs p < q")
    case True
    then show False using b assms by (auto simp: char_boundary_def)
  next
    case False
    then have "q < text_next xs p" using neq by simp
    then show False
      using text_next_between [of p q xs] assms b by (auto simp: char_boundary_def)
  qed
qed

lemma text_next_prev:
  "0 < p \<Longrightarrow> p \<le> length xs \<Longrightarrow> char_boundary xs p \<Longrightarrow> text_next xs (text_prev xs p) = p"
  using text_back_between [of xs "p - 1"] text_back_le [of xs "p - 1"]
  by (intro text_next_unique) (auto simp: text_prev_def text_prev_lt)

section \<open>Lines of a byte string\<close>

definition newline :: byte where
  "newline = 10"

lemma newline_not_cont [simp]: "\<not> is_cont newline"
  by (simp add: newline_def is_cont_def)

definition line_begin :: "byte list \<Rightarrow> nat \<Rightarrow> nat" where
  "line_begin xs p = p - length (takeWhile (\<lambda>b. b \<noteq> newline) (rev (take p xs)))"

definition line_finish :: "byte list \<Rightarrow> nat \<Rightarrow> nat" where
  "line_finish xs p = p + length (takeWhile (\<lambda>b. b \<noteq> newline) (drop p xs))"

definition line_number :: "byte list \<Rightarrow> nat \<Rightarrow> nat" where
  "line_number xs p = count_list (take p xs) newline"

lemma line_finish_bounds: "p \<le> length xs \<Longrightarrow> p \<le> line_finish xs p \<and> line_finish xs p \<le> length xs"
  using length_takeWhile_le [of "\<lambda>b. b \<noteq> newline" "drop p xs"] by (auto simp: line_finish_def)

lemma line_finish_newline: "line_finish xs p < length xs \<Longrightarrow> xs ! line_finish xs p = newline"
proof -
  assume a: "line_finish xs p < length xs"
  let ?n = "length (takeWhile (\<lambda>b. b \<noteq> newline) (drop p xs))"
  have "?n < length (drop p xs)" using a by (simp add: line_finish_def)
  then have "drop p xs ! ?n = newline" using nth_length_takeWhile by blast
  then show ?thesis using a by (simp add: line_finish_def)
qed

lemma count_list_take_Suc:
  "p < length xs \<Longrightarrow> count_list (take (Suc p) xs) x = count_list (take p xs) x + (if xs ! p = x then 1 else 0)"
  by (simp add: take_Suc_conv_app_nth)

text \<open>Positions with no newline between them are on the same line.\<close>

lemma line_number_same:
  assumes "p \<le> q" "q \<le> length xs" "\<And>i. p \<le> i \<Longrightarrow> i < q \<Longrightarrow> xs ! i \<noteq> newline"
  shows "line_number xs q = line_number xs p"
  using assms
proof (induction q)
  case (Suc q)
  show ?case
  proof (cases "p = Suc q")
    case False
    then have pq: "p \<le> q" "q < length xs" using Suc.prems(1,2) by simp_all
    then have "line_number xs q = line_number xs p"
      using Suc.IH Suc.prems(3) by simp
    moreover have "xs ! q \<noteq> newline" using Suc.prems(3) pq by simp
    ultimately show ?thesis using pq by (simp add: line_number_def count_list_take_Suc)
  qed simp
qed simp

lemma takeWhile_nth_holds: "i < length (takeWhile P xs) \<Longrightarrow> P (xs ! i)"
  by (metis nth_mem set_takeWhileD takeWhile_nth)

lemma line_finish_between: "p \<le> i \<Longrightarrow> i < line_finish xs p \<Longrightarrow> xs ! i \<noteq> newline"
proof -
  assume a: "p \<le> i" "i < line_finish xs p"
  have i: "i - p < length (takeWhile (\<lambda>b. b \<noteq> newline) (drop p xs))"
    using a unfolding line_finish_def by linarith
  then have "drop p xs ! (i - p) \<noteq> newline"
    by (rule takeWhile_nth_holds)
  moreover have "p \<le> length xs"
    using i length_takeWhile_le [of "\<lambda>b. b \<noteq> newline" "drop p xs"] by simp
  ultimately show ?thesis using a(1) by simp
qed

lemma line_begin_Suc:
  "p < length xs \<Longrightarrow> line_begin xs (Suc p) = (if xs ! p \<noteq> newline then line_begin xs p else Suc p)"
proof -
  assume p: "p < length xs"
  have "length (takeWhile (\<lambda>b. b \<noteq> newline) (rev (take p xs))) \<le> p"
    using length_takeWhile_le [of "\<lambda>b. b \<noteq> newline" "rev (take p xs)"] p by simp
  then show ?thesis using p by (simp add: line_begin_def take_Suc_conv_app_nth)
qed

lemma line_begin_le: "line_begin xs p \<le> p"
  by (simp add: line_begin_def)

lemma line_begin_0 [simp]: "line_begin xs 0 = 0"
  by (simp add: line_begin_def)

lemma line_begin_after:
  "p \<le> length xs \<Longrightarrow> line_begin xs p = 0 \<or> xs ! (line_begin xs p - 1) = newline"
  by (induction p) (auto simp: line_begin_Suc)

lemma line_begin_between:
  "p \<le> length xs \<Longrightarrow> line_begin xs p \<le> i \<Longrightarrow> i < p \<Longrightarrow> xs ! i \<noteq> newline"
  by (induction p) (auto simp: line_begin_Suc less_Suc_eq split: if_splits)

lemma line_number_begin: "p \<le> length xs \<Longrightarrow> line_number xs (line_begin xs p) = line_number xs p"
  using line_number_same [of "line_begin xs p" p xs] line_begin_between line_begin_le by metis

lemma line_number_finish: "p \<le> length xs \<Longrightarrow> line_number xs (line_finish xs p) = line_number xs p"
  using line_number_same [of p "line_finish xs p" xs] line_finish_bounds line_finish_between by metis

text \<open>A character step from inside a line does not leave it.\<close>

lemma text_next_line:
  assumes "p < line_finish xs q" "q \<le> p" "q \<le> length xs"
  shows "text_next xs p \<le> line_finish xs q"
proof (rule ccontr)
  assume n: "\<not> text_next xs p \<le> line_finish xs q"
  have f: "line_finish xs q \<le> length xs" using line_finish_bounds assms(3) by blast
  have "text_next xs p \<le> length xs" using text_next_bounds [of p xs] assms(1) f by simp
  then have "line_finish xs q < length xs" using n by simp
  then have "xs ! line_finish xs q = newline" by (rule line_finish_newline)
  moreover have "is_cont (xs ! line_finish xs q)"
    using text_next_between [of p "line_finish xs q" xs] n assms(1) by simp
  ultimately show False by simp
qed

section \<open>The interface\<close>

locale text_buffer =
  fixes contents :: "'b \<Rightarrow> byte list"
    and cursor :: "'b \<Rightarrow> nat"
    and inv :: "'b \<Rightarrow> bool"
    and seek :: "'b \<Rightarrow> nat \<Rightarrow> 'b"
    and put :: "'b \<Rightarrow> TinyString \<Rightarrow> int \<times> 'b"
    and erase_left :: "'b \<Rightarrow> 'b"
    and erase_right :: "'b \<Rightarrow> 'b"
  assumes cursor_le: "inv b \<Longrightarrow> cursor b \<le> length (contents b)"
    and seek_inv: "inv b \<Longrightarrow> inv (seek b p)"
    and seek_text: "inv b \<Longrightarrow> contents (seek b p) = contents b"
    and seek_cursor: "inv b \<Longrightarrow> cursor (seek b p) = min p (length (contents b))"
    and put_inv: "inv b \<Longrightarrow> ts_wf s \<Longrightarrow> put b s = (r, b') \<Longrightarrow> inv b'"
    and put_ok: "inv b \<Longrightarrow> ts_wf s \<Longrightarrow> put b s = (0, b') \<Longrightarrow>
      contents b' = take (cursor b) (contents b) @ ts_bytes s @ drop (cursor b) (contents b)
      \<and> cursor b' = cursor b + ts_length s"
    and put_error: "inv b \<Longrightarrow> put b s = (r, b') \<Longrightarrow> r \<noteq> 0 \<Longrightarrow> b' = b"
    and erase_left_inv: "inv b \<Longrightarrow> inv (erase_left b)"
    and erase_left_text: "inv b \<Longrightarrow>
      contents (erase_left b) = take (text_prev (contents b) (cursor b)) (contents b) @ drop (cursor b) (contents b)
      \<and> cursor (erase_left b) = text_prev (contents b) (cursor b)"
    and erase_right_inv: "inv b \<Longrightarrow> inv (erase_right b)"
    and erase_right_text: "inv b \<Longrightarrow>
      contents (erase_right b) = take (cursor b) (contents b) @ drop (text_next (contents b) (cursor b)) (contents b)
      \<and> cursor (erase_right b) = cursor b"
begin

lemma put_prefix:
  assumes "inv b" "ts_wf s" "put b s = (0, b')"
  shows "take (cursor b') (contents b') = take (cursor b) (contents b) @ ts_bytes s"
    and "drop (cursor b') (contents b') = drop (cursor b) (contents b)"
  using put_ok [OF assms] cursor_le [OF assms(1)] length_ts_bytes [OF assms(2)]
  by (auto simp: min_def)

text \<open>Typing two strings one after the other is typing their concatenation.\<close>

lemma put_put:
  assumes "inv b" "ts_wf s" "ts_wf t" "put b s = (0, b1)" "put b1 t = (0, b2)"
  shows "contents b2 = take (cursor b) (contents b) @ (ts_bytes s @ ts_bytes t) @ drop (cursor b) (contents b)"
  using put_ok [OF put_inv [OF assms(1,2,4)] assms(3,5)] put_prefix [OF assms(1,2,4)] by simp

text \<open>A character just typed is one that backspace removes.\<close>

lemma put_erase_left:
  assumes b: "inv b" "ts_wf s" "put b s = (0, b')"
    and ch: "ts_bytes s = c # cs" "\<not> is_cont c" "\<forall>x \<in> set cs. is_cont x"
  shows "contents (erase_left b') = contents b \<and> cursor (erase_left b') = cursor b"
proof -
  let ?k = "cursor b"
  have k: "?k \<le> length (contents b)" using cursor_le b(1) .
  have t: "contents b' = take ?k (contents b) @ (c # cs) @ drop ?k (contents b)"
    and c: "cursor b' = ?k + Suc (length cs)"
    using put_ok [OF b] ch(1) length_ts_bytes [OF b(2)] by simp_all
  have nth: "i \<le> length cs \<Longrightarrow> contents b' ! (?k + i) = (c # cs) ! i" for i
    using t k nth_append [of "c # cs" "drop ?k (contents b)" i]
      nth_append [of "take ?k (contents b)" _ "?k + i"] by simp
  have "text_prev (contents b') (cursor b') = ?k"
  proof (rule text_prev_unique)
    show "?k < cursor b'" using c by simp
    show "?k = 0 \<or> \<not> is_cont (contents b' ! ?k)" using nth [of 0] ch(2) by simp
    show "\<forall>i. ?k < i \<and> i < cursor b' \<longrightarrow> is_cont (contents b' ! i)"
    proof (intro allI impI, elim conjE)
      fix i assume "?k < i" "i < cursor b'"
      then have "contents b' ! i = cs ! (i - ?k - 1)" "i - ?k - 1 < length cs"
        using nth [of "i - ?k"] c by (auto simp: nth_Cons')
      then show "is_cont (contents b' ! i)" using ch(3) by simp
    qed
  qed
  moreover have "take ?k (contents b') = take ?k (contents b)" "drop (cursor b') (contents b') = drop ?k (contents b)"
    using t c k by (simp_all add: min_def)
  ultimately show ?thesis
    using erase_left_text [OF put_inv [OF b]] by simp
qed

text \<open>Deleting forwards at a boundary removes what a move to the right and a backspace remove.\<close>

lemma erase_right_as_left:
  assumes "inv b" "cursor b < length (contents b)" "char_boundary (contents b) (cursor b)"
  shows "contents (erase_right b) = contents (erase_left (seek b (text_next (contents b) (cursor b))))"
proof -
  let ?n = "text_next (contents b) (cursor b)" and ?b = "seek b (text_next (contents b) (cursor b))"
  have "?n \<le> length (contents b)" using text_next_bounds assms(2) by blast
  then have "cursor ?b = ?n" "contents ?b = contents b" "inv ?b"
    using seek_cursor [OF assms(1)] seek_text [OF assms(1)] seek_inv [OF assms(1)] by simp_all
  then show ?thesis
    using erase_left_text [of ?b] erase_right_text [OF assms(1)]
      text_prev_next [OF assms(2,3)] by simp
qed

end

end
