(* ===== verification/GapBuffer.thy ===== *)
theory GapBuffer
  imports TextBuffer
begin

text \<open>
  The gap buffer of \<open>runtime/gapbuffer.c\<close>, the text store behind the TUI text box and the
  \<open>tinyedit\<close> editor. The array \<open>data\<close> holds the text before the cursor in
  \<open>data[0..start)\<close> and the text after it in \<open>data[end..capacity)\<close>; the abstract value is
  the text and the cursor position. The theory models every operation of the file, proves
  that each keeps the representation invariant, and refines each to its effect on the text.
\<close>

section \<open>State\<close>

record gap =
  gdata :: "byte list"
  gstart :: nat
  gend :: nat
  gcapacity :: nat
  gdirty :: bool

definition gap_limit :: nat where
  "gap_limit = 64 * 1024 * 1024"

definition gap_inv :: "gap \<Rightarrow> bool" where
  "gap_inv g \<longleftrightarrow> gstart g \<le> gend g \<and> gend g \<le> gcapacity g \<and> gcapacity g = length (gdata g)
     \<and> gcapacity g - (gend g - gstart g) \<le> gap_limit \<and> gcapacity g \<le> 2 * gap_limit"

text \<open>The abstraction: the text and the cursor.\<close>

definition gtext :: "gap \<Rightarrow> byte list" where
  "gtext g = take (gstart g) (gdata g) @ drop (gend g) (gdata g)"

section \<open>Operations\<close>

definition tc_gap_size :: "gap \<Rightarrow> nat" where
  "tc_gap_size g = gcapacity g - (gend g - gstart g)"

definition tc_gap_byte :: "gap \<Rightarrow> nat \<Rightarrow> byte" where
  "tc_gap_byte g position =
     gdata g ! (if position < gstart g then position else position + gend g - gstart g)"

definition tc_gap_seek_impl :: "gap \<Rightarrow> nat \<Rightarrow> gap" where
  "tc_gap_seek_impl g position0 =
     (let position = (if position0 > tc_gap_size g then tc_gap_size g else position0)
      in if position < gstart g then
           (let n = gstart g - position
            in g\<lparr>gdata := memmove (gend g - n) position n (gdata g),
                 gstart := gstart g - n, gend := gend g - n\<rparr>)
         else if position > gstart g then
           (let n = position - gstart g
            in g\<lparr>gdata := memmove (gstart g) (gend g) n (gdata g),
                 gstart := gstart g + n, gend := gend g + n\<rparr>)
         else g)"

text \<open>
  \<open>tc_gap_create\<close>: the two \<open>calloc\<close> calls panic when memory runs out (\<open>calloc\<close> says for
  each request whether it succeeds); a text over 64 MiB gives the null pointer.
\<close>

definition sizeof_TcGap :: nat where
  "sizeof_TcGap = 40"

definition tc_gap_create :: "(nat \<Rightarrow> bool) \<Rightarrow> TinyString \<Rightarrow> gap option outcome" where
  "tc_gap_create calloc input =
     (if \<not> calloc sizeof_TcGap then Panic ''out of memory''
      else if ts_length input > gap_limit then Ret None
      else (let capacity = ts_length input + 128
            in if \<not> calloc capacity then Panic ''out of memory''
               else (let e = capacity - ts_length input;
                         zeros = replicate capacity 0
                     in Ret (Some \<lparr>gdata = blit e (ts_bytes input) zeros,
                              gstart = 0, gend = e, gcapacity = capacity, gdirty = False\<rparr>))))"

definition tc_gap_length :: "gap \<Rightarrow> nat" where
  "tc_gap_length g = tc_gap_size g"

definition tc_gap_position :: "gap \<Rightarrow> nat" where
  "tc_gap_position g = gstart g"

definition tc_gap_seek :: "gap \<Rightarrow> nat \<Rightarrow> gap" where
  "tc_gap_seek g position0 =
     (let position = (if position0 > tc_gap_size g then tc_gap_size g else position0)
      in tc_gap_seek_impl g position)"

text \<open>
  \<open>tc_gap_insert\<close>: error 8 when the text would pass 64 MiB or when the larger block cannot be
  allocated. The two \<open>memcpy\<close> calls into the new block copy the text before and after the gap.
\<close>

definition gap_grow_capacity :: "gap \<Rightarrow> nat \<Rightarrow> nat" where
  "gap_grow_capacity g n =
     (let capacity = gcapacity g * 2
      in if capacity < tc_gap_size g + n + 128 then tc_gap_size g + n + 128 else capacity)"

definition gap_grow :: "gap \<Rightarrow> byte list \<Rightarrow> nat \<Rightarrow> gap" where
  "gap_grow g block capacity =
     (let d1 = blit 0 (take (gstart g) (gdata g)) block;
          tail = take (gcapacity g - gend g) (drop (gend g) (gdata g));
          d2 = blit (capacity - (gcapacity g - gend g)) tail d1
      in g\<lparr>gdata := d2, gend := capacity - (gcapacity g - gend g), gcapacity := capacity\<rparr>)"

definition gap_write :: "gap \<Rightarrow> TinyString \<Rightarrow> gap" where
  "gap_write g input =
     (if ts_length input \<noteq> 0
      then g\<lparr>gdata := blit (gstart g) (ts_bytes input) (gdata g),
             gstart := gstart g + ts_length input, gdirty := True\<rparr>
      else g)"

definition tc_gap_insert ::
  "(nat \<Rightarrow> byte list option) \<Rightarrow> gap \<Rightarrow> TinyString \<Rightarrow> int \<times> gap" where
  "tc_gap_insert malloc g input =
     (let sz = tc_gap_size g
      in if ts_length input > usub gap_limit sz then (8, g)
         else if ts_length input > gend g - gstart g then
           (let capacity = gap_grow_capacity g (ts_length input)
            in case malloc capacity of
                 None \<Rightarrow> (8, g)
               | Some block \<Rightarrow> (0, gap_write (gap_grow g block capacity) input))
         else (0, gap_write g input))"

text \<open>UTF-8 steps: skip continuation bytes \<open>10xxxxxx\<close>.\<close>

fun gap_skip_back :: "gap \<Rightarrow> nat \<Rightarrow> nat" where
  "gap_skip_back g 0 = 0"
| "gap_skip_back g (Suc p) = (if is_cont (tc_gap_byte g (Suc p)) then gap_skip_back g p else Suc p)"

definition tc_gap_previous :: "gap \<Rightarrow> nat \<Rightarrow> nat" where
  "tc_gap_previous g position = (if position \<noteq> 0 then gap_skip_back g (position - 1) else position)"

function gap_skip_forward :: "gap \<Rightarrow> nat \<Rightarrow> nat \<Rightarrow> nat" where
  "gap_skip_forward g n p =
     (if p < n \<and> is_cont (tc_gap_byte g p) then gap_skip_forward g n (p + 1) else p)"
  by pat_completeness auto
termination
  by (relation "measure (\<lambda>(g, n, p). n - p)") auto

declare gap_skip_forward.simps [simp del]

definition tc_gap_next :: "gap \<Rightarrow> nat \<Rightarrow> nat" where
  "tc_gap_next g position =
     (let n = tc_gap_size g
      in if position < n then gap_skip_forward g n (position + 1) else position)"

definition tc_gap_left :: "gap \<Rightarrow> gap" where
  "tc_gap_left g = tc_gap_seek_impl g (tc_gap_previous g (gstart g))"

definition tc_gap_right :: "gap \<Rightarrow> gap" where
  "tc_gap_right g = tc_gap_seek_impl g (tc_gap_next g (gstart g))"

definition tc_gap_backspace :: "gap \<Rightarrow> gap" where
  "tc_gap_backspace g =
     (let start = tc_gap_previous g (gstart g)
      in if start \<noteq> gstart g then g\<lparr>gstart := start, gdirty := True\<rparr> else g)"

definition tc_gap_delete :: "gap \<Rightarrow> gap" where
  "tc_gap_delete g =
     (let n = tc_gap_next g (gstart g) - gstart g;
          g' = g\<lparr>gend := gend g + n\<rparr>
      in if n \<noteq> 0 then g'\<lparr>gdirty := True\<rparr> else g')"

text \<open>Lines.\<close>

fun tc_gap_line_start :: "gap \<Rightarrow> nat \<Rightarrow> nat" where
  "tc_gap_line_start g 0 = 0"
| "tc_gap_line_start g (Suc p) =
     (if tc_gap_byte g p \<noteq> newline then tc_gap_line_start g p else Suc p)"

function gap_line_end_loop :: "gap \<Rightarrow> nat \<Rightarrow> nat \<Rightarrow> nat" where
  "gap_line_end_loop g n p =
     (if p < n \<and> tc_gap_byte g p \<noteq> newline then gap_line_end_loop g n (p + 1) else p)"
  by pat_completeness auto
termination
  by (relation "measure (\<lambda>(g, n, p). n - p)") auto

declare gap_line_end_loop.simps [simp del]

definition tc_gap_line_end :: "gap \<Rightarrow> nat \<Rightarrow> nat" where
  "tc_gap_line_end g p = gap_line_end_loop g (tc_gap_size g) p"

definition tc_gap_home :: "gap \<Rightarrow> gap" where
  "tc_gap_home g = tc_gap_seek_impl g (tc_gap_line_start g (gstart g))"

definition tc_gap_end :: "gap \<Rightarrow> gap" where
  "tc_gap_end g = tc_gap_seek_impl g (tc_gap_line_end g (gstart g))"

text \<open>\<open>tc_gap_line\<close> counts the newlines before the cursor, \<open>tc_gap_column\<close> the characters since the line start.\<close>

fun gap_count_newlines :: "gap \<Rightarrow> nat \<Rightarrow> nat" where
  "gap_count_newlines g 0 = 0"
| "gap_count_newlines g (Suc p) =
     gap_count_newlines g p + (if tc_gap_byte g p = newline then 1 else 0)"

definition tc_gap_line :: "gap \<Rightarrow> nat" where
  "tc_gap_line g = gap_count_newlines g (gstart g)"

text \<open>
  \<open>while (p < g->start) { p = tc_gap_next(g, p); column++; }\<close>: \<open>None\<close> is a loop that does not
  end, which \<open>tc_gap_column_returns\<close> below rules out for a well-formed buffer.
\<close>

partial_function (option) gap_column_loop :: "gap \<Rightarrow> nat \<Rightarrow> nat \<Rightarrow> nat option" where
  "gap_column_loop g p column =
     (if p < gstart g then gap_column_loop g (tc_gap_next g p) (column + 1) else Some column)"

definition tc_gap_column :: "gap \<Rightarrow> nat option" where
  "tc_gap_column g = gap_column_loop g (tc_gap_line_start g (gstart g)) 0"

fun gap_advance :: "gap \<Rightarrow> nat \<Rightarrow> nat \<Rightarrow> nat \<Rightarrow> nat" where
  "gap_advance g e 0 p = p"
| "gap_advance g e (Suc k) p = (if p < e then gap_advance g e k (tc_gap_next g p) else p)"

definition gap_vertical_target :: "gap \<Rightarrow> int \<Rightarrow> nat \<Rightarrow> nat option" where
  "gap_vertical_target g direction p =
     (if direction < 0 then (if p = 0 then None else Some (tc_gap_line_start g (p - 1)))
      else (let q = tc_gap_line_end g p in if q = tc_gap_size g then None else Some (q + 1)))"

definition tc_gap_vertical :: "gap \<Rightarrow> int \<Rightarrow> gap option" where
  "tc_gap_vertical g direction =
     (let p0 = tc_gap_line_start g (gstart g)
      in case tc_gap_column g of
           None \<Rightarrow> None
         | Some column \<Rightarrow>
             (case gap_vertical_target g direction p0 of
                None \<Rightarrow> Some g
              | Some p \<Rightarrow>
                  (let e = tc_gap_line_end g p
                   in Some (tc_gap_seek_impl g (gap_advance g e column p)))))"

function gap_goto_loop :: "gap \<Rightarrow> nat \<Rightarrow> int \<Rightarrow> nat \<Rightarrow> int \<Rightarrow> nat" where
  "gap_goto_loop g n line p current =
     (if p < n \<and> current < line
      then gap_goto_loop g n line (p + 1)
             (if tc_gap_byte g p = newline then current + 1 else current)
      else p)"
  by pat_completeness auto
termination
  by (relation "measure (\<lambda>(g, n, line, p, current). n - p)") auto

declare gap_goto_loop.simps [simp del]

definition tc_gap_goto_line :: "gap \<Rightarrow> int \<Rightarrow> gap" where
  "tc_gap_goto_line g line = tc_gap_seek_impl g (gap_goto_loop g (tc_gap_size g) line 0 0)"

definition tc_gap_dirty :: "gap \<Rightarrow> bool" where
  "tc_gap_dirty g = gdirty g"

definition tc_gap_clean :: "gap \<Rightarrow> gap" where
  "tc_gap_clean g = g\<lparr>gdirty := False\<rparr>"

text \<open>
  \<open>tc_gap_text\<close> copies the two parts into a fresh block of \<open>n + 1\<close> bytes and ends it with 0.
\<close>

definition tc_gap_text :: "(nat \<Rightarrow> byte list option) \<Rightarrow> gap \<Rightarrow> TinyString" where
  "tc_gap_text malloc g =
     (let n = tc_gap_size g
      in case malloc (n + 1) of
           None \<Rightarrow> ts_null
         | Some text0 \<Rightarrow>
             (let text1 = blit 0 (take (gstart g) (gdata g)) text0;
                  text2 = blit (gstart g)
                            (take (gcapacity g - gend g) (drop (gend g) (gdata g))) text1;
                  text3 = text2[n := 0]
              in \<lparr>ts_data = Some text3, ts_length = n\<rparr>))"

text \<open>\<open>tc_gap_find\<close>: the inner loop compares, the outer one tries each position up to \<open>n - length\<close>.\<close>

fun gap_match_loop :: "gap \<Rightarrow> nat \<Rightarrow> byte list \<Rightarrow> bool" where
  "gap_match_loop g p [] = True"
| "gap_match_loop g p (b # bs) = (tc_gap_byte g p = b \<and> gap_match_loop g (p + 1) bs)"

function gap_find_loop :: "gap \<Rightarrow> byte list \<Rightarrow> nat \<Rightarrow> nat \<Rightarrow> int" where
  "gap_find_loop g needle hi p =
     (if p \<le> hi
      then (if gap_match_loop g p needle then int p else gap_find_loop g needle hi (p + 1))
      else -1)"
  by pat_completeness auto
termination
  by (relation "measure (\<lambda>(g, needle, hi, p). hi + 1 - p)") auto

declare gap_find_loop.simps [simp del]

definition tc_gap_find :: "gap \<Rightarrow> TinyString \<Rightarrow> nat \<Rightarrow> int" where
  "tc_gap_find g needle start =
     (let n = tc_gap_size g
      in if ts_length needle = 0 \<or> start > n \<or> ts_length needle > n then -1
         else gap_find_loop g (ts_bytes needle) (n - ts_length needle) start)"

definition tc_gap_cut_line :: "(nat \<Rightarrow> byte list option) \<Rightarrow> gap \<Rightarrow> TinyString \<times> gap" where
  "tc_gap_cut_line malloc g =
     (let start = tc_gap_line_start g (gstart g);
          end0 = tc_gap_line_end g (gstart g);
          e = (if end0 < tc_gap_size g then end0 + 1 else end0)
      in case malloc (e - start + 1) of
           None \<Rightarrow> (ts_null, g)
         | Some block \<Rightarrow>
             (let d1 = blit 0 (map (tc_gap_byte g) [start..<e]) block;
                  result = \<lparr>ts_data = Some (d1[e - start := 0]), ts_length = e - start\<rparr>;
                  g1 = tc_gap_seek_impl g start;
                  g2 = g1\<lparr>gend := gend g1 + (e - start)\<rparr>
              in (result, if e > start then g2\<lparr>gdirty := True\<rparr> else g2)))"

section \<open>Reading through the gap\<close>

text \<open>The facts every proof about a well-formed buffer starts from.\<close>

lemma gap_invD:
  assumes "gap_inv g"
  shows "gstart g \<le> gend g" and "gend g \<le> gcapacity g" and "length (gdata g) = gcapacity g"
    and "tc_gap_size g \<le> gap_limit" and "gstart g \<le> tc_gap_size g"
    and "gcapacity g \<le> 2 * gap_limit"
  using assms by (auto simp: gap_inv_def tc_gap_size_def)

lemma length_gtext: "gap_inv g \<Longrightarrow> length (gtext g) = tc_gap_size g"
  by (auto simp: gap_inv_def gtext_def tc_gap_size_def)

lemma gap_byte_in_range:
  "gap_inv g \<Longrightarrow> p < tc_gap_size g \<Longrightarrow>
     (if p < gstart g then p else p + gend g - gstart g) < length (gdata g)"
  by (auto simp: gap_inv_def tc_gap_size_def)

lemma gap_byte_text: "gap_inv g \<Longrightarrow> p < tc_gap_size g \<Longrightarrow> tc_gap_byte g p = gtext g ! p"
  by (auto simp: gap_inv_def gtext_def tc_gap_byte_def tc_gap_size_def nth_append add.commute)

section \<open>Seek\<close>

lemma seek_left:
  assumes inv: "gap_inv g" and p: "p < gstart g"
  shows "gap_inv (tc_gap_seek_impl g p) \<and> gtext (tc_gap_seek_impl g p) = gtext g
     \<and> gstart (tc_gap_seek_impl g p) = p"
proof -
  let ?n = "gstart g - p" and ?d = "gdata g"
  have sz: "\<not> p > tc_gap_size g"
    using gap_invD(5) [OF inv] p by simp
  have eq: "tc_gap_seek_impl g p =
      g\<lparr>gdata := memmove (gend g - ?n) p ?n ?d, gstart := p, gend := gend g - ?n\<rparr>"
    using p sz by (simp add: tc_gap_seek_impl_def Let_def)
  have b: "p \<le> gend g - ?n" "gend g - ?n + ?n = gend g" "gend g \<le> length ?d" "p + ?n = gstart g"
    using inv p by (auto simp: gap_inv_def)
  have len: "length (take ?n (drop p ?d)) = ?n"
    using b by simp
  have t: "take p (memmove (gend g - ?n) p ?n ?d) = take p ?d"
    using b by (simp add: memmove_def)
  have "drop (gend g - ?n) (memmove (gend g - ?n) p ?n ?d) = take ?n (drop p ?d) @ drop (gend g) ?d"
    using b len by (simp add: memmove_def)
  then have "gtext (tc_gap_seek_impl g p) = gtext g"
    using t b p unfolding eq gtext_def
    by (simp add: take_append_drop_mid flip: append_assoc)
  moreover have "gap_inv (tc_gap_seek_impl g p)"
    using inv b p unfolding eq by (auto simp: gap_inv_def)
  ultimately show ?thesis
    by (simp add: eq)
qed

lemma seek_right:
  assumes inv: "gap_inv g" and p: "p > gstart g" "p \<le> tc_gap_size g"
  shows "gap_inv (tc_gap_seek_impl g p) \<and> gtext (tc_gap_seek_impl g p) = gtext g
     \<and> gstart (tc_gap_seek_impl g p) = p"
proof -
  let ?n = "p - gstart g" and ?d = "gdata g"
  have eq: "tc_gap_seek_impl g p =
      g\<lparr>gdata := memmove (gstart g) (gend g) ?n ?d, gstart := p, gend := gend g + ?n\<rparr>"
    using p by (simp add: tc_gap_seek_impl_def Let_def)
  have b: "gend g + ?n \<le> length ?d" "gstart g \<le> gend g" "gstart g + ?n = p"
    using inv p by (auto simp: gap_inv_def tc_gap_size_def)
  have len: "length (take ?n (drop (gend g) ?d)) = ?n"
    using b by simp
  have "take (gstart g + ?n) (memmove (gstart g) (gend g) ?n ?d)
      = take (gstart g) ?d @ take ?n (drop (gend g) ?d)"
    using b len take_blit_end [of "gstart g" ?d "take ?n (drop (gend g) ?d)"]
    by (simp add: memmove_def)
  moreover have "drop (gend g + ?n) (memmove (gstart g) (gend g) ?n ?d) = drop (gend g + ?n) ?d"
    using b by (simp add: memmove_def)
  ultimately have "gtext (tc_gap_seek_impl g p) = gtext g"
    using b take_drop_split [of "gend g" "gend g + ?n" ?d] unfolding eq gtext_def by simp
  moreover have "gap_inv (tc_gap_seek_impl g p)"
    using inv b unfolding eq by (auto simp: gap_inv_def)
  ultimately show ?thesis
    by (simp add: eq)
qed

lemma seek_impl:
  assumes "gap_inv g"
  shows "gap_inv (tc_gap_seek_impl g p)" and "gtext (tc_gap_seek_impl g p) = gtext g"
    and "gstart (tc_gap_seek_impl g p) = min p (tc_gap_size g)"
proof -
  let ?q = "min p (tc_gap_size g)"
  have eq: "tc_gap_seek_impl g p = tc_gap_seek_impl g ?q"
    by (simp add: tc_gap_seek_impl_def min_def Let_def)
  have "gap_inv (tc_gap_seek_impl g ?q) \<and> gtext (tc_gap_seek_impl g ?q) = gtext g
     \<and> gstart (tc_gap_seek_impl g ?q) = ?q"
  proof (cases "?q = gstart g")
    case True
    then show ?thesis using assms
      by (simp add: tc_gap_seek_impl_def Let_def)
  next
    case False
    then show ?thesis
      using seek_left [OF assms, of ?q] seek_right [OF assms, of ?q] by fastforce
  qed
  then show "gap_inv (tc_gap_seek_impl g p)" and "gtext (tc_gap_seek_impl g p) = gtext g"
    and "gstart (tc_gap_seek_impl g p) = ?q"
    by (simp_all add: eq)
qed

lemma seek_dirty [simp]: "gdirty (tc_gap_seek_impl g p) = gdirty g"
  by (simp add: tc_gap_seek_impl_def Let_def)

lemma seek_size: "gap_inv g \<Longrightarrow> tc_gap_size (tc_gap_seek_impl g p) = tc_gap_size g"
  by (metis length_gtext seek_impl(1) seek_impl(2))

section \<open>Creation and insertion\<close>

lemma create_some:
  assumes "ts_wf input" and "tc_gap_create calloc input = Ret (Some g)"
  shows "gap_inv g" and "gtext g = ts_bytes input" and "gstart g = 0" and "\<not> gdirty g"
  using assms
  by (auto simp: tc_gap_create_def gap_inv_def gtext_def gap_limit_def Let_def blit_def
      split: if_splits)

lemma grow_props:
  assumes inv: "gap_inv g" and big: "gend g - gstart g < n" and lim: "tc_gap_size g + n \<le> gap_limit"
    and len: "length block = gap_grow_capacity g n"
  defines "g' \<equiv> gap_grow g block (gap_grow_capacity g n)"
  shows "gap_inv g'" and "gtext g' = gtext g" and "gstart g' = gstart g" and "n \<le> gend g' - gstart g'"
proof -
  let ?cap = "gap_grow_capacity g n" and ?t = "gcapacity g - gend g"
  let ?hd = "take (gstart g) (gdata g)" and ?tl = "take ?t (drop (gend g) (gdata g))"
  let ?d1 = "blit 0 ?hd block"
  let ?d2 = "blit (?cap - ?t) ?tl ?d1"
  note b = gap_invD [OF inv]
  have sz: "tc_gap_size g = gstart g + ?t"
    using b by (simp add: tc_gap_size_def)
  have cap: "tc_gap_size g + n + 128 \<le> ?cap" "?cap \<le> 2 * gap_limit"
    using b big lim by (auto simp: gap_grow_capacity_def Let_def sz gap_limit_def)
  have l1: "length ?hd = gstart g" "length ?tl = ?t" "length ?d1 = ?cap"
    using b len cap sz by simp_all
  have l2: "length ?d2 = ?cap"
    using l1 cap sz by simp
  have "take (gstart g) ?d2 = take (gstart g) ?d1"
    using cap sz l1 by (intro take_blit) auto
  also have "\<dots> = ?hd"
    using l1 take_blit_end [of 0 block ?hd] by simp
  finally have t: "take (gstart g) ?d2 = ?hd" .
  have "drop (?cap - ?t) ?d2 = ?tl @ drop ?cap ?d1"
    using cap sz l1 by simp
  then have d: "drop (?cap - ?t) ?d2 = drop (gend g) (gdata g)"
    using l1 b by simp
  show "gtext g' = gtext g"
    using t d by (simp add: g'_def gap_grow_def gtext_def Let_def)
  have "gstart g \<le> ?cap - ?t" "?cap - ((?cap - ?t) - gstart g) \<le> gap_limit"
    using cap sz b by simp_all
  then show "gap_inv g'"
    using l2 cap b by (simp add: g'_def gap_grow_def gap_inv_def Let_def)
  show "gstart g' = gstart g"
    by (simp add: g'_def gap_grow_def Let_def)
  show "n \<le> gend g' - gstart g'"
    using cap sz by (simp add: g'_def gap_grow_def Let_def)
qed

lemma write_props:
  assumes inv: "gap_inv g" and wf: "ts_wf s" and fits: "ts_length s \<le> gend g - gstart g"
    and lim: "tc_gap_size g + ts_length s \<le> gap_limit"
  shows "gap_inv (gap_write g s)"
    and "gtext (gap_write g s) = take (gstart g) (gtext g) @ ts_bytes s @ drop (gstart g) (gtext g)"
    and "gstart (gap_write g s) = gstart g + ts_length s"
proof -
  note b = gap_invD [OF inv] and len = length_ts_bytes [OF wf]
  have t: "take (gstart g) (gtext g) = take (gstart g) (gdata g)"
    "drop (gstart g) (gtext g) = drop (gend g) (gdata g)"
    using b by (simp_all add: gtext_def)
  have w: "take (gstart g + ts_length s) (blit (gstart g) (ts_bytes s) (gdata g))
      = take (gstart g) (gdata g) @ ts_bytes s"
    using b take_blit_end [of "gstart g" "gdata g" "ts_bytes s"] by (simp add: len)
  show "gtext (gap_write g s) = take (gstart g) (gtext g) @ ts_bytes s @ drop (gstart g) (gtext g)"
    unfolding t using b w fits len by (auto simp: gap_write_def gtext_def)
  show "gap_inv (gap_write g s)"
    using inv fits len lim by (auto simp: gap_write_def gap_inv_def tc_gap_size_def)
  show "gstart (gap_write g s) = gstart g + ts_length s"
    by (simp add: gap_write_def)
qed

lemma insert_cases:
  assumes "gap_inv g" "malloc_ok malloc" "ts_wf s" "tc_gap_insert malloc g s = (r, g')"
  shows "(r = 8 \<and> g' = g) \<or>
    (r = 0 \<and> tc_gap_size g + ts_length s \<le> gap_limit \<and> gap_inv g'
     \<and> gtext g' = take (gstart g) (gtext g) @ ts_bytes s @ drop (gstart g) (gtext g)
     \<and> gstart g' = gstart g + ts_length s)"
proof (cases "ts_length s > gap_limit - tc_gap_size g")
  case True
  then show ?thesis
    using assms(4) gap_invD(4) [OF assms(1)] by (simp add: tc_gap_insert_def Let_def)
next
  case False
  note r = assms(4) [unfolded tc_gap_insert_def Let_def usub_le [OF gap_invD(4) [OF assms(1)]]
      if_not_P [OF False]]
  have lim: "tc_gap_size g + ts_length s \<le> gap_limit"
    using False gap_invD(4) [OF assms(1)] by simp
  show ?thesis
  proof (cases "ts_length s > gend g - gstart g")
    case True
    note r = r [unfolded if_P [OF True]]
    show ?thesis
    proof (cases "malloc (gap_grow_capacity g (ts_length s))")
      case None
      then show ?thesis using r by simp
    next
      case (Some block)
      note gr = grow_props [OF assms(1) True lim malloc_okD [OF assms(2) Some]]
      have "tc_gap_size (gap_grow g block (gap_grow_capacity g (ts_length s))) = tc_gap_size g"
        using length_gtext [OF gr(1)] length_gtext [OF assms(1)] gr(2) by simp
      then show ?thesis
        using r Some lim write_props [OF gr(1) assms(3) gr(4)] gr(2,3) by simp
    qed
  next
    case False
    note r = r [unfolded if_not_P [OF False]]
    show ?thesis
      using r False lim write_props [OF assms(1,3) _ lim] by simp
  qed
qed

section \<open>Moving by characters, deleting\<close>

lemma gap_skip_back_text:
  "gap_inv g \<Longrightarrow> p < tc_gap_size g \<Longrightarrow> gap_skip_back g p = text_back (gtext g) p"
  by (induction p) (simp_all add: gap_byte_text)

lemma previous_text:
  "gap_inv g \<Longrightarrow> p \<le> tc_gap_size g \<Longrightarrow> tc_gap_previous g p = text_prev (gtext g) p"
  by (simp add: tc_gap_previous_def text_prev_def gap_skip_back_text)

lemma gap_skip_forward_text:
  "gap_inv g \<Longrightarrow> n = tc_gap_size g \<Longrightarrow> p \<le> n \<Longrightarrow>
    gap_skip_forward g n p = p + length (takeWhile is_cont (drop p (gtext g)))"
proof (induction g n p rule: gap_skip_forward.induct)
  case (1 g n p)
  show ?case
  proof (cases "p < n")
    case True
    then have "drop p (gtext g) = tc_gap_byte g p # drop (Suc p) (gtext g)"
      using 1 by (simp add: length_gtext gap_byte_text Cons_nth_drop_Suc)
    then show ?thesis using 1 True by (subst gap_skip_forward.simps) auto
  next
    case False
    then show ?thesis using 1 by (subst gap_skip_forward.simps) (simp add: length_gtext)
  qed
qed

lemma next_text: "gap_inv g \<Longrightarrow> tc_gap_next g p = text_next (gtext g) p"
  by (simp add: tc_gap_next_def text_next_def length_gtext gap_skip_forward_text)

lemma previous_start:
  "gap_inv g \<Longrightarrow> tc_gap_previous g (gstart g) = text_prev (gtext g) (gstart g)"
  by (simp add: previous_text gap_invD)

lemma backspace_props:
  assumes "gap_inv g"
  shows "gap_inv (tc_gap_backspace g)"
    and "gtext (tc_gap_backspace g)
      = take (text_prev (gtext g) (gstart g)) (gtext g) @ drop (gstart g) (gtext g)"
    and "gstart (tc_gap_backspace g) = text_prev (gtext g) (gstart g)"
proof -
  let ?p = "text_prev (gtext g) (gstart g)"
  have le: "?p \<le> gstart g" by (rule text_prev_le)
  have t: "take ?p (gtext g) = take ?p (gdata g)" "drop (gstart g) (gtext g) = drop (gend g) (gdata g)"
    using le gap_invD [OF assms] by (simp_all add: gtext_def)
  have eq: "tc_gap_backspace g = (if ?p \<noteq> gstart g then g\<lparr>gstart := ?p, gdirty := True\<rparr> else g)"
    by (simp add: tc_gap_backspace_def previous_start [OF assms])
  show "gap_inv (tc_gap_backspace g)"
    using assms le by (auto simp: eq gap_inv_def)
  show "gtext (tc_gap_backspace g) = take ?p (gtext g) @ drop (gstart g) (gtext g)"
    unfolding t by (auto simp: eq gtext_def)
  show "gstart (tc_gap_backspace g) = ?p"
    by (simp add: eq)
qed

lemma delete_props:
  assumes "gap_inv g"
  shows "gap_inv (tc_gap_delete g)"
    and "gtext (tc_gap_delete g)
      = take (gstart g) (gtext g) @ drop (text_next (gtext g) (gstart g)) (gtext g)"
    and "gstart (tc_gap_delete g) = gstart g"
proof -
  let ?n = "text_next (gtext g) (gstart g)"
  note b = gap_invD [OF assms]
  have n: "gstart g \<le> ?n" "?n \<le> tc_gap_size g"
    using text_next_bounds [of "gstart g" "gtext g"] b(5) length_gtext [OF assms]
    by (auto simp: text_next_def)
  have t: "take (gstart g) (gtext g) = take (gstart g) (gdata g)"
    "drop ?n (gtext g) = drop (gend g + (?n - gstart g)) (gdata g)"
    using n b by (simp_all add: gtext_def add.commute)
  have eq: "tc_gap_delete g = g\<lparr>gend := gend g + (?n - gstart g), gdirty := (gdirty g \<or> ?n \<noteq> gstart g)\<rparr>"
    using n by (auto simp: tc_gap_delete_def next_text [OF assms] Let_def)
  show "gap_inv (tc_gap_delete g)"
    using assms n b by (auto simp: eq gap_inv_def tc_gap_size_def)
  show "gtext (tc_gap_delete g) = take (gstart g) (gtext g) @ drop ?n (gtext g)"
    unfolding t by (simp add: eq gtext_def)
  show "gstart (tc_gap_delete g) = gstart g"
    by (simp add: eq)
qed

text \<open>The gap buffer provides the contract of an editable text, for any allocator.\<close>

definition gap_put :: "gap \<Rightarrow> TinyString \<Rightarrow> int \<times> gap" where
  "gap_put = tc_gap_insert malloc_zero"

interpretation gap_editor: text_buffer gtext gstart gap_inv tc_gap_seek gap_put
  tc_gap_backspace tc_gap_delete
proof unfold_locales
  fix b :: gap and p :: nat
  assume inv: "gap_inv b"
  show "gstart b \<le> length (gtext b)"
    using inv by (simp add: length_gtext gap_invD)
  have s: "tc_gap_seek b p = tc_gap_seek_impl b p"
    by (simp add: tc_gap_seek_def tc_gap_seek_impl_def Let_def)
  show "gap_inv (tc_gap_seek b p)" and "gtext (tc_gap_seek b p) = gtext b"
    and "gstart (tc_gap_seek b p) = min p (length (gtext b))"
    using seek_impl [OF inv] by (simp_all add: s length_gtext [OF inv])
next
  fix b b' :: gap and s :: TinyString and r :: int
  assume b: "gap_inv b" "ts_wf s" "gap_put b s = (r, b')"
  then have c: "(r = 8 \<and> b' = b) \<or> (r = 0 \<and> gap_inv b'
     \<and> gtext b' = take (gstart b) (gtext b) @ ts_bytes s @ drop (gstart b) (gtext b)
     \<and> gstart b' = gstart b + ts_length s)"
    using insert_cases [OF b(1) malloc_ok_zero b(2)] by (auto simp: gap_put_def)
  show "gap_inv b'" using c b(1) by blast
next
  fix b b' :: gap and s :: TinyString
  assume b: "gap_inv b" "ts_wf s" "gap_put b s = (0, b')"
  show "gtext b' = take (gstart b) (gtext b) @ ts_bytes s @ drop (gstart b) (gtext b)
     \<and> gstart b' = gstart b + ts_length s"
    using insert_cases [OF b(1) malloc_ok_zero b(2)] b(3) by (auto simp: gap_put_def)
next
  fix b b' :: gap and s :: TinyString and r :: int
  assume "gap_inv b" "gap_put b s = (r, b')" "r \<noteq> 0"
  then show "b' = b"
    by (auto simp: gap_put_def tc_gap_insert_def Let_def split: if_splits option.splits)
qed (simp_all add: backspace_props delete_props)

section \<open>Lines\<close>

lemma line_start_text: "gap_inv g \<Longrightarrow> p \<le> tc_gap_size g \<Longrightarrow> tc_gap_line_start g p = line_begin (gtext g) p"
  by (induction p) (simp_all add: line_begin_Suc gap_byte_text length_gtext)

lemma gap_line_end_loop_text:
  "gap_inv g \<Longrightarrow> n = tc_gap_size g \<Longrightarrow> p \<le> n \<Longrightarrow> gap_line_end_loop g n p = line_finish (gtext g) p"
proof (induction g n p rule: gap_line_end_loop.induct)
  case (1 g n p)
  show ?case
  proof (cases "p < n")
    case True
    then have "drop p (gtext g) = tc_gap_byte g p # drop (Suc p) (gtext g)"
      using 1 by (simp add: length_gtext gap_byte_text Cons_nth_drop_Suc)
    then show ?thesis using 1 True by (subst gap_line_end_loop.simps) (auto simp: line_finish_def)
  next
    case False
    then show ?thesis
      using 1 by (subst gap_line_end_loop.simps) (simp add: length_gtext line_finish_def)
  qed
qed

lemma line_end_text: "gap_inv g \<Longrightarrow> p \<le> tc_gap_size g \<Longrightarrow> tc_gap_line_end g p = line_finish (gtext g) p"
  by (simp add: tc_gap_line_end_def gap_line_end_loop_text)

lemma count_newlines_text:
  "gap_inv g \<Longrightarrow> p \<le> tc_gap_size g \<Longrightarrow> gap_count_newlines g p = line_number (gtext g) p"
  by (induction p)
    (auto simp: line_number_def gap_byte_text length_gtext count_list_take_Suc)

lemma line_text: "gap_inv g \<Longrightarrow> tc_gap_line g = line_number (gtext g) (gstart g)"
  by (simp add: tc_gap_line_def count_newlines_text gap_invD)

lemma line_after_seek:
  "gap_inv g \<Longrightarrow> p \<le> tc_gap_size g \<Longrightarrow> tc_gap_line (tc_gap_seek_impl g p) = line_number (gtext g) p"
  by (simp add: line_text seek_impl min_def)

text \<open>The column loop ends, because each step moves forward while the cursor is ahead.\<close>

lemma column_loop_returns:
  "gap_inv g \<Longrightarrow> \<exists>c. gap_column_loop g p k = Some c"
proof (induction "gstart g - p" arbitrary: p k rule: less_induct)
  case less
  show ?case
  proof (cases "p < gstart g")
    case True
    then have "p < tc_gap_next g p"
      using text_next_bounds [of p "gtext g"] gap_invD(5) [OF less.prems]
      by (simp add: next_text [OF less.prems] length_gtext [OF less.prems])
    then show ?thesis
      using less True by (subst gap_column_loop.simps) simp
  next
    case False
    then show ?thesis by (subst gap_column_loop.simps) simp
  qed
qed

lemma tc_gap_column_returns: "gap_inv g \<Longrightarrow> \<exists>c. tc_gap_column g = Some c"
  by (simp add: tc_gap_column_def column_loop_returns)

text \<open>Advancing by characters inside a line stays inside it.\<close>

lemma gap_advance_line:
  assumes inv: "gap_inv g"
  shows "q \<le> tc_gap_size g \<Longrightarrow> q \<le> p \<Longrightarrow> p \<le> line_finish (gtext g) q \<Longrightarrow>
    p \<le> gap_advance g (line_finish (gtext g) q) k p
    \<and> gap_advance g (line_finish (gtext g) q) k p \<le> line_finish (gtext g) q"
proof (induction k arbitrary: p)
  case (Suc k)
  show ?case
  proof (cases "p < line_finish (gtext g) q")
    case True
    have "line_finish (gtext g) q \<le> length (gtext g)"
      using line_finish_bounds [of q "gtext g"] Suc.prems(1) by (simp add: length_gtext [OF inv])
    then have n: "p < text_next (gtext g) p" "text_next (gtext g) p \<le> line_finish (gtext g) q"
      using True text_next_bounds [of p "gtext g"] text_next_line [OF True Suc.prems(2)] Suc.prems(1)
      by (simp_all add: length_gtext [OF inv])
    then show ?thesis
      using True Suc.IH [of "text_next (gtext g) p"] Suc.prems by (simp add: next_text [OF inv])
  next
    case False
    then show ?thesis using Suc.prems by simp
  qed
qed simp

lemma line_number_within:
  assumes "q \<le> length xs" "q \<le> p" "p \<le> line_finish xs q"
  shows "line_number xs p = line_number xs q"
  using assms line_finish_between [of q _ xs] line_finish_bounds [OF assms(1)]
  by (intro line_number_same) auto

lemma advance_line_number:
  assumes inv: "gap_inv g" and p: "p \<le> tc_gap_size g"
  shows "line_number (gtext g) (gap_advance g (tc_gap_line_end g p) k p) = line_number (gtext g) p"
    and "gap_advance g (tc_gap_line_end g p) k p \<le> tc_gap_size g"
proof -
  let ?e = "line_finish (gtext g) p"
  have len: "p \<le> length (gtext g)" using p by (simp add: length_gtext [OF inv])
  have e: "tc_gap_line_end g p = ?e" by (rule line_end_text [OF inv p])
  have b: "p \<le> ?e" "?e \<le> tc_gap_size g"
    using line_finish_bounds [OF len] by (simp_all add: length_gtext [OF inv])
  have a: "p \<le> gap_advance g ?e k p" "gap_advance g ?e k p \<le> ?e"
    using gap_advance_line [OF inv p order_refl b(1), of k] by auto
  show "line_number (gtext g) (gap_advance g (tc_gap_line_end g p) k p) = line_number (gtext g) p"
    unfolding e by (rule line_number_within [OF len a])
  show "gap_advance g (tc_gap_line_end g p) k p \<le> tc_gap_size g"
    unfolding e using a(2) b(2) by (rule order_trans)
qed

lemma vertical_None:
  "gap_inv g \<Longrightarrow> gap_vertical_target g d (tc_gap_line_start g (gstart g)) = None \<Longrightarrow>
     tc_gap_vertical g d = Some g"
  using tc_gap_column_returns [of g] by (auto simp: tc_gap_vertical_def)

lemma vertical_Some:
  assumes "gap_inv g" "gap_vertical_target g d (tc_gap_line_start g (gstart g)) = Some p"
    and "p \<le> tc_gap_size g"
  shows "\<exists>g'. tc_gap_vertical g d = Some g' \<and> gap_inv g' \<and> gtext g' = gtext g
     \<and> tc_gap_line g' = line_number (gtext g) p"
proof -
  obtain k where k: "tc_gap_column g = Some k"
    using tc_gap_column_returns [OF assms(1)] by blast
  let ?q = "gap_advance g (tc_gap_line_end g p) k p"
  have "tc_gap_vertical g d = Some (tc_gap_seek_impl g ?q)"
    using k assms(2) by (simp add: tc_gap_vertical_def Let_def)
  then show ?thesis
    using seek_impl [OF assms(1)] advance_line_number [OF assms(1,3), of k]
      line_after_seek [OF assms(1), of ?q] by simp
qed

lemma vertical_up:
  assumes inv: "gap_inv g" and d: "d < 0"
  shows "\<exists>g'. tc_gap_vertical g d = Some g' \<and> gap_inv g' \<and> gtext g' = gtext g
     \<and> tc_gap_line g' = tc_gap_line g - 1"
proof -
  let ?xs = "gtext g" and ?p = "line_begin (gtext g) (gstart g)"
  have st: "gstart g \<le> length ?xs"
    by (simp add: length_gtext [OF inv] gap_invD [OF inv])
  have p: "tc_gap_line_start g (gstart g) = ?p" "?p \<le> length ?xs"
    using line_begin_le [of ?xs "gstart g"] st
    by (simp_all add: line_start_text [OF inv] gap_invD [OF inv])
  have line: "tc_gap_line g = line_number ?xs ?p"
    by (simp add: line_text [OF inv] line_number_begin [OF st])
  show ?thesis
  proof (cases "?p = 0")
    case True
    then show ?thesis
      using vertical_None [OF inv, of d] d line inv
      by (simp add: gap_vertical_target_def p line_number_def)
  next
    case False
    let ?q = "line_begin ?xs (?p - 1)"
    have q: "?q \<le> tc_gap_size g" "?p - 1 \<le> tc_gap_size g" "?p - 1 < length ?xs"
      using line_begin_le [of ?xs "?p - 1"] p(2) False by (simp_all add: length_gtext [OF inv])
    have t: "gap_vertical_target g d (tc_gap_line_start g (gstart g)) = Some ?q"
      using False d q by (simp add: gap_vertical_target_def p line_start_text [OF inv])
    have "?xs ! (?p - 1) = newline"
      using line_begin_after [OF st] False by blast
    then have "line_number ?xs ?p = Suc (line_number ?xs (?p - 1))"
      using count_list_take_Suc [OF q(3), of newline] False by (simp add: line_number_def)
    moreover have "line_number ?xs ?q = line_number ?xs (?p - 1)"
      using q by (intro line_number_begin) simp
    ultimately show ?thesis
      using vertical_Some [OF inv t q(1)] line by simp
  qed
qed

lemma line_finish_begin: "p \<le> length xs \<Longrightarrow> line_finish xs (line_begin xs p) = line_finish xs p"
proof -
  assume p: "p \<le> length xs"
  let ?b = "line_begin xs p"
  have le: "?b \<le> p" by (rule line_begin_le)
  let ?ys = "take (p - ?b) (drop ?b xs)"
  have ys: "b \<noteq> newline" if "b \<in> set ?ys" for b
  proof -
    obtain i where i: "i < p - ?b" "b = xs ! (?b + i)"
      using \<open>b \<in> set ?ys\<close> p le by (auto simp: in_set_conv_nth)
    then show "b \<noteq> newline"
      using line_begin_between [OF p, of "?b + i"] by simp
  qed
  have "takeWhile (\<lambda>b. b \<noteq> newline) (?ys @ drop p xs) = ?ys @ takeWhile (\<lambda>b. b \<noteq> newline) (drop p xs)"
    by (rule takeWhile_append2) (rule ys)
  then have "takeWhile (\<lambda>b. b \<noteq> newline) (drop ?b xs) = ?ys @ takeWhile (\<lambda>b. b \<noteq> newline) (drop p xs)"
    by (simp only: take_drop_split [OF le, symmetric])
  moreover have "length ?ys = p - ?b" using p le by simp
  ultimately show ?thesis using le by (simp only: line_finish_def length_append)
qed

lemma vertical_down:
  assumes inv: "gap_inv g" and d: "0 \<le> d"
  shows "\<exists>g'. tc_gap_vertical g d = Some g' \<and> gap_inv g' \<and> gtext g' = gtext g
     \<and> tc_gap_line g' =
        (if newline \<in> set (drop (gstart g) (gtext g)) then tc_gap_line g + 1 else tc_gap_line g)"
proof -
  let ?xs = "gtext g" and ?q = "line_finish (gtext g) (gstart g)"
  have st: "gstart g \<le> length ?xs"
    by (simp add: length_gtext [OF inv] gap_invD [OF inv])
  have b: "line_begin ?xs (gstart g) \<le> tc_gap_size g"
    using line_begin_le [of ?xs "gstart g"] st by (simp add: length_gtext [OF inv])
  have tgt: "gap_vertical_target g d (tc_gap_line_start g (gstart g))
      = (if ?q = tc_gap_size g then None else Some (?q + 1))"
    using d b inv by (simp add: gap_vertical_target_def line_start_text gap_invD line_end_text
        line_finish_begin [OF st])
  show ?thesis
  proof (cases "?q = tc_gap_size g")
    case True
    then have "newline \<notin> set (drop (gstart g) ?xs)"
      using line_finish_between [of "gstart g" _ ?xs] st
      by (auto simp: in_set_conv_nth length_gtext [OF inv])
    then show ?thesis
      using vertical_None [OF inv, of d] tgt True inv by simp
  next
    case False
    then have q: "?q < length ?xs" "gstart g \<le> ?q"
      using line_finish_bounds [OF st] by (simp_all add: length_gtext [OF inv])
    have nl: "?xs ! ?q = newline" by (rule line_finish_newline [OF q(1)])
    then have "newline \<in> set (drop (gstart g) ?xs)"
      using q by (auto simp: in_set_conv_nth intro!: exI [of _ "?q - gstart g"])
    moreover have "line_number ?xs (?q + 1) = Suc (line_number ?xs (gstart g))"
      using count_list_take_Suc [OF q(1), of newline] nl line_number_finish [OF st]
      by (simp add: line_number_def)
    moreover have "?q + 1 \<le> tc_gap_size g" using q by (simp add: length_gtext [OF inv])
    ultimately show ?thesis
      using vertical_Some [OF inv, of d "?q + 1"] tgt False line_text [OF inv] by simp
  qed
qed

section \<open>Searching and copying out\<close>

lemma match_loop_text:
  assumes inv: "gap_inv g"
  shows "p + length bs \<le> tc_gap_size g \<Longrightarrow>
    gap_match_loop g p bs = (take (length bs) (drop p (gtext g)) = bs)"
proof (induction bs arbitrary: p)
  case (Cons b bs)
  then have "drop p (gtext g) = tc_gap_byte g p # drop (Suc p) (gtext g)"
    using inv by (simp add: length_gtext gap_byte_text Cons_nth_drop_Suc)
  then show ?case using Cons by simp
qed simp

lemma find_loop_result:
  "gap_find_loop g bs hi p =
     (case find (\<lambda>i. gap_match_loop g i bs) [p..<Suc hi] of None \<Rightarrow> -1 | Some i \<Rightarrow> int i)"
proof (induction g bs hi p rule: gap_find_loop.induct)
  case (1 g bs hi p)
  then show ?case
    by (subst gap_find_loop.simps) (auto simp: upt_conv_Cons simp del: upt_Suc)
qed

lemma gap_text_bytes:
  assumes inv: "gap_inv g" and m: "malloc_ok malloc" "malloc (tc_gap_size g + 1) = Some b"
  shows "ts_bytes (tc_gap_text malloc g) = gtext g" and "ts_length (tc_gap_text malloc g) = tc_gap_size g"
proof -
  let ?n = "tc_gap_size g" and ?t = "gcapacity g - gend g"
  let ?hd = "take (gstart g) (gdata g)" and ?tl = "take ?t (drop (gend g) (gdata g))"
  note d = gap_invD [OF inv] and len = malloc_okD [OF m]
  have n: "?n = gstart g + ?t" using d by (simp add: tc_gap_size_def)
  have l: "length ?hd = gstart g" "length ?tl = ?t" using d by simp_all
  let ?d1 = "blit 0 ?hd b"
  let ?d2 = "blit (gstart g) ?tl ?d1"
  have l1: "length ?d1 = ?n + 1" using l len n by simp
  have "take ?n ?d2 = take (gstart g) ?d1 @ ?tl"
    using take_blit_end [of "gstart g" ?d1 ?tl] l l1 n by simp
  also have "take (gstart g) ?d1 = ?hd"
    using take_blit_end [of 0 b ?hd] l by simp
  finally have "take ?n ?d2 = gtext g"
    using d by (simp add: gtext_def)
  then show "ts_bytes (tc_gap_text malloc g) = gtext g"
    using m(2) by (simp add: tc_gap_text_def Let_def ts_bytes_def)
  show "ts_length (tc_gap_text malloc g) = ?n"
    using m(2) by (simp add: tc_gap_text_def Let_def)
qed

text \<open>\<open>tc_gap_cut_line\<close> removes the cursor's line, with its newline, and returns it.\<close>

lemma cut_line_range:
  assumes inv: "gap_inv g"
  defines "s \<equiv> line_begin (gtext g) (gstart g)" and "e0 \<equiv> line_finish (gtext g) (gstart g)"
  shows "tc_gap_line_start g (gstart g) = s" and "tc_gap_line_end g (gstart g) = e0"
    and "s \<le> e0" and "e0 \<le> length (gtext g)"
  using gap_invD [OF inv] line_begin_le [of "gtext g" "gstart g"]
    line_finish_bounds [of "gstart g" "gtext g"]
  by (simp_all add: line_start_text [OF inv] line_end_text [OF inv] s_def e0_def length_gtext [OF inv])

lemma cut_line_result:
  assumes inv: "gap_inv g" and "malloc_ok malloc"
    and e: "s = tc_gap_line_start g (gstart g)" "e = (if tc_gap_line_end g (gstart g) < tc_gap_size g
        then tc_gap_line_end g (gstart g) + 1 else tc_gap_line_end g (gstart g))"
    and m: "malloc (e - s + 1) = Some b" and r: "tc_gap_cut_line malloc g = (line, g')"
  shows "ts_bytes line = take (e - s) (drop s (gtext g))"
    and "gtext g' = take s (gtext g) @ drop e (gtext g)" and "gap_inv g'" and "gstart g' = s"
proof -
  note d = gap_invD [OF inv] and lt = length_gtext [OF inv]
  have b: "s \<le> e" "e \<le> tc_gap_size g"
    using cut_line_range [OF inv] by (auto simp: e lt)
  have lb: "length b = e - s + 1" using malloc_okD [OF assms(2) m] .
  let ?bytes = "map (tc_gap_byte g) [s..<e]"
  let ?g1 = "tc_gap_seek_impl g s"
  have res: "line = \<lparr>ts_data = Some ((blit 0 ?bytes b)[e - s := 0]), ts_length = e - s\<rparr>"
    "g' = (if e > s then ?g1\<lparr>gend := gend ?g1 + (e - s), gdirty := True\<rparr>
           else ?g1\<lparr>gend := gend ?g1 + (e - s)\<rparr>)"
    using r m by (auto simp: tc_gap_cut_line_def Let_def simp flip: e)
  have "?bytes = take (e - s) (drop s (gtext g))"
    using b by (intro nth_equalityI) (auto simp: gap_byte_text [OF inv] lt)
  moreover have "take (e - s) (blit 0 ?bytes b) = ?bytes"
    using take_blit_end [of 0 b ?bytes] by simp
  ultimately show "ts_bytes line = take (e - s) (drop s (gtext g))"
    by (simp add: res ts_bytes_def)
  have s1: "gap_inv ?g1" "gtext ?g1 = gtext g" "gstart ?g1 = s"
    using seek_impl [OF inv, of s] b by simp_all
  have "take s (gtext ?g1) = take s (gdata ?g1)"
    "drop e (gtext ?g1) = drop (gend ?g1 + (e - s)) (gdata ?g1)"
    using gap_invD [OF s1(1)] b s1(3) by (simp_all add: gtext_def add.commute)
  then have t1: "take s (gtext g) = take s (gdata ?g1)"
    "drop e (gtext g) = drop (gend ?g1 + (e - s)) (gdata ?g1)"
    by (simp_all add: s1(2))
  show "gtext g' = take s (gtext g) @ drop e (gtext g)"
    unfolding t1 by (simp add: res gtext_def s1)
  have "e - s \<le> gcapacity ?g1 - gend ?g1"
    using b seek_size [OF inv, of s] gap_invD [OF s1(1)] s1(3) by (simp add: tc_gap_size_def)
  then show "gap_inv g'"
    using s1(1) b by (auto simp: res gap_inv_def)
  show "gstart g' = s" by (simp add: res s1)
qed

section \<open>Going to a line\<close>

text \<open>
  The loop starts at the beginning of a line, and each time it counts a newline it stands just
  after it: it stops at the start of the wanted line, or at the end of a text with fewer lines.
\<close>

lemma goto_loop_line:
  "gap_inv g \<Longrightarrow> n = tc_gap_size g \<Longrightarrow> p \<le> n \<Longrightarrow> cur = int (line_number (gtext g) p) \<Longrightarrow> cur \<le> k \<Longrightarrow>
    cur = k \<longrightarrow> p = 0 \<or> gtext g ! (p - 1) = newline \<Longrightarrow>
    q = gap_goto_loop g n k p cur \<Longrightarrow>
     q \<le> n \<and> line_number (gtext g) q = min (nat k) (count_list (gtext g) newline)
      \<and> (q = n \<or> q = 0 \<or> gtext g ! (q - 1) = newline)"
proof (induction g n k p cur rule: gap_goto_loop.induct)
  case (1 g n k p cur)
  let ?xs = "gtext g"
  have len: "length ?xs = n" using 1(2,3) by (simp add: length_gtext)
  show ?case
  proof (cases "p < n \<and> cur < k")
    case True
    let ?c = "if tc_gap_byte g p = newline then cur + 1 else cur"
    have c: "?c = int (line_number ?xs (p + 1))"
      using True len 1(2,3,5) count_list_take_Suc [of p ?xs newline]
      by (simp add: line_number_def gap_byte_text)
    have step: "gap_goto_loop g n k p cur = gap_goto_loop g n k (p + 1) ?c"
      using True by (subst gap_goto_loop.simps) simp
    show ?thesis
    proof (rule "1.IH" [OF True 1(2,3) _ c])
      show "p + 1 \<le> n" "?c \<le> k" using True by auto
      show "?c = k \<longrightarrow> p + 1 = 0 \<or> ?xs ! (p + 1 - 1) = newline"
        using True 1(2,3) by (auto simp: gap_byte_text)
      show "q = gap_goto_loop g n k (p + 1) ?c" using 1(8) step by simp
    qed
  next
    case False
    then have q: "q = p" using 1(8) by (subst (asm) gap_goto_loop.simps) auto
    show ?thesis
    proof (cases "cur = k")
      case True
      have "line_number ?xs p \<le> count_list ?xs newline"
        unfolding line_number_def by (metis append_take_drop_id count_list_append le_add1)
      then show ?thesis using True q 1(4,5,7) by auto
    next
      case False
      then have "p = n" using \<open>\<not> (p < n \<and> cur < k)\<close> 1(4,6) by auto
      then show ?thesis using q len 1(5,6) by (simp add: line_number_def)
    qed
  qed
qed

section \<open>Reachable buffers\<close>

text \<open>Every call a client can make on a buffer, with any arguments and any allocator answers.\<close>

inductive gap_step :: "(nat \<Rightarrow> byte list option) \<Rightarrow> gap \<Rightarrow> gap \<Rightarrow> bool" for malloc where
  seek: "gap_step malloc g (tc_gap_seek g p)"
| insert: "ts_wf s \<Longrightarrow> tc_gap_insert malloc g s = (r, g') \<Longrightarrow> gap_step malloc g g'"
| left: "gap_step malloc g (tc_gap_left g)"
| right: "gap_step malloc g (tc_gap_right g)"
| backspace: "gap_step malloc g (tc_gap_backspace g)"
| delete: "gap_step malloc g (tc_gap_delete g)"
| home: "gap_step malloc g (tc_gap_home g)"
| "end": "gap_step malloc g (tc_gap_end g)"
| vertical: "tc_gap_vertical g d = Some g' \<Longrightarrow> gap_step malloc g g'"
| goto_line: "gap_step malloc g (tc_gap_goto_line g k)"
| clean: "gap_step malloc g (tc_gap_clean g)"
| cut_line: "tc_gap_cut_line malloc g = (line, g') \<Longrightarrow> gap_step malloc g g'"

inductive gap_reachable :: "(nat \<Rightarrow> byte list option) \<Rightarrow> gap \<Rightarrow> bool" for malloc where
  create: "ts_wf s \<Longrightarrow> tc_gap_create calloc s = Ret (Some g) \<Longrightarrow> gap_reachable malloc g"
| step: "gap_reachable malloc g \<Longrightarrow> gap_step malloc g g' \<Longrightarrow> gap_reachable malloc g'"

lemma seek_inv: "gap_inv g \<Longrightarrow> gap_inv (tc_gap_seek g p)"
  by (rule gap_editor.seek_inv)

lemma inv_dirty [simp]: "gap_inv (g\<lparr>gdirty := d\<rparr>) = gap_inv g"
  by (simp add: gap_inv_def)

lemma vertical_inv: "gap_inv g \<Longrightarrow> tc_gap_vertical g d = Some g' \<Longrightarrow> gap_inv g'"
  using vertical_up [of g d] vertical_down [of g d] by (cases "d < 0") auto

lemma cut_line_inv:
  assumes "gap_inv g" "malloc_ok malloc" "tc_gap_cut_line malloc g = (line, g')"
  shows "gap_inv g'"
proof (cases "malloc ((if tc_gap_line_end g (gstart g) < tc_gap_size g
        then tc_gap_line_end g (gstart g) + 1 else tc_gap_line_end g (gstart g))
      - tc_gap_line_start g (gstart g) + 1)")
  case None
  then show ?thesis using assms(1,3) by (simp add: tc_gap_cut_line_def Let_def)
next
  case (Some b)
  then show ?thesis using cut_line_result(3) [OF assms(1,2) refl refl _ assms(3)] by blast
qed

lemma gap_step_inv:
  assumes "gap_step malloc g g'" "malloc_ok malloc" "gap_inv g"
  shows "gap_inv g'"
  using assms
proof (induction rule: gap_step.induct)
  case (insert s g r g')
  then show ?case using insert_cases [OF insert(4,3,1,2)] by auto
next
  case (cut_line g line g')
  then show ?case using cut_line_inv by blast
next
  case (clean g)
  then show ?case by (simp add: tc_gap_clean_def)
qed (simp_all add: seek_inv seek_impl(1) backspace_props(1) delete_props(1) vertical_inv
    tc_gap_left_def tc_gap_right_def tc_gap_home_def tc_gap_end_def tc_gap_goto_line_def)

lemma gap_reachable_inv: "gap_reachable malloc g \<Longrightarrow> malloc_ok malloc \<Longrightarrow> gap_inv g"
  by (induction rule: gap_reachable.induct) (auto intro: create_some(1) gap_step_inv)

section \<open>Properties\<close>

text \<open>A concrete buffer for the witnesses: the text \<open>hi\<newline>!\<close> with the cursor after \<open>hi\<close>.\<close>

definition gap_example :: gap where
  "gap_example = \<lparr>gdata = [104, 105, 0, 0, 10, 33], gstart = 2, gend = 4, gcapacity = 6, gdirty = False\<rparr>"

lemma gap_example_inv [simp]: "gap_inv gap_example"
  by (simp add: gap_inv_def gap_example_def gap_limit_def)

lemma gap_example_text: "gtext gap_example = [104, 105, 10, 33]" "gstart gap_example = 2"
  by (simp_all add: gtext_def gap_example_def)

lemma gap_created: "gap_reachable malloc_zero
    \<lparr>gdata = replicate 128 0 @ [104, 105], gstart = 0, gend = 128, gcapacity = 130, gdirty = False\<rparr>"
  by (rule gap_reachable.create [where s = "ts_of [104, 105]" and calloc = "\<lambda>_. True"])
    (simp_all add: tc_gap_create_def gap_limit_def blit_def)

text \<open>
  Claim C1. Memory safety: whatever calls a client makes on a buffer, the gap lies inside the block,
  the block never exceeds 128 MiB nor the text 64 MiB (so no \<open>size_t\<close> computation of the file
  wraps), and every position of the text is read inside the block.
\<close>

theorem gap_reachable_safe:
  assumes "gap_reachable malloc g" and "malloc_ok malloc"
  shows "gstart g \<le> gend g \<and> gend g \<le> gcapacity g \<and> gcapacity g = length (gdata g)
    \<and> gcapacity g \<le> 128 * 1024 * 1024 \<and> tc_gap_size g \<le> 64 * 1024 * 1024
    \<and> (\<forall>p < tc_gap_size g. (if p < gstart g then p else p + gend g - gstart g) < length (gdata g))"
proof -
  have inv: "gap_inv g" using assms by (rule gap_reachable_inv)
  show ?thesis
    using gap_invD [OF inv] gap_byte_in_range [OF inv] by (auto simp: gap_limit_def)
qed

theorem gap_reachable_safe_witness:
  "\<exists>g. gap_reachable malloc_zero g \<and> gcapacity g = 130 \<and> gend g \<le> gcapacity g
     \<and> gcapacity g = length (gdata g)"
  using gap_reachable_safe [OF gap_created malloc_ok_zero] gap_created
  by (intro exI [of _ "\<lparr>gdata = replicate 128 0 @ [104, 105], gstart = 0, gend = 128,
      gcapacity = 130, gdirty = False\<rparr>"]) simp

text \<open>
  Claim C2. Insertion refines splicing: with a valid allocator \<open>tc_gap_insert\<close> either reports 8 and
  leaves the buffer alone (text past 64 MiB, or no memory for a needed larger block), or reports 0,
  splices the bytes in at the cursor, moves the cursor past them and keeps everything else.
\<close>

theorem gap_insert_splices:
  assumes "gap_inv g" "malloc_ok malloc" "ts_wf s"
  shows "tc_gap_insert malloc g s =
      (if ts_length s > gap_limit - length (gtext g)
          \<or> ts_length s > gend g - gstart g \<and> malloc (gap_grow_capacity g (ts_length s)) = None
       then (8, g) else (0, snd (tc_gap_insert malloc g s)))
    \<and> (fst (tc_gap_insert malloc g s) = 0 \<longrightarrow>
        (let g' = snd (tc_gap_insert malloc g s)
         in gtext g' = take (gstart g) (gtext g) @ ts_bytes s @ drop (gstart g) (gtext g)
          \<and> gstart g' = gstart g + ts_length s \<and> gap_inv g'))"
proof
  show "tc_gap_insert malloc g s =
      (if ts_length s > gap_limit - length (gtext g)
          \<or> ts_length s > gend g - gstart g \<and> malloc (gap_grow_capacity g (ts_length s)) = None
       then (8, g) else (0, snd (tc_gap_insert malloc g s)))"
    using gap_invD(4) [OF assms(1)] length_gtext [OF assms(1)]
    by (auto simp: tc_gap_insert_def Let_def split: option.splits)
qed (use insert_cases [OF assms] in \<open>cases "tc_gap_insert malloc g s"; auto simp: Let_def\<close>)

theorem gap_insert_splices_witness:
  "gtext (snd (tc_gap_insert malloc_zero gap_example (ts_of [65, 66, 67])))
     = [104, 105, 65, 66, 67, 10, 33]"
proof -
  have "fst (tc_gap_insert malloc_zero gap_example (ts_of [65, 66, 67])) = 0"
    by (simp add: tc_gap_insert_def Let_def gap_example_def tc_gap_size_def gap_limit_def
        malloc_zero_def)
  then show ?thesis
    using gap_insert_splices [OF gap_example_inv malloc_ok_zero ts_wf_of, of "[65, 66, 67]"]
    by (simp add: gap_example_text Let_def)
qed

text \<open>
  Typing a UTF-8 character and pressing backspace restores the text and the cursor: the
  first byte is not a continuation byte and the following ones are.
\<close>

theorem gap_insert_backspace:
  assumes "gap_inv g" "ts_wf s" "ts_bytes s = c # cs" "\<not> is_cont c" "\<forall>x \<in> set cs. is_cont x"
    and "tc_gap_insert malloc_zero g s = (0, g')"
  shows "gtext (tc_gap_backspace g') = gtext g \<and> gstart (tc_gap_backspace g') = gstart g"
  using gap_editor.put_erase_left [OF assms(1,2) _ assms(3-5)] assms(6) by (simp add: gap_put_def)

theorem gap_insert_backspace_witness:
  "gtext (tc_gap_backspace (snd (tc_gap_insert malloc_zero gap_example (ts_of [0xc3, 0xb1]))))
     = [104, 105, 10, 33]"
proof -
  have "fst (tc_gap_insert malloc_zero gap_example (ts_of [0xc3, 0xb1])) = 0"
    by (simp add: tc_gap_insert_def Let_def gap_example_def tc_gap_size_def gap_limit_def
        malloc_zero_def)
  then have "tc_gap_insert malloc_zero gap_example (ts_of [0xc3, 0xb1])
      = (0, snd (tc_gap_insert malloc_zero gap_example (ts_of [0xc3, 0xb1])))"
    by (metis prod.collapse)
  then show ?thesis
    using gap_insert_backspace [of gap_example "ts_of [0xc3, 0xb1]" "0xc3" "[0xb1]"]
    by (simp add: gap_example_text is_cont_def)
qed

text \<open>
  Cursor motion never changes the text: left and right stop at the neighbouring character,
  home and end at the ends of the cursor's line.
\<close>

theorem gap_motion_keeps_text:
  assumes "gap_inv g"
  shows "gtext (tc_gap_left g) = gtext g \<and> gstart (tc_gap_left g) = text_prev (gtext g) (gstart g)
    \<and> gtext (tc_gap_right g) = gtext g \<and> gstart (tc_gap_right g) = text_next (gtext g) (gstart g)
    \<and> gtext (tc_gap_home g) = gtext g \<and> gstart (tc_gap_home g) = line_begin (gtext g) (gstart g)
    \<and> gtext (tc_gap_end g) = gtext g \<and> gstart (tc_gap_end g) = line_finish (gtext g) (gstart g)"
proof -
  have b: "text_prev (gtext g) (gstart g) \<le> tc_gap_size g" "text_next (gtext g) (gstart g) \<le> tc_gap_size g"
    using text_prev_le [of "gtext g" "gstart g"] text_next_bounds [of "gstart g" "gtext g"]
      gap_invD [OF assms] length_gtext [OF assms] by (auto simp: text_next_def)
  then show ?thesis
    using cut_line_range [OF assms] length_gtext [OF assms]
    by (simp add: tc_gap_left_def tc_gap_right_def tc_gap_home_def tc_gap_end_def
        seek_impl [OF assms] previous_start [OF assms] next_text [OF assms])
qed

theorem gap_motion_keeps_text_witness:
  "gtext (tc_gap_left gap_example) = [104, 105, 10, 33] \<and> gstart (tc_gap_left gap_example) = 1"
  using gap_motion_keeps_text [OF gap_example_inv]
  by (simp add: gap_example_text text_prev_def is_cont_def)

text \<open>
  \<open>tc_gap_vertical\<close> returns, keeps the text and moves by exactly one line: up unless the
  cursor is on the first line, down unless no newline follows the cursor.
\<close>

theorem gap_vertical_one_line:
  assumes "gap_inv g"
  shows "\<exists>g'. tc_gap_vertical g d = Some g' \<and> gap_inv g' \<and> gtext g' = gtext g
     \<and> tc_gap_line g' =
        (if d < 0 then tc_gap_line g - 1
         else if newline \<in> set (drop (gstart g) (gtext g)) then tc_gap_line g + 1
         else tc_gap_line g)"
  using vertical_up [OF assms, of d] vertical_down [OF assms, of d] by (cases "d < 0") auto

theorem gap_vertical_one_line_witness:
  "\<exists>g'. tc_gap_vertical gap_example 1 = Some g' \<and> gtext g' = [104, 105, 10, 33]
     \<and> tc_gap_line g' = tc_gap_line gap_example + 1"
  using gap_vertical_one_line [OF gap_example_inv, of 1] by (auto simp: gap_example_text newline_def)

text \<open>
  \<open>tc_gap_find\<close> returns the least position at or after \<open>start\<close> where the needle occurs,
  and -1 exactly when there is none (or the needle is empty).
\<close>

theorem gap_find_least:
  assumes "gap_inv g" "ts_wf needle"
  shows "tc_gap_find g needle start =
    (if ts_length needle \<noteq> 0 \<and> (\<exists>p. start \<le> p \<and> occurs_at (gtext g) (ts_bytes needle) p)
     then int (LEAST p. start \<le> p \<and> occurs_at (gtext g) (ts_bytes needle) p) else -1)"
proof (cases "ts_length needle = 0 \<or> start > tc_gap_size g \<or> ts_length needle > tc_gap_size g")
  case True
  then show ?thesis
    using length_gtext [OF assms(1)] length_ts_bytes [OF assms(2)]
    by (auto simp: tc_gap_find_def Let_def occurs_at_def)
next
  case False
  let ?P = "occurs_at (gtext g) (ts_bytes needle)" and ?n = "tc_gap_size g - ts_length needle"
  have eq: "find (\<lambda>i. gap_match_loop g i (ts_bytes needle)) [start..<Suc ?n] = find ?P [start..<Suc ?n]"
    using False match_loop_text [OF assms(1), of _ "ts_bytes needle"]
      length_gtext [OF assms(1)] length_ts_bytes [OF assms(2)]
    by (intro find_cong) (auto simp: occurs_at_def simp del: upt_Suc)
  have "i < Suc ?n" if "?P i" for i
    using that False length_gtext [OF assms(1)] length_ts_bytes [OF assms(2)] by (auto simp: occurs_at_def)
  then show ?thesis
    using find_upt_Least [of ?P "Suc ?n" start] False eq
    by (simp add: tc_gap_find_def Let_def find_loop_result del: upt_Suc)
qed

theorem gap_find_least_witness: "tc_gap_find gap_example (ts_of [10, 33]) 0 = 2"
proof -
  have o: "occurs_at (gtext gap_example) [10, 33] p \<longleftrightarrow> p = 2" for p
  proof -
    have "p = 0 \<or> p = 1 \<or> p = 2 \<or> 3 \<le> p" by arith
    then show ?thesis by (auto simp: occurs_at_def gap_example_text)
  qed
  have l: "(LEAST p. p = (2::nat)) = 2" by (rule Least_equality) auto
  show ?thesis
    using gap_find_least [OF gap_example_inv ts_wf_of, of "[10, 33]" 0] by (simp add: o l)
qed

text \<open>
  \<open>tc_gap_cut_line\<close> takes out the line the cursor is on, newline included: what it returns,
  put back at the new cursor position, is the old text.
\<close>

theorem gap_cut_line_splits:
  assumes "gap_inv g" "malloc_ok malloc" and "tc_gap_cut_line malloc g = (line, g')" "ts_data line \<noteq> None"
  shows "gtext g = take (gstart g') (gtext g') @ ts_bytes line @ drop (gstart g') (gtext g')
    \<and> gstart g' = line_begin (gtext g) (gstart g)
    \<and> newline \<notin> set (butlast (ts_bytes line))
    \<and> (drop (gstart g') (gtext g') = [] \<or> ts_bytes line \<noteq> [] \<and> last (ts_bytes line) = newline)"
proof -
  let ?xs = "gtext g" and ?s = "tc_gap_line_start g (gstart g)" and ?e0 = "tc_gap_line_end g (gstart g)"
  define e where "e = (if ?e0 < tc_gap_size g then ?e0 + 1 else ?e0)"
  note len = length_gtext [OF assms(1)] and rg = cut_line_range [OF assms(1)]
  obtain b where m: "malloc (e - ?s + 1) = Some b"
    using assms(3,4) by (auto simp: tc_gap_cut_line_def Let_def e_def ts_null_def split: option.splits)
  note r = cut_line_result [OF assms(1,2) refl e_def m assms(3)]
  have se: "?s \<le> ?e0" "?e0 \<le> e" "e \<le> length ?xs" using rg by (auto simp: e_def len)
  have cut: "take ?s (gtext g') = take ?s ?xs" "drop ?s (gtext g') = drop e ?xs"
    using se by (simp_all add: r(2))
  have join: "?xs = take ?s ?xs @ take (e - ?s) (drop ?s ?xs) @ drop e ?xs"
    using se take_drop_split [of ?s e ?xs] by simp
  have inner: "?xs ! i \<noteq> newline" if "?s \<le> i" "i < ?e0" for i
    using that rg(1,2) line_begin_between [of "gstart g" ?xs i] line_finish_between [of "gstart g" i ?xs]
      gap_invD(5) [OF assms(1)] len by (cases "i < gstart g") auto
  have but: "butlast (ts_bytes line) = take (e - ?s - 1) (drop ?s ?xs)"
    using se by (simp add: r(1) butlast_take)
  have "newline \<notin> set (butlast (ts_bytes line))"
    using inner se unfolding but by (auto simp: in_set_conv_nth e_def split: if_splits)
  moreover have "drop e ?xs = [] \<or> ts_bytes line \<noteq> [] \<and> last (ts_bytes line) = newline"
  proof (cases "?e0 < tc_gap_size g")
    case True
    then have "?xs ! ?e0 = newline"
      using line_finish_newline [of ?xs "gstart g"] rg(2) len by simp
    then have "take (e - ?s) (drop ?s ?xs) = take (?e0 - ?s) (drop ?s ?xs) @ [newline]"
      using True se by (simp add: e_def Suc_diff_le take_Suc_conv_app_nth)
    then show ?thesis by (simp add: r(1))
  next
    case False
    then show ?thesis using se by (simp add: e_def len)
  qed
  moreover have "?xs = take ?s (gtext g') @ ts_bytes line @ drop ?s (gtext g')"
    unfolding cut r(1) by (rule join)
  ultimately show ?thesis
    unfolding r(4) cut rg(1) [symmetric] by blast
qed

theorem gap_cut_line_splits_witness:
  "newline \<notin> set (butlast (ts_bytes (fst (tc_gap_cut_line malloc_zero gap_example))))"
proof -
  have "ts_data (fst (tc_gap_cut_line malloc_zero gap_example)) \<noteq> None"
    by (simp add: tc_gap_cut_line_def Let_def malloc_zero_def)
  then show ?thesis
    using gap_cut_line_splits [OF gap_example_inv malloc_ok_zero, of
        "fst (tc_gap_cut_line malloc_zero gap_example)" "snd (tc_gap_cut_line malloc_zero gap_example)"]
    by simp
qed

text \<open>
  \<open>tc_gap_goto_line\<close> puts the cursor at the start of line \<open>k\<close> (from 0), or at the end of a
  text that has fewer lines, and changes nothing else.
\<close>

theorem gap_goto_line_lands:
  assumes "gap_inv g" "0 \<le> k"
  shows "gtext (tc_gap_goto_line g k) = gtext g
    \<and> tc_gap_line (tc_gap_goto_line g k) = min (nat k) (count_list (gtext g) newline)
    \<and> (let p = gstart (tc_gap_goto_line g k)
       in p = length (gtext g) \<or> p = 0 \<or> gtext g ! (p - 1) = newline)"
proof -
  let ?q = "gap_goto_loop g (tc_gap_size g) k 0 0"
  have q: "?q \<le> tc_gap_size g \<and> line_number (gtext g) ?q = min (nat k) (count_list (gtext g) newline)
      \<and> (?q = tc_gap_size g \<or> ?q = 0 \<or> gtext g ! (?q - 1) = newline)"
    by (rule goto_loop_line [OF assms(1) refl _ _ assms(2) _ refl]) (simp_all add: line_number_def)
  then show ?thesis
    using line_after_seek [OF assms(1), of ?q] length_gtext [OF assms(1)]
    by (simp add: tc_gap_goto_line_def seek_impl [OF assms(1)] min_def Let_def)
qed

theorem gap_goto_line_lands_witness: "tc_gap_line (tc_gap_goto_line gap_example 5) = 1"
  using gap_goto_line_lands [OF gap_example_inv, of 5] by (simp add: gap_example_text newline_def)

text \<open>
  A new buffer holds its input with the cursor at the front, and \<open>tc_gap_text\<close> returns the
  text of the buffer.
\<close>

theorem gap_create_text_roundtrip:
  assumes "ts_wf input" "tc_gap_create calloc input = Ret (Some g)"
  shows "ts_bytes (tc_gap_text malloc_zero g) = ts_bytes input \<and> tc_gap_position g = 0
    \<and> tc_gap_length g = ts_length input \<and> \<not> tc_gap_dirty g"
proof -
  note c = create_some [OF assms]
  have "malloc_zero (tc_gap_size g + 1) = Some (replicate (tc_gap_size g + 1) 0)"
    by (simp add: malloc_zero_def)
  then have "ts_bytes (tc_gap_text malloc_zero g) = ts_bytes input"
    using gap_text_bytes(1) [OF c(1) malloc_ok_zero] c(2) by simp
  then show ?thesis
    using c length_gtext [OF c(1)] length_ts_bytes [OF assms(1)]
    by (simp add: tc_gap_position_def tc_gap_length_def tc_gap_dirty_def)
qed

theorem gap_create_text_roundtrip_witness:
  "\<exists>g. tc_gap_create (\<lambda>_. True) (ts_of [104, 105]) = Ret (Some g)
     \<and> ts_bytes (tc_gap_text malloc_zero g) = [104, 105]"
proof -
  have "\<exists>g. tc_gap_create (\<lambda>_. True) (ts_of [104, 105]) = Ret (Some g)"
    by (simp add: tc_gap_create_def gap_limit_def)
  then show ?thesis
    using gap_create_text_roundtrip [OF ts_wf_of, of "\<lambda>_. True" "[104, 105]"] by auto
qed

end
