(* ===== verification/Widget.thy ===== *)
theory Widget
  imports Terminal GapBuffer
begin

text \<open>
  The widgets of \<open>runtime/tui.c\<close>: a store of widgets linked by \<open>parent\<close>, \<open>children\<close>, \<open>last\<close> and \<open>next\<close>
  pointers, as the program links them, with creating and adding, laying out, drawing, moving the focus,
  finding the widget under the mouse and dispatching an event to a text box, a button or the window. A
  null or dangling pointer that is followed is \<open>None\<close>; so is a recursion deeper than the fuel, which is
  the number of calls along a path of the store, so that a result shows that the recursion ends.
\<close>

section \<open>The store\<close>

record TcWidget =
  wd_kind :: int
  wd_x :: int
  wd_y :: int
  wd_width :: int
  wd_height :: int
  wd_preferred_width :: int
  wd_preferred_height :: int
  wd_scroll_line :: int
  wd_scroll_column :: int
  wd_text :: "byte list"
  wd_buffer :: "gap option"
  wd_callback :: "nat option"
  wd_parent :: "nat option"
  wd_children :: "nat option"
  wd_last :: "nat option"
  wd_next :: "nat option"

text \<open>The widget at address \<open>i\<close> is the \<open>i\<close>-th of the store, and \<open>None\<close> once it has been freed.\<close>

type_synonym widgets = "TcWidget option list"

definition wget :: "widgets \<Rightarrow> nat \<Rightarrow> TcWidget option" where
  "wget ws i = (if i < length ws then ws ! i else None)"

definition change :: "nat \<Rightarrow> (TcWidget \<Rightarrow> TcWidget) \<Rightarrow> widgets \<Rightarrow> widgets option" where
  "change i f ws = (case wget ws i of None \<Rightarrow> None | Some w \<Rightarrow> Some (ws[i := Some (f w)]))"

text \<open>Addition of \<open>int\<close>, where an overflow is undefined (\<open>None\<close>), and its division.\<close>

definition add32 :: "int \<Rightarrow> int \<Rightarrow> int option" where
  "add32 a b = (if - (2 ^ 31) \<le> a + b \<and> a + b < 2 ^ 31 then Some (a + b) else None)"

definition c_div :: "int \<Rightarrow> int \<Rightarrow> int" where
  "c_div a b = (if (a < 0) = (b < 0) then \<bar>a\<bar> div \<bar>b\<bar> else - (\<bar>a\<bar> div \<bar>b\<bar>))"

definition TC_WIDGET_LABEL :: int where "TC_WIDGET_LABEL = 1"
definition TC_WIDGET_BUTTON :: int where "TC_WIDGET_BUTTON = 2"
definition TC_WIDGET_TEXTBOX :: int where "TC_WIDGET_TEXTBOX = 3"
definition TC_WIDGET_PANEL :: int where "TC_WIDGET_PANEL = 4"
definition TC_WIDGET_ROW :: int where "TC_WIDGET_ROW = 5"
definition TC_WIDGET_STACK :: int where "TC_WIDGET_STACK = 7"

lemmas kind_defs = TC_WIDGET_LABEL_def TC_WIDGET_BUTTON_def TC_WIDGET_TEXTBOX_def TC_WIDGET_PANEL_def
  TC_WIDGET_ROW_def TC_WIDGET_STACK_def

section \<open>Building the tree\<close>

text \<open>Running out of memory for a widget or its text ends the process.\<close>

definition tc_widget_create :: "(nat \<Rightarrow> bool) \<Rightarrow> int \<Rightarrow> TinyString \<Rightarrow> int \<Rightarrow> int \<Rightarrow> widgets \<Rightarrow> (nat \<times> widgets) outcome" where
  "tc_widget_create calloc kind s width height ws =
     bind_outcome (if kind = TC_WIDGET_TEXTBOX then tc_gap_create calloc s else Ret None) (\<lambda>buffer.
     Ret (length ws, ws @ [Some \<lparr>wd_kind = kind, wd_x = 0, wd_y = 0, wd_width = 0, wd_height = 0,
       wd_preferred_width = width, wd_preferred_height = height, wd_scroll_line = 0, wd_scroll_column = 0,
       wd_text = ts_bytes s, wd_buffer = buffer, wd_callback = None, wd_parent = None, wd_children = None,
       wd_last = None, wd_next = None\<rparr>]))"

text \<open>\<open>for (ancestor = p; ancestor; ancestor = ancestor->parent) if (ancestor == c) return 1;\<close>\<close>

partial_function (option) ancestor_loop :: "widgets \<Rightarrow> nat \<Rightarrow> nat option \<Rightarrow> bool option" where
  "ancestor_loop ws c a =
     (case a of
        None \<Rightarrow> Some False
      | Some i \<Rightarrow> if i = c then Some True else Option.bind (wget ws i) (\<lambda>w. ancestor_loop ws c (wd_parent w)))"

definition tc_widget_add :: "nat option \<Rightarrow> nat option \<Rightarrow> widgets \<Rightarrow> (int \<times> widgets) option" where
  "tc_widget_add parent child ws =
     (case (parent, child) of
        (Some p, Some c) \<Rightarrow>
          Option.bind (wget ws c) (\<lambda>wc.
            if wd_parent wc \<noteq> None then Some (1, ws)
            else Option.bind (wget ws p) (\<lambda>wp.
              if wd_kind wp < TC_WIDGET_PANEL then Some (1, ws)
              else Option.bind (ancestor_loop ws c (Some p)) (\<lambda>cyclic.
                if cyclic then Some (1, ws)
                else
                  Option.bind (change c (\<lambda>w. w\<lparr>wd_parent := Some p\<rparr>) ws) (\<lambda>ws.
                  Option.bind (case wd_last wp of
                      Some l \<Rightarrow> change l (\<lambda>w. w\<lparr>wd_next := Some c\<rparr>) ws
                    | None \<Rightarrow> change p (\<lambda>w. w\<lparr>wd_children := Some c\<rparr>) ws) (\<lambda>ws.
                  Option.bind (change p (\<lambda>w. w\<lparr>wd_last := Some c\<rparr>) ws) (\<lambda>ws. Some (0, ws)))))))
      | _ \<Rightarrow> Some (1, ws))"

definition tc_widget_text :: "(nat \<Rightarrow> bool) \<Rightarrow> nat \<Rightarrow> TinyString \<Rightarrow> widgets \<Rightarrow> widgets option outcome" where
  "tc_widget_text calloc i s ws =
     (case wget ws i of
        None \<Rightarrow> Ret None
      | Some w \<Rightarrow>
          bind_outcome (if wd_buffer w \<noteq> None then tc_gap_create calloc s else Ret None) (\<lambda>buffer.
          Ret (change i (\<lambda>w. w\<lparr>wd_text := ts_bytes s, wd_buffer := buffer\<rparr>) ws)))"

definition tc_widget_get_text :: "(nat \<Rightarrow> byte list option) \<Rightarrow> nat \<Rightarrow> widgets \<Rightarrow> TinyString option" where
  "tc_widget_get_text malloc i ws =
     map_option (\<lambda>w. case wd_buffer w of Some g \<Rightarrow> tc_gap_text malloc g | None \<Rightarrow> ts_of (wd_text w)) (wget ws i)"

definition tc_widget_on_click :: "nat \<Rightarrow> nat option \<Rightarrow> widgets \<Rightarrow> widgets option" where
  "tc_widget_on_click i closure ws = change i (\<lambda>w. w\<lparr>wd_callback := closure\<rparr>) ws"

definition tc_widget_size :: "nat \<Rightarrow> int \<Rightarrow> int \<Rightarrow> widgets \<Rightarrow> widgets option" where
  "tc_widget_size i width height ws = change i (\<lambda>w. w\<lparr>wd_preferred_width := width, wd_preferred_height := height\<rparr>) ws"

text \<open>Freeing a widget and everything below it.\<close>

fun tc_widget_free :: "nat \<Rightarrow> nat \<Rightarrow> widgets \<Rightarrow> widgets option"
  and free_children :: "nat \<Rightarrow> nat option \<Rightarrow> widgets \<Rightarrow> widgets option" where
  "tc_widget_free 0 i ws = None"
| "tc_widget_free (Suc n) i ws =
     Option.bind (wget ws i) (\<lambda>w. Option.bind (free_children n (wd_children w) ws) (\<lambda>ws. Some (ws[i := None])))"
| "free_children 0 c ws = None"
| "free_children (Suc n) None ws = Some ws"
| "free_children (Suc n) (Some c) ws =
     Option.bind (wget ws c) (\<lambda>w. Option.bind (tc_widget_free n c ws) (free_children n (wd_next w)))"

text \<open>The fuel: no path of calls is longer.\<close>

definition fuel :: "widgets \<Rightarrow> nat" where
  "fuel ws = 2 * length ws + 2"

definition tc_widget_destroy :: "nat option \<Rightarrow> widgets \<Rightarrow> widgets option" where
  "tc_widget_destroy widget ws =
     (case widget of
        None \<Rightarrow> Some ws
      | Some i \<Rightarrow> Option.bind (wget ws i) (\<lambda>w. if wd_parent w = None then tc_widget_free (fuel ws) i ws else Some ws))"

section \<open>Layout\<close>

text \<open>The length of a text becomes an \<open>int\<close> by a cast, which wraps.\<close>

definition tc_widget_natural :: "TcWidget \<Rightarrow> bool \<Rightarrow> int option" where
  "tc_widget_natural w vertical =
     (let wanted = (if vertical then wd_preferred_height w else wd_preferred_width w)
      in if wanted > 0 then Some wanted
         else if wd_kind w = TC_WIDGET_LABEL \<or> wd_kind w = TC_WIDGET_BUTTON then
           (if vertical then Some 1
            else add32 (wrap32 (int (length (wd_text w)))) (if wd_kind w = TC_WIDGET_BUTTON then 4 else 0))
         else Some 0)"

text \<open>The first loop: the sizes that are asked for, and how many children share the rest.\<close>

fun layout_sizes :: "nat \<Rightarrow> bool \<Rightarrow> nat option \<Rightarrow> int \<Rightarrow> int \<Rightarrow> widgets \<Rightarrow> (int \<times> int) option" where
  "layout_sizes 0 vertical c tot flex ws = None"
| "layout_sizes (Suc n) vertical None tot flex ws = Some (tot, flex)"
| "layout_sizes (Suc n) vertical (Some c) tot flex ws =
     Option.bind (wget ws c) (\<lambda>child.
     Option.bind (tc_widget_natural child vertical) (\<lambda>sz.
       if sz \<noteq> 0 then Option.bind (add32 tot sz) (\<lambda>tot. layout_sizes n vertical (wd_next child) tot flex ws)
       else layout_sizes n vertical (wd_next child) tot (flex + 1) ws))"

text \<open>The area in which the second loop places the children.\<close>

record area =
  ar_stack :: bool
  ar_vertical :: bool
  ar_x :: int
  ar_y :: int
  ar_width :: int
  ar_height :: int

definition inner_area :: "TcWidget \<Rightarrow> int \<Rightarrow> int \<Rightarrow> int \<Rightarrow> int \<Rightarrow> area" where
  "inner_area w x y width height =
     (let d = (if wd_kind w = TC_WIDGET_PANEL then 1 else 0)
      in \<lparr>ar_stack = (wd_kind w = TC_WIDGET_STACK), ar_vertical = (wd_kind w \<noteq> TC_WIDGET_ROW), ar_x = x + d, ar_y = y + d,
          ar_width = (if width - 2 * d < 0 then 0 else width - 2 * d),
          ar_height = (if height - 2 * d < 0 then 0 else height - 2 * d)\<rparr>)"

definition ar_available :: "area \<Rightarrow> int" where
  "ar_available a = (if ar_vertical a then ar_height a else ar_width a)"

text \<open>The size of a child: what it asks for or its share, cut to what is left.\<close>

definition share :: "area \<Rightarrow> int \<Rightarrow> int \<Rightarrow> int option" where
  "share a tot flex =
     (if flex \<noteq> 0 then map_option (\<lambda>left. max 0 (c_div left flex)) (add32 (ar_available a) (- tot)) else Some 0)"

definition cut_size :: "area \<Rightarrow> int \<Rightarrow> int \<Rightarrow> int" where
  "cut_size a position sz =
     (let sz = (if sz > ar_available a - position then ar_available a - position else sz) in if sz < 0 then 0 else sz)"

fun tc_widget_layout :: "nat \<Rightarrow> nat \<Rightarrow> int \<Rightarrow> int \<Rightarrow> int \<Rightarrow> int \<Rightarrow> widgets \<Rightarrow> widgets option"
  and layout_children :: "nat \<Rightarrow> area \<Rightarrow> nat option \<Rightarrow> int \<Rightarrow> int \<Rightarrow> int \<Rightarrow> widgets \<Rightarrow> widgets option" where
  "tc_widget_layout 0 i x y width height ws = None"
| "tc_widget_layout (Suc n) i x y width height ws =
     Option.bind (wget ws i) (\<lambda>w.
       let a = inner_area w x y width height;
           ws = ws[i := Some (w\<lparr>wd_x := x, wd_y := y, wd_width := width, wd_height := height\<rparr>)]
       in Option.bind (layout_sizes n (ar_vertical a) (wd_children w) 0 0 ws) (\<lambda>(tot, flex).
            layout_children n a (wd_children w) tot flex 0 ws))"
| "layout_children 0 a c tot flex position ws = None"
| "layout_children (Suc n) a None tot flex position ws = Some ws"
| "layout_children (Suc n) a (Some c) tot flex position ws =
     Option.bind (wget ws c) (\<lambda>child.
     Option.bind (tc_widget_natural child (ar_vertical a)) (\<lambda>sz.
       if ar_stack a then
         Option.bind (tc_widget_layout n c (ar_x a) (ar_y a) (ar_width a) (ar_height a) ws)
           (\<lambda>ws. Option.bind (wget ws c) (\<lambda>child. layout_children n a (wd_next child) tot flex position ws))
       else
         Option.bind (if sz = 0 then share a tot flex else Some sz) (\<lambda>asked.
         Option.bind (if sz = 0 then add32 tot asked else Some tot) (\<lambda>tot.
           let flex = (if sz = 0 then flex - 1 else flex);
               sz = cut_size a position asked
           in Option.bind (tc_widget_layout n c (ar_x a + (if ar_vertical a then 0 else position))
                  (ar_y a + (if ar_vertical a then position else 0))
                  (if ar_vertical a then ar_width a else sz) (if ar_vertical a then sz else ar_height a) ws)
                (\<lambda>ws. Option.bind (wget ws c) (\<lambda>child. layout_children n a (wd_next child) tot flex (position + sz) ws))))))"

section \<open>Drawing\<close>

definition tc_widget_border :: "TcWidget \<Rightarrow> TcUi \<Rightarrow> TcUi option" where
  "tc_widget_border w ui =
     (if wd_width w < 2 \<or> wd_height w < 2 then Some ui
      else
        Option.bind (for_to (nat (wd_width w)) (\<lambda>x ui.
            Option.bind (tc_ui_put x (wd_y w) 45 0x607d8b 0x101820 ui)
              (tc_ui_put x (wd_y w + wd_height w - 1) 45 0x607d8b 0x101820)) (wd_x w) ui) (\<lambda>ui.
        Option.bind (for_to (nat (wd_height w)) (\<lambda>y ui.
            Option.bind (tc_ui_put (wd_x w) y 124 0x607d8b 0x101820 ui)
              (tc_ui_put (wd_x w + wd_width w - 1) y 124 0x607d8b 0x101820)) (wd_y w) ui) (\<lambda>ui.
        tc_ui_text_clip (wd_x w + 2) (wd_y w) (ts_of (wd_text w)) 0x8fd3ff 0x101820 (wd_width w - 4) ui)))"

definition draw_button :: "bool \<Rightarrow> TcWidget \<Rightarrow> TcUi \<Rightarrow> TcUi option" where
  "draw_button focused w ui =
     (let fg = (if focused then 0x101820 else 0xe6edf3);
          bg = (if focused then 0x64b5f6 else 0x101820)
      in Option.bind (for_to (nat (wd_width w)) (\<lambda>x. tc_ui_put (wd_x w + x) (wd_y w) 32 fg bg) 0 ui) (\<lambda>ui.
         Option.bind (tc_ui_put (wd_x w) (wd_y w) 91 fg bg ui) (\<lambda>ui.
         Option.bind (tc_ui_text_clip (wd_x w + 2) (wd_y w) (ts_of (wd_text w)) fg bg (wd_width w - 4) ui)
           (tc_ui_put (wd_x w + wd_width w - 1) (wd_y w) 93 fg bg))))"

text \<open>
  \<open>while (cursor < w->buffer->start)\<close>: the column of the caret on the screen. At the end of the text
  decoding does not advance, so the loop would not end: \<open>None\<close>.
\<close>

function caret_loop :: "byte list \<Rightarrow> nat \<Rightarrow> nat \<Rightarrow> int \<Rightarrow> int option" where
  "caret_loop str start cursor column =
     (if cursor < start then
        if cursor \<ge> length str then None
        else case tc_utf8_decode str cursor of
               (cp, cursor') \<Rightarrow>
                 caret_loop str start cursor'
                   (if cp = 10 then 0 else column + (if cp = 9 then 4 - column mod 4 else tc_ui_width cp))
      else Some column)"
  by pat_completeness auto
termination
  by (relation "measure (\<lambda>(str, start, cursor, column). length str - cursor)") (auto dest: utf8_decode_less simp: not_le)

declare caret_loop.simps [simp del]

definition scroll_to :: "int \<Rightarrow> int \<Rightarrow> TcWidget \<Rightarrow> TcWidget" where
  "scroll_to caret_line caret_column w =
     (let w = (if caret_line < wd_scroll_line w then w\<lparr>wd_scroll_line := caret_line\<rparr> else w);
          w = (if caret_line \<ge> wd_scroll_line w + wd_height w then w\<lparr>wd_scroll_line := caret_line - wd_height w + 1\<rparr> else w);
          w = (if caret_column < wd_scroll_column w then w\<lparr>wd_scroll_column := caret_column\<rparr> else w)
      in if caret_column \<ge> wd_scroll_column w + wd_width w then w\<lparr>wd_scroll_column := caret_column - wd_width w + 1\<rparr> else w)"

text \<open>Drawing one character of the text, if it lies inside the box, and the loop over the text.\<close>

definition draw_char :: "TcWidget \<Rightarrow> int \<Rightarrow> int \<Rightarrow> u32 \<Rightarrow> int \<Rightarrow> u32 \<Rightarrow> u32 \<Rightarrow> TcUi \<Rightarrow> TcUi option" where
  "draw_char w line column cp cw fg bg ui =
     (if line \<ge> wd_scroll_line w \<and> column \<ge> wd_scroll_column w \<and> column + cw \<le> wd_scroll_column w + wd_width w then
        if cp = 9 then
          for_to (nat cw) (\<lambda>j. tc_ui_put (wd_x w + column - wd_scroll_column w + j) (wd_y w + line - wd_scroll_line w) 32 fg bg) 0 ui
        else tc_ui_put (wd_x w + column - wd_scroll_column w) (wd_y w + line - wd_scroll_line w) cp fg bg ui
      else Some ui)"

function draw_text_loop :: "TcWidget \<Rightarrow> byte list \<Rightarrow> u32 \<Rightarrow> u32 \<Rightarrow> nat \<Rightarrow> int \<Rightarrow> int \<Rightarrow> TcUi \<Rightarrow> TcUi option" where
  "draw_text_loop w str fg bg p line column ui =
     (if p < length str \<and> line < wd_scroll_line w + wd_height w then
        case tc_utf8_decode str p of
          (cp, p') \<Rightarrow>
            if cp = 10 then draw_text_loop w str fg bg p' (line + 1) 0 ui
            else let cw = (if cp = 9 then 4 - column mod 4 else tc_ui_width cp)
                 in Option.bind (draw_char w line column cp cw fg bg ui)
                      (draw_text_loop w str fg bg p' line (column + cw))
      else Some ui)"
  by pat_completeness auto
termination
  by (relation "measure (\<lambda>(w, str, fg, bg, p, line, column, ui). length str - p)") (auto dest: utf8_decode_less simp: not_le)

declare draw_text_loop.simps [simp del]

text \<open>The caret is drawn by exchanging the colours of its cell, with a store that nothing checks.\<close>

definition draw_caret :: "TcWidget \<Rightarrow> int \<Rightarrow> int \<Rightarrow> TcUi \<Rightarrow> TcUi option" where
  "draw_caret w caret_line caret_column ui =
     (let x = wd_x w + caret_column - wd_scroll_column w;
          y = wd_y w + caret_line - wd_scroll_line w;
          i = y * ui_width ui + x
      in if x \<ge> wd_x w \<and> x < wd_x w + wd_width w \<and> y \<ge> wd_y w \<and> y < wd_y w + wd_height w then
           if 0 \<le> i \<and> nat i < length (ui_back ui)
           then Some (ui\<lparr>ui_back := (ui_back ui)[nat i :=
                  (ui_back ui ! nat i)\<lparr>cell_foreground := 0x101820, cell_background := 0xe6edf3\<rparr>]\<rparr>)
           else None
         else Some ui)"

definition draw_textbox :: "(nat \<Rightarrow> byte list option) \<Rightarrow> bool \<Rightarrow> TcWidget \<Rightarrow> gap \<Rightarrow> TcUi \<Rightarrow> (TcUi \<times> TcWidget) option" where
  "draw_textbox malloc focused w g ui =
     (let str = ts_bytes (tc_gap_text malloc g);
          caret_line = int (tc_gap_line g)
      in Option.bind (tc_gap_column g) (\<lambda>_.
         Option.bind (caret_loop str (gstart g) 0 0) (\<lambda>caret_column.
         let w = scroll_to caret_line caret_column w
         in Option.bind (draw_text_loop w str 0xe6edf3 0x101820 0 0 0 ui) (\<lambda>ui.
            Option.bind (if focused then draw_caret w caret_line caret_column ui else Some ui) (\<lambda>ui. Some (ui, w))))))"

text \<open>What is drawn for a widget itself; only a text box changes, by scrolling.\<close>

definition draw_self :: "(nat \<Rightarrow> byte list option) \<Rightarrow> bool \<Rightarrow> TcWidget \<Rightarrow> TcUi \<Rightarrow> (TcUi \<times> TcWidget) option" where
  "draw_self malloc focused w ui =
     Option.bind (if wd_kind w = TC_WIDGET_PANEL then tc_widget_border w ui else Some ui) (\<lambda>ui.
     Option.bind (if wd_kind w = TC_WIDGET_LABEL
                  then tc_ui_text_clip (wd_x w) (wd_y w) (ts_of (wd_text w)) 0xe6edf3 0x101820 (wd_width w) ui else Some ui) (\<lambda>ui.
     Option.bind (if wd_kind w = TC_WIDGET_BUTTON then draw_button focused w ui else Some ui) (\<lambda>ui.
     case wd_buffer w of
       Some g \<Rightarrow> if wd_kind w = TC_WIDGET_TEXTBOX then draw_textbox malloc focused w g ui else Some (ui, w)
     | None \<Rightarrow> Some (ui, w))))"

fun tc_widget_draw :: "nat \<Rightarrow> (nat \<Rightarrow> byte list option) \<Rightarrow> nat option \<Rightarrow> nat \<Rightarrow> TcUi \<Rightarrow> widgets \<Rightarrow> (TcUi \<times> widgets) option"
  and draw_children :: "nat \<Rightarrow> (nat \<Rightarrow> byte list option) \<Rightarrow> nat option \<Rightarrow> nat option \<Rightarrow> TcUi \<Rightarrow> widgets \<Rightarrow> (TcUi \<times> widgets) option" where
  "tc_widget_draw 0 malloc focus i ui ws = None"
| "tc_widget_draw (Suc n) malloc focus i ui ws =
     Option.bind (wget ws i) (\<lambda>w.
       if wd_width w \<le> 0 \<or> wd_height w \<le> 0 then Some (ui, ws)
       else Option.bind (draw_self malloc (focus = Some i) w ui) (\<lambda>(ui, w).
            draw_children n malloc focus (wd_children w) ui (ws[i := Some w])))"
| "draw_children 0 malloc focus c ui ws = None"
| "draw_children (Suc n) malloc focus None ui ws = Some (ui, ws)"
| "draw_children (Suc n) malloc focus (Some c) ui ws =
     Option.bind (tc_widget_draw n malloc focus c ui ws) (\<lambda>(ui, ws).
     Option.bind (wget ws c) (\<lambda>child. draw_children n malloc focus (wd_next child) ui ws))"

section \<open>Focus and mouse\<close>

definition focusable :: "TcWidget \<Rightarrow> bool" where
  "focusable w \<longleftrightarrow> wd_kind w = TC_WIDGET_BUTTON \<or> wd_kind w = TC_WIDGET_TEXTBOX"

text \<open>The result and the value of \<open>*index\<close> afterwards.\<close>

fun tc_widget_focus_at :: "nat \<Rightarrow> widgets \<Rightarrow> nat \<Rightarrow> int \<Rightarrow> int \<Rightarrow> (nat option \<times> int) option"
  and focus_children :: "nat \<Rightarrow> widgets \<Rightarrow> nat option \<Rightarrow> int \<Rightarrow> int \<Rightarrow> (nat option \<times> int) option" where
  "tc_widget_focus_at 0 ws i index target = None"
| "tc_widget_focus_at (Suc n) ws i index target =
     Option.bind (wget ws i) (\<lambda>w.
       if focusable w \<and> index = target then Some (Some i, index + 1)
       else focus_children n ws (wd_children w) (if focusable w then index + 1 else index) target)"
| "focus_children 0 ws c index target = None"
| "focus_children (Suc n) ws None index target = Some (None, index)"
| "focus_children (Suc n) ws (Some c) index target =
     Option.bind (tc_widget_focus_at n ws c index target) (\<lambda>(found, index).
       if found \<noteq> None then Some (found, index)
       else Option.bind (wget ws c) (\<lambda>w. focus_children n ws (wd_next w) index target))"

fun tc_widget_hit :: "nat \<Rightarrow> widgets \<Rightarrow> nat \<Rightarrow> int \<Rightarrow> int \<Rightarrow> nat option option"
  and hit_children :: "nat \<Rightarrow> widgets \<Rightarrow> nat option \<Rightarrow> int \<Rightarrow> int \<Rightarrow> nat option \<Rightarrow> nat option option" where
  "tc_widget_hit 0 ws i x y = None"
| "tc_widget_hit (Suc n) ws i x y =
     Option.bind (wget ws i) (\<lambda>w.
       if x < wd_x w \<or> x \<ge> wd_x w + wd_width w \<or> y < wd_y w \<or> y \<ge> wd_y w + wd_height w then Some None
       else Option.bind (hit_children n ws (wd_children w) x y None) (\<lambda>latest.
              Some (if latest \<noteq> None then latest else if focusable w then Some i else None)))"
| "hit_children 0 ws c x y latest = None"
| "hit_children (Suc n) ws None x y latest = Some latest"
| "hit_children (Suc n) ws (Some c) x y latest =
     Option.bind (tc_widget_hit n ws c x y) (\<lambda>hit.
     Option.bind (wget ws c) (\<lambda>w. hit_children n ws (wd_next w) x y (if hit \<noteq> None then hit else latest)))"

section \<open>The window\<close>

text \<open>The screen, the store, and the fields of the window that concern the widgets.\<close>

record window =
  wn_ui :: TcUi
  wn_widgets :: widgets
  wn_root :: "nat option"
  wn_focus :: "nat option"
  wn_focus_index :: int

definition focus_at :: "window \<Rightarrow> nat \<Rightarrow> int \<Rightarrow> nat option option" where
  "focus_at wn root target = map_option fst (tc_widget_focus_at (fuel (wn_widgets wn)) (wn_widgets wn) root 0 target)"

definition tc_ui_focus :: "nat option \<Rightarrow> window \<Rightarrow> window" where
  "tc_ui_focus widget wn = wn\<lparr>wn_focus := widget\<rparr>"

definition tc_ui_content :: "nat option \<Rightarrow> window \<Rightarrow> window option" where
  "tc_ui_content root wn =
     (let ws = wn_widgets wn
      in Option.bind (case root of None \<Rightarrow> Some False | Some r \<Rightarrow> map_option (\<lambda>w. wd_parent w \<noteq> None) (wget ws r)) (\<lambda>inner.
           if inner then Some wn
           else Option.bind (case wn_root wn of
                    Some old \<Rightarrow> if root \<noteq> Some old then tc_widget_free (fuel ws) old ws else Some ws
                  | None \<Rightarrow> Some ws) (\<lambda>ws.
                let wn = wn\<lparr>wn_widgets := ws, wn_root := root\<rparr>
                in Option.bind (case root of None \<Rightarrow> Some None | Some r \<Rightarrow> focus_at wn r 0) (\<lambda>focus.
                   Some (wn\<lparr>wn_focus := focus, wn_focus_index := 0\<rparr>)))))"

definition tc_ui_draw :: "(nat \<Rightarrow> byte list option) \<Rightarrow> window \<Rightarrow> window option" where
  "tc_ui_draw malloc wn =
     Option.bind (tc_ui_clear 0xe6edf3 0x101820 (wn_ui wn)) (\<lambda>ui.
       case wn_root wn of
         None \<Rightarrow> Some (wn\<lparr>wn_ui := ui\<rparr>)
       | Some r \<Rightarrow>
           Option.bind (tc_widget_layout (fuel (wn_widgets wn)) r 0 0 (ui_width ui) (ui_height ui) (wn_widgets wn)) (\<lambda>ws.
           Option.bind (tc_widget_draw (fuel ws) malloc (wn_focus wn) r ui ws) (\<lambda>(ui, ws).
           Some (wn\<lparr>wn_ui := ui, wn_widgets := ws\<rparr>))))"

text \<open>The loop that looks for the position of the focus: the target at which it stops.\<close>

fun tab_position :: "nat \<Rightarrow> window \<Rightarrow> nat \<Rightarrow> int \<Rightarrow> int option" where
  "tab_position 0 wn root target = None"
| "tab_position (Suc n) wn root target =
     Option.bind (focus_at wn root target) (\<lambda>candidate.
       if candidate = None \<or> candidate = wn_focus wn then Some target else tab_position n wn root (target + 1))"

definition press_tab :: "nat \<Rightarrow> window \<Rightarrow> window option" where
  "press_tab root wn =
     Option.bind (tab_position (fuel (wn_widgets wn)) wn root 0) (\<lambda>target.
     Option.bind (focus_at wn root (target + 1)) (\<lambda>focus.
       if focus \<noteq> None then Some (wn\<lparr>wn_focus_index := target + 1, wn_focus := focus\<rparr>)
       else Option.bind (focus_at wn root 0) (\<lambda>focus. Some (wn\<lparr>wn_focus_index := 0, wn_focus := focus\<rparr>))))"

fun repeat_vertical :: "nat \<Rightarrow> int \<Rightarrow> gap \<Rightarrow> gap option" where
  "repeat_vertical 0 direction g = Some g"
| "repeat_vertical (Suc n) direction g = Option.bind (tc_gap_vertical g direction) (repeat_vertical n direction)"

text \<open>A key in a text box: the result of the call and the buffer.\<close>

definition textbox_key :: "(nat \<Rightarrow> byte list option) \<Rightarrow> int \<Rightarrow> int \<Rightarrow> u32 \<Rightarrow> gap \<Rightarrow> (int \<times> gap) option" where
  "textbox_key malloc height key cp g =
     (if key = 1001 then Some (0, tc_gap_left g)
      else if key = 1002 then Some (0, tc_gap_right g)
      else if key = 1003 then map_option (\<lambda>g. (0, g)) (tc_gap_vertical g (- 1))
      else if key = 1004 then map_option (\<lambda>g. (0, g)) (tc_gap_vertical g 1)
      else if key = 1005 then Some (0, tc_gap_home g)
      else if key = 1006 then Some (0, tc_gap_end g)
      else if key = 1008 \<or> key = 1009 then
        map_option (\<lambda>g. (0, g)) (repeat_vertical (nat height) (if key = 1008 then - 1 else 1) g)
      else if key = 8 \<or> key = 127 then Some (0, tc_gap_backspace g)
      else if key = 1007 then Some (0, tc_gap_delete g)
      else if key = 13 \<or> key = 10 then
        if height > 1 then Some (tc_gap_insert malloc g (ts_of [10])) else Some (0, g)
      else if cp \<ge> 32 \<and> cp \<noteq> 127 then Some (tc_gap_insert malloc g (ts_of (tc_utf8_encode cp)))
      else Some (0, g))"

text \<open>
  Dispatching an event: the result, the closure that is invoked, if any, and the window before the
  closure runs.
\<close>

definition dispatch_mouse :: "nat \<Rightarrow> int \<Rightarrow> int \<Rightarrow> window \<Rightarrow> (int \<times> nat option \<times> window) option" where
  "dispatch_mouse root x y wn =
     Option.bind (tc_widget_hit (fuel (wn_widgets wn)) (wn_widgets wn) root x y) (\<lambda>hit.
       case hit of
         None \<Rightarrow> Some (0, None, wn)
       | Some i \<Rightarrow> Option.bind (wget (wn_widgets wn) i) (\<lambda>w.
           Some (0, if wd_kind w = TC_WIDGET_BUTTON then wd_callback w else None, wn\<lparr>wn_focus := Some i\<rparr>)))"

definition dispatch_key :: "(nat \<Rightarrow> byte list option) \<Rightarrow> nat \<Rightarrow> int \<Rightarrow> u32 \<Rightarrow> window \<Rightarrow> (int \<times> nat option \<times> window) option" where
  "dispatch_key malloc i key cp wn =
     Option.bind (wget (wn_widgets wn) i) (\<lambda>w.
       if wd_kind w = TC_WIDGET_BUTTON \<and> (key = 13 \<or> key = 32 \<or> key = 10) then Some (0, wd_callback w, wn)
       else case wd_buffer w of
              Some g \<Rightarrow>
                if wd_kind w = TC_WIDGET_TEXTBOX then
                  Option.bind (textbox_key malloc (wd_height w) key cp g) (\<lambda>(r, g).
                  Option.bind (change i (\<lambda>w. w\<lparr>wd_buffer := Some g\<rparr>) (wn_widgets wn)) (\<lambda>ws.
                  Some (r, None, wn\<lparr>wn_widgets := ws\<rparr>)))
                else Some (0, None, wn)
            | None \<Rightarrow> Some (0, None, wn))"

definition tc_ui_dispatch :: "(nat \<Rightarrow> byte list option) \<Rightarrow> bool \<Rightarrow> TcUiEvent \<Rightarrow> window \<Rightarrow> (int \<times> nat option \<times> window) option" where
  "tc_ui_dispatch malloc grids e wn =
     (if ev_kind e = 2 then
        let (error, ui) = tc_ui_resize_impl grids (ev_width e) (ev_height e) (wn_ui wn)
        in Some (error, None, wn\<lparr>wn_ui := ui\<rparr>)
      else if ev_kind e = 4 \<and> wn_root wn \<noteq> None then dispatch_mouse (the (wn_root wn)) (ev_x e) (ev_y e) wn
      else if ev_kind e \<noteq> 1 then Some (0, None, wn)
      else if ev_key e = 9 \<and> wn_root wn \<noteq> None then map_option (\<lambda>wn. (0, None, wn)) (press_tab (the (wn_root wn)) wn)
      else case wn_focus wn of
             None \<Rightarrow> Some (0, None, wn)
           | Some i \<Rightarrow> dispatch_key malloc i (ev_key e) (ev_codepoint e) wn)"

section \<open>The trees in the store\<close>

text \<open>
  A tree of addresses, and when a store holds it: the pointers of every widget are those of the tree.
\<close>

datatype wtree = WT (root_of: nat) (subtrees: "wtree list")

definition first_of :: "wtree list \<Rightarrow> nat option" where
  "first_of ts = (case ts of [] \<Rightarrow> None | t # _ \<Rightarrow> Some (root_of t))"

definition last_of :: "wtree list \<Rightarrow> nat option" where
  "last_of ts = (if ts = [] then None else Some (root_of (last ts)))"

lemma first_of_simps [simp]: "first_of [] = None" "first_of (t # ts) = Some (root_of t)"
  by (simp_all add: first_of_def)

primrec ids :: "wtree \<Rightarrow> nat list" and ids_list :: "wtree list \<Rightarrow> nat list" where
  "ids (WT i ts) = i # ids_list ts"
| "ids_list [] = []"
| "ids_list (t # ts) = ids t @ ids_list ts"

lemmas tree_induct [case_names WT Nil Cons] = ids.induct
lemmas trees_induct [case_names WT Nil Cons] = ids_list.induct

primrec rep :: "wtree \<Rightarrow> nat option \<Rightarrow> nat option \<Rightarrow> widgets \<Rightarrow> bool"
  and reps :: "wtree list \<Rightarrow> nat \<Rightarrow> widgets \<Rightarrow> bool" where
  "rep (WT i ts) p nx ws \<longleftrightarrow> (\<exists>w. wget ws i = Some w \<and> wd_parent w = p \<and> wd_next w = nx \<and> wd_children w = first_of ts
      \<and> wd_last w = last_of ts \<and> (ts \<noteq> [] \<longrightarrow> TC_WIDGET_PANEL \<le> wd_kind w)) \<and> reps ts i ws"
| "reps [] p ws \<longleftrightarrow> True"
| "reps (t # ts) p ws \<longleftrightarrow> rep t (Some p) (first_of ts) ws \<and> reps ts p ws"

lemma ids_root: "ids t = root_of t # ids_list (subtrees t)"
  by (cases t) simp

lemma rep_root: "rep t p nx ws \<Longrightarrow> \<exists>w. wget ws (root_of t) = Some w \<and> wd_next w = nx \<and> wd_parent w = p"
  by (cases t) auto

text \<open>The calls along a path of the tree.\<close>

primrec need :: "wtree \<Rightarrow> nat" and needs :: "wtree list \<Rightarrow> nat" where
  "need (WT i ts) = Suc (needs ts)"
| "needs [] = 1"
| "needs (t # ts) = Suc (max (need t) (needs ts))"

lemma need_bound: "need t \<le> 2 * length (ids t)" and needs_bound: "needs ts \<le> 2 * length (ids_list ts) + 1"
  by (induction t and ts rule: ids.induct ids_list.induct) (auto simp: ids_root)

lemma needs_length: "length ts < needs ts"
  by (induction ts) auto

lemma length_ids: "distinct xs \<Longrightarrow> \<forall>i\<in>set xs. wget ws i \<noteq> None \<Longrightarrow> length xs \<le> length ws"
proof -
  assume "distinct xs" "\<forall>i\<in>set xs. wget ws i \<noteq> None"
  then have "set xs \<subseteq> {0..<length ws}" "length xs = card (set xs)" by (auto simp: wget_def distinct_card split: if_splits)
  then show ?thesis using card_mono [of "{0..<length ws}" "set xs"] by simp
qed

lemma rep_ids: "rep t p nx ws \<Longrightarrow> i \<in> set (ids t) \<Longrightarrow> wget ws i \<noteq> None"
  and reps_ids: "reps ts q ws \<Longrightarrow> i \<in> set (ids_list ts) \<Longrightarrow> wget ws i \<noteq> None"
  by (induction t and ts arbitrary: p nx and q rule: ids.induct ids_list.induct) auto

lemma need_fuel: "rep t p nx ws \<Longrightarrow> distinct (ids t) \<Longrightarrow> need t \<le> fuel ws"
  using need_bound [of t] length_ids [of "ids t" ws] rep_ids [of t p nx ws] by (auto simp: fuel_def)

text \<open>Stores with the same pointers; the trees of a store depend on them only.\<close>

definition links :: "TcWidget \<Rightarrow> int \<times> nat option \<times> nat option \<times> nat option \<times> nat option \<times> gap option" where
  "links w = (wd_kind w, wd_parent w, wd_children w, wd_last w, wd_next w, wd_buffer w)"

definition same_links :: "widgets \<Rightarrow> widgets \<Rightarrow> bool" where
  "same_links ws ws' \<longleftrightarrow> length ws' = length ws \<and> (\<forall>i. map_option links (wget ws' i) = map_option links (wget ws i))"

lemma same_links_refl [simp]: "same_links ws ws"
  by (simp add: same_links_def)

lemma same_links_trans: "same_links a b \<Longrightarrow> same_links b c \<Longrightarrow> same_links a c"
  by (simp add: same_links_def)

lemma same_links_at: "same_links ws ws' \<Longrightarrow> wget ws i = Some w \<Longrightarrow> \<exists>w'. wget ws' i = Some w' \<and> links w' = links w"
  unfolding same_links_def by (metis map_option_eq_Some option.simps(9))

lemma at_update: "i < length ws \<Longrightarrow> wget (ws[i := x]) j = (if j = i then x else wget ws j)"
  by (simp add: wget_def)

lemma at_bound: "wget ws i = Some w \<Longrightarrow> i < length ws"
  by (simp add: wget_def split: if_splits)

lemma same_links_update:
  assumes "wget ws i = Some w" "links w' = links w"
  shows "same_links ws (ws[i := Some w'])"
  using assms at_bound [OF assms(1)] by (simp add: same_links_def at_update)

lemma rep_frame:
  "(\<And>i. i \<in> set (ids t) \<Longrightarrow> map_option links (wget ws' i) = map_option links (wget ws i)) \<Longrightarrow> rep t p nx ws \<Longrightarrow> rep t p nx ws'"
  and reps_frame:
  "(\<And>i. i \<in> set (ids_list ts) \<Longrightarrow> map_option links (wget ws' i) = map_option links (wget ws i)) \<Longrightarrow> reps ts q ws \<Longrightarrow> reps ts q ws'"
proof (induction t and ts arbitrary: p nx and q rule: tree_induct trees_induct)
  case (WT i ts)
  obtain w where w: "wget ws i = Some w" "wd_parent w = p" "wd_next w = nx" "wd_children w = first_of ts"
      "wd_last w = last_of ts" "ts \<noteq> [] \<longrightarrow> TC_WIDGET_PANEL \<le> wd_kind w" using WT.prems(2) by auto
  then obtain w' where "wget ws' i = Some w'" "links w' = links w" using WT.prems(1) [of i] by auto
  moreover have "reps ts i ws'" using WT by simp
  ultimately show ?case using w by (simp add: links_def)
qed auto

lemma rep_same: "same_links ws ws' \<Longrightarrow> rep t p nx ws \<Longrightarrow> rep t p nx ws'"
  and reps_same: "same_links ws ws' \<Longrightarrow> reps ts q ws \<Longrightarrow> reps ts q ws'"
  by (rule rep_frame reps_frame, simp add: same_links_def, assumption)+

end
