(* ===== verification/Layout.thy ===== *)
theory Layout
  imports Widget
begin

text \<open>
  Layout and drawing of the widgets of \<open>runtime/tui.c\<close>. Proved: laying out a tree returns, puts every
  widget inside its parent, where siblings of a row or column do not overlap; and drawing a window
  returns and never writes outside the grid, not even where the caret is drawn without a check.
\<close>

section \<open>Where layout puts the widgets\<close>

definition within :: "int \<Rightarrow> int \<Rightarrow> int \<Rightarrow> int \<Rightarrow> bool" where
  "within lo len pos sz \<longleftrightarrow> 0 \<le> sz \<and> (sz = 0 \<or> (lo \<le> pos \<and> pos + sz \<le> lo + len))"

definition inside :: "int \<Rightarrow> int \<Rightarrow> int \<Rightarrow> int \<Rightarrow> TcWidget \<Rightarrow> bool" where
  "inside x y width height c \<longleftrightarrow> within x width (wd_x c) (wd_width c) \<and> within y height (wd_y c) (wd_height c)"

definition before :: "bool \<Rightarrow> TcWidget \<Rightarrow> TcWidget \<Rightarrow> bool" where
  "before vertical c d \<longleftrightarrow> (if vertical then wd_y c + wd_height c \<le> wd_y d else wd_x c + wd_width c \<le> wd_x d)"

abbreviation roots :: "widgets \<Rightarrow> wtree list \<Rightarrow> TcWidget list" where
  "roots ws ts \<equiv> map (\<lambda>t. the (wget ws (root_of t))) ts"

primrec nested :: "wtree \<Rightarrow> widgets \<Rightarrow> bool" and nesteds :: "wtree list \<Rightarrow> widgets \<Rightarrow> bool" where
  "nested (WT i ts) ws \<longleftrightarrow> (\<exists>w. wget ws i = Some w
      \<and> (\<forall>c\<in>set (roots ws ts). inside (wd_x w) (wd_y w) (wd_width w) (wd_height w) c)
      \<and> (wd_kind w \<noteq> TC_WIDGET_STACK \<longrightarrow> sorted_wrt (before (wd_kind w \<noteq> TC_WIDGET_ROW)) (roots ws ts)))
      \<and> nesteds ts ws"
| "nesteds [] ws \<longleftrightarrow> True"
| "nesteds (t # ts) ws \<longleftrightarrow> nested t ws \<and> nesteds ts ws"

lemma root_in_ids: "root_of t \<in> set (ids t)"
  by (cases t) simp

lemma roots_in_ids: "t \<in> set ts \<Longrightarrow> root_of t \<in> set (ids_list ts)"
  using root_in_ids by (induction ts) auto

lemma nested_frame:
  "(\<And>i. i \<in> set (ids t) \<Longrightarrow> wget ws' i = wget ws i) \<Longrightarrow> nested t ws \<Longrightarrow> nested t ws'"
  and nesteds_frame:
  "(\<And>i. i \<in> set (ids_list ts) \<Longrightarrow> wget ws' i = wget ws i) \<Longrightarrow> nesteds ts ws \<Longrightarrow> nesteds ts ws'"
proof (induction t and ts rule: tree_induct trees_induct)
  case (WT i ts)
  have same: "roots ws' ts = roots ws ts" "wget ws' i = wget ws i" using WT.prems(1) roots_in_ids by simp_all
  have "nesteds ts ws'" using WT by simp
  then show ?case using WT.prems(2) unfolding nested.simps same by blast
qed auto

section \<open>Sizes without overflow\<close>

text \<open>
  What a widget asks for depends on these fields. The sizes of a store are modest if they add up to at most
  \<open>2 ^ 30\<close>; then no sum of the layout overflows.
\<close>

definition request :: "TcWidget \<Rightarrow> int \<times> byte list \<times> int \<times> int" where
  "request w = (wd_kind w, wd_text w, wd_preferred_width w, wd_preferred_height w)"

definition same_requests :: "widgets \<Rightarrow> widgets \<Rightarrow> bool" where
  "same_requests ws ws' \<longleftrightarrow> (\<forall>i. map_option request (wget ws' i) = map_option request (wget ws i))"

definition size_bound :: "TcWidget \<Rightarrow> int" where
  "size_bound w = max 0 (wd_preferred_width w) + max 0 (wd_preferred_height w) + int (length (wd_text w)) + 4"

definition bound_at :: "widgets \<Rightarrow> nat \<Rightarrow> int" where
  "bound_at ws i = (case wget ws i of None \<Rightarrow> 0 | Some w \<Rightarrow> size_bound w)"

definition modest :: "widgets \<Rightarrow> bool" where
  "modest ws \<longleftrightarrow> (\<Sum>i<length ws. bound_at ws i) \<le> 2 ^ 30"

lemma same_requests_trans: "same_requests a b \<Longrightarrow> same_requests b c \<Longrightarrow> same_requests a c"
  by (simp add: same_requests_def)

lemma same_request:
  assumes "same_requests ws ws'"
  shows "bound_at ws' i = bound_at ws i"
    and "wget ws i = Some w \<Longrightarrow> wget ws' i = Some w' \<Longrightarrow> tc_widget_natural w' v = tc_widget_natural w v"
proof -
  have same: "map_option request (wget ws' i) = map_option request (wget ws i)" using assms by (simp add: same_requests_def)
  show "bound_at ws' i = bound_at ws i"
    using same by (cases "wget ws i"; cases "wget ws' i") (simp_all add: bound_at_def request_def size_bound_def)
  show "tc_widget_natural w' v = tc_widget_natural w v" if "wget ws i = Some w" "wget ws' i = Some w'"
  proof -
    have "wd_kind w' = wd_kind w" "wd_text w' = wd_text w" "wd_preferred_width w' = wd_preferred_width w"
      "wd_preferred_height w' = wd_preferred_height w" using same that by (simp_all add: request_def)
    then show ?thesis unfolding tc_widget_natural_def by metis
  qed
qed

lemma modest_same: "modest ws \<Longrightarrow> same_requests ws ws' \<Longrightarrow> length ws' = length ws \<Longrightarrow> modest ws'"
  by (simp add: modest_def same_request(1))

lemma bound_nonneg: "0 \<le> bound_at ws i"
  by (simp add: bound_at_def size_bound_def split: option.split)

lemma modest_sum:
  assumes "modest ws" "distinct is" "\<forall>i\<in>set is. wget ws i \<noteq> None"
  shows "(\<Sum>i\<leftarrow>is. bound_at ws i) \<le> 2 ^ 30"
proof -
  have "set is \<subseteq> {..<length ws}" using assms(3) by (auto simp: wget_def split: if_splits)
  then have "(\<Sum>i\<in>set is. bound_at ws i) \<le> (\<Sum>i<length ws. bound_at ws i)"
    by (rule sum_mono2 [OF finite_lessThan]) (rule bound_nonneg)
  then show ?thesis using assms(1,2) by (simp add: modest_def sum_list_distinct_conv_sum_set)
qed

lemma wrap32_small: "0 \<le> i \<Longrightarrow> i \<le> 2 ^ 30 \<Longrightarrow> wrap32 i = i"
  by (simp add: wrap32_def)

lemma natural_small:
  assumes "size_bound w \<le> 2 ^ 30"
  shows "\<exists>sz. tc_widget_natural w v = Some sz \<and> 0 \<le> sz \<and> sz \<le> size_bound w"
proof -
  have "int (length (wd_text w)) + 4 \<le> 2 ^ 30" using assms by (simp add: size_bound_def)
  then have "wrap32 (int (length (wd_text w))) = int (length (wd_text w))" by (simp add: wrap32_small)
  then show ?thesis using assms by (auto simp: tc_widget_natural_def size_bound_def add32_def Let_def)
qed

definition zero_asks :: "bool \<Rightarrow> widgets \<Rightarrow> wtree list \<Rightarrow> nat" where
  "zero_asks v ws ts = length (filter (\<lambda>t. tc_widget_natural (the (wget ws (root_of t))) v = Some 0) ts)"

lemma layout_sizes_returns:
  "reps ts p ws \<Longrightarrow> length ts < n \<Longrightarrow> 0 \<le> tot \<Longrightarrow> tot + (\<Sum>t\<leftarrow>ts. bound_at ws (root_of t)) \<le> 2 ^ 30 \<Longrightarrow>
   \<exists>tot'. layout_sizes n v (first_of ts) tot flex ws = Some (tot', flex + int (zero_asks v ws ts)) \<and> 0 \<le> tot' \<and> tot' \<le> 2 ^ 30"
proof (induction ts arbitrary: n tot flex)
  case Nil
  then show ?case by (cases n) (simp_all add: zero_asks_def)
next
  case (Cons t ts)
  then obtain m where m: "n = Suc m" "length ts < m" by (cases n) auto
  obtain w where w: "wget ws (root_of t) = Some w" "wd_next w = first_of ts" using Cons.prems(1) rep_root by fastforce
  have rest: "0 \<le> (\<Sum>t\<leftarrow>ts. bound_at ws (root_of t))" by (rule sum_list_nonneg) (auto simp: bound_nonneg)
  have b: "bound_at ws (root_of t) = size_bound w" by (simp add: bound_at_def w(1))
  have "size_bound w \<le> 2 ^ 30" using Cons.prems(3,4) rest b by simp
  then obtain sz where sz: "tc_widget_natural w v = Some sz" "0 \<le> sz" "sz \<le> size_bound w" using natural_small by blast
  have reps: "reps ts p ws" using Cons.prems(1) by simp
  show ?case
  proof (cases "sz = 0")
    case True
    have "tot + (\<Sum>t\<leftarrow>ts. bound_at ws (root_of t)) \<le> 2 ^ 30" using Cons.prems(4) b sz(2,3) by simp
    from Cons.IH [OF reps m(2) Cons.prems(3) this, of "flex + 1"] show ?thesis
      using w sz(1) True m(1) by (simp add: zero_asks_def ac_simps)
  next
    case False
    have "tot + sz + (\<Sum>t\<leftarrow>ts. bound_at ws (root_of t)) \<le> 2 ^ 30" "0 \<le> tot + sz" using Cons.prems(3,4) b sz(2,3) by simp_all
    moreover from this have "add32 tot sz = Some (tot + sz)" using rest by (simp add: add32_def)
    ultimately show ?thesis using Cons.IH [OF reps m(2), of "tot + sz" flex] w sz(1) False m(1) by (simp add: zero_asks_def)
  qed
qed

lemma share_returns:
  assumes "0 \<le> ar_available a" "ar_available a \<le> 2 ^ 30" "0 \<le> tot" "tot \<le> 2 ^ 30" "0 \<le> flex"
  shows "\<exists>sz. share a tot flex = Some sz \<and> add32 tot sz = Some (tot + sz) \<and> 0 \<le> tot + sz \<and> tot + sz \<le> 2 ^ 30"
proof (cases "flex = 0")
  case True
  then show ?thesis using assms by (simp add: share_def add32_def)
next
  case False
  define d where "d = c_div (ar_available a - tot) flex"
  have "d \<le> max 0 (ar_available a - tot)"
  proof (cases "ar_available a < tot")
    case True
    then show ?thesis using False assms(5) by (simp add: d_def c_div_def pos_imp_zdiv_nonneg_iff)
  next
    case less: False
    have "(ar_available a - tot) div flex \<le> ar_available a - tot"
      using less False assms(5) by (smt (verit) div_by_1 zdiv_mono2)
    then show ?thesis using less False assms(5) by (simp add: d_def c_div_def)
  qed
  moreover have "share a tot flex = Some (max 0 d)" using False assms by (simp add: share_def add32_def d_def)
  ultimately show ?thesis using assms by (auto simp: add32_def)
qed

section \<open>Where the children are put\<close>

lemma cut_size_within:
  assumes "0 \<le> position"
  shows "within 0 (ar_available a) position (cut_size a position sz)" "0 \<le> cut_size a position sz"
  using assms by (auto simp: within_def cut_size_def)

lemma within_shift: "within lo len (lo + pos) sz \<longleftrightarrow> within 0 len pos sz"
  by (auto simp: within_def)

lemma within_self: "0 \<le> sz \<Longrightarrow> within lo sz lo sz"
  by (simp add: within_def)

text \<open>What laying out one tree, and the children from one on, has to establish.\<close>

definition laid_out :: "wtree \<Rightarrow> widgets \<Rightarrow> int \<Rightarrow> int \<Rightarrow> int \<Rightarrow> int \<Rightarrow> widgets option \<Rightarrow> bool" where
  "laid_out t ws x y width height r \<longleftrightarrow>
     (\<exists>ws' w. r = Some ws' \<and> same_links ws ws' \<and> same_requests ws ws' \<and> (\<forall>j. j \<notin> set (ids t) \<longrightarrow> wget ws' j = wget ws j) \<and> nested t ws'
        \<and> wget ws' (root_of t) = Some w \<and> wd_x w = x \<and> wd_y w = y \<and> wd_width w = width \<and> wd_height w = height)"

definition children_laid_out :: "wtree list \<Rightarrow> widgets \<Rightarrow> area \<Rightarrow> int \<Rightarrow> widgets option \<Rightarrow> bool" where
  "children_laid_out ts ws a position r \<longleftrightarrow>
     (\<exists>ws'. r = Some ws' \<and> same_links ws ws' \<and> same_requests ws ws' \<and> (\<forall>j. j \<notin> set (ids_list ts) \<longrightarrow> wget ws' j = wget ws j) \<and> nesteds ts ws'
        \<and> (\<forall>c\<in>set (roots ws' ts). inside (ar_x a) (ar_y a) (ar_width a) (ar_height a) c)
        \<and> (\<not> ar_stack a \<longrightarrow> sorted_wrt (before (ar_vertical a)) (roots ws' ts)
             \<and> (\<forall>c\<in>set (roots ws' ts). if ar_vertical a then ar_y a + position \<le> wd_y c else ar_x a + position \<le> wd_x c)))"

lemma children_step:
  assumes d: "set (ids t) \<inter> set (ids_list ts) = {}"
    and t: "laid_out t ws x y width height (Some ws1)"
    and i: "within (ar_x a) (ar_width a) x width" "within (ar_y a) (ar_height a) y height"
    and p: "\<not> ar_stack a \<Longrightarrow> (if ar_vertical a then y = ar_y a + position \<and> position + height = position'
        else x = ar_x a + position \<and> position + width = position') \<and> position \<le> position'"
    and ts: "children_laid_out ts ws1 a position' r"
  shows "children_laid_out (t # ts) ws a position r"
proof -
  obtain w where w: "same_links ws ws1" "\<forall>j. j \<notin> set (ids t) \<longrightarrow> wget ws1 j = wget ws j" "nested t ws1"
      "wget ws1 (root_of t) = Some w" "wd_x w = x" "wd_y w = y" "wd_width w = width" "wd_height w = height"
    and q1: "same_requests ws ws1"
    using t unfolding laid_out_def by blast
  obtain ws2 where s: "r = Some ws2" "same_links ws1 ws2" "\<forall>j. j \<notin> set (ids_list ts) \<longrightarrow> wget ws2 j = wget ws1 j"
      "nesteds ts ws2" "\<forall>c\<in>set (roots ws2 ts). inside (ar_x a) (ar_y a) (ar_width a) (ar_height a) c"
      "\<not> ar_stack a \<Longrightarrow> sorted_wrt (before (ar_vertical a)) (roots ws2 ts)
         \<and> (\<forall>c\<in>set (roots ws2 ts). if ar_vertical a then ar_y a + position' \<le> wd_y c else ar_x a + position' \<le> wd_x c)"
    and q2: "same_requests ws1 ws2"
    using ts unfolding children_laid_out_def by blast
  have r: "wget ws2 (root_of t) = Some w" using s(3) w(4) d root_in_ids [of t] by auto
  have n: "nested t ws2" using nested_frame [OF _ w(3)] s(3) d by blast
  have "inside (ar_x a) (ar_y a) (ar_width a) (ar_height a) w" using i w by (simp add: inside_def)
  moreover have "\<forall>c\<in>set (roots ws2 ts). before (ar_vertical a) w c" if "\<not> ar_stack a"
    using s(6) [OF that] p [OF that] w by (auto simp: before_def split: if_splits)
  moreover have "\<forall>c\<in>set (w # roots ws2 ts). if ar_vertical a then ar_y a + position \<le> wd_y c else ar_x a + position \<le> wd_x c"
    if "\<not> ar_stack a"
    using s(6) [OF that] p [OF that] w by (auto split: if_splits)
  ultimately show ?thesis unfolding children_laid_out_def
    using s(1,3,4,5,6) r n w(2) same_links_trans [OF w(1) s(2)] same_requests_trans [OF q1 q2] by (intro exI [of _ ws2]) auto
qed

lemma roots_modest:
  assumes "modest ws" "reps ts p ws" "distinct (ids_list ts)"
  shows "(\<Sum>t\<leftarrow>ts. bound_at ws (root_of t)) \<le> 2 ^ 30"
proof -
  have "distinct (map root_of ts)" using assms(3) roots_in_ids root_in_ids by (induction ts) fastforce+
  moreover have "\<forall>i\<in>set (map root_of ts). wget ws i \<noteq> None" using assms(2) rep_root by (induction ts) fastforce+
  ultimately show ?thesis using modest_sum [OF assms(1), of "map root_of ts"] by (simp add: comp_def)
qed

lemma zero_asks_same:
  assumes "same_requests ws ws'" "reps ts p ws" "reps ts p ws'"
  shows "zero_asks v ws' ts = zero_asks v ws ts"
  using assms(2,3)
proof (induction ts)
  case (Cons t ts)
  obtain w where w: "wget ws (root_of t) = Some w" using Cons.prems(1) rep_root by fastforce
  obtain w' where w': "wget ws' (root_of t) = Some w'" using Cons.prems(2) rep_root by fastforce
  show ?case using Cons same_request(2) [OF assms(1) w w', of v] w w' by (simp add: zero_asks_def)
qed (simp add: zero_asks_def)

lemma layout_returns:
  "rep t p nx ws \<Longrightarrow> distinct (ids t) \<Longrightarrow> need t \<le> n \<Longrightarrow> 0 \<le> width \<Longrightarrow> 0 \<le> height \<Longrightarrow> modest ws \<Longrightarrow> width \<le> 2 ^ 30 \<Longrightarrow>
   height \<le> 2 ^ 30 \<Longrightarrow> laid_out t ws x y width height (tc_widget_layout n (root_of t) x y width height ws)"
  and layout_children_returns:
  "reps ts q ws \<Longrightarrow> distinct (ids_list ts) \<Longrightarrow> needs ts \<le> n \<Longrightarrow> 0 \<le> ar_width a \<Longrightarrow> 0 \<le> ar_height a \<Longrightarrow> 0 \<le> position \<Longrightarrow>
   modest ws \<Longrightarrow> ar_width a \<le> 2 ^ 30 \<Longrightarrow> ar_height a \<le> 2 ^ 30 \<Longrightarrow> 0 \<le> tot \<Longrightarrow> tot \<le> 2 ^ 30 \<Longrightarrow> int (zero_asks (ar_vertical a) ws ts) \<le> flex \<Longrightarrow>
   children_laid_out ts ws a position (layout_children n a (first_of ts) tot flex position ws)"
proof (induction t and ts arbitrary: p nx ws n x y width height and q ws n a tot flex position
    rule: tree_induct trees_induct)
  case (WT i ts)
  obtain m where m: "n = Suc m" "needs ts \<le> m" using WT.prems(3) by (cases n) auto
  obtain w where w: "wget ws i = Some w" "wd_children w = first_of ts" "reps ts i ws" using WT.prems(1) by auto
  let ?a = "inner_area w x y width height"
  let ?w = "w\<lparr>wd_x := x, wd_y := y, wd_width := width, wd_height := height\<rparr>"
  let ?ws = "ws[i := Some ?w]"
  have same: "same_links ws ?ws" using w(1) by (rule same_links_update) (simp add: links_def)
  have req: "same_requests ws ?ws" using w(1) at_bound [OF w(1)] by (simp add: same_requests_def at_update request_def)
  have mod: "modest ?ws" using modest_same [OF WT.prems(6) req] by simp
  have i: "i \<notin> set (ids_list ts)" "distinct (ids_list ts)" using WT.prems(2) by simp_all
  have r1: "reps ts i ?ws" by (rule reps_same [OF same w(3)])
  obtain tot where sz: "layout_sizes m (ar_vertical ?a) (first_of ts) 0 0 ?ws = Some (tot, int (zero_asks (ar_vertical ?a) ?ws ts))"
      "0 \<le> tot" "tot \<le> 2 ^ 30"
    using layout_sizes_returns [OF r1, of m 0 "ar_vertical ?a" 0] roots_modest [OF mod r1 i(2)] needs_length [of ts] m(2) by auto
  have "0 \<le> ar_width ?a" "0 \<le> ar_height ?a" "ar_width ?a \<le> 2 ^ 30" "ar_height ?a \<le> 2 ^ 30"
    using WT.prems(7,8) by (simp_all add: inner_area_def Let_def)
  then have "children_laid_out ts ?ws ?a 0 (layout_children m ?a (first_of ts) tot (int (zero_asks (ar_vertical ?a) ?ws ts)) 0 ?ws)"
    using WT.IH [OF r1 i(2) m(2)] mod sz(2,3) by simp
  then obtain ws' where ws': "layout_children m ?a (first_of ts) tot (int (zero_asks (ar_vertical ?a) ?ws ts)) 0 ?ws = Some ws'" "same_links ?ws ws'"
      "\<forall>j. j \<notin> set (ids_list ts) \<longrightarrow> wget ws' j = wget ?ws j" "nesteds ts ws'"
      "\<forall>c\<in>set (roots ws' ts). inside (ar_x ?a) (ar_y ?a) (ar_width ?a) (ar_height ?a) c"
      "\<not> ar_stack ?a \<longrightarrow> sorted_wrt (before (ar_vertical ?a)) (roots ws' ts)" "same_requests ?ws ws'"
    unfolding children_laid_out_def by blast
  have res: "tc_widget_layout n i x y width height ws = Some ws'"
    using w(1,2) sz(1) ws'(1) by (simp add: m(1) Let_def)
  have ati: "wget ws' i = Some ?w" using ws'(3) i(1) at_bound [OF w(1)] by (simp add: at_update)
  have inner: "inside x y width height c" if "inside (ar_x ?a) (ar_y ?a) (ar_width ?a) (ar_height ?a) c" for c
    using that WT.prems(4,5) by (auto simp: inside_def within_def inner_area_def Let_def split: if_splits)
  have "nested (WT i ts) ws'"
    using ati ws'(4,5,6) inner by (simp add: inner_area_def Let_def)
  moreover have "wget ws' j = wget ws j" if "j \<notin> set (ids (WT i ts))" for j
    using ws'(3) that at_bound [OF w(1)] by (simp add: at_update)
  ultimately show ?case unfolding laid_out_def
    using res ati same_links_trans [OF same ws'(2)] same_requests_trans [OF req ws'(7)] by simp
next
  case Nil
  then obtain m where "n = Suc m" by (cases n) auto
  then show ?case by (simp add: children_laid_out_def same_requests_def)
next
  case (Cons t ts)
  obtain m where m: "n = Suc m" "need t \<le> m" "needs ts \<le> m" using Cons.prems(3) by (cases n) auto
  have rep: "rep t (Some q) (first_of ts) ws" "reps ts q ws" using Cons.prems(1) by simp_all
  obtain w where w: "wget ws (root_of t) = Some w" using rep_root [OF rep(1)] by blast
  have d: "distinct (ids t)" "distinct (ids_list ts)" "set (ids t) \<inter> set (ids_list ts) = {}" using Cons.prems(2) by simp_all
  have follow: "children_laid_out (t # ts) ws a position
      (Option.bind (tc_widget_layout m (root_of t) x y wi he ws) (\<lambda>ws. Option.bind (wget ws (root_of t)) (\<lambda>c.
         layout_children m a (wd_next c) tot' flex' position' ws)))"
    if "within (ar_x a) (ar_width a) x wi" "within (ar_y a) (ar_height a) y he" "0 \<le> wi" "0 \<le> he" "0 \<le> position'"
      "\<not> ar_stack a \<Longrightarrow> (if ar_vertical a then y = ar_y a + position \<and> position + he = position'
        else x = ar_x a + position \<and> position + wi = position') \<and> position \<le> position'"
      and lim: "wi \<le> 2 ^ 30" "he \<le> 2 ^ 30" "0 \<le> tot'" "tot' \<le> 2 ^ 30" "int (zero_asks (ar_vertical a) ws ts) \<le> flex'"
    for x y wi he position' tot' flex'
  proof -
    have l: "laid_out t ws x y wi he (tc_widget_layout m (root_of t) x y wi he ws)"
      by (rule Cons.IH(1) [OF rep(1) d(1) m(2) that(3,4) Cons.prems(7) lim(1,2)])
    then obtain ws1 where ws1: "tc_widget_layout m (root_of t) x y wi he ws = Some ws1" "same_links ws ws1" "same_requests ws ws1"
      unfolding laid_out_def by blast
    have "rep t (Some q) (first_of ts) ws1" by (rule rep_same [OF ws1(2) rep(1)])
    then obtain c where c: "wget ws1 (root_of t) = Some c" "wd_next c = first_of ts" using rep_root by blast
    have r1: "reps ts q ws1" by (rule reps_same [OF ws1(2) rep(2)])
    have mod: "modest ws1" using modest_same [OF Cons.prems(7) ws1(3)] ws1(2) by (simp add: same_links_def)
    have "int (zero_asks (ar_vertical a) ws1 ts) \<le> flex'" using lim(5) zero_asks_same [OF ws1(3) rep(2) r1] by simp
    then have "children_laid_out ts ws1 a position' (layout_children m a (first_of ts) tot' flex' position' ws1)"
      by (rule Cons.IH(2) [OF r1 d(2) m(3) Cons.prems(4,5) that(5) mod Cons.prems(8,9) lim(3,4)])
    from children_step [OF d(3) l [unfolded ws1(1)] that(1,2,6) this] show ?thesis using ws1(1) c by simp
  qed
  have "bound_at ws (root_of t) \<le> 2 ^ 30" using modest_sum [OF Cons.prems(7), of "[root_of t]"] w by simp
  then obtain sz where sz: "tc_widget_natural w (ar_vertical a) = Some sz" "0 \<le> sz"
    using natural_small [of w "ar_vertical a"] by (auto simp: bound_at_def w)
  have zeros: "zero_asks (ar_vertical a) ws (t # ts) = zero_asks (ar_vertical a) ws ts + (if sz = 0 then 1 else 0)"
    using w sz(1) by (simp add: zero_asks_def)
  have avail: "0 \<le> ar_available a" "ar_available a \<le> 2 ^ 30" using Cons.prems(4,5,8,9) by (simp_all add: ar_available_def)
  show ?case
  proof (cases "ar_stack a")
    case True
    have "within (ar_x a) (ar_width a) (ar_x a) (ar_width a)" "within (ar_y a) (ar_height a) (ar_y a) (ar_height a)"
      using Cons.prems(4,5) by (simp_all add: within_self)
    then show ?thesis using follow [OF _ _ Cons.prems(4,5,6) _ Cons.prems(8-11)] True w m(1) sz(1) zeros Cons.prems(12) by simp
  next
    case False
    obtain asked tot' where asked: "(if sz = 0 then share a tot flex else Some sz) = Some asked"
        "(if sz = 0 then add32 tot asked else Some tot) = Some tot'" "0 \<le> tot'" "tot' \<le> 2 ^ 30"
      using share_returns [OF avail Cons.prems(10,11), of flex] Cons.prems(10-12) by (cases "sz = 0") auto
    define flex' where "flex' = (if sz = 0 then flex - 1 else flex)"
    define s where "s = cut_size a position asked"
    have s: "0 \<le> s" "within 0 (ar_available a) position s" using cut_size_within [OF Cons.prems(6)] by (simp_all add: s_def)
    have small: "s \<le> 2 ^ 30" using s(1,2) avail Cons.prems(6) by (auto simp: within_def)
    have flex': "int (zero_asks (ar_vertical a) ws ts) \<le> flex'" using zeros Cons.prems(12) by (auto simp: flex'_def)
    have e: "layout_children n a (first_of (t # ts)) tot flex position ws =
       Option.bind (tc_widget_layout m (root_of t) (ar_x a + (if ar_vertical a then 0 else position))
           (ar_y a + (if ar_vertical a then position else 0)) (if ar_vertical a then ar_width a else s)
           (if ar_vertical a then s else ar_height a) ws) (\<lambda>ws. Option.bind (wget ws (root_of t)) (\<lambda>c.
         layout_children m a (wd_next c) tot' flex' (position + s) ws))"
      using False w m(1) sz(1) asked(1,2) unfolding flex'_def s_def by (simp add: Let_def)
    show ?thesis unfolding e
      by (rule follow) (use s small asked(3,4) flex' Cons.prems(4-9) in \<open>auto simp: within_shift within_self ar_available_def split: if_splits\<close>)
  qed
qed

section \<open>Drawing stays inside the grid\<close>

lemma draws_bind:
  assumes "draws ui r" "ui_ok ui" "\<And>ui'. ui_ok ui' \<Longrightarrow> draws ui' (f ui')"
  shows "draws ui (Option.bind r f)"
proof -
  obtain ui1 where u: "r = Some ui1" "ui_ok ui1" using draws_ok [OF assms(1,2)] by blast
  show ?thesis using draws_trans [OF assms(1) u(1) assms(3) [OF u(2)]] u(1) by simp
qed

lemma for_to_draws:
  "ui_ok ui \<Longrightarrow> (\<And>k ui. ui_ok ui \<Longrightarrow> draws ui (body k ui)) \<Longrightarrow> draws ui (for_to n body x ui)"
proof (induction n arbitrary: x ui)
  case 0
  then show ?case using draws_same by simp
next
  case (Suc n)
  show ?case unfolding for_to.simps by (rule draws_bind) (use Suc in blast)+
qed

lemma border_draws: "ui_ok ui \<Longrightarrow> draws ui (tc_widget_border w ui)"
  unfolding tc_widget_border_def
  by (simp add: draws_same) (intro impI draws_bind for_to_draws put_draws text_clip_draws; assumption)

lemma button_draws: "ui_ok ui \<Longrightarrow> draws ui (draw_button focused w ui)"
  unfolding draw_button_def Let_def
  by (intro draws_bind for_to_draws put_draws text_clip_draws; assumption)

lemma draw_char_draws: "ui_ok ui \<Longrightarrow> draws ui (draw_char w line column cp cw fg bg ui)"
  unfolding draw_char_def using for_to_draws put_draws draws_same by simp

lemma draw_text_draws: "ui_ok ui \<Longrightarrow> draws ui (draw_text_loop w str fg bg p line column ui)"
proof (induction w str fg bg p line column ui rule: draw_text_loop.induct)
  case (1 w str fg bg p line column ui)
  obtain cp p' where d: "tc_utf8_decode str p = (cp, p')" by fastforce
  show ?case
  proof (cases "p < length str \<and> line < wd_scroll_line w + wd_height w")
    case False
    then show ?thesis using draws_same by (subst draw_text_loop.simps) auto
  next
    case go: True
    show ?thesis
    proof (cases "cp = 10")
      case True
      then show ?thesis using 1(1) [OF go d [symmetric] True 1(3)] go d by (subst draw_text_loop.simps) simp
    next
      case False
      let ?cw = "if cp = 9 then 4 - column mod 4 else tc_ui_width cp"
      obtain ui1 where u: "draw_char w line column cp ?cw fg bg ui = Some ui1" "ui_ok ui1"
        using draws_ok [OF draw_char_draws [OF 1(3)] 1(3)] by blast
      have "draws ui1 (draw_text_loop w str fg bg p' line (column + ?cw) ui1)"
        by (rule 1(2) [OF go d [symmetric] False refl u])
      from draws_trans [OF draw_char_draws [OF 1(3)] u(1) this] show ?thesis
        using go d False u(1) by (subst draw_text_loop.simps) (simp add: Let_def)
    qed
  qed
qed

lemma caret_loop_returns: "start \<le> length str \<Longrightarrow> \<exists>c. caret_loop str start cursor column = Some c"
proof (induction str start cursor column rule: caret_loop.induct)
  case (1 str start cursor column)
  obtain cp c' where d: "tc_utf8_decode str cursor = (cp, c')" by fastforce
  show ?case using 1 d by (subst caret_loop.simps) auto
qed

lemma caret_draws:
  assumes "ui_ok ui" "inside 0 0 (ui_width ui) (ui_height ui) w" "0 < wd_width w" "0 < wd_height w"
  shows "draws ui (draw_caret w caret_line caret_column ui)"
proof -
  let ?x = "wd_x w + caret_column - wd_scroll_column w" and ?y = "wd_y w + caret_line - wd_scroll_line w"
  show ?thesis
  proof (cases "?x \<ge> wd_x w \<and> ?x < wd_x w + wd_width w \<and> ?y \<ge> wd_y w \<and> ?y < wd_y w + wd_height w")
    case True
    then have b: "0 \<le> ?x" "?x < ui_width ui" "0 \<le> ?y" "?y < ui_height ui"
      using assms(2-4) by (auto simp: inside_def within_def)
    then have "0 \<le> ?y * ui_width ui + ?x" by simp
    moreover have "nat (?y * ui_width ui + ?x) < length (ui_back ui)"
      using grid_index [OF b] assms(1) by (simp add: ui_ok_def)
    ultimately show ?thesis using True unfolding draw_caret_def Let_def draws_def by (auto intro!: exI)
  next
    case False
    then show ?thesis using draws_same unfolding draw_caret_def Let_def by auto
  qed
qed

text \<open>Scrolling changes nothing else in a widget.\<close>

definition placed :: "TcWidget \<Rightarrow> _" where
  "placed w = (links w, wd_x w, wd_y w, wd_width w, wd_height w)"

lemma placed_scroll: "placed (scroll_to l c w) = placed w"
  by (simp add: scroll_to_def Let_def placed_def links_def)

definition same_places :: "widgets \<Rightarrow> widgets \<Rightarrow> bool" where
  "same_places ws ws' \<longleftrightarrow> length ws' = length ws \<and> (\<forall>i. map_option placed (wget ws' i) = map_option placed (wget ws i))"

lemma same_places_links: "same_places ws ws' \<Longrightarrow> same_links ws ws'"
proof -
  assume p: "same_places ws ws'"
  have "map_option links (wget ws' i) = map_option links (wget ws i)" for i
  proof -
    have "map_option placed (wget ws' i) = map_option placed (wget ws i)" using p by (simp add: same_places_def)
    then have "map_option fst (map_option placed (wget ws' i)) = map_option fst (map_option placed (wget ws i))" by simp
    then show ?thesis by (simp add: option.map_comp o_def placed_def)
  qed
  then show ?thesis using p by (simp add: same_places_def same_links_def)
qed

definition drawable :: "TcUi \<Rightarrow> TcWidget \<Rightarrow> bool" where
  "drawable ui w \<longleftrightarrow> inside 0 0 (ui_width ui) (ui_height ui) w \<and> (\<forall>g. wd_buffer w = Some g \<longrightarrow> gap_inv g)"

definition drawn :: "TcUi \<Rightarrow> widgets \<Rightarrow> (TcUi \<times> widgets) option \<Rightarrow> bool" where
  "drawn ui ws r \<longleftrightarrow> (\<exists>ui' ws'. r = Some (ui', ws') \<and> draws ui (Some ui') \<and> same_places ws ws')"

lemma textbox_draws:
  assumes ui: "ui_ok ui" and w: "drawable ui w" "0 < wd_width w" "0 < wd_height w" "wd_buffer w = Some g"
    and m: "malloc_ok malloc" "\<forall>n. malloc n \<noteq> None"
  shows "\<exists>ui' w'. draw_textbox malloc focused w g ui = Some (ui', w') \<and> draws ui (Some ui') \<and> placed w' = placed w"
proof -
  have g: "gap_inv g" using w by (simp add: drawable_def)
  obtain b where "malloc (tc_gap_size g + 1) = Some b" using m(2) by (meson not_None_eq)
  then have str: "ts_bytes (tc_gap_text malloc g) = gtext g" using gap_text_bytes(1) [OF g m(1)] by blast
  have "gstart g \<le> length (gtext g)" using g by (auto simp: gap_inv_def gtext_def)
  then obtain cc where cc: "caret_loop (gtext g) (gstart g) 0 0 = Some cc" using caret_loop_returns by blast
  obtain c where c: "tc_gap_column g = Some c" using tc_gap_column_returns [OF g] by blast
  let ?w = "scroll_to (int (tc_gap_line g)) cc w"
  have p: "placed ?w = placed w" by (rule placed_scroll)
  then have box: "inside 0 0 (ui_width ui) (ui_height ui) ?w" "0 < wd_width ?w" "0 < wd_height ?w"
    using w by (simp_all add: placed_def inside_def drawable_def)
  obtain ui1 where u1: "draw_text_loop ?w (gtext g) 0xe6edf3 0x101820 0 0 0 ui = Some ui1" "draws ui (Some ui1)" "ui_ok ui1"
    using draw_text_draws [OF ui] draws_ok [OF draw_text_draws [OF ui] ui] by metis
  then have "ui_width ui1 = ui_width ui" "ui_height ui1 = ui_height ui" by (auto simp: draws_def)
  then have "draws ui1 (if focused then draw_caret ?w (int (tc_gap_line g)) cc ui1 else Some ui1)"
    using caret_draws [OF u1(3)] box draws_same by simp
  then obtain ui2 where u2: "(if focused then draw_caret ?w (int (tc_gap_line g)) cc ui1 else Some ui1) = Some ui2"
      "draws ui1 (Some ui2)" unfolding draws_def by metis
  have "draw_textbox malloc focused w g ui = Some (ui2, ?w)"
    unfolding draw_textbox_def Let_def str using c cc u1(1) u2(1) by simp
  then show ?thesis using draws_trans [OF u1(2) refl u2(2)] p by blast
qed

lemma draw_self_draws:
  assumes ui: "ui_ok ui" and w: "drawable ui w" "0 < wd_width w" "0 < wd_height w"
    and m: "malloc_ok malloc" "\<forall>n. malloc n \<noteq> None"
  shows "\<exists>ui' w'. draw_self malloc focused w ui = Some (ui', w') \<and> draws ui (Some ui') \<and> placed w' = placed w"
proof -
  define r1 where "r1 = (if wd_kind w = TC_WIDGET_PANEL then tc_widget_border w ui else Some ui)"
  have d1: "draws ui r1" unfolding r1_def using border_draws [OF ui] draws_same by simp
  obtain ui1 where u1: "r1 = Some ui1" "ui_ok ui1" using draws_ok [OF d1 ui] by blast
  define r2 where "r2 = (if wd_kind w = TC_WIDGET_LABEL
    then tc_ui_text_clip (wd_x w) (wd_y w) (ts_of (wd_text w)) 0xe6edf3 0x101820 (wd_width w) ui1 else Some ui1)"
  have d2: "draws ui1 r2" unfolding r2_def using text_clip_draws [OF u1(2)] draws_same by simp
  obtain ui2 where u2: "r2 = Some ui2" "ui_ok ui2" using draws_ok [OF d2 u1(2)] by blast
  define r3 where "r3 = (if wd_kind w = TC_WIDGET_BUTTON then draw_button focused w ui2 else Some ui2)"
  have d3: "draws ui2 r3" unfolding r3_def using button_draws [OF u2(2)] draws_same by simp
  obtain ui3 where u3: "r3 = Some ui3" "ui_ok ui3" using draws_ok [OF d3 u2(2)] by blast
  have d: "draws ui (Some ui3)" using draws_trans [OF draws_trans [OF d1 u1(1) d2] u2(1) d3] u3(1) by simp
  then have "ui_width ui3 = ui_width ui" "ui_height ui3 = ui_height ui" by (auto simp: draws_def)
  then have w3: "drawable ui3 w" using w(1) by (simp add: drawable_def)
  have e: "draw_self malloc focused w ui = (case wd_buffer w of
       Some g \<Rightarrow> if wd_kind w = TC_WIDGET_TEXTBOX then draw_textbox malloc focused w g ui3 else Some (ui3, w)
     | None \<Rightarrow> Some (ui3, w))"
    unfolding draw_self_def r1_def [symmetric] u1(1) Option.bind.bind_lunit r2_def [symmetric] u2(1) r3_def [symmetric] u3(1)
    by (rule refl)
  show ?thesis
  proof (cases "\<exists>g. wd_buffer w = Some g \<and> wd_kind w = TC_WIDGET_TEXTBOX")
    case True
    then obtain g where g: "wd_buffer w = Some g" "wd_kind w = TC_WIDGET_TEXTBOX" by blast
    from textbox_draws [OF u3(2) w3 w(2,3) g(1) m] obtain ui' w' where
      "draw_textbox malloc focused w g ui3 = Some (ui', w')" "draws ui3 (Some ui')" "placed w' = placed w" by blast
    then show ?thesis using e g draws_trans [OF d refl] by auto
  next
    case False
    then have "draw_self malloc focused w ui = Some (ui3, w)" unfolding e by (auto split: option.split)
    then show ?thesis using d by blast
  qed
qed

lemma draw_returns:
  assumes m: "malloc_ok malloc" "\<forall>n. malloc n \<noteq> None"
  shows "rep t p nx ws \<Longrightarrow> need t \<le> n \<Longrightarrow> ui_ok ui \<Longrightarrow> distinct (ids t) \<Longrightarrow>
     (\<And>i w. i \<in> set (ids t) \<Longrightarrow> wget ws i = Some w \<Longrightarrow> drawable ui w) \<Longrightarrow>
     drawn ui ws (tc_widget_draw n malloc focus (root_of t) ui ws)"
  and "reps ts q ws \<Longrightarrow> needs ts \<le> n \<Longrightarrow> ui_ok ui \<Longrightarrow> distinct (ids_list ts) \<Longrightarrow>
     (\<And>i w. i \<in> set (ids_list ts) \<Longrightarrow> wget ws i = Some w \<Longrightarrow> drawable ui w) \<Longrightarrow>
     drawn ui ws (draw_children n malloc focus (first_of ts) ui ws)"
proof (induction t and ts arbitrary: p nx ws n ui and q ws n ui rule: tree_induct trees_induct)
  case (WT i ts)
  obtain k where k: "n = Suc k" "needs ts \<le> k" using WT.prems(2) by (cases n) auto
  obtain w where w: "wget ws i = Some w" "wd_children w = first_of ts" "reps ts i ws" using WT.prems(1) by auto
  show ?case
  proof (cases "wd_width w \<le> 0 \<or> wd_height w \<le> 0")
    case True
    then show ?thesis using w(1) k draws_same by (simp add: drawn_def same_places_def)
  next
    case False
    have dw: "drawable ui w" using WT.prems(5) [of i w] w(1) by simp
    obtain ui1 w1 where s: "draw_self malloc (focus = Some i) w ui = Some (ui1, w1)" "draws ui (Some ui1)" "placed w1 = placed w"
      using draw_self_draws [OF WT.prems(3) dw _ _ m] False by fastforce
    let ?ws = "ws[i := Some w1]"
    have sp: "same_places ws ?ws" using w(1) s(3) at_bound [OF w(1)] by (simp add: same_places_def at_update)
    have ok1: "ui_ok ui1" using draws_ok [OF s(2) WT.prems(3)] by simp
    have size: "ui_width ui1 = ui_width ui" "ui_height ui1 = ui_height ui" using s(2) by (auto simp: draws_def)
    have i: "i \<notin> set (ids_list ts)" using WT.prems(4) by simp
    have "drawable ui1 v" if "j \<in> set (ids_list ts)" "wget ?ws j = Some v" for j v
    proof -
      have "j \<noteq> i" using that(1) i by blast
      then have "wget ws j = Some v" using that(2) at_bound [OF w(1)] by (simp add: at_update)
      then show ?thesis using WT.prems(5) [of j v] that(1) size by (simp add: drawable_def)
    qed
    then have "drawn ui1 ?ws (draw_children k malloc focus (first_of ts) ui1 ?ws)"
      using WT.IH [OF reps_same [OF same_places_links [OF sp] w(3)] k(2) ok1] WT.prems(4) by simp
    then obtain ui2 ws2 where c: "draw_children k malloc focus (first_of ts) ui1 ?ws = Some (ui2, ws2)"
        "draws ui1 (Some ui2)" "same_places ?ws ws2" unfolding drawn_def by blast
    have "same_places ws ws2" using sp c(3) by (simp add: same_places_def)
    moreover have "draws ui (Some ui2)" using draws_trans [OF s(2) refl c(2)] .
    moreover have "wd_children w1 = first_of ts" using s(3) w(2) by (simp add: placed_def links_def)
    then have "tc_widget_draw n malloc focus i ui ws = Some (ui2, ws2)"
      using False w(1) s(1) c(1) by (simp add: k(1))
    ultimately show ?thesis by (simp add: drawn_def)
  qed
next
  case Nil
  then obtain k where "n = Suc k" by (cases n) auto
  then show ?case using draws_same by (simp add: drawn_def same_places_def)
next
  case (Cons t ts)
  obtain k where k: "n = Suc k" "need t \<le> k" "needs ts \<le> k" using Cons.prems(2) by (cases n) auto
  have rep: "rep t (Some q) (first_of ts) ws" "reps ts q ws" using Cons.prems(1) by simp_all
  have "drawn ui ws (tc_widget_draw k malloc focus (root_of t) ui ws)"
  proof (rule Cons.IH(1) [OF rep(1) k(2) Cons.prems(3)])
    show "distinct (ids t)" using Cons.prems(4) by simp
    show "drawable ui v" if "j \<in> set (ids t)" "wget ws j = Some v" for j v
      using Cons.prems(5) [OF _ that(2)] that(1) by simp
  qed
  then obtain ui1 ws1 where d: "tc_widget_draw k malloc focus (root_of t) ui ws = Some (ui1, ws1)" "draws ui (Some ui1)"
      "same_places ws ws1" unfolding drawn_def by blast
  have sl: "same_links ws ws1" by (rule same_places_links [OF d(3)])
  obtain w where w: "wget ws1 (root_of t) = Some w" "wd_next w = first_of ts" using rep_root [OF rep_same [OF sl rep(1)]] by blast
  have ok1: "ui_ok ui1" using draws_ok [OF d(2) Cons.prems(3)] by simp
  have size: "ui_width ui1 = ui_width ui" "ui_height ui1 = ui_height ui" using d(2) by (auto simp: draws_def)
  have "drawable ui1 v" if j: "j \<in> set (ids_list ts)" "wget ws1 j = Some v" for j v
  proof -
    have "map_option placed (wget ws1 j) = map_option placed (wget ws j)" using d(3) by (simp add: same_places_def)
    then obtain u where u: "wget ws j = Some u" "placed u = placed v" using j(2) by (cases "wget ws j") auto
    have "drawable ui u" using Cons.prems(5) [OF _ u(1)] j(1) by simp
    then show ?thesis using u(2) size by (simp add: drawable_def inside_def placed_def links_def)
  qed
  then have "drawn ui1 ws1 (draw_children k malloc focus (first_of ts) ui1 ws1)"
    using Cons.IH(2) [OF reps_same [OF sl rep(2)] k(3) ok1] Cons.prems(4) by simp
  then obtain ui2 ws2 where c: "draw_children k malloc focus (first_of ts) ui1 ws1 = Some (ui2, ws2)"
      "draws ui1 (Some ui2)" "same_places ws1 ws2" unfolding drawn_def by blast
  have "same_places ws ws2" using d(3) c(3) by (simp add: same_places_def)
  moreover have "draws ui (Some ui2)" by (rule draws_trans [OF d(2) refl c(2)])
  moreover have "draw_children n malloc focus (first_of (t # ts)) ui ws = Some (ui2, ws2)"
    using d(1) w c(1) by (simp add: k(1))
  ultimately show ?case by (simp add: drawn_def)
qed

end
