(* ===== verification/Events.thy ===== *)
theory Events
  imports Terminal Channel
begin

text \<open>
  Events of the terminal interface, \<open>runtime/tui.c\<close>: the ring of posted events, and reading the keyboard
  and the mouse from the terminal, as escape sequences on POSIX and as console records on Windows.
  Proved: the ring is a queue of at most 64 events, shown by an interpretation of \<open>fifo\<close>; the two halves
  that Windows reports for a character outside the basic plane are put together again; and three ways in
  which keys are reported that nobody pressed.
\<close>

section \<open>Posting\<close>

definition tc_ui_post :: "int \<Rightarrow> int \<Rightarrow> int \<Rightarrow> int \<Rightarrow> u32 \<Rightarrow> TcUi \<Rightarrow> int \<times> TcUi" where
  "tc_ui_post kind key x y codepoint ui =
     (if ui_event_write ui - ui_event_read ui \<ge> 64 then (8, ui)
      else let event = zero_event\<lparr>ev_kind := kind, ev_key := key, ev_x := x, ev_y := y, ev_codepoint := codepoint\<rparr>
           in (0, ui\<lparr>ui_events := (ui_events ui)[unat (ui_event_write ui mod 64) := event],
                     ui_event_write := ui_event_write ui + 1\<rparr>))"

definition tc_ui_replay :: "TinyString \<Rightarrow> nat \<Rightarrow> TcUi \<Rightarrow> int \<times> nat \<times> TcUi" where
  "tc_ui_replay input offset ui =
     (if offset \<ge> ts_length input then (1, offset, ui)
      else let (cp, position) = tc_utf8_decode (ts_bytes input) offset;
               (error, ui') = tc_ui_post 1 (if cp < 128 then uint cp else 0) 0 0 cp ui
           in (error, position, ui'))"

section \<open>Keys on POSIX\<close>

text \<open>
  The bytes that the terminal delivers: \<open>None\<close> is a read that times out. Behaviour that the C standard
  leaves undefined, a number of an escape sequence that does not fit an \<open>int\<close>, is \<open>None\<close> too, as the
  result of a function.
\<close>

type_synonym input = "byte option list"

fun tc_ui_read_byte :: "input \<Rightarrow> byte option \<times> input" where
  "tc_ui_read_byte [] = (None, [])"
| "tc_ui_read_byte (r # input) = (r, input)"

text \<open>The rest of an escape sequence: at most \<open>room\<close> bytes, up to a letter, a tilde or an \<open>m\<close>.\<close>

fun read_sequence :: "nat \<Rightarrow> input \<Rightarrow> byte list \<times> input" where
  "read_sequence 0 input = ([], input)"
| "read_sequence (Suc room) input =
     (case tc_ui_read_byte input of
        (None, input) \<Rightarrow> ([], input)
      | (Some b, input) \<Rightarrow>
          if (65 \<le> b \<and> b \<le> 90) \<or> b = 126 \<or> b = 109 then ([b], input)
          else let (bs, input) = read_sequence room input in (b # bs, input))"

text \<open>\<open>sscanf\<close> with \<open>%d\<close>: blanks, a sign and digits.\<close>

fun scan_digits :: "int \<Rightarrow> byte list \<Rightarrow> int \<times> byte list" where
  "scan_digits n [] = (n, [])"
| "scan_digits n (b # bs) = (if 48 \<le> b \<and> b \<le> 57 then scan_digits (10 * n + (uint b - 48)) bs else (n, b # bs))"

definition blank_byte :: "byte \<Rightarrow> bool" where
  "blank_byte b \<longleftrightarrow> b = 32 \<or> (9 \<le> b \<and> b \<le> 13)"

definition scan_int :: "byte list \<Rightarrow> (int \<times> byte list) option" where
  "scan_int bs =
     (let bs = dropWhile blank_byte bs;
          sign = (if bs \<noteq> [] \<and> bs ! 0 = 45 then - 1 else 1);
          bs = (if bs \<noteq> [] \<and> (bs ! 0 = 45 \<or> bs ! 0 = 43) then drop 1 bs else bs)
      in if bs \<noteq> [] \<and> 48 \<le> bs ! 0 \<and> bs ! 0 \<le> 57
         then let (n, r) = scan_digits 0 bs in Some (sign * n, r) else None)"

definition scan_semicolon :: "byte list \<Rightarrow> byte list option" where
  "scan_semicolon bs = (if bs \<noteq> [] \<and> bs ! 0 = 59 then Some (drop 1 bs) else None)"

text \<open>The numbers that \<open>"<%d;%d;%dM"\<close> converts before the text stops matching.\<close>

definition scan_mouse :: "byte list \<Rightarrow> int list" where
  "scan_mouse bs =
     (case scan_int (drop 1 bs) of
        None \<Rightarrow> []
      | Some (button, r) \<Rightarrow>
          (case Option.bind (scan_semicolon r) scan_int of
             None \<Rightarrow> [button]
           | Some (x, r) \<Rightarrow>
               (case Option.bind (scan_semicolon r) scan_int of None \<Rightarrow> [button, x] | Some (y, r) \<Rightarrow> [button, x, y])))"

definition int32 :: "int \<Rightarrow> bool" where
  "int32 i \<longleftrightarrow> - (2 ^ 31) \<le> i \<and> i < 2 ^ 31"

text \<open>The event of an escape sequence; \<open>text_of\<close> is what \<open>strcmp\<close> sees of the array.\<close>

definition text_of :: "byte list \<Rightarrow> byte list" where
  "text_of bs = takeWhile (\<lambda>b. b \<noteq> 0) bs"

definition sequence_keys :: "(string \<times> int) list" where
  "sequence_keys = [(''A'', 1003), (''B'', 1004), (''C'', 1002), (''D'', 1001), (''H'', 1005), (''1~'', 1005),
     (''F'', 1006), (''4~'', 1006), (''3~'', 1007), (''5~'', 1008), (''6~'', 1009)]"

definition sequence_event :: "byte list \<Rightarrow> TcUiEvent \<Rightarrow> TcUiEvent option" where
  "sequence_event bs event =
     (let s = text_of bs
      in case find (\<lambda>(name, key). to_bytes name = s) sequence_keys of
           Some (name, key) \<Rightarrow> Some (event\<lparr>ev_key := key\<rparr>)
         | None \<Rightarrow>
             if s \<noteq> [] \<and> s ! 0 = 60 then
               let ns = scan_mouse s
               in if \<not> list_all int32 ns then None
                  else if length ns = 3 \<and> last bs = 77 then
                    if int32 (ns ! 0 + 1) \<and> int32 (ns ! 1 - 1) \<and> int32 (ns ! 2 - 1)
                    then Some (event\<lparr>ev_kind := 4, ev_key := ns ! 0 + 1, ev_x := ns ! 1 - 1, ev_y := ns ! 2 - 1\<rparr>)
                    else None
                  else Some event
             else Some event)"

text \<open>The continuation bytes that arrive in time.\<close>

fun read_tail :: "nat \<Rightarrow> input \<Rightarrow> byte list \<times> input" where
  "read_tail 0 input = ([], input)"
| "read_tail (Suc n) input =
     (case tc_ui_read_byte input of
        (None, input) \<Rightarrow> ([], input)
      | (Some b, input) \<Rightarrow> let (bs, input) = read_tail n input in (b # bs, input))"

definition key_event :: "byte \<Rightarrow> input \<Rightarrow> TcUiEvent \<Rightarrow> (TcUiEvent \<times> input) option" where
  "key_event byte input event =
     (let event = event\<lparr>ev_kind := 1, ev_key := uint byte, ev_codepoint := ucast byte\<rparr>
      in if byte = 27 then
           case tc_ui_read_byte input of (after, input) \<Rightarrow>
             if after = Some 91 \<or> after = Some 79 then
               let (bs, input) = read_sequence 39 input
               in map_option (\<lambda>e. (e, input)) (sequence_event bs (event\<lparr>ev_codepoint := 0\<rparr>))
             else Some (event, input)
         else if byte \<ge> 128 then
           let n = (if byte < 224 then 2 else if byte < 240 then 3 else 4);
               (bs, input) = read_tail (n - 1) input
           in Some (event\<lparr>ev_key := 0, ev_codepoint := fst (tc_utf8_decode (byte # bs) 0)\<rparr>, input)
         else Some (event, input))"

text \<open>\<open>winsize\<close> is what \<open>TIOCGWINSZ\<close> reports, if it succeeds.\<close>

definition posix_event :: "(int \<times> int) option \<Rightarrow> TcUi \<Rightarrow> TcUiEvent \<Rightarrow> input \<Rightarrow> (TcUiEvent \<times> input) option" where
  "posix_event winsize ui event input =
     (case winsize of
        Some (columns, rows) \<Rightarrow>
          if columns \<noteq> ui_width ui \<or> rows \<noteq> ui_height ui
          then Some (event\<lparr>ev_kind := 2, ev_width := columns, ev_height := rows\<rparr>, input)
          else case tc_ui_read_byte input of (None, input) \<Rightarrow> Some (event, input) | (Some b, input) \<Rightarrow> key_event b input event
      | None \<Rightarrow>
          case tc_ui_read_byte input of (None, input) \<Rightarrow> Some (event, input) | (Some b, input) \<Rightarrow> key_event b input event)"

section \<open>Records on Windows\<close>

text \<open>
  What one round of the loop gets: no record in time, a read that fails, a new buffer size (with the
  size of the console window, if it can be asked), a mouse record, a key record with its state, virtual
  key code and UTF-16 unit, or another record. \<open>surrogate\<close> is the first half of a pair.
\<close>

datatype console_input = NotReady | ReadFails | SizeRecord "(int \<times> int) option" | MouseRecord bool int int
  | KeyRecord bool nat u32 | OtherRecord

definition virtual_keys :: "(nat \<times> int) list" where
  "virtual_keys = [(0x25, 1001), (0x27, 1002), (0x26, 1003), (0x28, 1004), (0x24, 1005), (0x23, 1006), (0x2e, 1007),
     (0x21, 1008), (0x22, 1009)]"

definition virtual_key :: "nat \<Rightarrow> u32 \<Rightarrow> int" where
  "virtual_key vk cp = (case map_of virtual_keys vk of Some key \<Rightarrow> key | None \<Rightarrow> if cp < 128 then uint cp else 0)"

fun windows_loop :: "nat \<Rightarrow> TcUi \<Rightarrow> u32 \<Rightarrow> TcUiEvent \<Rightarrow> console_input list \<Rightarrow> TcUiEvent \<times> u32 \<times> console_input list" where
  "windows_loop 0 ui surrogate event input = (event, surrogate, input)"
| "windows_loop (Suc n) ui surrogate event [] = (event, surrogate, [])"
| "windows_loop (Suc n) ui surrogate event (r # input) =
     (case r of
        NotReady \<Rightarrow> (event, surrogate, input)
      | ReadFails \<Rightarrow> (event, surrogate, input)
      | SizeRecord None \<Rightarrow> windows_loop n ui surrogate event input
      | SizeRecord (Some (w, h)) \<Rightarrow>
          let event = event\<lparr>ev_width := w, ev_height := h\<rparr>
          in if w \<noteq> ui_width ui \<or> h \<noteq> ui_height ui then (event\<lparr>ev_kind := 2\<rparr>, surrogate, input)
             else windows_loop n ui surrogate event input
      | MouseRecord pressed x y \<Rightarrow>
          if pressed then (event\<lparr>ev_kind := 4, ev_x := x, ev_y := y, ev_key := 1\<rparr>, surrogate, input)
          else windows_loop n ui surrogate event input
      | KeyRecord down vk cp \<Rightarrow>
          if down then
            let event = event\<lparr>ev_kind := 1, ev_key := virtual_key vk cp\<rparr>
            in if cp \<ge> 0xd800 \<and> cp \<le> 0xdbff then windows_loop n ui cp event input
               else
                 let cp = (if cp \<ge> 0xdc00 \<and> cp \<le> 0xdfff \<and> surrogate \<noteq> 0
                           then 0x10000 + push_bit 10 (surrogate - 0xd800) + (cp - 0xdc00) else cp);
                     event = event\<lparr>ev_codepoint := cp\<rparr>
                 in if ev_key event \<noteq> 0 \<or> cp \<noteq> 0 then (event, 0, input) else windows_loop n ui 0 event input
          else windows_loop n ui surrogate event input
      | OtherRecord \<Rightarrow> windows_loop n ui surrogate event input)"

definition windows_event :: "TcUi \<Rightarrow> TcUiEvent \<Rightarrow> u32 \<times> console_input list \<Rightarrow> (TcUiEvent \<times> u32 \<times> console_input list) option" where
  "windows_event ui event s = Some (windows_loop 128 ui (fst s) event (snd s))"

section \<open>The next event\<close>

text \<open>Posted events come first; \<open>platform\<close> is one of the two functions above.\<close>

definition tc_ui_event :: "(TcUi \<Rightarrow> TcUiEvent \<Rightarrow> 's \<Rightarrow> (TcUiEvent \<times> 's) option) \<Rightarrow> 's \<Rightarrow> TcUi \<Rightarrow> (TcUiEvent \<times> 's \<times> TcUi) option" where
  "tc_ui_event platform s ui =
     (if ui_event_read ui \<noteq> ui_event_write ui
      then Some (ui_events ui ! unat (ui_event_read ui mod 64), s, ui\<lparr>ui_event_read := ui_event_read ui + 1\<rparr>)
      else let event = zero_event\<lparr>ev_kind := 3\<rparr>
           in if ui_headless ui then Some (event, s, ui)
              else map_option (\<lambda>(event, s). (event, s, ui)) (platform ui event s))"

section \<open>The ring is a queue\<close>

definition pending :: "TcUi \<Rightarrow> nat" where
  "pending ui = unat (ui_event_write ui - ui_event_read ui)"

definition event_slot :: "u32 \<Rightarrow> nat \<Rightarrow> nat" where
  "event_slot start k = (unat start + k) mod 64"

definition pending_events :: "TcUi \<Rightarrow> TcUiEvent list" where
  "pending_events ui = map (\<lambda>k. ui_events ui ! event_slot (ui_event_read ui) k) [0..<pending ui]"

definition ring_ok :: "TcUi \<Rightarrow> bool" where
  "ring_ok ui \<longleftrightarrow> length (ui_events ui) = 64 \<and> pending ui \<le> 64"

lemma mod_64: "unat ((start + of_nat k :: u32) mod 64) = event_slot start k"
proof -
  have "unat ((start + of_nat k) mod 64) = unat (start + of_nat k) mod 64" by (simp add: unat_mod)
  also have "\<dots> = (unat start + k) mod 2 ^ 32 mod 64"
    by (simp add: unat_word_ariths unat_of_nat take_bit_eq_mod mod_add_right_eq)
  also have "\<dots> = (unat start + k) mod 64" by (rule mod_mod_cancel) (simp add: dvd_def exI [of _ "2 ^ 26"])
  finally show ?thesis by (simp add: event_slot_def)
qed

lemma write_is: "ui_event_write ui = ui_event_read ui + of_nat (pending ui)"
  by (simp add: pending_def)

lemma event_slot_differs:
  assumes "j < k" "k < 64"
  shows "event_slot start j \<noteq> event_slot start k"
proof
  assume "event_slot start j = event_slot start k"
  then have "64 dvd (unat start + k) - (unat start + j)"
    unfolding event_slot_def using assms by (subst mod_eq_dvd_iff_nat [symmetric]) simp_all
  then show False using assms by (auto dest: dvd_imp_le)
qed

lemma event_slot_less: "event_slot start k < 64"
  by (simp add: event_slot_def)

lemma event_slot_Suc: "event_slot (start + 1) k = event_slot start (Suc k)"
proof -
  have "(unat start + 1) mod 2 ^ 32 mod 64 = (unat start + 1) mod 64"
    by (rule mod_mod_cancel) (simp add: dvd_def exI [of _ "2 ^ 26"])
  then have "unat (start + 1) mod 64 = (unat start + 1) mod 64" by (simp add: unat_word_ariths)
  then have "(unat (start + 1) + k) mod 64 = (unat start + 1 + k) mod 64" by (metis mod_add_left_eq)
  then show ?thesis by (simp add: event_slot_def)
qed

text \<open>What a call does to the ring: posting appends, taking removes the oldest, nothing else touches it.\<close>

fun ui_step :: "TcUiEvent queue_event \<Rightarrow> TcUi \<Rightarrow> TcUi \<Rightarrow> bool" where
  "ui_step (Put e) ui ui' \<longleftrightarrow> (\<exists>kind key x y cp. tc_ui_post kind key x y cp ui = (0, ui')
     \<and> e = zero_event\<lparr>ev_kind := kind, ev_key := key, ev_x := x, ev_y := y, ev_codepoint := cp\<rparr>)"
| "ui_step (Got e) ui ui' \<longleftrightarrow> ui_event_read ui \<noteq> ui_event_write ui
     \<and> (\<exists>winsize input. tc_ui_event (posix_event winsize) input ui = Some (e, input, ui'))"
| "ui_step Other ui ui' \<longleftrightarrow> ui_events ui' = ui_events ui \<and> ui_event_read ui' = ui_event_read ui
     \<and> ui_event_write ui' = ui_event_write ui"

lemma unat_Suc_small: "unat (a :: u32) < 64 \<Longrightarrow> unat (a + 1) = Suc (unat a)"
  by (simp add: unat_word_ariths)

lemma post_ring:
  assumes ok: "ring_ok ui"
  shows "pending ui = 64 \<Longrightarrow> tc_ui_post kind key x y cp ui = (8, ui)"
    and "pending ui \<noteq> 64 \<Longrightarrow> \<exists>ui'. tc_ui_post kind key x y cp ui = (0, ui') \<and> ring_ok ui'
      \<and> pending_events ui' = pending_events ui @ [zero_event\<lparr>ev_kind := kind, ev_key := key, ev_x := x, ev_y := y, ev_codepoint := cp\<rparr>]"
proof -
  have ge: "ui_event_write ui - ui_event_read ui \<ge> 64 \<longleftrightarrow> pending ui \<ge> 64"
    by (simp add: word_le_nat_alt pending_def)
  show "pending ui = 64 \<Longrightarrow> tc_ui_post kind key x y cp ui = (8, ui)" using ge by (simp add: tc_ui_post_def)
  assume n: "pending ui \<noteq> 64"
  then have l: "pending ui < 64" using ok by (simp add: ring_ok_def)
  let ?e = "zero_event\<lparr>ev_kind := kind, ev_key := key, ev_x := x, ev_y := y, ev_codepoint := cp\<rparr>"
  let ?i = "event_slot (ui_event_read ui) (pending ui)"
  let ?ui = "ui\<lparr>ui_events := (ui_events ui)[?i := ?e], ui_event_write := ui_event_write ui + 1\<rparr>"
  have i: "unat (ui_event_write ui mod 64) = ?i" using mod_64 write_is by metis
  have post: "tc_ui_post kind key x y cp ui = (0, ?ui)" using ge l i by (simp add: tc_ui_post_def)
  have p: "pending ?ui = Suc (pending ui)"
    using unat_Suc_small [of "ui_event_write ui - ui_event_read ui"] l by (simp add: pending_def algebra_simps)
  have "map (\<lambda>k. (ui_events ui)[?i := ?e] ! event_slot (ui_event_read ui) k) [0..<pending ui] = pending_events ui"
    unfolding pending_events_def using event_slot_differs [OF _ l, THEN not_sym] by (intro map_cong) simp_all
  then have "pending_events ?ui = pending_events ui @ [?e]"
    using ok event_slot_less unfolding pending_events_def p by (simp add: ring_ok_def)
  moreover have "ring_ok ?ui" using ok l p by (simp add: ring_ok_def)
  ultimately show "\<exists>ui'. tc_ui_post kind key x y cp ui = (0, ui') \<and> ring_ok ui'
      \<and> pending_events ui' = pending_events ui @ [?e]" using post by blast
qed

lemma put_ring:
  assumes "ring_ok ui" "tc_ui_post kind key x y cp ui = (0, ui')"
  shows "ring_ok ui' \<and> pending_events ui'
     = pending_events ui @ [zero_event\<lparr>ev_kind := kind, ev_key := key, ev_x := x, ev_y := y, ev_codepoint := cp\<rparr>]"
  using post_ring(1) [OF assms(1), of kind key x y cp] post_ring(2) [OF assms(1), of kind key x y cp] assms(2)
  by (cases "pending ui = 64") auto

lemma take_ring:
  assumes ok: "ring_ok ui" and ne: "ui_event_read ui \<noteq> ui_event_write ui" and t: "tc_ui_event platform s ui = Some (e, s', ui')"
  shows "ring_ok ui' \<and> pending_events ui = e # pending_events ui'"
proof -
  have ui': "ui' = ui\<lparr>ui_event_read := ui_event_read ui + 1\<rparr>" and e: "e = ui_events ui ! event_slot (ui_event_read ui) 0"
    using ne t mod_64 [of "ui_event_read ui" 0] by (simp_all add: tc_ui_event_def)
  have "ui_event_write ui - ui_event_read ui \<noteq> 0" using ne by simp
  then have pos: "0 < pending ui" unfolding pending_def by (simp add: unat_gt_0)
  have p: "pending ui = Suc (pending ui')"
    using unat_minus_one [of "ui_event_write ui - ui_event_read ui"] pos ne by (simp add: pending_def ui' algebra_simps)
  have "pending_events ui = e # map (\<lambda>k. ui_events ui ! event_slot (ui_event_read ui) (Suc k)) [0..<pending ui']"
    unfolding pending_events_def p e by (simp add: upt_conv_Cons map_Suc_upt [symmetric] del: upt_Suc)
  also have "\<dots> = e # pending_events ui'"
    unfolding pending_events_def ui' by (simp add: event_slot_Suc [symmetric])
  finally show ?thesis using ok p ui' by (simp add: ring_ok_def)
qed

interpretation ui_queue: fifo pending_events ring_ok ui_step
proof (unfold_locales, goal_cases)
  case (1 ui e ui')
  show ?case
  proof (cases e)
    case (Put x)
    then show ?thesis using 1 put_ring [OF 1(1)] by auto
  next
    case (Got x)
    then obtain winsize input where "ui_event_read ui \<noteq> ui_event_write ui"
        "tc_ui_event (posix_event winsize) input ui = Some (x, input, ui')" using 1(2) by auto
    then show ?thesis using take_ring [OF 1(1), of "posix_event winsize" input x input ui'] by simp
  next
    case Other
    then show ?thesis using 1 by (simp add: ring_ok_def pending_def)
  qed
next
  case (2 ui x ui')
  then show ?case using put_ring [OF 2(1)] by auto
next
  case (3 ui x ui')
  then obtain winsize input where "ui_event_read ui \<noteq> ui_event_write ui"
      "tc_ui_event (posix_event winsize) input ui = Some (x, input, ui')" by auto
  then show ?case using take_ring [OF 3(1), of "posix_event winsize" input x input ui'] by simp
next
  case (4 ui ui')
  then show ?case by (simp add: pending_events_def pending_def)
qed

lemma length_pending: "ring_ok ui \<Longrightarrow> length (pending_events ui) = pending ui"
  by (simp add: pending_events_def)

text \<open>
  Claim C33. The ring of events is a queue, also where its 32-bit counters wrap around: in every sequence
  of calls that post events, take events or do something else to the window, the events taken followed
  by those still pending are the events pending before followed by those posted; at most 64 are pending,
  and a post is refused exactly when 64 are.
\<close>

theorem events_in_order:
  assumes "ring_ok ui" "queue_path ui_step es ui ui'"
  shows "gots es @ pending_events ui' = pending_events ui @ puts es \<and> length (pending_events ui') \<le> 64
     \<and> (fst (tc_ui_post kind key x y cp ui') = 8 \<longleftrightarrow> length (pending_events ui') = 64)"
proof -
  have q: "ring_ok ui' \<and> gots es @ pending_events ui' = pending_events ui @ puts es"
    by (rule ui_queue.path_fifo [OF assms])
  then have "fst (tc_ui_post kind key x y cp ui') = 8 \<longleftrightarrow> pending ui' = 64"
    using post_ring [of ui' kind key x y cp] by (cases "pending ui' = 64") auto
  then show ?thesis using q length_pending [of ui'] by (simp add: ring_ok_def)
qed

definition wrapping_window :: TcUi where
  "wrapping_window = demo_window\<lparr>ui_event_read := - 1, ui_event_write := - 1\<rparr>"

lemma events_in_order_witness:
  "\<exists>ui' e e'. queue_path ui_step [Put e, Put e', Got e] wrapping_window ui' \<and> pending_events ui' = [e']"
proof -
  let ?e = "\<lambda>k. zero_event\<lparr>ev_kind := 1, ev_key := k, ev_x := 0, ev_y := 0, ev_codepoint := 0\<rparr>"
  have ok: "ring_ok wrapping_window" "pending_events wrapping_window = []"
    by (simp_all add: ring_ok_def wrapping_window_def demo_window_def pending_def pending_events_def)
  obtain u1 where u1: "tc_ui_post 1 65 0 0 0 wrapping_window = (0, u1)" "ring_ok u1" "pending_events u1 = [?e 65]"
    using post_ring(2) [OF ok(1), of 1 65 0 0 0] ok(2) by (auto simp: pending_def wrapping_window_def)
  then have p1: "pending u1 = 1" using length_pending [of u1] by simp
  obtain u2 where u2: "tc_ui_post 1 66 0 0 0 u1 = (0, u2)" "ring_ok u2" "pending_events u2 = [?e 65, ?e 66]"
    using post_ring(2) [OF u1(2), of 1 66 0 0 0] u1(3) p1 by auto
  then have p2: "pending u2 = 2" using length_pending [of u2] by simp
  then have ne: "ui_event_read u2 \<noteq> ui_event_write u2" by (auto simp: pending_def)
  obtain e u3 where u3: "tc_ui_event (posix_event None) [] u2 = Some (e, [], u3)"
    using ne by (simp add: tc_ui_event_def)
  have "e = ?e 65" using take_ring [OF u2(2) ne u3] u2(3) by simp
  then have path: "queue_path ui_step [Put (?e 65), Put (?e 66), Got (?e 65)] wrapping_window u3"
    using u1(1) u2(1) u3 ne by (auto intro!: exI)
  from events_in_order [OF ok(1) path] have "pending_events u3 = [?e 66]" using ok(2) by simp
  then show ?thesis using path by blast
qed

section \<open>Characters and keys that are reported\<close>

text \<open>
  The two UTF-16 halves in which Windows delivers a character outside the basic plane.
\<close>

definition high_half :: "u32 \<Rightarrow> u32" where
  "high_half cp = 0xd800 + drop_bit 10 (cp - 0x10000)"

definition low_half :: "u32 \<Rightarrow> u32" where
  "low_half cp = 0xdc00 + ((cp - 0x10000) AND 0x3ff)"

lemma halves:
  assumes "0x10000 \<le> cp" "cp \<le> 0x10ffff"
  shows "0xd800 \<le> high_half cp \<and> high_half cp \<le> 0xdbff" "0xdc00 \<le> low_half cp \<and> low_half cp \<le> 0xdfff"
    and "0x10000 + push_bit 10 (high_half cp - 0xd800) + (low_half cp - 0xdc00) = cp"
proof -
  define d where "d = cp - 0x10000"
  have "unat d = unat cp - unat (0x10000 :: u32)" unfolding d_def by (rule unat_sub) (rule assms(1))
  moreover have "unat cp \<le> 0x10ffff" using assms(2) by (simp add: word_le_nat_alt)
  ultimately have d: "unat d < 0x100000" by simp
  have hi: "unat (drop_bit 10 d) < 1024" using d by (simp add: unat_parts(1) less_mult_imp_div_less)
  have m: "(0x3ff :: u32) = mask 10" by (simp add: mask_eq_exp_minus_1)
  have lo: "unat (d AND 0x3ff) < 1024" unfolding m unat_mask by simp
  show "0xd800 \<le> high_half cp \<and> high_half cp \<le> 0xdbff"
    using hi unfolding high_half_def d_def [symmetric] by (simp add: word_le_nat_alt unat_word_ariths)
  show "0xdc00 \<le> low_half cp \<and> low_half cp \<le> 0xdfff"
    using lo unfolding low_half_def d_def [symmetric] by (simp add: word_le_nat_alt unat_word_ariths)
  have "push_bit 10 (drop_bit 10 d) + (d AND 0x3ff) = d" unfolding m take_bit_eq_mask [symmetric] by (rule bits_ident)
  then show "0x10000 + push_bit 10 (high_half cp - 0xd800) + (low_half cp - 0xdc00) = cp"
    unfolding high_half_def low_half_def d_def [symmetric] by (simp add: add.assoc) (simp add: d_def)
qed

lemma windows_loop_skips:
  "set between \<subseteq> {KeyRecord False vk cp, OtherRecord} \<Longrightarrow>
   windows_loop (length between + n) ui surrogate event (between @ input) = windows_loop n ui surrogate event input"
  by (induction between) auto

text \<open>
  A character outside the basic plane that the Windows console delivers as two key records,
  one for each half of its UTF-16 form, possibly with key releases and other records in between, is
  reported as one key event with its code point.
\<close>

theorem windows_joins_halves:
  assumes "0x10000 \<le> cp" "cp \<le> 0x10ffff" "set between \<subseteq> {KeyRecord False 0xe7 (high_half cp), OtherRecord}"
    and "length between < 126"
  shows "\<exists>e. windows_event ui event (0, KeyRecord True 0xe7 (high_half cp) # between @ KeyRecord True 0xe7 (low_half cp) # input)
       = Some (e, 0, input) \<and> ev_kind e = 1 \<and> ev_key e = 0 \<and> ev_codepoint e = cp"
proof -
  let ?e1 = "event\<lparr>ev_kind := 1, ev_key := 0\<rparr>" and ?h = "high_half cp" and ?l = "low_half cp"
  note h = halves [OF assms(1,2)]
  have big: "\<not> ?h < 128" "\<not> ?l < 128" "?h \<noteq> 0" "\<not> ?l \<le> 0xdbff" "cp \<noteq> 0"
    using h(1,2) assms(1) by (auto simp: word_le_nat_alt word_less_nat_alt)
  have vk: "virtual_key 0xe7 ?h = 0" "virtual_key 0xe7 ?l = 0" using big by (simp_all add: virtual_key_def virtual_keys_def)
  define k where "k = 126 - length between"
  have k: "(128 :: nat) = Suc (length between + Suc k)" using assms(4) by (simp add: k_def)
  have "windows_loop 128 ui 0 event (KeyRecord True 0xe7 ?h # between @ KeyRecord True 0xe7 ?l # input)
      = windows_loop (length between + Suc k) ui ?h ?e1 (between @ KeyRecord True 0xe7 ?l # input)"
    unfolding k using h(1) by (simp add: vk)
  also have "\<dots> = windows_loop (Suc k) ui ?h ?e1 (KeyRecord True 0xe7 ?l # input)"
    by (rule windows_loop_skips [OF assms(3)])
  also have "\<dots> = (?e1\<lparr>ev_codepoint := cp\<rparr>, 0, input)"
    using h(2,3) big by (simp add: vk Let_def)
  finally show ?thesis by (simp add: windows_event_def)
qed

lemma windows_joins_halves_witness:
  "\<exists>e. windows_event demo_window zero_event (0, [KeyRecord True 0xe7 0xd83d, OtherRecord, KeyRecord True 0xe7 0xde00])
     = Some (e, 0, []) \<and> ev_codepoint e = 0x1f600"
proof -
  have h: "high_half 0x1f600 = 0xd83d" "low_half 0x1f600 = 0xde00" by (simp_all add: high_half_def low_half_def)
  show ?thesis
    using windows_joins_halves [of "0x1f600" "[OtherRecord]" demo_window zero_event "[]"] by (auto simp: h)
qed

text \<open>
  Keys that nobody pressed. On POSIX the release of a mouse button, an escape sequence that ends
  in \<open>m\<close>, is reported as the escape key; a key typed within 25 ms after the escape key is lost; on
  Windows pressing a modifier alone is reported as a key event with neither key nor character.
\<close>

theorem phantom_keys:
  "key_event 27 (map (Some \<circ> (\<lambda>ch. of_nat (of_char ch))) ''[<0;10;5m'') event
       = Some (event\<lparr>ev_kind := 1, ev_key := 27, ev_codepoint := 0\<rparr>, [])
     \<and> key_event 27 [Some 120] event = Some (event\<lparr>ev_kind := 1, ev_key := 27, ev_codepoint := 27\<rparr>, [])
     \<and> windows_event ui event (0, [KeyRecord True 0x10 0, NotReady])
       = Some (event\<lparr>ev_kind := 1, ev_key := 0, ev_codepoint := 0\<rparr>, 0, [])"
proof (intro conjI)
  show "key_event 27 (map (Some \<circ> (\<lambda>ch. of_nat (of_char ch))) ''[<0;10;5m'') event
       = Some (event\<lparr>ev_kind := 1, ev_key := 27, ev_codepoint := 0\<rparr>, [])"
  proof -
    have m: "map (Some \<circ> (\<lambda>ch. of_nat (of_char ch))) ''[<0;10;5m''
        = map Some [91 :: byte, 60, 48, 59, 49, 48, 59, 53, 109]" by simp
    have "read_sequence 39 (map Some [60, 48, 59, 49, 48, 59, 53, 109]) = ([60, 48, 59, 49, 48, 59, 53, 109], [])"
      by code_simp
    moreover have "sequence_event [60, 48, 59, 49, 48, 59, 53, 109] e = Some e" for e
    proof -
      have "text_of [60, 48, 59, 49, 48, 59, 53, 109] = [60, 48, 59, 49, 48, 59, 53, 109]" by code_simp
      moreover have "find (\<lambda>(name, key). to_bytes name = [60, 48, 59, 49, 48, 59, 53, 109]) sequence_keys = None" by code_simp
      moreover have "scan_mouse [60, 48, 59, 49, 48, 59, 53, 109] = [0, 10, 5]" by code_simp
      ultimately show ?thesis by (simp add: sequence_event_def int32_def)
    qed
    ultimately show ?thesis unfolding m by (simp add: key_event_def)
  qed
  show "key_event 27 [Some 120] event = Some (event\<lparr>ev_kind := 1, ev_key := 27, ev_codepoint := 27\<rparr>, [])"
    by (simp add: key_event_def)
  show "windows_event ui event (0, [KeyRecord True 0x10 0, NotReady])
       = Some (event\<lparr>ev_kind := 1, ev_key := 0, ev_codepoint := 0\<rparr>, 0, [])"
  proof -
    have "windows_loop (Suc (Suc n)) ui 0 event [KeyRecord True 0x10 0, NotReady]
        = (event\<lparr>ev_kind := 1, ev_key := 0, ev_codepoint := 0\<rparr>, 0, [])" for n
      by (simp add: virtual_key_def virtual_keys_def)
    from this [of 126] show ?thesis by (simp add: windows_event_def)
  qed
qed

text \<open>
  Replaying recorded input takes characters from the text one at a time; when the ring is full the
  character is refused, yet the offset has moved behind it.
\<close>

lemma replay_full_drops:
  assumes "ring_ok ui" "pending ui = 64" "offset < ts_length input" "ts_wf input"
  shows "\<exists>offset'. tc_ui_replay input offset ui = (8, offset', ui) \<and> offset < offset'"
proof -
  obtain cp p where d: "tc_utf8_decode (ts_bytes input) offset = (cp, p)" by fastforce
  then have "offset < p" using utf8_decode_progress [OF _ d] assms(3,4) by simp
  then show ?thesis using d post_ring(1) [OF assms(1,2)] assms(3) by (simp add: tc_ui_replay_def)
qed

end
