(* ===== verification/Window.thy ===== *)
theory Window
  imports Layout Events
begin

text \<open>
  The window of \<open>runtime/tui.c\<close> as a whole. The store of widgets is a set of trees that share no widget,
  and stays one under every call: creating, adding (the search through the ancestors ends and keeps cycles
  out), freeing, changing the content. Drawing and dispatching return and stay inside the grid and inside
  the blocks of the text boxes; Tab walks through the widgets in the order of the tree; a click goes to
  the topmost widget; and a character that is replayed reaches the text box with the focus.
\<close>

section \<open>The forest of widgets\<close>

text \<open>The store holds a set of trees that share no widget and make up all of it.\<close>

definition forest :: "wtree set \<Rightarrow> widgets \<Rightarrow> bool" where
  "forest F ws \<longleftrightarrow> (\<forall>t\<in>F. rep t None None ws \<and> distinct (ids t))
     \<and> (\<forall>t\<in>F. \<forall>t'\<in>F. t \<noteq> t' \<longrightarrow> set (ids t) \<inter> set (ids t') = {})
     \<and> (\<Union>t\<in>F. set (ids t)) = {i. wget ws i \<noteq> None}"

text \<open>Hanging a tree under the widget \<open>p\<close>, behind the children that it has.\<close>

primrec graft :: "nat \<Rightarrow> wtree \<Rightarrow> wtree \<Rightarrow> wtree" and grafts :: "nat \<Rightarrow> wtree \<Rightarrow> wtree list \<Rightarrow> wtree list" where
  "graft p s (WT i ts) = WT i (if i = p then ts @ [s] else grafts p s ts)"
| "grafts p s [] = []"
| "grafts p s (t # ts) = graft p s t # grafts p s ts"

lemma root_graft [simp]: "root_of (graft p s t) = root_of t"
  by (cases t) simp

lemma first_grafts [simp]: "first_of (grafts p s ts) = first_of ts"
  by (cases ts) simp_all

lemma grafts_nil [simp]: "grafts p s ts = [] \<longleftrightarrow> ts = []"
  by (cases ts) simp_all

lemma last_grafts [simp]: "last_of (grafts p s ts) = last_of ts"
  by (induction ts) (auto simp: last_of_def)

lemma ids_append [simp]: "ids_list (ts @ ts') = ids_list ts @ ids_list ts'"
  by (induction ts) simp_all

lemma graft_id: "p \<notin> set (ids t) \<Longrightarrow> graft p s t = t"
  and grafts_id: "p \<notin> set (ids_list ts) \<Longrightarrow> grafts p s ts = ts"
  by (induction t and ts rule: tree_induct trees_induct) auto

lemma ids_graft: "p \<in> set (ids t) \<Longrightarrow> set (ids (graft p s t)) = set (ids t) \<union> set (ids s)"
  and ids_grafts: "p \<in> set (ids_list ts) \<Longrightarrow> set (ids_list (grafts p s ts)) = set (ids_list ts) \<union> set (ids s)"
proof (induction t and ts rule: tree_induct trees_induct)
  case (Cons t ts)
  then show ?case by (cases "p \<in> set (ids t)"; cases "p \<in> set (ids_list ts)") (auto simp: graft_id grafts_id)
qed auto

lemma distinct_graft:
  "distinct (ids t) \<Longrightarrow> distinct (ids s) \<Longrightarrow> set (ids t) \<inter> set (ids s) = {} \<Longrightarrow> distinct (ids (graft p s t))"
  and distinct_grafts:
  "distinct (ids_list ts) \<Longrightarrow> distinct (ids s) \<Longrightarrow> set (ids_list ts) \<inter> set (ids s) = {} \<Longrightarrow> distinct (ids_list (grafts p s ts))"
proof (induction t and ts rule: tree_induct trees_induct)
  case (WT i ts)
  have "i \<notin> set (ids_list (grafts p s ts))"
    using WT.prems ids_grafts [of p ts s] grafts_id [of p ts s] by (cases "p \<in> set (ids_list ts)") auto
  then show ?case using WT by auto
next
  case (Cons t ts)
  have "set (ids (graft p s t)) \<inter> set (ids_list (grafts p s ts)) = {}"
  proof (cases "p \<in> set (ids t)")
    case True
    then have "p \<notin> set (ids_list ts)" using Cons.prems(1) by auto
    then show ?thesis using Cons.prems True ids_graft [of p t s] grafts_id [of p ts s] by auto
  next
    case False
    then show ?thesis using Cons.prems graft_id [of p t s] ids_grafts [of p ts s] grafts_id [of p ts s]
      by (cases "p \<in> set (ids_list ts)") auto
  qed
  then show ?case using Cons by auto
qed auto

text \<open>Below a widget: its children's addresses.\<close>

lemma last_below:
  "rep t q nx ws \<Longrightarrow> p \<in> set (ids t) \<Longrightarrow> wget ws p = Some wp \<Longrightarrow> wd_last wp = Some l \<Longrightarrow> distinct (ids t) \<Longrightarrow>
    l \<in> set (ids t) \<and> l \<noteq> p \<and> l \<noteq> root_of t"
  and lasts_below:
  "reps ts r ws \<Longrightarrow> p \<in> set (ids_list ts) \<Longrightarrow> wget ws p = Some wp \<Longrightarrow> wd_last wp = Some l \<Longrightarrow> distinct (ids_list ts) \<Longrightarrow>
    l \<in> set (ids_list ts) \<and> l \<noteq> p"
proof (induction t and ts arbitrary: q nx and r rule: tree_induct trees_induct)
  case (WT i ts)
  show ?case
  proof (cases "p = i")
    case True
    then have "last_of ts = Some l" using WT.prems by auto
    then have "ts \<noteq> []" "l = root_of (last ts)" by (auto simp: last_of_def split: if_splits)
    then have "l \<in> set (ids_list ts)" using roots_in_ids [of "last ts" ts] by simp
    then show ?thesis using True WT.prems(5) by auto
  next
    case False
    then show ?thesis using WT.IH [of i] WT.prems by auto
  qed
next
  case (Cons t ts)
  then show ?case by (cases "p \<in> set (ids t)") auto
qed auto

text \<open>The store after a widget has been hung under another.\<close>

definition hung :: "nat \<Rightarrow> nat \<Rightarrow> TcWidget \<Rightarrow> widgets \<Rightarrow> widgets \<Rightarrow> bool" where
  "hung p c wp ws ws' \<longleftrightarrow> length ws' = length ws
     \<and> wget ws' c = map_option (\<lambda>w. w\<lparr>wd_parent := Some p\<rparr>) (wget ws c)
     \<and> wget ws' p = Some (wp\<lparr>wd_children := (case wd_last wp of None \<Rightarrow> Some c | Some l \<Rightarrow> wd_children wp), wd_last := Some c\<rparr>)
     \<and> (\<forall>l. wd_last wp = Some l \<longrightarrow> wget ws' l = map_option (\<lambda>w. w\<lparr>wd_next := Some c\<rparr>) (wget ws l))
     \<and> (\<forall>j. j \<noteq> c \<longrightarrow> j \<noteq> p \<longrightarrow> Some j \<noteq> wd_last wp \<longrightarrow> wget ws' j = wget ws j)"

lemma reps_hung:
  assumes h: "hung p c wp ws ws'" and c: "root_of s = c" "rep s (Some p) None ws'"
  shows "reps ts p ws \<Longrightarrow> distinct (ids_list ts) \<Longrightarrow> p \<notin> set (ids_list ts) \<Longrightarrow> c \<notin> set (ids_list ts) \<Longrightarrow>
    wd_last wp = last_of ts \<Longrightarrow> reps (ts @ [s]) p ws'"
proof (induction ts)
  case Nil
  then show ?case using c by simp
next
  case (Cons t ts)
  have l: "wd_last wp = last_of (t # ts)" using Cons.prems(5) by auto
  show ?case
  proof (cases ts)
    case Nil
    obtain i us where t: "t = WT i us" by (cases t)
    have i: "wd_last wp = Some i" using l Nil t by (simp add: last_of_def)
    have r: "rep (WT i us) (Some p) None ws" using Cons.prems(1) Nil t by simp
    have "reps us i ws'"
    proof (rule reps_frame)
      show "reps us i ws" using r by simp
      fix j assume "j \<in> set (ids_list us)"
      then have "j \<noteq> i" "j \<noteq> p" "j \<noteq> c" using Cons.prems(2-4) t by auto
      then show "map_option links (wget ws' j) = map_option links (wget ws j)" using h i by (simp add: hung_def)
    qed
    then have "rep t (Some p) (Some c) ws'" using r h i unfolding t hung_def by auto
    then show ?thesis using Nil c by simp
  next
    case (Cons u us)
    have "last_of (t # ts) = last_of ts" using Cons by (simp add: last_of_def)
    then have l': "wd_last wp = last_of ts" using l by simp
    have "rep t (Some p) (first_of ts) ws'"
    proof (rule rep_frame)
      show "rep t (Some p) (first_of ts) ws" using Cons.prems(1) by simp
      fix j assume j: "j \<in> set (ids t)"
      have "root_of (last ts) \<in> set (ids_list ts)" using roots_in_ids [of "last ts" ts] Cons by simp
      then have "Some j \<noteq> wd_last wp" using Cons.prems(2) j l' Cons by (auto simp: last_of_def)
      then show "map_option links (wget ws' j) = map_option links (wget ws j)"
        using h j Cons.prems(3,4) by (auto simp: hung_def)
    qed
    moreover have "reps (ts @ [s]) p ws'" using Cons.IH Cons.prems l' by auto
    ultimately show ?thesis using Cons by simp
  qed
qed

lemma rep_graft:
  assumes h: "hung p c wp ws ws'" and c: "root_of s = c" "rep s (Some p) None ws'"
    and p: "wget ws p = Some wp" "TC_WIDGET_PANEL \<le> wd_kind wp"
  shows "rep t q nx ws \<Longrightarrow> distinct (ids t) \<Longrightarrow> p \<in> set (ids t) \<Longrightarrow> c \<notin> set (ids t) \<Longrightarrow> rep (graft p s t) q nx ws'"
  and "reps ts r ws \<Longrightarrow> distinct (ids_list ts) \<Longrightarrow> p \<in> set (ids_list ts) \<Longrightarrow> c \<notin> set (ids_list ts) \<Longrightarrow> reps (grafts p s ts) r ws'"
proof (induction t and ts arbitrary: q nx and r rule: tree_induct trees_induct)
  case (WT i ts)
  obtain w where w: "wget ws i = Some w" "wd_parent w = q" "wd_next w = nx" "wd_children w = first_of ts"
      "wd_last w = last_of ts" "ts \<noteq> [] \<Longrightarrow> TC_WIDGET_PANEL \<le> wd_kind w" "reps ts i ws" using WT.prems(1) by auto
  show ?case
  proof (cases "i = p")
    case True
    then have wp: "wp = w" using w(1) p(1) by simp
    have "reps (ts @ [s]) p ws'"
      by (rule reps_hung [OF h c]) (use True wp w WT.prems in auto)
    moreover have "wget ws' p = Some (wp\<lparr>wd_children := first_of (ts @ [s]), wd_last := Some c\<rparr>)"
    proof (cases ts)
      case Nil
      then show ?thesis using h wp w(5) c(1) by (simp add: hung_def last_of_def)
    next
      case (Cons t us)
      then show ?thesis using h wp w(4,5) by (simp add: hung_def last_of_def)
    qed
    ultimately show ?thesis using True wp w p(2) c(1) by (simp add: last_of_def)
  next
    case False
    then have pt: "p \<in> set (ids_list ts)" using WT.prems(3) by simp
    have "Some i \<noteq> wd_last wp"
    proof
      assume "Some i = wd_last wp"
      then have "i \<in> set (ids_list ts)"
        using lasts_below [OF w(7) pt p(1), of i] WT.prems(2) by simp
      then show False using WT.prems(2) by simp
    qed
    then have "wget ws' i = Some w" using h False WT.prems(4) w(1) by (auto simp: hung_def)
    moreover have "reps (grafts p s ts) i ws'" using WT.IH [OF w(7)] WT.prems pt by simp
    ultimately show ?thesis using False w by simp
  qed
next
  case (Cons t ts)
  have rep: "rep t (Some r) (first_of ts) ws" "reps ts r ws" using Cons.prems(1) by simp_all
  have other: "map_option links (wget ws' j) = map_option links (wget ws j)"
    if "j \<noteq> p" "j \<noteq> c" "\<forall>l. wd_last wp = Some l \<longrightarrow> l \<noteq> j" for j
  proof -
    have "Some j \<noteq> wd_last wp" using that(3) by (metis)
    then have "wget ws' j = wget ws j" using h that(1,2) unfolding hung_def by blast
    then show ?thesis by simp
  qed
  show ?case
  proof (cases "p \<in> set (ids t)")
    case True
    have "reps ts r ws'"
    proof (rule reps_frame [OF other rep(2)])
      fix j assume j: "j \<in> set (ids_list ts)"
      show "j \<noteq> p" "j \<noteq> c" using j True Cons.prems(2,4) by auto
      show "\<forall>l. wd_last wp = Some l \<longrightarrow> l \<noteq> j"
        using last_below [OF rep(1) True p(1)] Cons.prems(2) j by auto
    qed
    moreover have "p \<notin> set (ids_list ts)" using True Cons.prems(2) by auto
    ultimately show ?thesis using Cons.IH(1) [OF rep(1)] Cons.prems True by (simp add: grafts_id)
  next
    case False
    then have pt: "p \<in> set (ids_list ts)" using Cons.prems(3) by simp
    have "rep t (Some r) (first_of ts) ws'"
    proof (rule rep_frame [OF other rep(1)])
      fix j assume j: "j \<in> set (ids t)"
      show "j \<noteq> p" "j \<noteq> c" using j False Cons.prems(4) by auto
      show "\<forall>l. wd_last wp = Some l \<longrightarrow> l \<noteq> j"
        using lasts_below [OF rep(2) pt p(1)] Cons.prems(2) j by auto
    qed
    then show ?thesis using Cons.IH(2) [OF rep(2)] Cons.prems False pt by (simp add: graft_id)
  qed
qed simp

text \<open>Only the root of a tree has no parent; climbing from a widget ends at the root.\<close>

lemma parent_below:
  "rep t q nx ws \<Longrightarrow> i \<in> set (ids t) \<Longrightarrow> i \<noteq> root_of t \<Longrightarrow> \<exists>w k. wget ws i = Some w \<and> wd_parent w = Some k \<and> k \<in> set (ids t)"
  and parents_below:
  "reps ts r ws \<Longrightarrow> i \<in> set (ids_list ts) \<Longrightarrow> \<exists>w k. wget ws i = Some w \<and> wd_parent w = Some k \<and> (k = r \<or> k \<in> set (ids_list ts))"
proof (induction t and ts arbitrary: q nx and r rule: tree_induct trees_induct)
  case (WT i ts)
  then show ?case by fastforce
next
  case (Cons t ts)
  show ?case
  proof (cases "i \<in> set (ids t)")
    case True
    show ?thesis
    proof (cases "i = root_of t")
      case True
      then show ?thesis using Cons.prems(1) rep_root [of t "Some r" "first_of ts" ws] by auto
    next
      case False
      then show ?thesis using Cons.IH(1) [of "Some r" "first_of ts"] Cons.prems(1) True by auto
    qed
  next
    case False
    then show ?thesis using Cons.IH(2) [of r] Cons.prems by auto
  qed
qed simp

text \<open>The position of a widget above the leaves decreases on the way up.\<close>

fun depth_of :: "nat \<Rightarrow> wtree \<Rightarrow> nat" and depth_in :: "nat \<Rightarrow> wtree list \<Rightarrow> nat" where
  "depth_of j (WT i ts) = (if j = i then 0 else Suc (depth_in j ts))"
| "depth_in j [] = 0"
| "depth_in j (t # ts) = (if j \<in> set (ids t) then depth_of j t else depth_in j ts)"

lemma parent_depth:
  "rep t q nx ws \<Longrightarrow> distinct (ids t) \<Longrightarrow> i \<in> set (ids t) \<Longrightarrow> i \<noteq> root_of t \<Longrightarrow> wget ws i = Some w \<Longrightarrow> wd_parent w = Some k \<Longrightarrow>
    k \<in> set (ids t) \<and> depth_of k t < depth_of i t"
  and parents_depth:
  "reps ts r ws \<Longrightarrow> distinct (ids_list ts) \<Longrightarrow> i \<in> set (ids_list ts) \<Longrightarrow> r \<notin> set (ids_list ts) \<Longrightarrow> wget ws i = Some w \<Longrightarrow> wd_parent w = Some k \<Longrightarrow>
    k = r \<or> (k \<in> set (ids_list ts) \<and> depth_in k ts < depth_in i ts)"
proof (induction t and ts arbitrary: q nx and r rule: tree_induct trees_induct)
  case (WT j ts)
  have j: "j \<notin> set (ids_list ts)" "distinct (ids_list ts)" "i \<noteq> j" "i \<in> set (ids_list ts)" using WT.prems by auto
  have "k = j \<or> (k \<in> set (ids_list ts) \<and> depth_in k ts < depth_in i ts)"
    using WT.IH [of j] WT.prems j by simp
  then show ?case using j by auto
next
  case (Cons t ts)
  show ?case
  proof (cases "i \<in> set (ids t)")
    case True
    show ?thesis
    proof (cases "i = root_of t")
      case root: True
      then have "k = r" using Cons.prems rep_root [of t "Some r" "first_of ts" ws] by auto
      then show ?thesis by simp
    next
      case False
      then have "k \<in> set (ids t) \<and> depth_of k t < depth_of i t"
        using Cons.IH(1) [of "Some r" "first_of ts"] Cons.prems True by simp
      then show ?thesis using True by simp
    qed
  next
    case False
    then have "k = r \<or> (k \<in> set (ids_list ts) \<and> depth_in k ts < depth_in i ts)"
      using Cons.IH(2) [of r] Cons.prems by simp
    then show ?thesis using False Cons.prems(2) by auto
  qed
qed simp

lemma ancestor_returns:
  assumes t: "rep t None None ws" "distinct (ids t)"
  shows "i \<in> set (ids t) \<Longrightarrow> \<exists>b. ancestor_loop ws c (Some i) = Some b \<and> (c = root_of t \<longrightarrow> b) \<and> (c \<notin> set (ids t) \<longrightarrow> \<not> b)"
proof (induction "depth_of i t" arbitrary: i rule: less_induct)
  case less
  obtain w where w: "wget ws i = Some w" using rep_ids [OF t(1) less.prems] by blast
  show ?case
  proof (cases "i = c")
    case True
    then show ?thesis using less.prems by (subst ancestor_loop.simps) auto
  next
    case False
    then have step: "ancestor_loop ws c (Some i) = ancestor_loop ws c (wd_parent w)"
      using w by (subst ancestor_loop.simps) simp
    show ?thesis
    proof (cases "i = root_of t")
      case True
      then have "wd_parent w = None" using rep_root [OF t(1)] w by auto
      then have "ancestor_loop ws c (Some i) = Some False" unfolding step by (subst ancestor_loop.simps) simp
      then show ?thesis using True False by blast
    next
      case inner: False
      obtain k where k: "wd_parent w = Some k" using parent_below [OF t(1) less.prems inner] w by auto
      have "k \<in> set (ids t)" "depth_of k t < depth_of i t"
        using parent_depth [OF t less.prems inner w k] by simp_all
      then show ?thesis using less.hyps [of k] unfolding step k by blast
    qed
  qed
qed

text \<open>What \<open>tc_widget_add\<close> does to the forest.\<close>

lemma forest_tree: "forest F ws \<Longrightarrow> wget ws i \<noteq> None \<Longrightarrow> \<exists>t\<in>F. i \<in> set (ids t)"
  unfolding forest_def by blast

lemma change_Some: "wget ws i = Some w \<Longrightarrow> change i f ws = Some (ws[i := Some (f w)])"
  by (simp add: change_def)

lemma add_hangs:
  assumes c: "wget ws c = Some wc" and p: "wget ws p = Some wp" and cp: "c \<noteq> p"
    and l: "\<And>l. wd_last wp = Some l \<Longrightarrow> wget ws l \<noteq> None \<and> l \<noteq> p \<and> l \<noteq> c"
  shows "\<exists>ws'. Option.bind (change c (\<lambda>w. w\<lparr>wd_parent := Some p\<rparr>) ws) (\<lambda>ws.
       Option.bind (case wd_last wp of
           Some l \<Rightarrow> change l (\<lambda>w. w\<lparr>wd_next := Some c\<rparr>) ws
         | None \<Rightarrow> change p (\<lambda>w. w\<lparr>wd_children := Some c\<rparr>) ws) (\<lambda>ws.
       Option.bind (change p (\<lambda>w. w\<lparr>wd_last := Some c\<rparr>) ws) (\<lambda>ws. Some (0 :: int, ws)))) = Some (0, ws') \<and> hung p c wp ws ws'"
proof -
  let ?ws1 = "ws[c := Some (wc\<lparr>wd_parent := Some p\<rparr>)]"
  note b = at_bound [OF c] at_bound [OF p]
  have p1: "wget ?ws1 p = Some wp" using p cp b by (simp add: at_update)
  show ?thesis
  proof (cases "wd_last wp")
    case None
    let ?ws2 = "?ws1[p := Some (wp\<lparr>wd_children := Some c\<rparr>)]"
    have "wget ?ws2 p = Some (wp\<lparr>wd_children := Some c\<rparr>)" using b by (simp add: at_update)
    then show ?thesis using None change_Some [OF c] change_Some [OF p1] b c cp
      by (simp add: change_def hung_def at_update)
  next
    case (Some l)
    then obtain wl where wl: "wget ws l = Some wl" "l \<noteq> p" "l \<noteq> c" using l by blast
    let ?ws2 = "?ws1[l := Some (wl\<lparr>wd_next := Some c\<rparr>)]"
    have l1: "wget ?ws1 l = Some wl" using wl b by (simp add: at_update)
    have "wget ?ws2 p = Some wp" using p1 wl b at_bound [OF wl(1)] by (simp add: at_update)
    then show ?thesis using Some change_Some [OF c] change_Some [OF l1] b c cp wl at_bound [OF wl(1)]
      by (auto simp: change_def hung_def at_update)
  qed
qed

lemma add_forest:
  assumes f: "forest F ws" and c: "wget ws c \<noteq> None" and p: "wget ws p \<noteq> None"
  shows "\<exists>r ws' F'. tc_widget_add (Some p) (Some c) ws = Some (r, ws') \<and> forest F' ws'
     \<and> (r \<noteq> 0 \<longrightarrow> ws' = ws)
     \<and> (r = 0 \<longrightarrow> (\<exists>tp\<in>F. \<exists>tc\<in>F. root_of tc = c \<and> p \<in> set (ids tp) \<and> tp \<noteq> tc \<and> F' = insert (graft p tc tp) (F - {tp, tc})))
     \<and> (r = 0 \<longleftrightarrow> wd_parent (the (wget ws c)) = None \<and> TC_WIDGET_PANEL \<le> wd_kind (the (wget ws p))
          \<and> (\<exists>t\<in>F. root_of t = c \<and> p \<notin> set (ids t)))"
proof -
  obtain wc where wc: "wget ws c = Some wc" using c by blast
  obtain wp where wp: "wget ws p = Some wp" using p by blast
  obtain tc where tc: "tc \<in> F" "c \<in> set (ids tc)" using forest_tree [OF f c] by blast
  obtain tp where tp: "tp \<in> F" "p \<in> set (ids tp)" using forest_tree [OF f p] by blast
  have rep: "rep t None None ws" "distinct (ids t)" if "t \<in> F" for t using f that by (simp_all add: forest_def)
  have apart: "set (ids t) \<inter> set (ids t') = {}" if "t \<in> F" "t' \<in> F" "t \<noteq> t'" for t t'
    using f that unfolding forest_def by blast
  obtain b where b: "ancestor_loop ws c (Some p) = Some b" "c = root_of tp \<Longrightarrow> b" "c \<notin> set (ids tp) \<Longrightarrow> \<not> b"
    using ancestor_returns [OF rep [OF tp(1)] tp(2), of c] by blast
  show ?thesis
  proof (cases "wd_parent wc \<noteq> None \<or> wd_kind wp < TC_WIDGET_PANEL \<or> b")
    case True
    then have "tc_widget_add (Some p) (Some c) ws = Some (1, ws)"
      using wc wp b(1) by (auto simp: tc_widget_add_def)
    moreover have "p \<in> set (ids t)" if t: "t \<in> F" "root_of t = c" "b" for t
    proof -
      have "c \<in> set (ids tp)" using b(3) t(3) by blast
      moreover have "c \<in> set (ids t)" using t(2) by (cases t) auto
      ultimately show ?thesis using apart [OF t(1) tp(1)] tp(2) by blast
    qed
    then have "\<not> (wd_parent wc = None \<and> TC_WIDGET_PANEL \<le> wd_kind wp \<and> (\<exists>t\<in>F. root_of t = c \<and> p \<notin> set (ids t)))"
      using True by auto
    ultimately show ?thesis using f wc wp by (intro exI [of _ 1] exI [of _ ws] exI [of _ F]) simp
  next
    case False
    have root: "c = root_of tc"
      using parent_below [OF rep(1) [OF tc(1)] tc(2)] wc False by force
    then have ne: "tp \<noteq> tc" using b(2) False by blast
    then have ctp: "c \<notin> set (ids tp)" and ptc: "p \<notin> set (ids tc)" using apart [OF tp(1) tc(1)] tc(2) tp(2) by blast+
    have cp: "c \<noteq> p" using ctp tp(2) by blast
    have l: "l \<in> set (ids tp) \<and> l \<noteq> p \<and> l \<noteq> c" if "wd_last wp = Some l" for l
      using last_below [OF rep(1) [OF tp(1)] tp(2) wp that rep(2) [OF tp(1)]] ctp by blast
    have live: "wget ws l \<noteq> None \<and> l \<noteq> p \<and> l \<noteq> c" if "wd_last wp = Some l" for l
      using l [OF that] rep_ids [OF rep(1) [OF tp(1)], of l] by blast
    obtain ws' where ws': "Option.bind (change c (\<lambda>w. w\<lparr>wd_parent := Some p\<rparr>) ws) (\<lambda>ws.
       Option.bind (case wd_last wp of
           Some l \<Rightarrow> change l (\<lambda>w. w\<lparr>wd_next := Some c\<rparr>) ws
         | None \<Rightarrow> change p (\<lambda>w. w\<lparr>wd_children := Some c\<rparr>) ws) (\<lambda>ws.
       Option.bind (change p (\<lambda>w. w\<lparr>wd_last := Some c\<rparr>) ws) (\<lambda>ws. Some (0 :: int, ws)))) = Some (0, ws')" "hung p c wp ws ws'"
      using add_hangs [OF wc wp cp live] by blast
    have add: "tc_widget_add (Some p) (Some c) ws = Some (0, ws')"
      using ws'(1) wc wp b(1) False by (simp add: tc_widget_add_def)
    have other: "wget ws' j = wget ws j" if "j \<notin> set (ids tp)" "j \<noteq> c" for j
    proof -
      have "j \<noteq> p" "Some j \<noteq> wd_last wp" using that tp(2) l by auto
      then show ?thesis using ws'(2) that(2) unfolding hung_def by blast
    qed
    have sub: "rep tc (Some p) None ws'"
    proof -
      obtain us where us: "tc = WT c us" using root by (cases tc) simp
      have "reps us c ws'"
      proof (rule reps_frame)
        show "reps us c ws" using rep(1) [OF tc(1)] us by simp
        fix j assume "j \<in> set (ids_list us)"
        then have "j \<noteq> c" "j \<notin> set (ids tp)" using rep(2) [OF tc(1)] us apart [OF tp(1) tc(1) ne] by auto
        then show "map_option links (wget ws' j) = map_option links (wget ws j)" using other by simp
      qed
      then show ?thesis using rep(1) [OF tc(1)] ws'(2) us by (auto simp: hung_def)
    qed
    have g: "rep (graft p tc tp) None None ws'"
      by (rule rep_graft(1) [OF ws'(2) root [symmetric] sub wp _ rep [OF tp(1)] tp(2) ctp]) (use False in simp)
    have gd: "distinct (ids (graft p tc tp))"
      by (rule distinct_graft [OF rep(2) [OF tp(1)] rep(2) [OF tc(1)] apart [OF tp(1) tc(1) ne]])
    have gi: "set (ids (graft p tc tp)) = set (ids tp) \<union> set (ids tc)" by (rule ids_graft [OF tp(2)])
    let ?F = "insert (graft p tc tp) (F - {tp, tc})"
    have rest: "rep t None None ws'" if "t \<in> F - {tp, tc}" for t
    proof (rule rep_frame)
      show "rep t None None ws" using rep that by blast
      fix j assume "j \<in> set (ids t)"
      then have "j \<notin> set (ids tp)" "j \<noteq> c" using that apart tp(1) tc by blast+
      then show "map_option links (wget ws' j) = map_option links (wget ws j)" using other by simp
    qed
    have dom: "wget ws' j \<noteq> None \<longleftrightarrow> wget ws j \<noteq> None" for j
    proof (cases "j = c \<or> j = p \<or> Some j = wd_last wp")
      case True
      then show ?thesis using ws'(2) wc wp unfolding hung_def by auto
    next
      case False
      then show ?thesis using ws'(2) unfolding hung_def by auto
    qed
    have "(\<Union>t\<in>?F. set (ids t)) = (\<Union>t\<in>F. set (ids t))" using gi tp(1) tc(1) by auto
    also have "\<dots> = {i. wget ws' i \<noteq> None}" using f dom by (simp add: forest_def)
    finally have "(\<Union>t\<in>?F. set (ids t)) = {i. wget ws' i \<noteq> None}" .
    moreover have "set (ids t) \<inter> set (ids t') = {}" if "t \<in> ?F" "t' \<in> ?F" "t \<noteq> t'" for t t'
    proof -
      have "set (ids u) \<inter> set (ids (graft p tc tp)) = {}" if "u \<in> F - {tp, tc}" for u
        using apart [of u tp] apart [of u tc] that tp(1) tc(1) gi by blast
      then show ?thesis using that apart [of t t'] by (cases "t = graft p tc tp"; cases "t' = graft p tc tp") blast+
    qed
    moreover have "\<forall>t\<in>?F. rep t None None ws' \<and> distinct (ids t)" using g gd rest rep(2) by blast
    ultimately have "forest ?F ws'" unfolding forest_def by blast
    moreover have "wd_parent (the (wget ws c)) = None \<and> TC_WIDGET_PANEL \<le> wd_kind (the (wget ws p))
        \<and> (\<exists>t\<in>F. root_of t = c \<and> p \<notin> set (ids t))" using wc wp False tc(1) root ptc by auto
    moreover have "\<exists>tp\<in>F. \<exists>tc\<in>F. root_of tc = c \<and> p \<in> set (ids tp) \<and> tp \<noteq> tc \<and> ?F = insert (graft p tc tp) (F - {tp, tc})"
      using tp tc(1) root ne by blast
    ultimately show ?thesis using add by (intro exI [of _ 0] exI [of _ ws'] exI [of _ ?F]) simp
  qed
qed

lemma create_forest:
  assumes f: "forest F ws" and w: "wd_parent w = None" "wd_children w = None" "wd_last w = None" "wd_next w = None"
  shows "forest (insert (WT (length ws) []) F) (ws @ [Some w])"
proof -
  have old: "wget (ws @ [Some w]) j = wget ws j" if "wget ws j \<noteq> None" for j
    using that by (simp add: wget_def nth_append split: if_splits)
  have new: "wget (ws @ [Some w]) (length ws) = Some w" "wget ws (length ws) = None"
    by (simp_all add: wget_def)
  have fresh: "length ws \<notin> set (ids t)" if "t \<in> F" for t using f that new(2) unfolding forest_def by blast
  have "rep t None None (ws @ [Some w])" if "t \<in> F" for t
  proof (rule rep_frame)
    show r: "rep t None None ws" using f that by (simp add: forest_def)
    fix j assume "j \<in> set (ids t)"
    then show "map_option links (wget (ws @ [Some w]) j) = map_option links (wget ws j)" using old rep_ids [OF r] by simp
  qed
  moreover have "rep (WT (length ws) []) None None (ws @ [Some w])" using new(1) w by (simp add: last_of_def)
  moreover have "wget (ws @ [Some w]) j \<noteq> None \<longleftrightarrow> j = length ws \<or> wget ws j \<noteq> None" for j
    by (auto simp: wget_def nth_append)
  then have "{j. wget (ws @ [Some w]) j \<noteq> None} = insert (length ws) {j. wget ws j \<noteq> None}" by blast
  ultimately show ?thesis using f fresh unfolding forest_def by auto
qed

lemma free_returns:
  "rep t q nx ws \<Longrightarrow> distinct (ids t) \<Longrightarrow> need t \<le> n \<Longrightarrow>
    \<exists>ws'. tc_widget_free n (root_of t) ws = Some ws' \<and> length ws' = length ws
      \<and> (\<forall>j. wget ws' j = (if j \<in> set (ids t) then None else wget ws j))"
  and frees_return:
  "reps ts r ws \<Longrightarrow> distinct (ids_list ts) \<Longrightarrow> needs ts \<le> n \<Longrightarrow>
    \<exists>ws'. free_children n (first_of ts) ws = Some ws' \<and> length ws' = length ws
      \<and> (\<forall>j. wget ws' j = (if j \<in> set (ids_list ts) then None else wget ws j))"
proof (induction t and ts arbitrary: q nx ws n and r ws n rule: tree_induct trees_induct)
  case (WT i ts)
  obtain m where m: "n = Suc m" "needs ts \<le> m" using WT.prems(3) by (cases n) auto
  obtain w where w: "wget ws i = Some w" "wd_children w = first_of ts" "reps ts i ws" using WT.prems(1) by auto
  obtain ws' where ws': "free_children m (first_of ts) ws = Some ws'" "length ws' = length ws"
      "\<forall>j. wget ws' j = (if j \<in> set (ids_list ts) then None else wget ws j)"
    using WT.IH [OF w(3) _ m(2)] WT.prems(2) by auto
  have "tc_widget_free n i ws = Some (ws'[i := None])" using w ws'(1) by (simp add: m(1))
  then show ?case using ws'(2,3) at_bound [OF w(1)] by (simp add: at_update)
next
  case Nil
  then obtain m where "n = Suc m" by (cases n) auto
  then show ?case by simp
next
  case (Cons t ts)
  obtain m where m: "n = Suc m" "need t \<le> m" "needs ts \<le> m" using Cons.prems(3) by (cases n) auto
  have rep: "rep t (Some r) (first_of ts) ws" "reps ts r ws" using Cons.prems(1) by simp_all
  have d: "distinct (ids t)" "distinct (ids_list ts)" "set (ids t) \<inter> set (ids_list ts) = {}" using Cons.prems(2) by simp_all
  obtain w where w: "wget ws (root_of t) = Some w" "wd_next w = first_of ts" using rep_root [OF rep(1)] by blast
  obtain ws1 where ws1: "tc_widget_free m (root_of t) ws = Some ws1" "length ws1 = length ws"
      "\<forall>j. wget ws1 j = (if j \<in> set (ids t) then None else wget ws j)"
    using Cons.IH(1) [OF rep(1) d(1) m(2)] by blast
  have "reps ts r ws1" by (rule reps_frame [OF _ rep(2)]) (use ws1(3) d(3) in auto)
  then obtain ws2 where ws2: "free_children m (first_of ts) ws1 = Some ws2" "length ws2 = length ws1"
      "\<forall>j. wget ws2 j = (if j \<in> set (ids_list ts) then None else wget ws1 j)"
    using Cons.IH(2) [OF _ d(2) m(3)] by blast
  have "free_children n (first_of (t # ts)) ws = Some ws2" using w ws1(1) ws2(1) by (simp add: m(1))
  then show ?case using ws1(2,3) ws2(2,3) by (intro exI [of _ ws2]) auto
qed

lemma free_forest:
  assumes f: "forest F ws" and t: "t \<in> F"
  shows "\<exists>ws'. tc_widget_free (fuel ws) (root_of t) ws = Some ws' \<and> forest (F - {t}) ws'
     \<and> (\<forall>j. wget ws' j = (if j \<in> set (ids t) then None else wget ws j))"
proof -
  have r: "rep t None None ws" "distinct (ids t)" using f t by (simp_all add: forest_def)
  obtain ws' where ws': "tc_widget_free (fuel ws) (root_of t) ws = Some ws'"
      "\<forall>j. wget ws' j = (if j \<in> set (ids t) then None else wget ws j)"
    using free_returns [OF r need_fuel [OF r]] by blast
  have "rep u None None ws'" if "u \<in> F - {t}" for u
  proof (rule rep_frame)
    show "rep u None None ws" using f that by (simp add: forest_def)
    fix j assume "j \<in> set (ids u)"
    then have "j \<notin> set (ids t)" using f t that unfolding forest_def by blast
    then show "map_option links (wget ws' j) = map_option links (wget ws j)" using ws'(2) by simp
  qed
  moreover have "(\<Union>u\<in>F - {t}. set (ids u)) = {j. wget ws' j \<noteq> None}"
  proof -
    have dj: "set (ids u) \<inter> set (ids t) = {}" if "u \<in> F" "u \<noteq> t" for u using f t that unfolding forest_def by blast
    have dom: "(\<Union>u\<in>F. set (ids u)) = {j. wget ws j \<noteq> None}" using f by (simp add: forest_def)
    have "{j. wget ws' j \<noteq> None} = {j. wget ws j \<noteq> None} - set (ids t)" using ws'(2) by auto
    then show ?thesis using dj t unfolding dom [symmetric] by blast
  qed
  ultimately have "forest (F - {t}) ws'" using f by (simp add: forest_def)
  then show ?thesis using ws' by blast
qed

section \<open>Focus\<close>

text \<open>The widgets that can have the focus, in the order of the tree.\<close>

definition can_focus :: "widgets \<Rightarrow> nat \<Rightarrow> bool" where
  "can_focus ws i \<longleftrightarrow> (case wget ws i of None \<Rightarrow> False | Some w \<Rightarrow> focusable w)"

definition focus_list :: "widgets \<Rightarrow> nat list \<Rightarrow> nat list" where
  "focus_list ws xs = filter (can_focus ws) xs"

definition pick :: "nat list \<Rightarrow> int \<Rightarrow> int \<Rightarrow> nat option \<times> int" where
  "pick xs index target =
     (if index \<le> target \<and> target < index + int (length xs) then (Some (xs ! nat (target - index)), target + 1)
      else (None, index + int (length xs)))"

lemma pick_append:
  "pick (xs @ ys) index target =
     (case pick xs index target of (None, k) \<Rightarrow> pick ys k target | (Some i, k) \<Rightarrow> (Some i, k))"
proof -
  have "(xs @ ys) ! nat (target - index) = (if target < index + int (length xs) then xs ! nat (target - index)
      else ys ! nat (target - (index + int (length xs))))" if "index \<le> target"
    using that by (auto simp: nth_append nat_diff_distrib' algebra_simps nat_less_iff intro!: arg_cong [of _ _ "(!) ys"])
  then show ?thesis unfolding pick_def by auto
qed

lemma focus_at_picks:
  "rep t q nx ws \<Longrightarrow> need t \<le> n \<Longrightarrow> tc_widget_focus_at n ws (root_of t) index target = Some (pick (focus_list ws (ids t)) index target)"
  and focus_children_picks:
  "reps ts r ws \<Longrightarrow> needs ts \<le> n \<Longrightarrow> focus_children n ws (first_of ts) index target = Some (pick (focus_list ws (ids_list ts)) index target)"
proof (induction t and ts arbitrary: q nx n index and r n index rule: tree_induct trees_induct)
  case (WT i ts)
  obtain m where m: "n = Suc m" "needs ts \<le> m" using WT.prems(2) by (cases n) auto
  obtain w where w: "wget ws i = Some w" "wd_children w = first_of ts" "reps ts i ws" using WT.prems(1) by auto
  show ?case
  proof (cases "focusable w")
    case True
    then have "focus_list ws (ids (WT i ts)) = [i] @ focus_list ws (ids_list ts)"
      using w(1) by (simp add: focus_list_def can_focus_def)
    then have "pick (focus_list ws (ids (WT i ts))) index target
        = (if index = target then (Some i, index + 1) else pick (focus_list ws (ids_list ts)) (index + 1) target)"
      by (simp only: pick_append) (auto simp: pick_def)
    then show ?thesis using True w WT.IH [OF w(3) m(2)] by (simp add: m(1))
  next
    case False
    then have "focus_list ws (ids (WT i ts)) = focus_list ws (ids_list ts)"
      using w(1) by (simp add: focus_list_def can_focus_def)
    then show ?thesis using False w WT.IH [OF w(3) m(2)] by (simp add: m(1))
  qed
next
  case Nil
  then obtain m where "n = Suc m" by (cases n) auto
  then show ?case by (simp add: focus_list_def pick_def)
next
  case (Cons t ts)
  obtain m where m: "n = Suc m" "need t \<le> m" "needs ts \<le> m" using Cons.prems(2) by (cases n) auto
  have rep: "rep t (Some r) (first_of ts) ws" "reps ts r ws" using Cons.prems(1) by simp_all
  obtain w where w: "wget ws (root_of t) = Some w" "wd_next w = first_of ts" using rep_root [OF rep(1)] by blast
  have "focus_list ws (ids_list (t # ts)) = focus_list ws (ids t) @ focus_list ws (ids_list ts)"
    by (simp add: focus_list_def)
  then show ?case using Cons.IH(1) [OF rep(1) m(2), of index] Cons.IH(2) [OF rep(2) m(3)] w
    by (simp add: m(1) pick_append split: prod.split option.split)
qed

section \<open>The widget under the mouse\<close>

definition covers :: "TcWidget \<Rightarrow> int \<Rightarrow> int \<Rightarrow> bool" where
  "covers w x y \<longleftrightarrow> wd_x w \<le> x \<and> x < wd_x w + wd_width w \<and> wd_y w \<le> y \<and> y < wd_y w + wd_height w"

text \<open>
  The widgets that can have the focus and that lie, with all the widgets above them, under a point, in
  the order in which they are drawn.
\<close>

primrec under :: "wtree \<Rightarrow> widgets \<Rightarrow> int \<Rightarrow> int \<Rightarrow> nat list" and unders :: "wtree list \<Rightarrow> widgets \<Rightarrow> int \<Rightarrow> int \<Rightarrow> nat list" where
  "under (WT i ts) ws x y =
     (if covers (the (wget ws i)) x y then focus_list ws [i] @ unders ts ws x y else [])"
| "unders [] ws x y = []"
| "unders (t # ts) ws x y = under t ws x y @ unders ts ws x y"

definition final :: "nat list \<Rightarrow> nat option \<Rightarrow> nat option" where
  "final xs d = (if xs = [] then d else Some (last xs))"

lemma final_append: "final (xs @ ys) d = final ys (final xs d)"
  by (simp add: final_def)

lemma hit_finds:
  "rep t q nx ws \<Longrightarrow> need t \<le> n \<Longrightarrow> tc_widget_hit n ws (root_of t) x y = Some (final (under t ws x y) None)"
  and hit_children_finds:
  "reps ts r ws \<Longrightarrow> needs ts \<le> n \<Longrightarrow> hit_children n ws (first_of ts) x y d = Some (final (unders ts ws x y) d)"
proof (induction t and ts arbitrary: q nx n and r n d rule: tree_induct trees_induct)
  case (WT i ts)
  obtain m where m: "n = Suc m" "needs ts \<le> m" using WT.prems(2) by (cases n) auto
  obtain w where w: "wget ws i = Some w" "wd_children w = first_of ts" "reps ts i ws" using WT.prems(1) by auto
  have out: "(x < wd_x w \<or> x \<ge> wd_x w + wd_width w \<or> y < wd_y w \<or> y \<ge> wd_y w + wd_height w) \<longleftrightarrow> \<not> covers w x y"
    by (auto simp: covers_def)
  show ?case using w WT.IH [OF w(3) m(2), of None] out
    by (auto simp: m(1) final_def focus_list_def can_focus_def)
next
  case Nil
  then obtain m where "n = Suc m" by (cases n) auto
  then show ?case by (simp add: final_def)
next
  case (Cons t ts)
  obtain m where m: "n = Suc m" "need t \<le> m" "needs ts \<le> m" using Cons.prems(2) by (cases n) auto
  have rep: "rep t (Some r) (first_of ts) ws" "reps ts r ws" using Cons.prems(1) by simp_all
  obtain w where w: "wget ws (root_of t) = Some w" "wd_next w = first_of ts" using rep_root [OF rep(1)] by blast
  have "(if final (under t ws x y) None \<noteq> None then final (under t ws x y) None else d) = final (under t ws x y) d"
    by (simp add: final_def)
  then show ?case using Cons.IH(1) [OF rep(1) m(2)] Cons.IH(2) [OF rep(2) m(3)] w
    by (simp add: m(1) final_append)
qed

section \<open>The window as a whole\<close>

definition window_ok :: "window \<Rightarrow> bool" where
  "window_ok wn \<longleftrightarrow> ui_ok (wn_ui wn)
     \<and> (\<exists>F. forest F (wn_widgets wn) \<and> (\<forall>r. wn_root wn = Some r \<longrightarrow> (\<exists>t\<in>F. root_of t = r)))
     \<and> (\<forall>i w g. wget (wn_widgets wn) i = Some w \<longrightarrow> wd_buffer w = Some g \<longrightarrow> gap_inv g)
     \<and> (\<forall>i. wn_focus wn = Some i \<longrightarrow> wget (wn_widgets wn) i \<noteq> None)"

lemma window_okD:
  assumes "window_ok wn"
  shows "ui_ok (wn_ui wn)"
    and "\<exists>F. forest F (wn_widgets wn) \<and> (\<forall>r. wn_root wn = Some r \<longrightarrow> (\<exists>t\<in>F. root_of t = r))"
    and "wget (wn_widgets wn) i = Some w \<Longrightarrow> wd_buffer w = Some g \<Longrightarrow> gap_inv g"
    and "wn_focus wn = Some i \<Longrightarrow> wget (wn_widgets wn) i \<noteq> None"
  using assms by (simp_all add: window_ok_def)

lemma root_tree:
  assumes "window_ok wn" "wn_root wn = Some r"
  shows "\<exists>t. root_of t = r \<and> rep t None None (wn_widgets wn) \<and> distinct (ids t)"
  using window_okD(2) [OF assms(1)] assms(2) by (auto simp: forest_def)

text \<open>Changing what is not a pointer.\<close>

lemma forest_same_links: "same_links ws ws' \<Longrightarrow> forest F ws \<Longrightarrow> forest F ws'"
proof -
  assume s: "same_links ws ws'" and f: "forest F ws"
  have "wget ws' i = None \<longleftrightarrow> wget ws i = None" for i
    using s unfolding same_links_def by (metis option.map_disc_iff)
  then show ?thesis using f rep_same [OF s] by (simp add: forest_def)
qed

definition same_tree :: "widgets \<Rightarrow> widgets \<Rightarrow> bool" where
  "same_tree ws ws' \<longleftrightarrow> (\<forall>F. forest F ws \<longrightarrow> forest F ws') \<and> (\<forall>i. wget ws' i = None \<longleftrightarrow> wget ws i = None)"

lemma window_ok_store:
  assumes "window_ok wn" "same_tree (wn_widgets wn) ws"
    and "\<And>i w g. wget ws i = Some w \<Longrightarrow> wd_buffer w = Some g \<Longrightarrow> gap_inv g"
  shows "window_ok (wn\<lparr>wn_widgets := ws\<rparr>)"
proof -
  obtain F where "forest F (wn_widgets wn)" "\<forall>r. wn_root wn = Some r \<longrightarrow> (\<exists>t\<in>F. root_of t = r)"
    using window_okD(2) [OF assms(1)] by blast
  then have "\<exists>F. forest F ws \<and> (\<forall>r. wn_root wn = Some r \<longrightarrow> (\<exists>t\<in>F. root_of t = r))"
    using assms(2) unfolding same_tree_def by blast
  then show ?thesis using assms window_okD [OF assms(1)] unfolding window_ok_def same_tree_def by simp
qed

lemma same_tree_update:
  assumes w: "wget ws i = Some w"
    and l: "wd_parent w' = wd_parent w" "wd_children w' = wd_children w" "wd_last w' = wd_last w" "wd_next w' = wd_next w"
      "wd_kind w' = wd_kind w"
  shows "same_tree ws (ws[i := Some w'])"
proof -
  let ?ws = "ws[i := Some w']"
  have at: "wget ?ws j = (if j = i then Some w' else wget ws j)" for j using at_bound [OF w] by (simp add: at_update)
  have rep: "rep t q nx ws \<Longrightarrow> rep t q nx ?ws" and "reps ts r ws \<Longrightarrow> reps ts r ?ws" for t ts q nx r
    by (induction t and ts arbitrary: q nx and r rule: tree_induct trees_induct) (use w l in \<open>auto simp: at\<close>)
  have "{j. wget ?ws j \<noteq> None} = {j. wget ws j \<noteq> None}" using w by (auto simp: at)
  then show ?thesis using w rep unfolding same_tree_def forest_def by (simp add: at)
qed

lemma nested_places:
  assumes p: "same_places ws ws'"
  shows "nested t ws \<Longrightarrow> nested t ws'" and "nesteds ts ws \<Longrightarrow> nesteds ts ws'"
proof (induction t and ts rule: tree_induct trees_induct)
  case (WT i ts)
  have look: "map_option placed (wget ws' j) = map_option placed (wget ws j)" for j using p by (simp add: same_places_def)
  obtain w where w: "wget ws i = Some w" "\<forall>c\<in>set (roots ws ts). inside (wd_x w) (wd_y w) (wd_width w) (wd_height w) c"
      "wd_kind w \<noteq> TC_WIDGET_STACK \<longrightarrow> sorted_wrt (before (wd_kind w \<noteq> TC_WIDGET_ROW)) (roots ws ts)" using WT.prems by auto
  obtain w' where w': "wget ws' i = Some w'" "placed w' = placed w" using look [of i] w(1) by auto
  have same: "placed (the (wget ws' j)) = placed (the (wget ws j))" for j
    using look [of j] by (cases "wget ws j"; cases "wget ws' j") auto
  have ins: "inside x y a b c' = inside x y a b c" if "placed c' = placed c" for x y a b c c'
    using that by (simp add: inside_def placed_def)
  have bef: "before v c' d' = before v c d" if "placed c' = placed c" "placed d' = placed d" for v c c' d d'
    using that by (simp add: before_def placed_def)
  have "sorted_wrt (before v) (roots ws' ts) = sorted_wrt (before v) (roots ws ts)" for v
    by (simp add: sorted_wrt_map bef [OF same same])
  moreover have "\<forall>c\<in>set (roots ws' ts). inside (wd_x w') (wd_y w') (wd_width w') (wd_height w') c"
    using w(2) w'(2) ins [OF same] by (simp add: placed_def)
  ultimately show ?case using w w' WT by (simp add: placed_def links_def)
qed auto

lemma inside_trans: "inside x y a b w \<Longrightarrow> inside (wd_x w) (wd_y w) (wd_width w) (wd_height w) c \<Longrightarrow> inside x y a b c"
  by (auto simp: inside_def within_def)

lemma nested_inside:
  "nested t ws \<Longrightarrow> inside x y a b (the (wget ws (root_of t))) \<Longrightarrow> i \<in> set (ids t) \<Longrightarrow> inside x y a b (the (wget ws i))"
  and nesteds_inside:
  "nesteds ts ws \<Longrightarrow> \<forall>c\<in>set (roots ws ts). inside x y a b c \<Longrightarrow> i \<in> set (ids_list ts) \<Longrightarrow> inside x y a b (the (wget ws i))"
proof (induction t and ts rule: tree_induct trees_induct)
  case (WT j ts)
  obtain w where w: "wget ws j = Some w" "\<forall>c\<in>set (roots ws ts). inside (wd_x w) (wd_y w) (wd_width w) (wd_height w) c" "nesteds ts ws"
    using WT.prems(1) by auto
  have "inside x y a b w" using WT.prems(2) w(1) by simp
  then have "\<forall>c\<in>set (roots ws ts). inside x y a b c" using w(2) inside_trans by blast
  then show ?case using WT.IH [OF w(3)] WT.prems(2,3) by auto
qed auto

text \<open>Laying the content out on the screen, and drawing what has been laid out.\<close>

lemma gaps_same_links:
  assumes "same_links ws ws'" "\<And>i w g. wget ws i = Some w \<Longrightarrow> wd_buffer w = Some g \<Longrightarrow> gap_inv g"
  shows "wget ws' i = Some w \<Longrightarrow> wd_buffer w = Some g \<Longrightarrow> gap_inv g"
proof -
  assume w: "wget ws' i = Some w" "wd_buffer w = Some g"
  have "map_option links (wget ws' i) = map_option links (wget ws i)" using assms(1) by (simp add: same_links_def)
  then obtain v where "wget ws i = Some v" "links v = links w" using w(1) by (cases "wget ws i") auto
  then show "gap_inv g" using assms(2) w(2) by (simp add: links_def)
qed

lemma window_layout:
  assumes ok: "window_ok wn" and t: "rep t None None (wn_widgets wn)" "distinct (ids t)" and ui: "ui_ok ui" and mod: "modest (wn_widgets wn)"
  shows "\<exists>ws w. tc_widget_layout (fuel (wn_widgets wn)) (root_of t) 0 0 (ui_width ui) (ui_height ui) (wn_widgets wn) = Some ws
     \<and> same_links (wn_widgets wn) ws \<and> nested t ws \<and> wget ws (root_of t) = Some w
     \<and> placed w = (links w, 0, 0, ui_width ui, ui_height ui) \<and> (\<forall>i\<in>set (ids t). \<forall>w. wget ws i = Some w \<longrightarrow> drawable ui w)"
proof -
  have pos: "0 \<le> ui_width ui" "0 \<le> ui_height ui" "ui_width ui \<le> 2 ^ 30" "ui_height ui \<le> 2 ^ 30" using ui by (simp_all add: ui_ok_def)
  obtain ws w where l: "tc_widget_layout (fuel (wn_widgets wn)) (root_of t) 0 0 (ui_width ui) (ui_height ui) (wn_widgets wn) = Some ws"
      "same_links (wn_widgets wn) ws" "nested t ws" "wget ws (root_of t) = Some w" "wd_x w = 0" "wd_y w = 0"
      "wd_width w = ui_width ui" "wd_height w = ui_height ui"
    using layout_returns [OF t need_fuel [OF t] pos(1,2) mod pos(3,4), of 0 0] unfolding laid_out_def by blast
  have root: "inside 0 0 (ui_width ui) (ui_height ui) (the (wget ws (root_of t)))"
    using l(4-8) pos by (simp add: inside_def within_self)
  have "drawable ui v" if "i \<in> set (ids t)" "wget ws i = Some v" for i v
    using nested_inside [OF l(3) root that(1)] that(2) gaps_same_links [OF l(2) window_okD(3) [OF ok]]
    by (auto simp: drawable_def)
  then show ?thesis using l by (auto simp: placed_def)
qed

lemma window_drawn:
  assumes ok: "window_ok wn" and links: "same_links (wn_widgets wn) ws" and ui: "ui_ok ui"
  shows "window_ok (wn\<lparr>wn_ui := ui, wn_widgets := ws\<rparr>)"
proof -
  have "wget ws i = None \<longleftrightarrow> wget (wn_widgets wn) i = None" for i
    using links unfolding same_links_def by (metis option.map_disc_iff)
  then have "same_tree (wn_widgets wn) ws" using forest_same_links [OF links] by (simp add: same_tree_def)
  then have "window_ok (wn\<lparr>wn_widgets := ws\<rparr>)"
    by (rule window_ok_store [OF ok]) (rule gaps_same_links [OF links window_okD(3) [OF ok]])
  then show ?thesis using ui by (simp add: window_ok_def)
qed

lemma draw_window:
  assumes ok: "window_ok wn" and m: "malloc_ok malloc" "\<forall>n. malloc n \<noteq> None" and mod: "modest (wn_widgets wn)"
  shows "\<exists>wn'. tc_ui_draw malloc wn = Some wn' \<and> window_ok wn'
     \<and> (case wn_root wn of None \<Rightarrow> wn_widgets wn' = wn_widgets wn
        | Some r \<Rightarrow> \<exists>t w. root_of t = r \<and> rep t None None (wn_widgets wn') \<and> nested t (wn_widgets wn')
            \<and> wget (wn_widgets wn') r = Some w \<and> wd_x w = 0 \<and> wd_y w = 0
            \<and> wd_width w = ui_width (wn_ui wn) \<and> wd_height w = ui_height (wn_ui wn))"
proof -
  note ui = window_okD(1) [OF ok]
  obtain ui1 where u1: "tc_ui_clear 0xe6edf3 0x101820 (wn_ui wn) = Some ui1" "ui_ok ui1"
    using draws_ok [OF clear_draws [OF ui] ui] by blast
  have dims: "ui_width ui1 = ui_width (wn_ui wn)" "ui_height ui1 = ui_height (wn_ui wn)"
    using clear_draws [OF ui, of "0xe6edf3" "0x101820"] u1(1) by (auto simp: draws_def)
  show ?thesis
  proof (cases "wn_root wn")
    case None
    then show ?thesis using u1 ok by (simp add: tc_ui_draw_def window_ok_def)
  next
    case (Some r)
    obtain t where t: "root_of t = r" "rep t None None (wn_widgets wn)" "distinct (ids t)" using root_tree [OF ok Some] by blast
    obtain ws1 w1 where l: "tc_widget_layout (fuel (wn_widgets wn)) r 0 0 (ui_width ui1) (ui_height ui1) (wn_widgets wn) = Some ws1"
        "same_links (wn_widgets wn) ws1" "nested t ws1" "wget ws1 r = Some w1" "placed w1 = (links w1, 0, 0, ui_width ui1, ui_height ui1)"
        "\<forall>i\<in>set (ids t). \<forall>w. wget ws1 i = Some w \<longrightarrow> drawable ui1 w"
      using window_layout [OF ok t(2,3) u1(2) mod] t(1) by blast
    have rep1: "rep t None None ws1" by (rule rep_same [OF l(2) t(2)])
    have "drawn ui1 ws1 (tc_widget_draw (fuel ws1) malloc (wn_focus wn) r ui1 ws1)"
      using draw_returns(1) [OF m rep1 need_fuel [OF rep1 t(3)] u1(2) t(3)] l(6) t(1) by blast
    then obtain ui2 ws2 where d: "tc_widget_draw (fuel ws1) malloc (wn_focus wn) r ui1 ws1 = Some (ui2, ws2)"
        "draws ui1 (Some ui2)" "same_places ws1 ws2" unfolding drawn_def by blast
    have res: "tc_ui_draw malloc wn = Some (wn\<lparr>wn_ui := ui2, wn_widgets := ws2\<rparr>)"
      using u1(1) l(1) d(1) Some by (simp add: tc_ui_draw_def)
    have links: "same_links (wn_widgets wn) ws2" by (rule same_links_trans [OF l(2) same_places_links [OF d(3)]])
    have "map_option placed (wget ws2 r) = Some (placed w1)" using d(3) l(4) by (simp add: same_places_def)
    then obtain w2 where w2: "wget ws2 r = Some w2" "placed w2 = placed w1" by auto
    have "window_ok (wn\<lparr>wn_ui := ui2, wn_widgets := ws2\<rparr>)"
      using window_drawn [OF ok links] draws_ok [OF d(2) u1(2)] by blast
    moreover have "rep t None None ws2" by (rule rep_same [OF links t(2)])
    ultimately show ?thesis using res Some t(1) nested_places(1) [OF d(3) l(3)] w2 l(5) dims by (auto simp: placed_def)
  qed
qed

text \<open>
  Claim C29. Drawing a window is safe and comes to an end, if memory does not run out and the sizes asked for
  do not overflow (they add up to at most \<open>2 ^ 30\<close>): on every sound window, with any tree of widgets and any
  text, \<open>tc_ui_draw\<close> returns, no cell outside the grid is written (also not where the caret is drawn,
  without a check), the root fills the screen, every widget lies inside the widget that holds it, and the
  children of every widget but a stack follow one another without overlapping.
\<close>

theorem window_draw_safe:
  assumes "window_ok wn" and "malloc_ok malloc" and "\<forall>n. malloc n \<noteq> None" and "modest (wn_widgets wn)"
  shows "\<exists>wn'. tc_ui_draw malloc wn = Some wn' \<and> window_ok wn'
     \<and> (case wn_root wn of None \<Rightarrow> wn_widgets wn' = wn_widgets wn
        | Some r \<Rightarrow> \<exists>t w. root_of t = r \<and> rep t None None (wn_widgets wn') \<and> nested t (wn_widgets wn')
            \<and> wget (wn_widgets wn') r = Some w \<and> wd_x w = 0 \<and> wd_y w = 0
            \<and> wd_width w = ui_width (wn_ui wn) \<and> wd_height w = ui_height (wn_ui wn))"
  by (rule draw_window [OF assms])

section \<open>The focus and the mouse in the window\<close>

lemma focus_at_nth:
  assumes t: "rep t None None (wn_widgets wn)" "distinct (ids t)" and k: "0 \<le> k"
  shows "focus_at wn (root_of t) k =
    Some (let fs = focus_list (wn_widgets wn) (ids t) in if nat k < length fs then Some (fs ! nat k) else None)"
  using focus_at_picks [OF t(1) need_fuel [OF t], of 0 k] k
  by (auto simp: focus_at_def pick_def Let_def nat_less_iff zless_nat_conj)

lemma tab_position_finds:
  assumes t: "rep t None None (wn_widgets wn)" "distinct (ids t)"
    and fs: "fs = focus_list (wn_widgets wn) (ids t)"
  shows "k \<le> length fs \<Longrightarrow> length fs - k < n \<Longrightarrow>
     (\<forall>j<k. wn_focus wn \<noteq> Some (fs ! j)) \<Longrightarrow>
     \<exists>m. tab_position n wn (root_of t) (int k) = Some (int m) \<and> m \<le> length fs
       \<and> (\<forall>j<m. wn_focus wn \<noteq> Some (fs ! j)) \<and> (m < length fs \<longrightarrow> wn_focus wn = Some (fs ! m))"
proof (induction n arbitrary: k)
  case (Suc n)
  show ?case
  proof (cases "k < length fs \<and> wn_focus wn \<noteq> Some (fs ! k)")
    case True
    have step: "tab_position (Suc n) wn (root_of t) (int k) = tab_position n wn (root_of t) (int (Suc k))"
      using True focus_at_nth [OF t, of "int k"] fs by (auto simp: Let_def add.commute)
    show ?thesis unfolding step
    proof (rule Suc.IH)
      show "\<forall>j<Suc k. wn_focus wn \<noteq> Some (fs ! j)" using Suc.prems(3) True by (auto simp: less_Suc_eq)
    qed (use Suc.prems True in auto)
  next
    case False
    then have "tab_position (Suc n) wn (root_of t) (int k) = Some (int k)"
      using focus_at_nth [OF t, of "int k"] fs by (auto simp: Let_def)
    then show ?thesis using False Suc.prems by auto
  qed
qed simp

lemma focus_list_length: "length (focus_list ws xs) \<le> length xs"
  by (simp add: focus_list_def)

lemma press_tab_next:
  assumes t: "rep t None None (wn_widgets wn)" "distinct (ids t)"
    and fs: "fs = focus_list (wn_widgets wn) (ids t)"
  shows "\<exists>wn'. press_tab (root_of t) wn = Some wn' \<and> wn_widgets wn' = wn_widgets wn \<and> wn_ui wn' = wn_ui wn \<and> wn_root wn' = wn_root wn
     \<and> (fs = [] \<longrightarrow> wn_focus wn' = None)
     \<and> (\<forall>k<length fs. wn_focus wn = Some (fs ! k) \<longrightarrow> wn_focus wn' = Some (fs ! (Suc k mod length fs)))
     \<and> (fs \<noteq> [] \<longrightarrow> wn_focus wn \<notin> Some ` set fs \<longrightarrow> wn_focus wn' = Some (hd fs))"
proof -
  have "\<forall>i\<in>set (ids t). wget (wn_widgets wn) i \<noteq> None" using rep_ids [OF t(1)] by blast
  then have "length fs < fuel (wn_widgets wn)"
    using focus_list_length [of "wn_widgets wn" "ids t"] length_ids [OF t(2)] fs by (fastforce simp: fuel_def)
  then obtain m where m: "tab_position (fuel (wn_widgets wn)) wn (root_of t) 0 = Some (int m)" "m \<le> length fs"
      "\<forall>j<m. wn_focus wn \<noteq> Some (fs ! j)" "m < length fs \<longrightarrow> wn_focus wn = Some (fs ! m)"
    using tab_position_finds [OF t fs, of 0] by auto
  have at: "focus_at wn (root_of t) (int j) = Some (if j < length fs then Some (fs ! j) else None)" for j
    using focus_at_nth [OF t, of "int j"] fs by (simp add: Let_def)
  have d: "distinct fs" using t(2) fs by (simp add: focus_list_def)
  have tab: "press_tab (root_of t) wn = Some (if Suc m < length fs
      then wn\<lparr>wn_focus_index := int m + 1, wn_focus := Some (fs ! Suc m)\<rparr>
      else wn\<lparr>wn_focus_index := 0, wn_focus := if fs = [] then None else Some (fs ! 0)\<rparr>)"
    using at [of "Suc m"] at [of 0] m(1) by (simp add: press_tab_def add.commute)
  have at_k: "m = k" if k: "k < length fs" "wn_focus wn = Some (fs ! k)" for k
  proof (rule ccontr)
    assume "m \<noteq> k"
    then consider "k < m" | "m < k" by linarith
    then show False
    proof cases
      case 2
      then show ?thesis using m(4) k nth_eq_iff_index_eq [OF d, of m k] by auto
    qed (use m(3) k in blast)
  qed
  have at_end: "m = length fs" if "wn_focus wn \<notin> Some ` set fs"
    using m(2,4) that nth_mem [of m fs] by (cases "m = length fs") auto
  let ?wn = "if Suc m < length fs then wn\<lparr>wn_focus_index := int m + 1, wn_focus := Some (fs ! Suc m)\<rparr>
      else wn\<lparr>wn_focus_index := 0, wn_focus := if fs = [] then None else Some (fs ! 0)\<rparr>"
  show ?thesis
  proof (intro exI [of _ ?wn] conjI impI allI)
    fix k assume k: "k < length fs" "wn_focus wn = Some (fs ! k)"
    show "wn_focus ?wn = Some (fs ! (Suc k mod length fs))" using at_k [OF k] k(1) by (cases "Suc k = length fs") auto
  qed (use tab at_end in \<open>auto simp: hd_conv_nth\<close>)
qed

text \<open>
  Claim C30. Tab walks through the buttons and text boxes: in a window with a content the key moves the
  focus to the next of them in the order of the tree, from the last to the first, to the first if the
  focus is elsewhere, and takes the focus away when there is none; the search ends, nothing else of the
  widgets changes.
\<close>

theorem tab_cycles:
  assumes "wn_root wn = Some (root_of t)" and "rep t None None (wn_widgets wn)" and "distinct (ids t)"
    and "ev_kind e = 1" and "ev_key e = 9"
  shows "\<exists>wn'. tc_ui_dispatch malloc grids e wn = Some (0, None, wn') \<and> wn_widgets wn' = wn_widgets wn
     \<and> wn_focus wn' = (let fs = focus_list (wn_widgets wn) (ids t)
          in case Option.bind (wn_focus wn) (map_of (zip fs (rotate1 fs))) of
               Some i \<Rightarrow> Some i
             | None \<Rightarrow> if fs = [] then None else Some (hd fs))"
proof -
  let ?fs = "focus_list (wn_widgets wn) (ids t)"
  have d: "distinct ?fs" using assms(3) by (simp add: focus_list_def)
  obtain wn' where tab: "press_tab (root_of t) wn = Some wn'" "wn_widgets wn' = wn_widgets wn"
      "?fs = [] \<longrightarrow> wn_focus wn' = None"
      "\<forall>k<length ?fs. wn_focus wn = Some (?fs ! k) \<longrightarrow> wn_focus wn' = Some (?fs ! (Suc k mod length ?fs))"
      "?fs \<noteq> [] \<longrightarrow> wn_focus wn \<notin> Some ` set ?fs \<longrightarrow> wn_focus wn' = Some (hd ?fs)"
    using press_tab_next [OF assms(2,3) refl] by auto
  have key: "tc_ui_dispatch malloc grids e wn = Some (0, None, wn')"
    using assms(1,4,5) tab(1) by (simp add: tc_ui_dispatch_def)
  have "wn_focus wn' = (case Option.bind (wn_focus wn) (map_of (zip ?fs (rotate1 ?fs))) of
      Some i \<Rightarrow> Some i | None \<Rightarrow> if ?fs = [] then None else Some (hd ?fs))"
  proof (cases "wn_focus wn \<in> Some ` set ?fs")
    case True
    then obtain k where k: "k < length ?fs" "wn_focus wn = Some (?fs ! k)" by (auto simp: in_set_conv_nth)
    have "map_of (zip ?fs (rotate1 ?fs)) (?fs ! k) = Some (rotate1 ?fs ! k)"
      using map_of_zip_nth [OF _ d, of "rotate1 ?fs" k] k(1) by simp
    then show ?thesis using tab(4) k by (simp add: nth_rotate1)
  next
    case False
    then have "Option.bind (wn_focus wn) (map_of (zip ?fs (rotate1 ?fs))) = None"
      by (cases "wn_focus wn") (auto simp: map_of_zip_is_None)
    then show ?thesis using tab(3,5) False by simp
  qed
  then show ?thesis using key tab(2) unfolding Let_def by blast
qed


section \<open>Dispatching an event\<close>

lemma vertical_returns: "gap_inv g \<Longrightarrow> \<exists>g'. tc_gap_vertical g d = Some g' \<and> gap_inv g'"
  using vertical_up [of g d] vertical_down [of g d] by (cases "d < 0") auto

lemma repeat_vertical_inv: "gap_inv g \<Longrightarrow> \<exists>g'. repeat_vertical n d g = Some g' \<and> gap_inv g'"
proof (induction n arbitrary: g)
  case (Suc n)
  obtain g1 where "tc_gap_vertical g d = Some g1" "gap_inv g1" using vertical_returns [OF Suc.prems] by blast
  then show ?case using Suc.IH by simp
qed simp

lemma textbox_key_inv:
  assumes g: "gap_inv g" and m: "malloc_ok malloc"
  shows "\<exists>r g'. textbox_key malloc height key cp g = Some (r, g') \<and> gap_inv g'"
proof -
  have ins: "gap_inv (snd (tc_gap_insert malloc g (ts_of xs)))" for xs
    using insert_cases [OF g m ts_wf_of [of xs]] g by (cases "tc_gap_insert malloc g (ts_of xs)") auto
  have pair: "\<exists>r g'. tc_gap_insert malloc g (ts_of xs) = (r, g') \<and> gap_inv g'" for xs
    using ins [of xs] by (cases "tc_gap_insert malloc g (ts_of xs)") simp
  have inv: "gap_inv (tc_gap_left g)" "gap_inv (tc_gap_right g)" "gap_inv (tc_gap_home g)" "gap_inv (tc_gap_end g)"
      "gap_inv (tc_gap_backspace g)" "gap_inv (tc_gap_delete g)"
    by (rule gap_step_inv [OF _ m g], rule gap_step.intros)+
  obtain up where up: "tc_gap_vertical g (- 1) = Some up" "gap_inv up" using vertical_returns [OF g] by blast
  obtain down where down: "tc_gap_vertical g 1 = Some down" "gap_inv down" using vertical_returns [OF g] by blast
  obtain pgup where pgup: "repeat_vertical (nat height) (- 1) g = Some pgup" "gap_inv pgup"
    using repeat_vertical_inv [OF g] by blast
  obtain pgdn where pgdn: "repeat_vertical (nat height) 1 g = Some pgdn" "gap_inv pgdn"
    using repeat_vertical_inv [OF g] by blast
  show ?thesis unfolding textbox_key_def by (simp add: inv up down pgup pgdn pair g)
qed

lemma update_keeps:
  assumes ok: "window_ok wn" and w: "wget (wn_widgets wn) i = Some w"
    and l: "wd_parent w' = wd_parent w" "wd_children w' = wd_children w" "wd_last w' = wd_last w" "wd_next w' = wd_next w"
      "wd_kind w' = wd_kind w"
    and g: "\<And>g. wd_buffer w' = Some g \<Longrightarrow> gap_inv g"
  shows "window_ok (wn\<lparr>wn_widgets := (wn_widgets wn)[i := Some w']\<rparr>)"
proof (rule window_ok_store [OF ok same_tree_update [OF w l]])
  fix j v h
  assume "wget ((wn_widgets wn)[i := Some w']) j = Some v" "wd_buffer v = Some h"
  then show "gap_inv h" using at_update [OF at_bound [OF w]] g window_okD(3) [OF ok] by (auto split: if_splits)
qed

lemma dispatch_key_ok:
  assumes ok: "window_ok wn" and i: "wget (wn_widgets wn) i \<noteq> None" and m: "malloc_ok malloc"
  shows "\<exists>r c wn'. dispatch_key malloc i key cp wn = Some (r, c, wn') \<and> window_ok wn' \<and> wn_root wn' = wn_root wn"
proof -
  obtain w where w: "wget (wn_widgets wn) i = Some w" using i by blast
  show ?thesis
  proof (cases "wd_kind w = TC_WIDGET_TEXTBOX \<and> wd_buffer w \<noteq> None")
    case True
    then obtain g where g: "wd_buffer w = Some g" "gap_inv g" using window_okD(3) [OF ok w] by blast
    obtain r g' where r: "textbox_key malloc (wd_height w) key cp g = Some (r, g')" "gap_inv g'"
      using textbox_key_inv [OF g(2) m] by blast
    have "window_ok (wn\<lparr>wn_widgets := (wn_widgets wn)[i := Some (w\<lparr>wd_buffer := Some g'\<rparr>)]\<rparr>)"
      by (rule update_keeps [OF ok w]) (use r(2) in auto)
    then show ?thesis using True w g r by (simp add: dispatch_key_def change_def kind_defs)
  next
    case False
    then show ?thesis using w ok by (auto simp: dispatch_key_def split: option.split)
  qed
qed

lemma under_ids: "i \<in> set (under t ws x y) \<Longrightarrow> i \<in> set (ids t)"
  and unders_ids: "i \<in> set (unders ts ws x y) \<Longrightarrow> i \<in> set (ids_list ts)"
  by (induction t and ts rule: tree_induct trees_induct) (auto simp: focus_list_def split: if_splits)

lemma hit_root:
  assumes t: "rep t None None (wn_widgets wn)" "distinct (ids t)"
  shows "tc_widget_hit (fuel (wn_widgets wn)) (wn_widgets wn) (root_of t) x y =
     Some (final (under t (wn_widgets wn) x y) None)"
  by (rule hit_finds [OF t(1) need_fuel [OF t]])

lemma window_ok_focus: "window_ok wn \<Longrightarrow> (\<And>i. f = Some i \<Longrightarrow> wget (wn_widgets wn) i \<noteq> None) \<Longrightarrow>
    window_ok (wn\<lparr>wn_focus := f\<rparr>)"
  by (auto simp: window_ok_def)

lemma dispatch_mouse_ok:
  assumes ok: "window_ok wn" and r: "wn_root wn = Some r"
  shows "\<exists>r' c wn'. dispatch_mouse r x y wn = Some (r', c, wn') \<and> window_ok wn' \<and> wn_root wn' = wn_root wn"
proof -
  obtain t where t: "root_of t = r" "rep t None None (wn_widgets wn)" "distinct (ids t)" using root_tree [OF ok r] by blast
  let ?us = "under t (wn_widgets wn) x y"
  have hit: "tc_widget_hit (fuel (wn_widgets wn)) (wn_widgets wn) r x y = Some (final ?us None)"
    using hit_root [OF t(2,3)] t(1) by simp
  show ?thesis
  proof (cases "?us = []")
    case True
    then show ?thesis using hit ok by (simp add: dispatch_mouse_def final_def)
  next
    case False
    then have "last ?us \<in> set (ids t)" using under_ids by (meson last_in_set)
    then obtain w where w: "wget (wn_widgets wn) (last ?us) = Some w" using rep_ids [OF t(2)] by blast
    then have "window_ok (wn\<lparr>wn_focus := Some (last ?us)\<rparr>)" by (intro window_ok_focus [OF ok]) simp
    then show ?thesis using hit False w by (simp add: dispatch_mouse_def final_def)
  qed
qed

lemma press_tab_ok:
  assumes ok: "window_ok wn" and r: "wn_root wn = Some r"
  shows "\<exists>wn'. press_tab r wn = Some wn' \<and> window_ok wn' \<and> wn_root wn' = wn_root wn"
proof -
  obtain t where t: "root_of t = r" "rep t None None (wn_widgets wn)" "distinct (ids t)" using root_tree [OF ok r] by blast
  let ?fs = "focus_list (wn_widgets wn) (ids t)"
  obtain wn' where p: "press_tab (root_of t) wn = Some wn'" "wn_widgets wn' = wn_widgets wn" "wn_ui wn' = wn_ui wn"
      "wn_root wn' = wn_root wn" "?fs = [] \<longrightarrow> wn_focus wn' = None"
      "\<forall>k<length ?fs. wn_focus wn = Some (?fs ! k) \<longrightarrow> wn_focus wn' = Some (?fs ! (Suc k mod length ?fs))"
      "?fs \<noteq> [] \<longrightarrow> wn_focus wn \<notin> Some ` set ?fs \<longrightarrow> wn_focus wn' = Some (hd ?fs)"
    using press_tab_next [OF t(2,3) refl] by blast
  have "j \<in> set ?fs" if j: "wn_focus wn' = Some j" for j
  proof (cases "wn_focus wn \<in> Some ` set ?fs")
    case True
    then obtain k where k: "k < length ?fs" "wn_focus wn = Some (?fs ! k)" by (auto simp: in_set_conv_nth)
    then have "j = ?fs ! (Suc k mod length ?fs)" using p(6) j by auto
    moreover have "Suc k mod length ?fs < length ?fs" by (rule mod_less_divisor) (use k(1) in linarith)
    ultimately have "j = ?fs ! (Suc k mod length ?fs)" "Suc k mod length ?fs < length ?fs" .
    then show ?thesis using nth_mem by blast
  next
    case False
    then show ?thesis using p(5,7) j by (cases "?fs = []") auto
  qed
  then have "wget (wn_widgets wn) j \<noteq> None" if "wn_focus wn' = Some j" for j
    using that rep_ids [OF t(2)] by (auto simp: focus_list_def)
  then have "window_ok wn'" using ok p(2,3,4) by (simp add: window_ok_def)
  then show ?thesis using p t(1) by auto
qed

text \<open>
  Every event can be dispatched: on every window that the calls of the interface build, whatever
  the event, \<open>tc_ui_dispatch\<close> returns without following a null or freed pointer (the walk over the tree,
  the search of Tab and the motions of the buffer end), and the window is again such a window: the
  widgets are still a forest, the text buffers keep their gap inside the block, the focus is a widget
  that exists, the root is the same.
\<close>

theorem dispatch_safe:
  assumes "window_ok wn" and "malloc_ok malloc"
  shows "\<exists>r c wn'. tc_ui_dispatch malloc grids e wn = Some (r, c, wn') \<and> window_ok wn' \<and> wn_root wn' = wn_root wn"
proof -
  obtain error ui where rs: "tc_ui_resize_impl grids (ev_width e) (ev_height e) (wn_ui wn) = (error, ui)" by force
  have "ui_ok ui" using rs window_okD(1) [OF assms(1)]
    by (auto simp: tc_ui_resize_impl_def ui_ok_def Let_def split: if_splits)
  then have "window_ok (wn\<lparr>wn_ui := ui\<rparr>)" using assms(1) by (simp add: window_ok_def)
  then show ?thesis
    using rs assms(1) dispatch_mouse_ok [OF assms(1)] press_tab_ok [OF assms(1)] window_okD(4) [OF assms(1)]
      dispatch_key_ok [OF assms(1) _ assms(2)]
    unfolding tc_ui_dispatch_def by (cases "wn_root wn"; cases "wn_focus wn") (fastforce simp: Let_def)+
qed


text \<open>
  Claim C31. A click goes to the topmost widget: with a content, a mouse event gives the focus to the last
  drawn of the buttons and text boxes under the pointer, counting only those inside every widget above
  them, and invokes its closure if it is a button; without one, nothing changes.
\<close>

theorem click_topmost:
  assumes "wn_root wn = Some (root_of t)" and "rep t None None (wn_widgets wn)" and "distinct (ids t)" and "ev_kind e = 4"
  shows "tc_ui_dispatch malloc grids e wn =
     (let found = under t (wn_widgets wn) (ev_x e) (ev_y e); w = the (wget (wn_widgets wn) (last found))
      in if found = [] then Some (0, None, wn)
         else Some (0, if wd_kind w = TC_WIDGET_BUTTON then wd_callback w else None, wn\<lparr>wn_focus := Some (last found)\<rparr>))"
proof -
  let ?us = "under t (wn_widgets wn) (ev_x e) (ev_y e)"
  have d: "tc_ui_dispatch malloc grids e wn = dispatch_mouse (root_of t) (ev_x e) (ev_y e) wn"
    using assms(1,4) by (simp add: tc_ui_dispatch_def)
  show ?thesis
  proof (cases "?us = []")
    case False
    then have "last ?us \<in> set (ids t)" using under_ids by (meson last_in_set)
    then obtain w where "wget (wn_widgets wn) (last ?us) = Some w" using rep_ids [OF assms(2)] by blast
    then show ?thesis using False hit_root [OF assms(2,3)] by (simp add: d dispatch_mouse_def final_def Let_def)
  qed (simp add: d dispatch_mouse_def final_def hit_root [OF assms(2,3)])
qed

text \<open>
  Typing: a printable character that is replayed on an idle window with a focused text box is
  taken from the ring as a key event, and dispatching that event inserts the UTF-8 encoding of the
  character at the cursor and moves the cursor behind it, or reports 8 and changes nothing; no other
  widget changes.
\<close>

theorem replayed_character_typed:
  assumes "window_ok wn" and "malloc_ok malloc" and "ui_event_read (wn_ui wn) = ui_event_write (wn_ui wn)"
    and "wn_focus wn = Some i" and "wget (wn_widgets wn) i = Some w" and "wd_kind w = TC_WIDGET_TEXTBOX"
    and "wd_buffer w = Some g" and "offset < ts_length input" and "tc_utf8_decode (ts_bytes input) offset = (cp, p)"
    and "32 \<le> cp" and "cp \<noteq> 127"
  shows "\<exists>ui1 e ui2 r wn' g'. tc_ui_replay input offset (wn_ui wn) = (0, p, ui1)
     \<and> tc_ui_event platform s ui1 = Some (e, s, ui2)
     \<and> tc_ui_dispatch malloc grids e (wn\<lparr>wn_ui := ui2\<rparr>) = Some (r, None, wn')
     \<and> wn_widgets wn' = (wn_widgets wn)[i := Some (w\<lparr>wd_buffer := Some g'\<rparr>)]
     \<and> (r = 8 \<and> g' = g \<or> r = 0 \<and> gstart g' = gstart g + length (tc_utf8_encode cp)
         \<and> gtext g' = take (gstart g) (gtext g) @ tc_utf8_encode cp @ drop (gstart g) (gtext g))"
proof -
  note g = window_okD(3) [OF assms(1,5,7)]
  let ?key = "if cp < 128 then uint cp else 0"
  let ?e = "zero_event\<lparr>ev_kind := 1, ev_key := ?key, ev_x := 0, ev_y := 0, ev_codepoint := cp\<rparr>"
  let ?slot = "unat (ui_event_write (wn_ui wn) mod 64)"
  let ?ui1 = "(wn_ui wn)\<lparr>ui_events := (ui_events (wn_ui wn))[?slot := ?e], ui_event_write := ui_event_write (wn_ui wn) + 1\<rparr>"
  let ?ui2 = "?ui1\<lparr>ui_event_read := ui_event_read (wn_ui wn) + 1\<rparr>"
  have rp: "tc_ui_replay input offset (wn_ui wn) = (0, p, ?ui1)"
    using assms(3,8,9) by (simp add: tc_ui_replay_def tc_ui_post_def Let_def)
  have slot: "?slot < length (ui_events (wn_ui wn))"
    using window_okD(1) [OF assms(1)] by (simp add: ui_ok_def unat_mod)
  have ev: "tc_ui_event platform s ?ui1 = Some (?e, s, ?ui2)"
    using assms(3) slot by (simp add: tc_ui_event_def)
  obtain r g' where ins: "tc_gap_insert malloc g (ts_of (tc_utf8_encode cp)) = (r, g')" by force
  have key: "?key \<noteq> 127 \<and> (?key = 0 \<or> 32 \<le> ?key \<and> ?key < 128)"
  proof (cases "cp < 128")
    case True
    then have "32 \<le> uint cp" "uint cp < 128" using assms(10) by (simp_all add: word_le_def word_less_def)
    moreover have "uint cp \<noteq> 127" using assms(11) unfolding word_uint_eq_iff by simp
    ultimately show ?thesis using True by simp
  qed simp
  have keys: "\<not> (?key = k)" if "k \<in> {8, 9, 10, 13, 127, 1001, 1002, 1003, 1004, 1005, 1006, 1007, 1008, 1009}" for k
    using key that by auto
  have tk: "textbox_key malloc (wd_height w) ?key cp g = Some (r, g')"
    using keys assms(10,11) ins by (simp add: textbox_key_def)
  have "dispatch_key malloc i ?key cp (wn\<lparr>wn_ui := ?ui2\<rparr>) = Some (r, None, wn\<lparr>wn_ui := ?ui2,
      wn_widgets := (wn_widgets wn)[i := Some (w\<lparr>wd_buffer := Some g'\<rparr>)]\<rparr>)"
    using assms(5-7) tk by (simp add: dispatch_key_def change_def kind_defs)
  then have "tc_ui_dispatch malloc grids ?e (wn\<lparr>wn_ui := ?ui2\<rparr>) = Some (r, None, wn\<lparr>wn_ui := ?ui2,
      wn_widgets := (wn_widgets wn)[i := Some (w\<lparr>wd_buffer := Some g'\<rparr>)]\<rparr>)"
    using keys [of 9] assms(4) by (simp add: tc_ui_dispatch_def)
  moreover have "r = 8 \<and> g' = g \<or> r = 0 \<and> gstart g' = gstart g + length (tc_utf8_encode cp)
      \<and> gtext g' = take (gstart g) (gtext g) @ tc_utf8_encode cp @ drop (gstart g) (gtext g)"
    using insert_cases [OF g assms(2) ts_wf_of ins] by auto
  ultimately show ?thesis using rp ev by fastforce
qed


section \<open>Windows that the calls build\<close>

text \<open>
  Every call of the interface: creating, adding, changing and destroying widgets, setting the content and
  the focus, drawing, the queue of events, and dispatching. The rules of the interface are the premises:
  a pointer that is passed is a widget that exists, the content of the window is not added to another
  widget, neither the content nor a tree that holds the focus is destroyed, and what is drawn does not
  ask for sizes that overflow.
\<close>

inductive hangs_below :: "widgets \<Rightarrow> nat \<Rightarrow> nat \<Rightarrow> bool" for ws i where
  itself: "hangs_below ws i i"
| child: "wget ws j = Some w \<Longrightarrow> wd_parent w = Some p \<Longrightarrow> hangs_below ws i p \<Longrightarrow> hangs_below ws i j"

inductive window_step :: "(nat \<Rightarrow> byte list option) \<Rightarrow> window \<Rightarrow> window \<Rightarrow> bool" for malloc where
  create: "ts_wf s \<Longrightarrow> tc_widget_create calloc kind s width height (wn_widgets wn) = Ret (i, ws) \<Longrightarrow>
     window_step malloc wn (wn\<lparr>wn_widgets := ws\<rparr>)"
| add: "wget (wn_widgets wn) p \<noteq> None \<Longrightarrow> wget (wn_widgets wn) c \<noteq> None \<Longrightarrow> wn_root wn \<noteq> Some c \<Longrightarrow>
     tc_widget_add (Some p) (Some c) (wn_widgets wn) = Some (r, ws) \<Longrightarrow> window_step malloc wn (wn\<lparr>wn_widgets := ws\<rparr>)"
| change_text: "ts_wf s \<Longrightarrow> tc_widget_text calloc i s (wn_widgets wn) = Ret (Some ws) \<Longrightarrow> window_step malloc wn (wn\<lparr>wn_widgets := ws\<rparr>)"
| on_click: "tc_widget_on_click i closure (wn_widgets wn) = Some ws \<Longrightarrow> window_step malloc wn (wn\<lparr>wn_widgets := ws\<rparr>)"
| set_size: "tc_widget_size i width height (wn_widgets wn) = Some ws \<Longrightarrow> window_step malloc wn (wn\<lparr>wn_widgets := ws\<rparr>)"
| destroy: "wget (wn_widgets wn) i \<noteq> None \<Longrightarrow> wn_root wn \<noteq> Some i \<Longrightarrow> tc_widget_destroy (Some i) (wn_widgets wn) = Some ws \<Longrightarrow>
     (\<And>j. wn_focus wn = Some j \<Longrightarrow> \<not> hangs_below (wn_widgets wn) i j) \<Longrightarrow> window_step malloc wn (wn\<lparr>wn_widgets := ws\<rparr>)"
| content: "(\<And>i. c = Some i \<Longrightarrow> wget (wn_widgets wn) i \<noteq> None) \<Longrightarrow> tc_ui_content c wn = Some wn' \<Longrightarrow> window_step malloc wn wn'"
| focus: "(\<And>i. f = Some i \<Longrightarrow> wget (wn_widgets wn) i \<noteq> None) \<Longrightarrow> window_step malloc wn (tc_ui_focus f wn)"
| draw: "\<forall>n. malloc n \<noteq> None \<Longrightarrow> modest (wn_widgets wn) \<Longrightarrow> tc_ui_draw malloc wn = Some wn' \<Longrightarrow> window_step malloc wn wn'"
| draw_screen: "draws (wn_ui wn) (Some ui) \<Longrightarrow> window_step malloc wn (wn\<lparr>wn_ui := ui\<rparr>)"
| post: "tc_ui_post kind key x y cp (wn_ui wn) = (r, ui) \<Longrightarrow> window_step malloc wn (wn\<lparr>wn_ui := ui\<rparr>)"
| take_event: "tc_ui_event (posix_event winsize) inp (wn_ui wn) = Some (e, inp', ui) \<Longrightarrow> window_step malloc wn (wn\<lparr>wn_ui := ui\<rparr>)"
| dispatch: "tc_ui_dispatch malloc grids e wn = Some (r, closure, wn') \<Longrightarrow> window_step malloc wn wn'"

text \<open>A new window, on or off the screen, has no widgets.\<close>

inductive window_reachable :: "(nat \<Rightarrow> byte list option) \<Rightarrow> window \<Rightarrow> bool" for malloc where
  start: "tc_ui_resize_impl grids width height (fresh_ui headless) = (0, ui) \<Longrightarrow>
     window_reachable malloc \<lparr>wn_ui = ui, wn_widgets = [], wn_root = None, wn_focus = None, wn_focus_index = 0\<rparr>"
| step: "window_reachable malloc wn \<Longrightarrow> window_step malloc wn wn' \<Longrightarrow> window_reachable malloc wn'"

text \<open>A store with another forest, in which the root is still a root.\<close>

lemma window_ok_forest:
  assumes ok: "window_ok wn" and f: "forest F ws" and r: "\<And>r. wn_root wn = Some r \<Longrightarrow> \<exists>t\<in>F. root_of t = r"
    and g: "\<And>i w g. wget ws i = Some w \<Longrightarrow> wd_buffer w = Some g \<Longrightarrow> gap_inv g"
    and a: "\<And>i. wn_focus wn = Some i \<Longrightarrow> wget ws i \<noteq> None"
  shows "window_ok (wn\<lparr>wn_widgets := ws\<rparr>)"
  using f r g a window_okD(1) [OF ok] unfolding window_ok_def by (auto intro!: exI [of _ F])

lemma created_gap: "ts_wf s \<Longrightarrow> tc_gap_create calloc s = Ret (Some g) \<Longrightarrow> gap_inv g"
  by (rule create_some(1))

lemma change_buffers:
  assumes "change i f ws = Some ws'" and "\<And>w. wd_buffer (f w) = wd_buffer w"
  shows "map_option wd_buffer (wget ws' j) = map_option wd_buffer (wget ws j)"
  using assms at_bound [of ws i] by (auto simp: change_def at_update split: option.splits)

lemma add_buffers:
  assumes "tc_widget_add (Some p) (Some c) ws = Some (r, ws')"
  shows "map_option wd_buffer (wget ws' j) = map_option wd_buffer (wget ws j)"
proof (cases "ws' = ws")
  case False
  then obtain last_w ws1 ws2 where
      "change c (\<lambda>w. w\<lparr>wd_parent := Some p\<rparr>) ws = Some ws1"
      "(case last_w of Some l \<Rightarrow> change l (\<lambda>w. w\<lparr>wd_next := Some c\<rparr>) ws1
        | None \<Rightarrow> change p (\<lambda>w. w\<lparr>wd_children := Some c\<rparr>) ws1) = Some ws2"
      "change p (\<lambda>w. w\<lparr>wd_last := Some c\<rparr>) ws2 = Some ws'"
    using assms by (auto simp: tc_widget_add_def bind_eq_Some_conv split: if_splits)
  then show ?thesis
    using change_buffers [of c "\<lambda>w. w\<lparr>wd_parent := Some p\<rparr>" ws ws1 j] change_buffers [of p "\<lambda>w. w\<lparr>wd_last := Some c\<rparr>" ws2 ws' j]
      change_buffers [of p "\<lambda>w. w\<lparr>wd_children := Some c\<rparr>" ws1 ws2 j]
      change_buffers [of "the last_w" "\<lambda>w. w\<lparr>wd_next := Some c\<rparr>" ws1 ws2 j]
    by (cases last_w) simp_all
qed simp

lemma created_widget:
  assumes "tc_widget_create calloc kind s width height ws = Ret (i, ws')"
  obtains w where "ws' = ws @ [Some w]" "wd_buffer w = None \<or> tc_gap_create calloc s = Ret (wd_buffer w)"
    "wd_parent w = None" "wd_children w = None" "wd_last w = None" "wd_next w = None"
proof -
  obtain buffer where b: "(if kind = TC_WIDGET_TEXTBOX then tc_gap_create calloc s else Ret None) = Ret buffer"
      "ws' = ws @ [Some \<lparr>wd_kind = kind, wd_x = 0, wd_y = 0, wd_width = 0, wd_height = 0,
       wd_preferred_width = width, wd_preferred_height = height, wd_scroll_line = 0, wd_scroll_column = 0,
       wd_text = ts_bytes s, wd_buffer = buffer, wd_callback = None, wd_parent = None, wd_children = None,
       wd_last = None, wd_next = None\<rparr>]"
    using assms unfolding tc_widget_create_def bind_outcome_Ret by blast
  then have "buffer = None \<or> tc_gap_create calloc s = Ret buffer" by (auto split: if_splits)
  then show ?thesis by (intro that [OF b(2)]) simp_all
qed

lemma create_window:
  assumes ok: "window_ok wn" and s: "ts_wf s"
    and c: "tc_widget_create calloc kind s width height (wn_widgets wn) = Ret (i, ws)"
  shows "window_ok (wn\<lparr>wn_widgets := ws\<rparr>)"
proof -
  obtain F where F: "forest F (wn_widgets wn)" "\<forall>r. wn_root wn = Some r \<longrightarrow> (\<exists>t\<in>F. root_of t = r)"
    using window_okD(2) [OF ok] by blast
  obtain w where w: "ws = wn_widgets wn @ [Some w]" "wd_buffer w = None \<or> tc_gap_create calloc s = Ret (wd_buffer w)"
      "wd_parent w = None" "wd_children w = None" "wd_last w = None" "wd_next w = None"
    by (rule created_widget [OF c])
  have at: "wget ws j = (if j = length (wn_widgets wn) then Some w else wget (wn_widgets wn) j)" for j
    by (simp add: w(1) wget_def nth_append)
  show ?thesis
  proof (rule window_ok_forest [OF ok])
    show "forest (insert (WT (length (wn_widgets wn)) []) F) ws"
      unfolding w(1) by (rule create_forest [OF F(1) w(3-6)])
    show "gap_inv g" if "wget ws j = Some v" "wd_buffer v = Some g" for j v g
      using that at window_okD(3) [OF ok] created_gap [OF s, of calloc g] w(2) by (auto split: if_splits)
  qed (use F(2) window_okD(4) [OF ok] at in auto)
qed

lemma add_window:
  assumes ok: "window_ok wn" and p: "wget (wn_widgets wn) p \<noteq> None" and c: "wget (wn_widgets wn) c \<noteq> None"
    and root: "wn_root wn \<noteq> Some c" and a: "tc_widget_add (Some p) (Some c) (wn_widgets wn) = Some (r, ws)"
  shows "window_ok (wn\<lparr>wn_widgets := ws\<rparr>)"
proof -
  obtain F where F: "forest F (wn_widgets wn)" "\<forall>r. wn_root wn = Some r \<longrightarrow> (\<exists>t\<in>F. root_of t = r)"
    using window_okD(2) [OF ok] by blast
  obtain F' where F': "forest F' ws" "r \<noteq> 0 \<longrightarrow> ws = wn_widgets wn"
      "r = 0 \<longrightarrow> (\<exists>tp\<in>F. \<exists>tc\<in>F. root_of tc = c \<and> p \<in> set (ids tp) \<and> tp \<noteq> tc \<and> F' = insert (graft p tc tp) (F - {tp, tc}))"
    using add_forest [OF F(1) c p] a by auto
  show ?thesis
  proof (cases "r = 0")
    case True
    then obtain tp tc where t: "tp \<in> F" "tc \<in> F" "root_of tc = c" "F' = insert (graft p tc tp) (F - {tp, tc})" using F'(3) by blast
    have keep: "wget ws j = None \<longleftrightarrow> wget (wn_widgets wn) j = None"
        "map_option wd_buffer (wget ws j) = map_option wd_buffer (wget (wn_widgets wn) j)" for j
      using add_buffers [OF a, of j] by (metis option.map_disc_iff, simp)
    show ?thesis
    proof (rule window_ok_forest [OF ok F'(1)])
      fix r assume "wn_root wn = Some r"
      then obtain t where "t \<in> F" "root_of t = r" "t \<noteq> tc" using F(2) root t(3) by auto
      then show "\<exists>t\<in>F'. root_of t = r" unfolding t(4) by (cases "t = tp") auto
    next
      fix j w g assume "wget ws j = Some w" "wd_buffer w = Some g"
      then show "gap_inv g" using keep(2) [of j] window_okD(3) [OF ok, of j] by (cases "wget (wn_widgets wn) j") auto
    qed (use keep(1) window_okD(4) [OF ok] in blast)
  qed (use F'(2) ok in simp)
qed


lemma change_keeps:
  assumes ok: "window_ok wn" and c: "change i f (wn_widgets wn) = Some ws"
    and l: "\<And>w. wd_parent (f w) = wd_parent w" "\<And>w. wd_children (f w) = wd_children w" "\<And>w. wd_last (f w) = wd_last w"
      "\<And>w. wd_next (f w) = wd_next w" "\<And>w. wd_kind (f w) = wd_kind w"
    and g: "\<And>w g. wget (wn_widgets wn) i = Some w \<Longrightarrow> wd_buffer (f w) = Some g \<Longrightarrow> gap_inv g"
  shows "window_ok (wn\<lparr>wn_widgets := ws\<rparr>)"
proof -
  obtain w where w: "wget (wn_widgets wn) i = Some w" "ws = (wn_widgets wn)[i := Some (f w)]"
    using c by (auto simp: change_def split: option.splits)
  show ?thesis unfolding w(2) by (rule update_keeps [OF ok w(1) l]) (rule g [OF w(1)])
qed

lemma text_window:
  assumes ok: "window_ok wn" and s: "ts_wf s" and t: "tc_widget_text calloc i s (wn_widgets wn) = Ret (Some ws)"
  shows "window_ok (wn\<lparr>wn_widgets := ws\<rparr>)"
proof -
  obtain w buffer where w: "wget (wn_widgets wn) i = Some w" "buffer = None \<or> tc_gap_create calloc s = Ret buffer"
      "change i (\<lambda>w. w\<lparr>wd_text := ts_bytes s, wd_buffer := buffer\<rparr>) (wn_widgets wn) = Some ws"
    using t unfolding tc_widget_text_def by (auto simp: bind_outcome_Ret split: option.splits if_splits)
  show ?thesis by (rule change_keeps [OF ok w(3)]) (use w(2) created_gap [OF s] in auto)
qed

lemma below_step: "hangs_below ws j k \<Longrightarrow> hangs_below ws i j \<Longrightarrow> hangs_below ws i k"
  by (induction rule: hangs_below.induct) (auto intro: hangs_below.child)

lemma below_root:
  "rep t p nx ws \<Longrightarrow> j \<in> set (ids t) \<Longrightarrow> hangs_below ws (root_of t) j"
  and below_roots:
  "reps ts q ws \<Longrightarrow> j \<in> set (ids_list ts) \<Longrightarrow> hangs_below ws q j"
proof (induction t and ts arbitrary: p nx and q rule: tree_induct trees_induct)
  case (WT i ts)
  then show ?case by (auto intro: hangs_below.itself)
next
  case (Cons t ts)
  show ?case
  proof (cases "j \<in> set (ids t)")
    case True
    obtain w where "wget ws (root_of t) = Some w" "wd_parent w = Some q" using Cons.prems(1) rep_root by fastforce
    then have "hangs_below ws q (root_of t)" by (rule hangs_below.child) (rule hangs_below.itself)
    then show ?thesis using below_step [OF Cons.IH(1) [OF _ True]] Cons.prems(1) unfolding reps.simps by blast
  next
    case False
    then show ?thesis using Cons by auto
  qed
qed simp

lemma below_in_tree:
  assumes f: "forest F ws" and t: "t \<in> F" "root_of t = i"
  shows "hangs_below ws i j \<Longrightarrow> wget ws j \<noteq> None \<Longrightarrow> j \<in> set (ids t)"
proof (induction rule: hangs_below.induct)
  case itself
  then show ?case using t(2) root_in_ids by blast
next
  case (child j w p)
  obtain u where u: "u \<in> F" "j \<in> set (ids u)" using forest_tree [OF f child.prems] by blast
  have r: "rep u None None ws" using f u(1) by (simp add: forest_def)
  have "j \<noteq> root_of u" using rep_root [OF r] child.hyps(1,2) by auto
  then have p: "p \<in> set (ids u)" using parent_below [OF r u(2)] child.hyps(1,2) by auto
  then have "p \<in> set (ids t)" using child.IH rep_ids [OF r] by blast
  then have "u = t" using f u(1) t(1) p unfolding forest_def by blast
  then show ?case using u(2) by simp
qed

text \<open>Destroying a root frees what hangs below it, and nothing else.\<close>

lemma destroy_frees:
  assumes f: "forest F (wn_widgets wn)" and w: "wget (wn_widgets wn) i = Some w" "wd_parent w = None"
    and d: "tc_widget_destroy (Some i) (wn_widgets wn) = Some ws"
  shows "\<exists>t\<in>F. root_of t = i \<and> forest (F - {t}) ws
    \<and> (\<forall>j. wget ws j = (if hangs_below (wn_widgets wn) i j then None else wget (wn_widgets wn) j))"
proof -
  obtain t where t: "t \<in> F" "i \<in> set (ids t)" using forest_tree [OF f] w(1) by blast
  have rep: "rep t None None (wn_widgets wn)" using f t(1) by (simp add: forest_def)
  have rt: "root_of t = i" using parent_below [OF rep t(2)] w by force
  obtain ws' where free: "tc_widget_free (fuel (wn_widgets wn)) i (wn_widgets wn) = Some ws'" "forest (F - {t}) ws'"
      "\<forall>j. wget ws' j = (if j \<in> set (ids t) then None else wget (wn_widgets wn) j)"
    using free_forest [OF f t(1)] rt by blast
  have ws: "ws = ws'" using d w free(1) by (simp add: tc_widget_destroy_def)
  have "wget ws j = (if hangs_below (wn_widgets wn) i j then None else wget (wn_widgets wn) j)" for j
    using free(3) below_root [OF rep, of j] below_in_tree [OF f t(1) rt, of j] rt unfolding ws
    by (cases "wget (wn_widgets wn) j") auto
  then show ?thesis using t(1) rt free(2) ws by blast
qed

lemma destroy_window:
  assumes ok: "window_ok wn" and i: "wget (wn_widgets wn) i \<noteq> None" "wn_root wn \<noteq> Some i"
    and d: "tc_widget_destroy (Some i) (wn_widgets wn) = Some ws" and a: "\<And>j. wn_focus wn = Some j \<Longrightarrow> \<not> hangs_below (wn_widgets wn) i j"
  shows "window_ok (wn\<lparr>wn_widgets := ws\<rparr>)"
proof -
  obtain w where w: "wget (wn_widgets wn) i = Some w" using i(1) by blast
  show ?thesis
  proof (cases "wd_parent w = None")
    case False
    then have "ws = wn_widgets wn" using d w by (auto simp: tc_widget_destroy_def)
    then show ?thesis using ok by simp
  next
    case True
    obtain F where F: "forest F (wn_widgets wn)" "\<forall>r. wn_root wn = Some r \<longrightarrow> (\<exists>t\<in>F. root_of t = r)"
      using window_okD(2) [OF ok] by blast
    obtain t where t: "t \<in> F" "root_of t = i" "forest (F - {t}) ws"
        "\<forall>j. wget ws j = (if hangs_below (wn_widgets wn) i j then None else wget (wn_widgets wn) j)"
      using destroy_frees [OF F(1) w True d] by blast
    show ?thesis
    proof (rule window_ok_forest [OF ok t(3)])
      show "\<exists>u\<in>F - {t}. root_of u = r" if "wn_root wn = Some r" for r using F(2) that i(2) t(2) by blast
      show "gap_inv g" if "wget ws j = Some v" "wd_buffer v = Some g" for j v g
        using that t(4) window_okD(3) [OF ok] by (auto split: if_splits)
      show "wget ws j \<noteq> None" if "wn_focus wn = Some j" for j
        using t(4) a [OF that] window_okD(4) [OF ok that] by simp
    qed
  qed
qed

text \<open>
  The rule about the focus is needed: \<open>tc_widget_destroy\<close> does not know the window, so destroying a tree that
  holds the focus leaves the window with a pointer to a freed widget.
\<close>

lemma destroyed_focus_dangles:
  assumes "window_ok wn" "wget (wn_widgets wn) i = Some w" "wd_parent w = None" "wn_focus wn = Some j"
    "hangs_below (wn_widgets wn) i j" "tc_widget_destroy (Some i) (wn_widgets wn) = Some ws"
  shows "wn_focus (wn\<lparr>wn_widgets := ws\<rparr>) = Some j \<and> wget ws j = None"
proof -
  obtain F where "forest F (wn_widgets wn)" using window_okD(2) [OF assms(1)] by blast
  from destroy_frees [OF this assms(2,3,6)] show ?thesis using assms(4,5) by auto
qed

lemma content_window:
  assumes ok: "window_ok wn" and c: "\<And>i. c = Some i \<Longrightarrow> wget (wn_widgets wn) i \<noteq> None" and r: "tc_ui_content c wn = Some wn'"
  shows "window_ok wn'"
proof (cases "\<exists>i w. c = Some i \<and> wget (wn_widgets wn) i = Some w \<and> wd_parent w \<noteq> None")
  case True
  then show ?thesis using r ok by (auto simp: tc_ui_content_def)
next
  case False
  obtain F where F: "forest F (wn_widgets wn)" "\<forall>r. wn_root wn = Some r \<longrightarrow> (\<exists>t\<in>F. root_of t = r)"
    using window_okD(2) [OF ok] by blast
  have top: "\<exists>t\<in>F. root_of t = i" if ci: "c = Some i" for i
  proof -
    obtain w where w: "wget (wn_widgets wn) i = Some w" using c [OF ci] by blast
    obtain t where t: "t \<in> F" "i \<in> set (ids t)" using forest_tree [OF F(1)] w by blast
    have "wd_parent w = None" using False ci w by blast
    then show ?thesis using parent_below [of t None None "wn_widgets wn" i] F(1) t w by (force simp: forest_def)
  qed
  have inner: "(case c of None \<Rightarrow> Some False | Some r \<Rightarrow> map_option (\<lambda>w. wd_parent w \<noteq> None) (wget (wn_widgets wn) r)) = Some False"
    using False c by (cases c) auto
  have "\<exists>ws F'. (case wn_root wn of
      Some old \<Rightarrow> if c \<noteq> Some old then tc_widget_free (fuel (wn_widgets wn)) old (wn_widgets wn) else Some (wn_widgets wn)
    | None \<Rightarrow> Some (wn_widgets wn)) = Some ws \<and> forest F' ws \<and> (\<forall>i. c = Some i \<longrightarrow> (\<exists>t\<in>F'. root_of t = i))
      \<and> (\<forall>j. wget ws j = None \<or> wget ws j = wget (wn_widgets wn) j)"
  proof (cases "\<exists>old. wn_root wn = Some old \<and> c \<noteq> Some old")
    case True
    then obtain t where t: "t \<in> F" "wn_root wn = Some (root_of t)" "c \<noteq> Some (root_of t)" using F(2) by blast
    then show ?thesis using free_forest [OF F(1) t(1)] top by (fastforce split: if_splits)
  next
    case False
    then show ?thesis using F(1) top by (intro exI [of _ "wn_widgets wn"] exI [of _ F]) (auto split: option.split)
  qed
  then obtain ws F' where ws: "(case wn_root wn of
      Some old \<Rightarrow> if c \<noteq> Some old then tc_widget_free (fuel (wn_widgets wn)) old (wn_widgets wn) else Some (wn_widgets wn)
    | None \<Rightarrow> Some (wn_widgets wn)) = Some ws" "forest F' ws" "\<forall>i. c = Some i \<longrightarrow> (\<exists>t\<in>F'. root_of t = i)"
      "\<forall>j. wget ws j = None \<or> wget ws j = wget (wn_widgets wn) j" by blast
  let ?wn = "wn\<lparr>wn_widgets := ws, wn_root := c\<rparr>"
  obtain f where f: "(case c of None \<Rightarrow> Some None | Some r \<Rightarrow> focus_at ?wn r 0) = Some f" "wn' = ?wn\<lparr>wn_focus := f, wn_focus_index := 0\<rparr>"
    using r unfolding tc_ui_content_def Let_def inner ws(1) by (auto simp: bind_eq_Some_conv)
  have alive: "wget ws j \<noteq> None" if fj: "f = Some j" for j
  proof -
    obtain i where i: "c = Some i" using f(1) fj by (cases c) auto
    obtain t where t: "t \<in> F'" "root_of t = i" using ws(3) i by blast
    have rep: "rep t None None ws" "distinct (ids t)" using ws(2) t(1) by (simp_all add: forest_def)
    have "focus_at ?wn i 0 = Some (let fs = focus_list ws (ids t) in if 0 < length fs then Some (fs ! 0) else None)"
      using focus_at_nth [of t ?wn 0] rep t(2) by (simp add: Let_def)
    then have "j \<in> set (focus_list ws (ids t))" using f(1) i fj by (auto simp: Let_def split: if_splits)
    then show ?thesis using rep_ids [OF rep(1)] by (simp add: focus_list_def)
  qed
  have "gap_inv g" if "wget ws j = Some v" "wd_buffer v = Some g" for j v g
    using that ws(4) window_okD(3) [OF ok, of j v g] by (metis option.distinct(1))
  then show ?thesis using f(2) alive ws(2,3) window_okD(1) [OF ok] by (auto simp: window_ok_def intro!: exI [of _ F'])
qed

lemma ui_window: "window_ok wn \<Longrightarrow> ui_ok ui \<Longrightarrow> window_ok (wn\<lparr>wn_ui := ui\<rparr>)"
  by (simp add: window_ok_def)

lemma post_ui: "ui_ok ui \<Longrightarrow> tc_ui_post kind key x y cp ui = (r, ui') \<Longrightarrow> ui_ok ui'"
  using post_ring [of ui kind key x y cp]
  by (cases "pending ui = 64") (auto simp: ui_ok_def ring_ok_def pending_def tc_ui_post_def Let_def split: if_splits)

lemma take_ui: "ui_ok ui \<Longrightarrow> tc_ui_event (posix_event winsize) inp ui = Some (e, inp', ui') \<Longrightarrow> ui_ok ui'"
  using take_ring [of ui "posix_event winsize" inp e inp' ui']
  by (cases "ui_event_read ui = ui_event_write ui")
    (auto simp: ui_ok_def ring_ok_def pending_def tc_ui_event_def Let_def split: if_splits)

lemma window_step_ok:
  assumes "window_step malloc wn wn'" and m: "malloc_ok malloc" and "window_ok wn"
  shows "window_ok wn'"
  using assms(1,3)
proof (induction rule: window_step.induct)
  case (draw wn wn')
  then show ?case using draw_window [OF draw(4) m draw(1,2)] by force
next
  case (dispatch grids e wn r closure wn')
  then show ?case using dispatch_safe [OF dispatch(2) m, of grids e] by force
next
  case (on_click i closure wn ws)
  show ?case by (rule change_keeps [OF on_click(2) on_click(1) [unfolded tc_widget_on_click_def]])
      (use window_okD(3) [OF on_click(2)] in auto)
next
  case (set_size i width height wn ws)
  show ?case by (rule change_keeps [OF set_size(2) set_size(1) [unfolded tc_widget_size_def]])
      (use window_okD(3) [OF set_size(2)] in auto)
next
  case (focus f wn)
  then show ?case unfolding tc_ui_focus_def by (intro window_ok_focus) auto
next
  case (draw_screen wn ui)
  then show ?case using draws_ok [OF draw_screen(1)] window_okD(1) [OF draw_screen(2)] ui_window by force
next
  case (create s calloc kind width height wn i ws)
  show ?case by (rule create_window [OF create(3,1,2)])
next
  case (add wn p c r ws)
  show ?case by (rule add_window [OF add(5,1,2,3,4)])
next
  case (change_text s calloc i wn ws)
  show ?case by (rule text_window [OF change_text(3,1,2)])
next
  case (destroy wn i ws)
  show ?case by (rule destroy_window [OF destroy(5,1,2,3)]) (rule destroy(4))
next
  case (content c wn wn')
  show ?case by (rule content_window [OF content(3) _ content(2)]) (rule content(1))
next
  case (post kind key x y cp wn r ui)
  show ?case by (rule ui_window [OF post(2) post_ui [OF window_okD(1) [OF post(2)] post(1)]])
next
  case (take_event winsize inp wn e inp' ui)
  show ?case by (rule ui_window [OF take_event(2) take_ui [OF window_okD(1) [OF take_event(2)] take_event(1)]])
qed

lemma window_reachable_ok: "window_reachable malloc wn \<Longrightarrow> malloc_ok malloc \<Longrightarrow> window_ok wn"
proof (induction rule: window_reachable.induct)
  case (start grids width height headless ui)
  then have "ui_ok ui"
    by (auto simp: fresh_ui_def tc_ui_resize_impl_def Let_def ui_ok_def split: if_splits)
  then show ?case by (auto simp: window_ok_def forest_def wget_def intro!: exI [of _ "{}"])
qed (rule window_step_ok)


text \<open>
  Claim C6. What the interface builds is sound: in every window reached by calls of the interface, in any
  order and with any arguments its rules allow, every widget belongs to one tree whose pointers agree in
  both directions and which has no cycle; different trees share no widget; the root of the window is the
  root of its tree; the focus is not a freed widget (the rules do not let the tree that holds it be destroyed, see
  \<open>destroyed_focus_dangles\<close>); and the text of every text box lies in its block.
\<close>

theorem window_reachable_safe:
  assumes "window_reachable malloc wn" and "malloc_ok malloc"
  shows "(\<forall>i. wget (wn_widgets wn) i \<noteq> None \<longleftrightarrow> (\<exists>t. rep t None None (wn_widgets wn) \<and> distinct (ids t) \<and> i \<in> set (ids t)))
     \<and> (\<exists>F. forest F (wn_widgets wn) \<and> wn_root wn \<in> insert None (Some ` root_of ` F))
     \<and> (\<forall>i w g. wget (wn_widgets wn) i = Some w \<and> wd_buffer w = Some g \<longrightarrow> gap_inv g)
     \<and> wn_focus wn \<in> insert None (Some ` {i. wget (wn_widgets wn) i \<noteq> None}) \<and> ui_ok (wn_ui wn)"
proof -
  note ok = window_reachable_ok [OF assms]
  obtain F where F: "forest F (wn_widgets wn)" "\<forall>r. wn_root wn = Some r \<longrightarrow> (\<exists>t\<in>F. root_of t = r)"
    using window_okD(2) [OF ok] by blast
  have "wn_root wn \<in> insert None (Some ` root_of ` F)" using F(2) by (cases "wn_root wn") auto
  then have roots: "\<exists>F. forest F (wn_widgets wn) \<and> wn_root wn \<in> insert None (Some ` root_of ` F)" using F(1) by blast
  have trees: "wget (wn_widgets wn) i \<noteq> None \<longleftrightarrow> (\<exists>t. rep t None None (wn_widgets wn) \<and> distinct (ids t) \<and> i \<in> set (ids t))" for i
  proof
    assume "wget (wn_widgets wn) i \<noteq> None"
    then obtain t where "t \<in> F" "i \<in> set (ids t)" using forest_tree [OF F(1)] by blast
    then show "\<exists>t. rep t None None (wn_widgets wn) \<and> distinct (ids t) \<and> i \<in> set (ids t)"
      using F(1) by (intro exI [of _ t]) (simp add: forest_def)
  next
    assume "\<exists>t. rep t None None (wn_widgets wn) \<and> distinct (ids t) \<and> i \<in> set (ids t)"
    then show "wget (wn_widgets wn) i \<noteq> None" using rep_ids by blast
  qed
  have "wn_focus wn \<in> insert None (Some ` {i. wget (wn_widgets wn) i \<noteq> None})"
    using window_okD(4) [OF ok] by (cases "wn_focus wn") auto
  moreover have "\<forall>i w g. wget (wn_widgets wn) i = Some w \<and> wd_buffer w = Some g \<longrightarrow> gap_inv g"
    using window_okD(3) [OF ok] by blast
  moreover have "\<forall>i. wget (wn_widgets wn) i \<noteq> None \<longleftrightarrow>
      (\<exists>t. rep t None None (wn_widgets wn) \<and> distinct (ids t) \<and> i \<in> set (ids t))" using trees by (rule allI)
  ultimately show ?thesis using roots window_okD(1) [OF ok] by (intro conjI)
qed

text \<open>
  Adding a widget: it answers 0 exactly when the child has no parent, the parent is a container
  and is not below the child, and then the child's tree hangs behind the other children of the parent and
  all other trees are as before; otherwise it answers 1 and changes nothing. The search through the
  ancestors ends.
\<close>

theorem widget_add_grafts:
  assumes "forest F ws" and "wget ws c \<noteq> None" and "wget ws p \<noteq> None"
  shows "\<exists>r ws' F'. tc_widget_add (Some p) (Some c) ws = Some (r, ws') \<and> forest F' ws'
     \<and> (r \<noteq> 0 \<longrightarrow> ws' = ws)
     \<and> (r = 0 \<longrightarrow> (\<exists>tp\<in>F. \<exists>tc\<in>F. root_of tc = c \<and> p \<in> set (ids tp) \<and> tp \<noteq> tc \<and> F' = insert (graft p tc tp) (F - {tp, tc})))
     \<and> (r = 0 \<longleftrightarrow> wd_parent (the (wget ws c)) = None \<and> TC_WIDGET_PANEL \<le> wd_kind (the (wget ws p))
          \<and> (\<exists>t\<in>F. root_of t = c \<and> p \<notin> set (ids t)))"
  by (rule add_forest [OF assms])

section \<open>An example\<close>

text \<open>A panel with a button and a text box, on a screen of three columns and one line.\<close>

definition demo_widget :: "int \<Rightarrow> nat option \<Rightarrow> nat option \<Rightarrow> TcWidget" where
  "demo_widget kind p n = \<lparr>wd_kind = kind, wd_x = 0, wd_y = 0, wd_width = 3, wd_height = 1, wd_preferred_width = 0,
     wd_preferred_height = 0, wd_scroll_line = 0, wd_scroll_column = 0, wd_text = [79, 75], wd_buffer = None,
     wd_callback = None, wd_parent = p, wd_children = None, wd_last = None, wd_next = n\<rparr>"

definition demo_store :: widgets where
  "demo_store =
     [Some (demo_widget 4 None None\<lparr>wd_children := Some 1, wd_last := Some 2\<rparr>),
      Some (demo_widget 2 (Some 0) (Some 2)\<lparr>wd_callback := Some 7\<rparr>),
      Some (demo_widget 3 (Some 0) None\<lparr>wd_x := 2, wd_width := 1, wd_buffer := Some gap_example\<rparr>)]"

definition demo :: window where
  "demo = \<lparr>wn_ui = demo_window, wn_widgets = demo_store, wn_root = Some 0, wn_focus = Some 2, wn_focus_index = 1\<rparr>"

abbreviation demo_tree :: wtree where
  "demo_tree \<equiv> WT 0 [WT 1 [], WT 2 []]"

lemma demo_get: "wget demo_store i = (if i < 3 then demo_store ! i else None)"
  by (simp add: wget_def demo_store_def)

lemma demo_at:
  "wget demo_store 0 = Some (demo_widget 4 None None\<lparr>wd_children := Some 1, wd_last := Some 2\<rparr>)"
  "wget demo_store (Suc 0) = Some (demo_widget 2 (Some 0) (Some 2)\<lparr>wd_callback := Some 7\<rparr>)"
  "wget demo_store 2 = Some (demo_widget 3 (Some 0) None\<lparr>wd_x := 2, wd_width := 1, wd_buffer := Some gap_example\<rparr>)"
  by (simp_all add: wget_def demo_store_def)

lemma demo_rep: "rep demo_tree None None demo_store"
  by (simp add: demo_at demo_widget_def last_of_def kind_defs)

lemma demo_forest: "forest {demo_tree} demo_store"
proof -
  have "{i. wget demo_store i \<noteq> None} = {0, 1, 2}" by (auto simp: wget_def demo_store_def less_Suc_eq nth_Cons')
  then show ?thesis using demo_rep by (auto simp: forest_def)
qed

lemma demo_window_ok: "window_ok demo"
proof -
  have "gap_inv g" if w: "wget demo_store i = Some w" "wd_buffer w = Some g" for i w g
  proof -
    have "i < 3" using w(1) by (auto simp: wget_def demo_store_def split: if_splits)
    then have "i = 0 \<or> i = 1 \<or> i = 2" by linarith
    then show ?thesis using w by (auto simp: demo_at demo_widget_def)
  qed
  moreover have "\<exists>F. forest F demo_store \<and> (\<forall>r. Some (0 :: nat) = Some r \<longrightarrow> (\<exists>t\<in>F. root_of t = r))"
    using demo_forest by (intro exI [of _ "{demo_tree}"]) simp
  ultimately show ?thesis using demo_ok(1) by (auto simp: window_ok_def demo_def demo_at)
qed

lemma malloc_zero_total: "\<forall>n. malloc_zero n \<noteq> None"
  by (simp add: malloc_zero_def)

lemma demo_modest: "modest (wn_widgets demo)"
  by (simp add: modest_def demo_def demo_store_def bound_at_def wget_def size_bound_def demo_widget_def eval_nat_numeral)

theorem window_draw_safe_witness: "\<exists>wn' t. tc_ui_draw malloc_zero demo = Some wn' \<and> nested t (wn_widgets wn') \<and> root_of t = 0"
  using window_draw_safe [OF demo_window_ok malloc_ok_zero malloc_zero_total demo_modest] by (auto simp: demo_def)

theorem dispatch_safe_witness:
  "\<exists>r c wn'. tc_ui_dispatch malloc_zero True (zero_event\<lparr>ev_kind := 1, ev_key := 1004\<rparr>) demo = Some (r, c, wn') \<and> wn_root wn' = Some 0"
  using dispatch_safe [OF demo_window_ok malloc_ok_zero, of True "zero_event\<lparr>ev_kind := 1, ev_key := 1004\<rparr>"]
  by (auto simp: demo_def)

theorem tab_cycles_witness:
  "\<exists>wn'. tc_ui_dispatch malloc_zero True (zero_event\<lparr>ev_kind := 1, ev_key := 9\<rparr>) demo = Some (0, None, wn') \<and> wn_focus wn' = Some 1"
proof -
  have "focus_list demo_store (ids demo_tree) = [1, 2]"
    by (simp add: focus_list_def can_focus_def demo_at demo_widget_def focusable_def kind_defs)
  then show ?thesis
    using tab_cycles [of demo demo_tree "zero_event\<lparr>ev_kind := 1, ev_key := 9\<rparr>" malloc_zero True] demo_rep
    by (auto simp: demo_def Let_def)
qed

theorem click_topmost_witness:
  "tc_ui_dispatch malloc_zero True (zero_event\<lparr>ev_kind := 4, ev_x := 1\<rparr>) demo = Some (0, Some 7, demo\<lparr>wn_focus := Some 1\<rparr>)"
proof -
  have "under demo_tree demo_store 1 0 = [1]"
    by (simp add: focus_list_def can_focus_def demo_at demo_widget_def focusable_def kind_defs covers_def)
  then show ?thesis
    using click_topmost [of demo demo_tree "zero_event\<lparr>ev_kind := 4, ev_x := 1\<rparr>" malloc_zero True] demo_rep
    by (simp add: demo_def Let_def demo_at zero_event_def demo_widget_def kind_defs)
qed

theorem replayed_character_typed_witness:
  "\<exists>ui1 e ui2 wn' r. tc_ui_replay (ts_of [0xe9, 65]) 1 demo_window = (0, 2, ui1)
     \<and> tc_ui_event (posix_event None) [] ui1 = Some (e, [], ui2)
     \<and> tc_ui_dispatch malloc_zero True e (demo\<lparr>wn_ui := ui2\<rparr>) = Some (r, None, wn') \<and> (r = 8 \<or> r = 0)"
proof -
  have "tc_utf8_decode (ts_bytes (ts_of [0xe9, 65])) 1 = (65, 2)" by code_simp
  then show ?thesis
    using replayed_character_typed [OF demo_window_ok malloc_ok_zero _ _ _ _ _ _ \<open>tc_utf8_decode _ _ = _\<close>,
        of 2 "demo_widget 3 (Some 0) None\<lparr>wd_x := 2, wd_width := 1, wd_buffer := Some gap_example\<rparr>" gap_example
          "posix_event None" "[]" True]
    by (auto simp: demo_def demo_at demo_window_def demo_widget_def kind_defs)
qed

text \<open>
  A panel with a button becomes the content, which puts the focus on the button, and a label that was
  made meanwhile is destroyed.
\<close>

definition made :: "int \<Rightarrow> TcWidget" where
  "made kind = \<lparr>wd_kind = kind, wd_x = 0, wd_y = 0, wd_width = 0, wd_height = 0, wd_preferred_width = 0, wd_preferred_height = 0,
     wd_scroll_line = 0, wd_scroll_column = 0, wd_text = [], wd_buffer = None, wd_callback = None, wd_parent = None,
     wd_children = None, wd_last = None, wd_next = None\<rparr>"

definition joined :: widgets where
  "joined = [Some (made 4\<lparr>wd_children := Some 1, wd_last := Some 1\<rparr>), Some (made 2\<lparr>wd_parent := Some 0\<rparr>), Some (made 1)]"

definition built_window :: "widgets \<Rightarrow> nat option \<Rightarrow> nat option \<Rightarrow> window" where
  "built_window ws content foc =
     \<lparr>wn_ui = snd (tc_ui_resize_impl True 3 1 (fresh_ui True)), wn_widgets = ws, wn_root = content, wn_focus = foc, wn_focus_index = 0\<rparr>"

lemma built_steps:
  "k \<noteq> 3 \<Longrightarrow> tc_widget_create (\<lambda>_. True) k (ts_of []) 0 0 ws = Ret (length ws, ws @ [Some (made k)])"
  "tc_widget_add (Some 0) (Some 1) [Some (made 4), Some (made 2), Some (made 1)] = Some (0, joined)"
  "tc_ui_content (Some 0) (built_window joined None None) = Some (built_window joined (Some 0) (Some 1))"
  "tc_widget_destroy (Some 2) joined = Some (joined[2 := None])"
  subgoal by (simp add: tc_widget_create_def made_def kind_defs)
  subgoal by (simp add: tc_widget_add_def wget_def change_def ancestor_loop.simps made_def kind_defs joined_def)
  subgoal by (simp add: tc_ui_content_def built_window_def joined_def wget_def made_def focus_at_def fuel_def focusable_def kind_defs eval_nat_numeral)
  subgoal by (simp add: tc_widget_destroy_def joined_def wget_def made_def fuel_def eval_nat_numeral)
  done
lemma built_reachable: "window_reachable malloc_zero (built_window (joined[2 := None]) (Some 0) (Some 1))"
proof -
  let ?panel = "Some (made 4)" and ?button = "Some (made 2)" and ?label = "Some (made 1)"
  have ui: "tc_ui_resize_impl True 3 1 (fresh_ui True) = (0, snd (tc_ui_resize_impl True 3 1 (fresh_ui True)))"
    by (simp add: tc_ui_resize_impl_def Let_def)
  have start: "window_reachable malloc_zero (built_window [] None None)"
    unfolding built_window_def by (rule window_reachable.start [OF ui])
  have create: "window_reachable malloc_zero (built_window (ws @ [Some (made k)]) None None)"
    if "window_reachable malloc_zero (built_window ws None None)" "k \<noteq> 3" for ws k
    using window_reachable.step [OF that(1) window_step.create [OF ts_wf_of, of "\<lambda>_. True" k "[]" 0 0 _ "length ws" "ws @ [Some (made k)]"]]
      built_steps(1) [OF that(2), of ws] by (simp add: built_window_def)
  have "window_reachable malloc_zero (built_window [?panel, ?button, ?label] None None)"
    using create [OF create [OF create [OF start, of 4], of 2], of 1] by simp
  from window_reachable.step [OF this window_step.add [of _ 0 1 0 joined]]
  have "window_reachable malloc_zero (built_window joined None None)" using built_steps(2) by (simp add: built_window_def wget_def)
  from window_reachable.step [OF this window_step.content [OF _ built_steps(3)]]
  have r: "window_reachable malloc_zero (built_window joined (Some 0) (Some 1))" by (simp add: built_window_def joined_def wget_def)
  have at: "wget joined 0 = Some (made 4\<lparr>wd_children := Some 1, wd_last := Some 1\<rparr>)" "wget joined 1 = Some (made 2\<lparr>wd_parent := Some 0\<rparr>)"
    by (simp_all add: joined_def wget_def)
  have "\<not> hangs_below joined 2 0" by (subst hangs_below.simps) (simp add: at made_def)
  then have "\<not> hangs_below joined 2 1" by (subst hangs_below.simps) (simp add: at [unfolded One_nat_def] made_def)
  moreover have "wget joined 2 \<noteq> None" by (simp add: joined_def wget_def)
  ultimately show ?thesis
    using window_reachable.step [OF r window_step.destroy [of _ 2 "joined[2 := None]"]] built_steps(4) by (simp add: built_window_def)
qed

theorem window_reachable_safe_witness:
  "(\<exists>t. rep t None None (joined[2 := None]) \<and> 1 \<in> set (ids t)) \<and> \<not> (\<exists>t. rep t None None (joined[2 := None]) \<and> distinct (ids t) \<and> 2 \<in> set (ids t))"
proof -
  let ?ws = "joined[2 := None]"
  note safe = window_reachable_safe [OF built_reachable malloc_ok_zero, unfolded built_window_def window.simps]
  from safe have trees: "\<And>i. wget ?ws i \<noteq> None \<longleftrightarrow> (\<exists>t. rep t None None ?ws \<and> distinct (ids t) \<and> i \<in> set (ids t))" by blast
  from safe have "wget ?ws 1 \<noteq> None" by blast
  moreover have "wget ?ws 2 = None" by (simp add: wget_def)
  ultimately show ?thesis using trees by blast
qed

theorem widget_add_grafts_witness:
  "\<exists>ws' F'. tc_widget_add (Some 0) (Some 1) demo_store = Some (1, ws') \<and> forest F' ws'"
proof -
  have "wget demo_store 1 \<noteq> None" "wget demo_store 0 \<noteq> None" by (simp_all add: demo_at)
  from widget_add_grafts [OF demo_forest this] show ?thesis
    by (auto simp: tc_widget_add_def demo_at demo_widget_def)
qed

end
