(* ===== verification/Console.thy ===== *)
theory Console
  imports Screen
begin

text \<open>
  Taking over the terminal and giving it back: \<open>tc_ui_create\<close>, \<open>tc_ui_restore\<close> and \<open>tc_ui_destroy\<close> of
  \<open>runtime/tui.c\<close> and \<open>tc_panic\<close> of \<open>runtime/tiny_runtime.h\<close>, on POSIX and on Windows. The answers of the
  operating system are arguments. Proved: whatever windows are created, drawn and destroyed, with whatever
  errors, the terminal and what it shows are as they were found when no window has it and after a panic,
  as long as its attributes can be put back; and one exception, creating a window off the screen with a
  bad size, which gives away the terminal of another window.
\<close>

section \<open>The terminal of the operating system\<close>

text \<open>
  POSIX: the attributes that the source touches, with the numbers of Linux. The arguments of the set-up
  are the answers: whether both streams are terminals, whether the attributes can be read and be set. The
  result is what has been saved, if there was no error, and the attributes afterwards.
\<close>

record termios =
  c_iflag :: u32
  c_oflag :: u32
  c_lflag :: u32
  c_vmin :: byte
  c_vtime :: byte

definition raw_mode :: "termios \<Rightarrow> termios" where
  "raw_mode t = t\<lparr>c_lflag := and (c_lflag t) (not (or (or (or 0x8 0x2) 0x8000) 0x1)),
     c_iflag := and (c_iflag t) (not (or 0x400 0x100)),
     c_oflag := and (c_oflag t) (not 0x1), c_vmin := 0, c_vtime := 0\<rparr>"

definition posix_setup :: "bool \<Rightarrow> bool \<Rightarrow> bool \<Rightarrow> termios \<Rightarrow> termios option \<times> termios" where
  "posix_setup ttys getattr setattr t =
     (if \<not> ttys \<or> \<not> getattr then (None, t) else if \<not> setattr then (None, t) else (Some t, raw_mode t))"

text \<open>Putting back what was saved; whether \<open>tcsetattr\<close> succeeds is its answer, which the program does not look at.\<close>

definition posix_put_back :: "bool \<Rightarrow> termios \<Rightarrow> termios \<Rightarrow> termios" where
  "posix_put_back setattr saved t = (if setattr then saved else t)"




section \<open>What the terminal shows\<close>

text \<open>
  What the escape sequences switch: the alternate screen, the cursor, the reports of the mouse and their
  form, and whether the colours are the usual ones.
\<close>

record display =
  dp_alternate :: bool
  dp_cursor :: bool
  dp_mouse :: bool
  dp_mouse_form :: bool
  dp_plain :: bool

definition usual_display :: display where
  "usual_display = \<lparr>dp_alternate = False, dp_cursor = True, dp_mouse = False, dp_mouse_form = False, dp_plain = True\<rparr>"

text \<open>A terminal reads one sequence, which is given without \<open>ESC [\<close>; what else it may be sent changes the colours at most.\<close>

definition escape :: "string \<Rightarrow> display \<Rightarrow> display" where
  "escape name d =
     (if name = ''?1049h'' then d\<lparr>dp_alternate := True\<rparr>
      else if name = ''?1049l'' then d\<lparr>dp_alternate := False\<rparr>
      else if name = ''?25h'' then d\<lparr>dp_cursor := True\<rparr>
      else if name = ''?25l'' then d\<lparr>dp_cursor := False\<rparr>
      else if name = ''?1000h'' then d\<lparr>dp_mouse := True\<rparr>
      else if name = ''?1000l'' then d\<lparr>dp_mouse := False\<rparr>
      else if name = ''?1006h'' then d\<lparr>dp_mouse_form := True\<rparr>
      else if name = ''?1006l'' then d\<lparr>dp_mouse_form := False\<rparr>
      else d\<lparr>dp_plain := (name = ''0m'')\<rparr>)"

definition tell :: "string list \<Rightarrow> display \<Rightarrow> display" where
  "tell = fold escape"

section \<open>Windows and the terminal\<close>

text \<open>
  What the calls share: the terminal, what it shows, the window that has it, \<open>tc_active_terminal\<close>, with
  what that window has saved of it (the flag \<open>active\<close> of a window is set and cleared together with this
  pointer), and whether \<open>tc_program_cleanup\<close> is set. What is written reaches the terminal.
\<close>

record ('t, 's) host =
  ho_terminal :: 't
  ho_display :: display
  ho_active :: "(nat \<times> 's) option"
  ho_cleanup :: bool

definition tc_ui_restore :: "('s \<Rightarrow> 't \<Rightarrow> 't) \<Rightarrow> ('t, 's) host \<Rightarrow> ('t, 's) host" where
  "tc_ui_restore put_back h =
     (case ho_active h of
        None \<Rightarrow> h
      | Some (ui, saved) \<Rightarrow>
          h\<lparr>ho_display := tell [''0m'', ''?25h'', ''?1000l'', ''?1006l'', ''?1049l''] (ho_display h),
            ho_terminal := put_back saved (ho_terminal h), ho_active := None\<rparr>)"

text \<open>
  The window is \<open>i\<close>; \<open>memory\<close> and \<open>grids\<close> say whether it and its grids can be allocated, \<open>winsize\<close> is the
  size of the terminal if it is known. The result: the error, the window, and what is shared.
\<close>

definition tc_ui_create :: "('t \<Rightarrow> 's option \<times> 't) \<Rightarrow> ('s \<Rightarrow> 't \<Rightarrow> 't) \<Rightarrow> (int \<times> int) option \<Rightarrow> bool \<Rightarrow> bool \<Rightarrow> nat \<Rightarrow>
    int \<Rightarrow> int \<Rightarrow> bool \<Rightarrow> ('t, 's) host \<Rightarrow> int \<times> TcUi option \<times> ('t, 's) host" where
  "tc_ui_create setup put_back winsize memory grids i width height headless h =
     (let finish = (\<lambda>width height h.
        case tc_ui_resize_impl grids width height (fresh_ui headless) of
          (error, ui) \<Rightarrow> if error \<noteq> 0 then (error, None, tc_ui_restore put_back h) else (0, Some ui, h))
      in if \<not> memory then (8, None, h)
         else if headless then finish width height h
         else if ho_active h \<noteq> None then (1, None, h)
         else case setup (ho_terminal h) of
                (None, t) \<Rightarrow> (2, None, h\<lparr>ho_terminal := t\<rparr>)
              | (Some saved, t) \<Rightarrow>
                  let (width, height) = (case winsize of Some dims \<Rightarrow> dims | None \<Rightarrow> (width, height))
                  in finish width height
                       (h\<lparr>ho_terminal := t, ho_active := Some (i, saved), ho_cleanup := True,
                          ho_display := tell [''?1049h'', ''?25l'', ''?1000h'', ''?1006h''] (ho_display h)\<rparr>))"



section \<open>The calls in any order\<close>


definition fresh_host :: "'t \<Rightarrow> ('t, 's) host" where
  "fresh_host t = \<lparr>ho_terminal = t, ho_display = usual_display, ho_active = None, ho_cleanup = False\<rparr>"











text \<open>
  When \<open>tcsetattr\<close> fails, as it does when a signal interrupts it while it waits for the output, the window
  gives up the terminal all the same: its attributes stay as they are, and no later call tries again.
\<close>

lemma put_back_forgotten:
  assumes "ho_active h = Some (i, s)"
  shows "ho_terminal (tc_ui_restore (posix_put_back False) h) = ho_terminal h"
    and "tc_ui_restore put_back (tc_ui_restore (posix_put_back False) h) = tc_ui_restore (posix_put_back False) h"
  using assms by (simp_all add: tc_ui_restore_def posix_put_back_def)

definition cooked :: termios where
  "cooked = \<lparr>c_iflag = 0x500, c_oflag = 5, c_lflag = 0x8a3b, c_vmin = 1, c_vtime = 0\<rparr>"


text \<open>
  Claim C39. A window off the screen can take the terminal from another: when a window has the terminal and
  a window off the screen is created with a size that is refused, the error path restores the terminal of
  the first window, which no longer has it although it has not been destroyed.
\<close>

theorem headless_failure_takes_terminal:
  assumes "ho_active h = Some (i, s)" and "width < 1"
  shows "tc_ui_create setup put_back winsize True grids j width height True h = (3, None, tc_ui_restore put_back h)
     \<and> ho_active (tc_ui_restore put_back h) = None \<and> ho_terminal (tc_ui_restore put_back h) = put_back s (ho_terminal h)"
  using assms by (simp add: tc_ui_create_def tc_ui_resize_impl_def tc_ui_restore_def)

theorem headless_failure_takes_terminal_witness:
  "\<exists>h'. tc_ui_create (posix_setup True True True) (posix_put_back True) None True True 8 0 24 True
      ((fresh_host (raw_mode cooked))\<lparr>ho_active := Some (7, cooked)\<rparr>) = (3, None, h') \<and> ho_terminal h' = cooked"
  using headless_failure_takes_terminal [of "(fresh_host (raw_mode cooked))\<lparr>ho_active := Some (7, cooked)\<rparr>" 7 cooked 0
      "posix_setup True True True" "posix_put_back True" None True 8 24]
  by (simp add: posix_put_back_def)

end
