(* ===== verification/Strings.thy ===== *)
theory Strings
  imports Prelude
begin

text \<open>
  Strings of the standard library, \<open>runtime/library.c\<close>: C strings, copying and concatenating, searching,
  integers to and from text, reading a line, and quoting the arguments of a process on Windows. Proved:
  every \<open>int64_t\<close> is read back from its text, what a line is and that no store leaves its buffer, and that
  the quoted arguments come out of the command line as they went in.
\<close>

section \<open>Memory\<close>

text \<open>A C string is a block with a zero byte; its text ends before the first one.\<close>

definition c_text :: "byte list \<Rightarrow> byte list" where
  "c_text block = takeWhile (\<lambda>b. b \<noteq> 0) block"

definition tc_cstring :: "(nat \<Rightarrow> byte list option) \<Rightarrow> TinyString \<Rightarrow> byte list option" where
  "tc_cstring malloc s =
     (if ts_length s = size_max \<or> (ts_data s = None \<and> ts_length s \<noteq> 0) \<or> (ts_length s \<noteq> 0 \<and> 0 \<in> set (ts_bytes s)) then None
      else case malloc (ts_length s + 1) of
             None \<Rightarrow> None
           | Some p \<Rightarrow> Some ((blit 0 (ts_bytes s) p)[ts_length s := 0]))"

definition tc_string_copy :: "(nat \<Rightarrow> byte list option) \<Rightarrow> TinyString \<Rightarrow> TinyString" where
  "tc_string_copy malloc source =
     (if ts_length source = size_max then ts_null
      else case malloc (ts_length source + 1) of
             None \<Rightarrow> ts_null
           | Some p \<Rightarrow> \<lparr>ts_data = Some ((blit 0 (ts_bytes source) p)[ts_length source := 0]), ts_length = ts_length source\<rparr>)"

definition tc_string_concat :: "(nat \<Rightarrow> byte list option) \<Rightarrow> TinyString \<Rightarrow> TinyString \<Rightarrow> TinyString" where
  "tc_string_concat malloc a b =
     (if ts_length b \<ge> size_max - ts_length a then ts_null
      else case malloc (ts_length a + ts_length b + 1) of
             None \<Rightarrow> ts_null
           | Some p \<Rightarrow>
               let p = blit 0 (ts_bytes a) p;
                   p = blit (ts_length a) (ts_bytes b) p
               in \<lparr>ts_data = Some (p[ts_length a + ts_length b := 0]), ts_length = ts_length a + ts_length b\<rparr>)"

section \<open>Searching\<close>

text \<open>\<open>for (i = 0; i <= haystack.length - needle.length; i++)\<close>, with the number of rounds left.\<close>

fun string_find_loop :: "nat \<Rightarrow> byte list \<Rightarrow> byte list \<Rightarrow> nat \<Rightarrow> int" where
  "string_find_loop 0 haystack needle i = - 1"
| "string_find_loop (Suc rounds) haystack needle i =
     (if needle = [] \<or> take (length needle) (drop i haystack) = needle then int i
      else string_find_loop rounds haystack needle (i + 1))"

definition tc_string_find :: "TinyString \<Rightarrow> TinyString \<Rightarrow> int" where
  "tc_string_find haystack needle =
     (if ts_length needle > ts_length haystack then - 1
      else string_find_loop (ts_length haystack - ts_length needle + 1) (ts_bytes haystack) (ts_bytes needle) 0)"

definition tc_string_starts :: "TinyString \<Rightarrow> TinyString \<Rightarrow> bool" where
  "tc_string_starts text prefix \<longleftrightarrow> ts_length prefix \<le> ts_length text
     \<and> (ts_length prefix = 0 \<or> take (ts_length prefix) (ts_bytes text) = ts_bytes prefix)"

definition tc_string_ends :: "TinyString \<Rightarrow> TinyString \<Rightarrow> bool" where
  "tc_string_ends text suffix \<longleftrightarrow> ts_length suffix \<le> ts_length text
     \<and> (ts_length suffix = 0 \<or> take (ts_length suffix) (drop (ts_length text - ts_length suffix) (ts_bytes text)) = ts_bytes suffix)"

section \<open>Integers\<close>

text \<open>
  \<open>strtoll\<close> in base 10: blanks, a sign, digits. The value, clamped to the range of \<open>long long\<close>, whether it
  was out of range, and how many bytes have been read: 0 if there are no digits.
\<close>

definition blank :: "byte \<Rightarrow> bool" where
  "blank b \<longleftrightarrow> b = 32 \<or> (9 \<le> b \<and> b \<le> 13)"

definition decimal :: "byte \<Rightarrow> bool" where
  "decimal b \<longleftrightarrow> 48 \<le> b \<and> b \<le> 57"

definition digits_value :: "byte list \<Rightarrow> int" where
  "digits_value ds = foldl (\<lambda>n d. 10 * n + (uint d - 48)) 0 ds"

definition strtoll :: "byte list \<Rightarrow> int \<times> bool \<times> nat" where
  "strtoll s =
     (let spaces = takeWhile blank s; s1 = dropWhile blank s;
          sign = (if s1 \<noteq> [] \<and> (hd s1 = 45 \<or> hd s1 = 43) then [hd s1] else []); s2 = drop (length sign) s1;
          ds = takeWhile decimal s2;
          n = (if sign = [45] then - digits_value ds else digits_value ds)
      in if ds = [] then (0, False, 0)
         else (max (- (2 ^ 63)) (min (2 ^ 63 - 1) n), n < - (2 ^ 63) \<or> n > 2 ^ 63 - 1,
               length spaces + length sign + length ds))"

text \<open>The error and the value.\<close>

definition tc_parse_int :: "(nat \<Rightarrow> byte list option) \<Rightarrow> TinyString \<Rightarrow> int \<times> int" where
  "tc_parse_int malloc text =
     (case tc_cstring malloc text of
        None \<Rightarrow> (1, 0)
      | Some s \<Rightarrow>
          (case strtoll (c_text s) of
             (result, erange, e) \<Rightarrow>
               let error = (if erange then 2 else if e = 0 \<or> e < length (c_text s) then 1 else 0)
               in (error, if error \<noteq> 0 then 0 else result)))"

definition tc_format_int :: "(nat \<Rightarrow> byte list option) \<Rightarrow> int \<Rightarrow> TinyString" where
  "tc_format_int malloc val = tc_string_copy malloc (ts_of (to_bytes (show_int val)))"

section \<open>Reading a line\<close>

text \<open>
  The loop over \<open>fgetc\<close>: the bytes that are left on the input, the block, its capacity and how much of it is
  used. The result: the block, the length, whether the input ended, and what is left; or no memory.
\<close>

fun read_line_loop :: "(nat \<Rightarrow> byte list option) \<Rightarrow> byte list \<Rightarrow> byte list \<Rightarrow> nat \<Rightarrow> nat \<Rightarrow>
    (byte list \<times> nat \<times> bool) option \<times> byte list" where
  "read_line_loop malloc [] p len capacity = (Some (p, len, True), [])"
| "read_line_loop malloc (ch # inp) p len capacity =
     (if ch = 10 then (Some (p, len, False), inp)
      else if len + 1 = capacity then
        if capacity > size_max div 2 then (None, inp)
        else (case realloc malloc p (capacity * 2) of
                None \<Rightarrow> (None, inp)
              | Some q \<Rightarrow> read_line_loop malloc inp (q[len := ch]) (len + 1) (capacity * 2))
      else read_line_loop malloc inp (p[len := ch]) (len + 1) capacity)"

definition tc_read_line :: "(nat \<Rightarrow> byte list option) \<Rightarrow> byte list \<Rightarrow> TinyString \<times> byte list" where
  "tc_read_line malloc inp =
     (case malloc 128 of
        None \<Rightarrow> (ts_null, inp)
      | Some p \<Rightarrow>
          (case read_line_loop malloc inp p 0 128 of
             (None, rest) \<Rightarrow> (ts_null, rest)
           | (Some (p, len, eof), rest) \<Rightarrow>
               if eof \<and> len = 0 then (ts_null, rest)
               else let len = (if len \<noteq> 0 \<and> p ! (len - 1) = 13 then len - 1 else len)
                    in (\<lparr>ts_data = Some (p[len := 0]), ts_length = len\<rparr>, rest)))"

section \<open>Quoting for a command line on Windows\<close>

text \<open>The loop over one argument: the bytes that are appended, with the pending backslashes.\<close>

fun quote_loop :: "byte list \<Rightarrow> nat \<Rightarrow> byte list" where
  "quote_loop [] slashes = replicate (2 * slashes) 92"
| "quote_loop (b # s) slashes =
     (if b = 92 then quote_loop s (slashes + 1)
      else if b = 34 then replicate (2 * slashes) 92 @ [92, 34] @ quote_loop s 0
      else replicate slashes 92 @ [b] @ quote_loop s 0)"

text \<open>
  The buffer: block, length and capacity. \<open>None\<close> is a store outside the block, \<open>Some None\<close> no memory.
\<close>

definition tc_spawn_quote :: "(nat \<Rightarrow> byte list option) \<Rightarrow> byte list \<times> nat \<times> nat \<Rightarrow> byte list \<Rightarrow> (byte list \<times> nat \<times> nat) option option" where
  "tc_spawn_quote malloc out s =
     (case out of
        (p, len, capacity) \<Rightarrow>
          let need = len + 3 + 2 * length s + 1;
              target = (if need > capacity then double_until (if capacity \<noteq> 0 then capacity else 256) need else capacity)
          in case (if need > capacity then realloc malloc p target else Some p) of
               None \<Rightarrow> Some None
             | Some p \<Rightarrow>
                 let added = (if len \<noteq> 0 then [32] else []) @ [34] @ quote_loop s 0 @ [34]
                 in if len + length added + 1 \<le> length p
                    then Some (Some (blit len (added @ [0]) p, len + length added, target))
                    else None)"

text \<open>\<open>for (i = 0; i < count; i++) tc_spawn_quote(...)\<close>\<close>

fun quote_all :: "(nat \<Rightarrow> byte list option) \<Rightarrow> byte list list \<Rightarrow> byte list \<times> nat \<times> nat \<Rightarrow> (byte list \<times> nat \<times> nat) option option" where
  "quote_all malloc [] out = Some (Some out)"
| "quote_all malloc (s # args) out =
     (case tc_spawn_quote malloc out s of
        Some (Some out) \<Rightarrow> quote_all malloc args out
      | r \<Rightarrow> r)"

text \<open>
  The documented rules by which a Windows program splits its command line. The program's name is the first
  argument: quotes switch quoting and are left out, a blank outside quotes ends it, and backslashes
  stand for themselves.
\<close>

fun split_program :: "byte list \<Rightarrow> bool \<Rightarrow> byte list \<times> byte list" where
  "split_program [] quoted = ([], [])"
| "split_program (b # s) quoted =
     (if b = 34 then split_program s (\<not> quoted)
      else if (b = 32 \<or> b = 9) \<and> \<not> quoted then ([], s)
      else case split_program s quoted of (name, rest) \<Rightarrow> (b # name, rest))"

text \<open>
  The other arguments: blanks separate them unless quoted; \<open>2n\<close> backslashes and a quote are \<open>n\<close>
  backslashes and the quote switches quoting, but two quotes within quotes are one quote character;
  \<open>2n + 1\<close> backslashes and a quote are \<open>n\<close> backslashes and a quote character; other backslashes stand for
  themselves.
\<close>

function split_arguments :: "byte list \<Rightarrow> nat \<Rightarrow> bool \<Rightarrow> byte list option \<Rightarrow> byte list list" where
  "split_arguments [] slashes quoted current =
     (case current of
        None \<Rightarrow> if slashes = 0 then [] else [replicate slashes 92]
      | Some w \<Rightarrow> [w @ replicate slashes 92])"
| "split_arguments (b # s) slashes quoted current =
     (let w = (case current of None \<Rightarrow> [] | Some w \<Rightarrow> w)
      in if b = 92 then split_arguments s (slashes + 1) quoted current
         else if b = 34 then
           if odd slashes then split_arguments s 0 quoted (Some (w @ replicate (slashes div 2) 92 @ [34]))
           else if quoted \<and> take 1 s = [34] then split_arguments (drop 1 s) 0 quoted (Some (w @ replicate (slashes div 2) 92 @ [34]))
           else split_arguments s 0 (\<not> quoted) (Some (w @ replicate (slashes div 2) 92))
         else if (b = 32 \<or> b = 9) \<and> \<not> quoted then
           (case current of
              None \<Rightarrow> (if slashes = 0 then [] else [replicate slashes 92])
            | Some w \<Rightarrow> [w @ replicate slashes 92]) @ split_arguments s 0 quoted None
         else split_arguments s 0 quoted (Some (w @ replicate slashes 92 @ [b])))"
  by pat_completeness auto

termination by (relation "measure (\<lambda>(s, slashes, quoted, current). length s)") auto

definition windows_arguments :: "byte list \<Rightarrow> byte list list" where
  "windows_arguments line = (case split_program line False of (name, rest) \<Rightarrow> name # split_arguments rest 0 False None)"


section \<open>C strings, copies and searching\<close>

lemma c_text_terminated: "0 \<notin> set xs \<Longrightarrow> c_text (xs @ 0 # ys) = xs"
  unfolding c_text_def by (induction xs) auto

lemma terminate_block:
  assumes "length p = length xs + 1"
  shows "(blit 0 xs p)[length xs := 0] = xs @ [0]"
proof -
  have "length (drop (length xs) p) = Suc 0" using assms by simp
  then obtain b where "drop (length xs) p = [b]" unfolding length_Suc_conv by auto
  then show ?thesis by (simp add: blit_def list_update_append)
qed

lemma cstring_cases:
  assumes m: "malloc_ok malloc" and s: "ts_wf s"
  shows "tc_cstring malloc s = (if ts_length s = size_max \<or> 0 \<in> set (ts_bytes s) \<or> malloc (ts_length s + 1) = None then None
    else Some (ts_bytes s @ [0]))"
proof -
  have len: "length (ts_bytes s) = ts_length s" using s by simp
  have null: "ts_data s = None \<Longrightarrow> ts_length s = 0" using s by (simp add: ts_wf_def)
  have z: "(ts_length s \<noteq> 0 \<and> 0 \<in> set (ts_bytes s)) = (0 \<in> set (ts_bytes s))" using len by (cases "ts_bytes s") auto
  have "(blit 0 (ts_bytes s) p)[ts_length s := 0] = ts_bytes s @ [0]" if "malloc (ts_length s + 1) = Some p" for p
    using terminate_block [of p "ts_bytes s"] malloc_okD [OF m that] len by simp
  then show ?thesis unfolding tc_cstring_def z using null by (auto split: option.splits)
qed

lemma string_copy_cases:
  assumes m: "malloc_ok malloc" and s: "ts_wf s"
  shows "tc_string_copy malloc s = (if ts_length s = size_max \<or> malloc (ts_length s + 1) = None then ts_null
    else \<lparr>ts_data = Some (ts_bytes s @ [0]), ts_length = ts_length s\<rparr>)"
proof -
  have len: "length (ts_bytes s) = ts_length s" using s by simp
  have "(blit 0 (ts_bytes s) p)[ts_length s := 0] = ts_bytes s @ [0]" if "malloc (ts_length s + 1) = Some p" for p
    using terminate_block [of p "ts_bytes s"] malloc_okD [OF m that] len by simp
  then show ?thesis by (auto simp: tc_string_copy_def split: option.splits)
qed

lemma string_concat_cases:
  assumes m: "malloc_ok malloc" and s: "ts_wf a" "ts_wf b"
  shows "tc_string_concat malloc a b = (if ts_length b \<ge> size_max - ts_length a \<or> malloc (ts_length a + ts_length b + 1) = None then ts_null
    else \<lparr>ts_data = Some (ts_bytes a @ ts_bytes b @ [0]), ts_length = ts_length a + ts_length b\<rparr>)"
proof -
  have len: "length (ts_bytes a) = ts_length a" "length (ts_bytes b) = ts_length b" using s by simp_all
  have "(blit (ts_length a) (ts_bytes b) (blit 0 (ts_bytes a) p))[ts_length a + ts_length b := 0] = ts_bytes a @ ts_bytes b @ [0]"
    if "malloc (ts_length a + ts_length b + 1) = Some p" for p
  proof -
    have "blit (ts_length a) (ts_bytes b) (blit 0 (ts_bytes a) p) = blit 0 (ts_bytes a @ ts_bytes b) p"
      using len by (simp add: blit_def add.commute)
    then show ?thesis using terminate_block [of p "ts_bytes a @ ts_bytes b"] malloc_okD [OF m that] len by simp
  qed
  then show ?thesis by (auto simp: tc_string_concat_def Let_def split: option.splits)
qed

lemma find_loop_least:
  "string_find_loop rounds xs ys i =
     (case find (\<lambda>k. occurs_at xs ys k) [i..<i + rounds] of None \<Rightarrow> - 1 | Some k \<Rightarrow> int k)"
  if "i + rounds + length ys \<le> length xs + 1"
  using that
proof (induction rounds arbitrary: i)
  case (Suc rounds)
  have here: "(ys = [] \<or> take (length ys) (drop i xs) = ys) \<longleftrightarrow> occurs_at xs ys i"
    using Suc.prems by (auto simp: occurs_at_def)
  show ?case using Suc.IH [of "i + 1"] Suc.prems by (simp add: here upt_conv_Cons del: upt_Suc)
qed simp

text \<open>
  Searching: the first position at which the needle occurs, or -1; \<open>starts\<close> and \<open>ends\<close> ask about the
  first and the last position.
\<close>

lemma string_find_least:
  assumes "ts_wf text" "ts_wf needle"
  shows "tc_string_find text needle =
     (if \<exists>i. occurs_at (ts_bytes text) (ts_bytes needle) i
      then int (LEAST i. occurs_at (ts_bytes text) (ts_bytes needle) i) else - 1)"
proof (cases "ts_length needle > ts_length text")
  case True
  then show ?thesis using assms by (auto simp: tc_string_find_def occurs_at_def)
next
  case False
  let ?P = "occurs_at (ts_bytes text) (ts_bytes needle)"
  have "tc_string_find text needle = (case find ?P [0..<ts_length text - ts_length needle + 1] of None \<Rightarrow> - 1 | Some k \<Rightarrow> int k)"
    using False assms find_loop_least [of 0 "ts_length text - ts_length needle + 1" "ts_bytes needle" "ts_bytes text"]
    by (simp add: tc_string_find_def del: upt_Suc)
  also have "\<dots> = (if \<exists>i. 0 \<le> i \<and> ?P i then int (LEAST i. 0 \<le> i \<and> ?P i) else - 1)"
    by (rule find_upt_Least) (use assms in \<open>auto simp: occurs_at_def\<close>)
  finally show ?thesis by simp
qed

section \<open>Integers and their text\<close>

lemma to_bytes_digit: "n < 10 \<Longrightarrow> to_bytes [digit n] = [of_nat (48 + n)]"
  by (simp add: to_bytes_def digit_def)

lemma unat_digit: "n < 10 \<Longrightarrow> unat (of_nat (48 + n) :: byte) = 48 + n"
  by (simp only: unat_of_nat take_bit_eq_mod) simp

lemma decimal_digit: "n < 10 \<Longrightarrow> decimal (of_nat (48 + n))"
  unfolding decimal_def word_le_nat_alt unat_digit by simp

lemma uint_digit: "n < 10 \<Longrightarrow> uint (of_nat (48 + n) :: byte) = int (48 + n)"
  unfolding uint_nat unat_digit by simp

lemma digits_append: "digits_value (xs @ [d]) = 10 * digits_value xs + (uint d - 48)"
  by (simp add: digits_value_def)

lemma show_nat_text:
  "to_bytes (show_nat n) \<noteq> [] \<and> list_all decimal (to_bytes (show_nat n)) \<and> digits_value (to_bytes (show_nat n)) = int n"
proof (induction n rule: show_nat.induct)
  case (1 n)
  show ?case
  proof (cases "n < 10")
    case True
    then show ?thesis using to_bytes_digit [OF True] decimal_digit [OF True] uint_digit [OF True]
      by (simp add: show_nat.simps [of n] digits_value_def)
  next
    case False
    have d: "n mod 10 < 10" by simp
    have split: "to_bytes (show_nat n) = to_bytes (show_nat (n div 10)) @ [of_nat (48 + n mod 10)]"
      using False to_bytes_digit [OF d] by (simp add: show_nat.simps [of n] to_bytes_def)
    have "10 * int (n div 10) + int (n mod 10) = int n" by presburger
    then show ?thesis using 1 [OF False] decimal_digit [OF d] uint_digit [OF d] unfolding split digits_append by simp
  qed
qed

lemma decimal_classes: "decimal b \<Longrightarrow> \<not> blank b \<and> b \<noteq> 45 \<and> b \<noteq> 43"
  by (auto simp: decimal_def blank_def word_le_nat_alt)

lemma takeWhile_prefix: "list_all P xs \<Longrightarrow> (ys = [] \<or> \<not> P (hd ys)) \<Longrightarrow> takeWhile P (xs @ ys) = xs \<and> dropWhile P (xs @ ys) = ys"
  by (induction xs) (cases ys; simp)+

text \<open>A number as \<open>strtoll\<close> reads it: blanks, a sign and digits.\<close>

definition int_text :: "byte list \<Rightarrow> int \<Rightarrow> bool" where
  "int_text xs v \<longleftrightarrow> (\<exists>spaces sign ds. xs = spaces @ sign @ ds \<and> list_all blank spaces \<and> sign \<in> {[], [45], [43]} \<and> ds \<noteq> []
     \<and> list_all decimal ds \<and> v = (if sign = [45] then - digits_value ds else digits_value ds))"

lemma strtoll_parts:
  assumes "takeWhile blank xs = spaces" "dropWhile blank xs = s1"
    and "(if s1 \<noteq> [] \<and> (hd s1 = 45 \<or> hd s1 = 43) then [hd s1] else []) = sign"
    and "takeWhile decimal (drop (length sign) s1) = ds" and "(if sign = [45] then - digits_value ds else digits_value ds) = v"
  shows "strtoll xs = (if ds = [] then (0, False, 0)
    else (max (- (2 ^ 63)) (min (2 ^ 63 - 1) v), v < - (2 ^ 63) \<or> v > 2 ^ 63 - 1, length spaces + length sign + length ds))"
  unfolding strtoll_def Let_def assms by (rule refl)

lemma strtoll_reads:
  assumes "list_all blank spaces" "sign \<in> {[], [45], [43]}" "ds \<noteq> []" "list_all decimal ds"
    and "v = (if sign = [45] then - digits_value ds else digits_value ds)"
  shows "strtoll (spaces @ sign @ ds) = (max (- (2 ^ 63)) (min (2 ^ 63 - 1) v), v < - (2 ^ 63) \<or> v > 2 ^ 63 - 1,
    length (spaces @ sign @ ds))"
proof -
  have d: "decimal (hd ds)" using assms(3,4) by (cases ds) auto
  have b: "\<not> blank 45" "\<not> blank 43" by (simp_all add: blank_def)
  have sp: "takeWhile blank (spaces @ sign @ ds) = spaces" "dropWhile blank (spaces @ sign @ ds) = sign @ ds"
    using takeWhile_prefix [OF assms(1), of "sign @ ds"] assms(2) decimal_classes [OF d] b by auto
  have sg: "(if sign @ ds \<noteq> [] \<and> (hd (sign @ ds) = 45 \<or> hd (sign @ ds) = 43) then [hd (sign @ ds)] else []) = sign"
    using assms(2,3) decimal_classes [OF d] by auto
  have ds: "takeWhile decimal (drop (length sign) (sign @ ds)) = ds" using assms(4) by (simp add: list_all_iff takeWhile_eq_all_conv)
  show ?thesis using assms(3) by (simp add: strtoll_parts [OF sp sg ds assms(5) [symmetric]])
qed

lemma strtoll_shape:
  obtains spaces sign ds rest v where "xs = spaces @ sign @ ds @ rest" "list_all blank spaces" "sign \<in> {[], [45], [43]}"
    "list_all decimal ds" "v = (if sign = [45] then - digits_value ds else digits_value ds)"
    "strtoll xs = (if ds = [] then (0, False, 0)
         else (max (- (2 ^ 63)) (min (2 ^ 63 - 1) v), v < - (2 ^ 63) \<or> v > 2 ^ 63 - 1,
               length spaces + length sign + length ds))"
proof -
  define spaces where "spaces = takeWhile blank xs"
  define s1 where "s1 = dropWhile blank xs"
  define sign where "sign = (if s1 \<noteq> [] \<and> (hd s1 = 45 \<or> hd s1 = 43) then [hd s1] else [])"
  define s2 where "s2 = drop (length sign) s1"
  define ds where "ds = takeWhile decimal s2"
  define v where "v = (if sign = [45] then - digits_value ds else digits_value ds)"
  have st: "strtoll xs = (if ds = [] then (0, False, 0)
         else (max (- (2 ^ 63)) (min (2 ^ 63 - 1) v), v < - (2 ^ 63) \<or> v > 2 ^ 63 - 1,
               length spaces + length sign + length ds))"
    unfolding spaces_def s1_def sign_def s2_def ds_def v_def by (rule strtoll_parts) (rule refl)+
  have s1: "s1 = sign @ s2" by (cases s1) (auto simp: sign_def s2_def)
  obtain rest where s2: "s2 = ds @ rest" unfolding ds_def by (metis takeWhile_dropWhile_id)
  have "xs = spaces @ s1" by (simp add: spaces_def s1_def)
  then have "xs = spaces @ sign @ ds @ rest" using s1 s2 by simp
  moreover have "list_all blank spaces" "list_all decimal ds" unfolding spaces_def ds_def by (auto simp: list_all_iff dest: set_takeWhileD)
  moreover have "sign \<in> {[], [45], [43]}" by (auto simp: sign_def)
  ultimately show ?thesis using that st v_def by blast
qed

lemma strtoll_inverse:
  assumes "strtoll xs = (r, False, e)" "e \<noteq> 0" "e = length xs"
  shows "int_text xs r \<and> - (2 ^ 63) \<le> r \<and> r \<le> 2 ^ 63 - 1"
proof -
  obtain spaces sign ds rest v where s: "xs = spaces @ sign @ ds @ rest" "list_all blank spaces" "sign \<in> {[], [45], [43]}"
    "list_all decimal ds" "v = (if sign = [45] then - digits_value ds else digits_value ds)"
    "strtoll xs = (if ds = [] then (0, False, 0)
         else (max (- (2 ^ 63)) (min (2 ^ 63 - 1) v), v < - (2 ^ 63) \<or> v > 2 ^ 63 - 1,
               length spaces + length sign + length ds))"
    by (rule strtoll_shape)
  have ne: "ds \<noteq> []" using assms(1,2) s(6) by auto
  then have r: "\<not> (v < - (2 ^ 63) \<or> v > 2 ^ 63 - 1)" "r = max (- (2 ^ 63)) (min (2 ^ 63 - 1) v)" "e = length spaces + length sign + length ds"
    using assms(1) s(6) by auto
  then have "rest = []" using assms(3) s(1) by simp
  then have "int_text xs v" unfolding int_text_def using s ne by blast
  then show ?thesis using r by simp
qed

lemma strtoll_length: "strtoll xs = (r, b, e) \<Longrightarrow> e \<le> length xs"
  by (rule strtoll_shape [of xs]) (auto split: if_splits)

lemma parse_int_text:
  assumes "malloc_ok malloc" "ts_wf s" "malloc (ts_length s + 1) \<noteq> None" "ts_length s \<noteq> size_max"
  shows "tc_parse_int malloc s = (if 0 \<in> set (ts_bytes s) then (1, 0)
     else case strtoll (ts_bytes s) of (result, erange, e) \<Rightarrow>
       let error = (if erange then 2 else if e = 0 \<or> e < length (ts_bytes s) then 1 else 0) in (error, if error \<noteq> 0 then 0 else result))"
proof (cases "0 \<in> set (ts_bytes s)")
  case True
  then show ?thesis using cstring_cases [OF assms(1,2)] by (simp add: tc_parse_int_def)
next
  case False
  then have "tc_cstring malloc s = Some (ts_bytes s @ [0])" "c_text (ts_bytes s @ [0]) = ts_bytes s"
    using cstring_cases [OF assms(1,2)] assms(3,4) c_text_terminated [of "ts_bytes s" "[]"] by simp_all
  then show ?thesis using False by (simp add: tc_parse_int_def split: prod.split)
qed

lemma int_text_no_zero: "int_text xs v \<Longrightarrow> 0 \<notin> set xs"
proof -
  have "\<not> blank 0" "\<not> decimal 0" by (simp_all add: blank_def decimal_def word_le_nat_alt)
  then show "int_text xs v \<Longrightarrow> 0 \<notin> set xs" unfolding int_text_def list_all_iff by auto
qed

text \<open>
  Parsing an integer accepts exactly the texts of an integer: with memory, \<open>tc_parse_int\<close> reports
  no error and the value \<open>v\<close> if and only if the text is blanks, an optional sign and decimal digits of
  value \<open>v\<close> and \<open>v\<close> fits 64 bits; a text of that form that does not fit is error 2, every other text error 1.
\<close>

theorem parse_int_exact:
  assumes "malloc_ok malloc" and "ts_wf s" and "malloc (ts_length s + 1) \<noteq> None" and "ts_length s \<noteq> size_max"
  shows "(tc_parse_int malloc s = (0, v) \<longleftrightarrow> int_text (ts_bytes s) v \<and> - (2 ^ 63) \<le> v \<and> v < 2 ^ 63)
     \<and> (int_text (ts_bytes s) v \<longrightarrow> \<not> (- (2 ^ 63) \<le> v \<and> v < 2 ^ 63) \<longrightarrow> tc_parse_int malloc s = (2, 0))"
proof -
  note p = parse_int_text [OF assms]
  let ?lo = "- (2 ^ 63) :: int" and ?hi = "2 ^ 63 - 1 :: int"
  have read: "strtoll (ts_bytes s) = (max ?lo (min ?hi v), v < ?lo \<or> v > ?hi, length (ts_bytes s))" "ts_bytes s \<noteq> []"
    if t: "int_text (ts_bytes s) v"
  proof -
    obtain spaces sign ds where d: "ts_bytes s = spaces @ sign @ ds" "list_all blank spaces" "sign \<in> {[], [45], [43]}" "ds \<noteq> []"
        "list_all decimal ds" "v = (if sign = [45] then - digits_value ds else digits_value ds)"
      using t unfolding int_text_def by blast
    show "strtoll (ts_bytes s) = (max ?lo (min ?hi v), v < ?lo \<or> v > ?hi, length (ts_bytes s))"
      unfolding d(1) by (rule strtoll_reads [OF d(2-6)])
    show "ts_bytes s \<noteq> []" using d(1,4) by simp
  qed
  have accepted: "int_text (ts_bytes s) v \<and> - (2 ^ 63) \<le> v \<and> v < 2 ^ 63" if z: "tc_parse_int malloc s = (0, v)"
  proof -
    obtain r b e where st: "strtoll (ts_bytes s) = (r, b, e)" by (cases "strtoll (ts_bytes s)") auto
    have "\<not> b" "e \<noteq> 0" "\<not> e < length (ts_bytes s)" "r = v"
      using z unfolding p st by (auto simp: Let_def split: if_splits)
    then show ?thesis using strtoll_inverse [of "ts_bytes s" v e] st strtoll_length [OF st] by simp
  qed
  have forth: "tc_parse_int malloc s = (if - (2 ^ 63) \<le> v \<and> v < 2 ^ 63 then (0, v) else (2, 0))" if t: "int_text (ts_bytes s) v"
    unfolding p read(1) [OF t] using int_text_no_zero [OF t] read(2) [OF t] by (simp add: Let_def)
  show ?thesis
  proof (intro conjI iffI impI)
    assume "int_text (ts_bytes s) v \<and> - (2 ^ 63) \<le> v \<and> v < 2 ^ 63"
    then show "tc_parse_int malloc s = (0, v)" using forth by (simp only: simp_thms if_True)
  next
    assume "int_text (ts_bytes s) v" "\<not> (- (2 ^ 63) \<le> v \<and> v < 2 ^ 63)"
    then show "tc_parse_int malloc s = (2, 0)" using forth by (simp only: if_False)
  qed (use accepted in blast)+
qed

lemma show_nat_length: "n < 10 ^ Suc k \<Longrightarrow> length (show_nat n) \<le> Suc k"
proof (induction k arbitrary: n)
  case 0
  then show ?case by (simp add: show_nat.simps [of n])
next
  case (Suc k)
  have "n div 10 < 10 ^ Suc k" using Suc.prems by (simp add: less_mult_imp_div_less mult.commute)
  then show ?case using Suc.IH [of "n div 10"] by (simp add: show_nat.simps [of n])
qed

lemma show_int_length: "- (2 ^ 63) \<le> v \<Longrightarrow> v < 2 ^ 63 \<Longrightarrow> length (show_int v) < 32"
proof -
  assume v: "- (2 ^ 63) \<le> v" "v < 2 ^ 63"
  have "nat v < 10 ^ Suc 19" "nat (- v) < 10 ^ Suc 19" using v by simp_all
  then have "length (show_nat (nat v)) \<le> 20" "length (show_nat (nat (- v))) \<le> 20"
    using show_nat_length [of "nat v" 19] show_nat_length [of "nat (- v)" 19] by simp_all
  then show ?thesis by (simp add: show_int_def)
qed

text \<open>
  Claim C37. Formatting and parsing: every 64-bit integer is read back, without error, from the text into
  which it is formatted.
\<close>

theorem format_parse_int:
  assumes "malloc_ok malloc" and "\<forall>n. malloc n \<noteq> None" and "- (2 ^ 63) \<le> v" and "v < 2 ^ 63"
  shows "tc_parse_int malloc (tc_format_int malloc v) = (0, v) \<and> ts_length (tc_format_int malloc v) < 32"
proof -
  let ?t = "to_bytes (show_int v)"
  note m = assms(1) and total = assms(2)
  note nat_text = show_nat_text
  have it: "int_text ?t v"
  proof (cases "v < 0")
    case True
    have "?t = [] @ [45] @ to_bytes (show_nat (nat (- v)))" using True by (simp add: show_int_def to_bytes_def)
    moreover have "v = - digits_value (to_bytes (show_nat (nat (- v))))" using nat_text [of "nat (- v)"] True by simp
    ultimately show ?thesis unfolding int_text_def using nat_text [of "nat (- v)"]
      by (intro exI [of _ "[]"] exI [of _ "[45]"] exI [of _ "to_bytes (show_nat (nat (- v)))"]) simp
  next
    case False
    then have "v = digits_value (to_bytes (show_nat (nat v)))" using nat_text [of "nat v"] by simp
    then show ?thesis unfolding int_text_def using nat_text [of "nat v"] False
      by (intro exI [of _ "[]"] exI [of _ "[]"] exI [of _ "to_bytes (show_nat (nat v))"]) (simp add: show_int_def)
  qed
  have short: "length ?t < 32" using show_int_length [OF assms(3,4)] by (simp add: to_bytes_def)
  have f: "tc_format_int malloc v = \<lparr>ts_data = Some (?t @ [0]), ts_length = length ?t\<rparr>"
    using string_copy_cases [OF m ts_wf_of, of ?t] total short by (simp add: tc_format_int_def size_max_def)
  have "ts_wf (tc_format_int malloc v)" "ts_bytes (tc_format_int malloc v) = ?t" "ts_length (tc_format_int malloc v) < 32"
    using short by (simp_all add: f ts_wf_def ts_bytes_def)
  then show ?thesis
    using parse_int_exact [OF m, of "tc_format_int malloc v" v] total it assms(3,4) by (simp add: size_max_def)
qed


section \<open>Lines\<close>

text \<open>The line at the start of the input, and what is left behind it.\<close>

definition first_line :: "byte list \<Rightarrow> byte list" where
  "first_line inp = takeWhile (\<lambda>b. b \<noteq> 10) inp"

lemma first_line_Cons: "first_line (b # inp) = (if b = 10 then [] else b # first_line inp)"
  by (simp add: first_line_def)

lemma read_line_loop_reads:
  assumes m: "malloc_ok malloc" "\<forall>n. malloc n \<noteq> None"
  shows "length p = capacity \<Longrightarrow> len < capacity \<Longrightarrow> capacity \<le> 2 * len + 128 \<Longrightarrow> len + length inp < 2 ^ 61 \<Longrightarrow>
    \<exists>q. read_line_loop malloc inp p len capacity = (Some (q, len + length (first_line inp), 10 \<notin> set inp), drop (Suc (length (first_line inp))) inp)
      \<and> len + length (first_line inp) < length q \<and> take (len + length (first_line inp)) q = take len p @ first_line inp"
proof (induction inp arbitrary: p len capacity)
  case Nil
  then show ?case by (simp add: first_line_def)
next
  case (Cons ch inp)
  show ?case
  proof (cases "ch = 10")
    case True
    then show ?thesis using Cons.prems by (simp add: first_line_def)
  next
    case other: False
    have step: ?thesis
      if next_loop: "read_line_loop malloc (ch # inp) p len capacity = read_line_loop malloc inp (q[len := ch]) (len + 1) (length q)"
        and q: "len + 1 < length q" "length q \<le> 2 * (len + 1) + 128" "take len q = take len p" for q
    proof -
      have "take (len + 1) (q[len := ch]) = take len p @ [ch]"
        using q(1,3) by (simp add: take_Suc_conv_app_nth)
      moreover have "\<exists>q'. read_line_loop malloc inp (q[len := ch]) (len + 1) (length q)
          = (Some (q', len + 1 + length (first_line inp), 10 \<notin> set inp), drop (Suc (length (first_line inp))) inp)
        \<and> len + 1 + length (first_line inp) < length q'
        \<and> take (len + 1 + length (first_line inp)) q' = take (len + 1) (q[len := ch]) @ first_line inp"
        by (rule Cons.IH) (use q Cons.prems(4) in simp_all)
      ultimately show ?thesis unfolding next_loop using other by (simp add: first_line_Cons)
    qed
    show ?thesis
    proof (cases "len + 1 = capacity")
      case True
      have "\<not> capacity > size_max div 2" using Cons.prems(3,4) by (simp add: size_max_def)
      moreover obtain b where b: "malloc (capacity * 2) = Some b" using m(2) by blast
      moreover obtain q where r: "realloc malloc p (capacity * 2) = Some q" using b by (simp add: realloc_def)
      moreover have q: "length q = capacity * 2" "take len q = take len p"
        using realloc_Some [OF m(1) r] Cons.prems(1,2) by simp_all
      ultimately have "read_line_loop malloc (ch # inp) p len capacity = read_line_loop malloc inp (q[len := ch]) (len + 1) (length q)"
        using other True by simp
      then show ?thesis by (rule step) (use q True in simp_all)
    next
      case False
      then have "read_line_loop malloc (ch # inp) p len capacity = read_line_loop malloc inp (p[len := ch]) (len + 1) (length p)"
        using other Cons.prems(1) by simp
      then show ?thesis by (rule step) (use False Cons.prems in simp_all)
    qed
  qed
qed

text \<open>
  Reading a line: with memory, \<open>tc_read_line\<close> returns the bytes before the first newline, without
  a carriage return at their end, and leaves the input behind the newline; the null string means that
  the input has ended, and an empty line is not the null string. The buffer grows so that the byte and
  the final zero always fit.
\<close>

theorem read_line_exact:
  assumes "malloc_ok malloc" and "\<forall>n. malloc n \<noteq> None" and "length inp < 2 ^ 61"
  shows "\<exists>s. tc_read_line malloc inp = (s, drop (Suc (length (first_line inp))) inp) \<and> ts_wf s
     \<and> (ts_data s = None \<longleftrightarrow> inp = [])
     \<and> ts_bytes s = (if first_line inp \<noteq> [] \<and> last (first_line inp) = 13 then butlast (first_line inp) else first_line inp)"
proof -
  let ?l = "first_line inp"
  obtain p where p: "malloc 128 = Some p" "length p = 128" using assms(2) malloc_okD [OF assms(1)] by blast
  obtain q where q: "read_line_loop malloc inp p 0 128 = (Some (q, length ?l, 10 \<notin> set inp), drop (Suc (length ?l)) inp)"
      "length ?l < length q" "take (length ?l) q = ?l"
    using read_line_loop_reads [OF assms(1,2) p(2), of 0 inp] assms(3) by auto
  show ?thesis
  proof (cases "inp = []")
    case True
    then show ?thesis using p q by (simp add: tc_read_line_def first_line_def ts_wf_def ts_null_def ts_bytes_def)
  next
    case False
    have go: "\<not> (10 \<notin> set inp \<and> length ?l = 0)"
    proof
      assume a: "10 \<notin> set inp \<and> length ?l = 0"
      then have "?l = inp" unfolding first_line_def takeWhile_eq_all_conv by blast
      then show False using a False by simp
    qed
    define n where "n = (if length ?l \<noteq> 0 \<and> q ! (length ?l - 1) = 13 then length ?l - 1 else length ?l)"
    have last: "q ! (length ?l - 1) = last ?l" if "?l \<noteq> []"
      using that q(2,3) by (metis One_nat_def diff_less last_conv_nth length_greater_0_conv lessI nth_take)
    have n: "n \<le> length ?l" "n < length q" using q(2) by (auto simp: n_def)
    have "tc_read_line malloc inp = (\<lparr>ts_data = Some (q[n := 0]), ts_length = n\<rparr>, drop (Suc (length ?l)) inp)"
      using p q(1) go by (auto simp: tc_read_line_def n_def Let_def)
    moreover have "take n (q[n := 0]) = take n ?l" using n q(3) by (metis min.absorb1 take_take take_update_cancel le_refl)
    moreover have "take n ?l = (if ?l \<noteq> [] \<and> last ?l = 13 then butlast ?l else ?l)"
      using last by (auto simp: n_def butlast_conv_take)
    ultimately show ?thesis using n False by (simp add: ts_wf_def ts_bytes_def)
  qed
qed

section \<open>Command lines\<close>

lemma split_slashes: "split_arguments (replicate m 92 @ s) n quoted current = split_arguments s (n + m) quoted current"
  by (induction m arbitrary: n) simp_all

lemma split_quoted:
  assumes "take 1 line \<noteq> [34]"
  shows "split_arguments (quote_loop s k @ 34 # line) 0 True (Some w) = split_arguments line 0 False (Some (w @ replicate k 92 @ s))"
proof (induction s arbitrary: k w)
  case Nil
  then show ?case using assms by (simp add: split_slashes)
next
  case (Cons b s)
  consider "b = 92" | "b = 34" | "b \<noteq> 92" "b \<noteq> 34" by blast
  then show ?case
  proof cases
    case 1
    have "replicate (k + 1) 92 @ s = replicate k (92 :: byte) @ 92 # s" by (simp add: replicate_app_Cons_same)
    then show ?thesis using 1 Cons.IH [of "k + 1" w] by simp
  next
    case 2
    have "split_arguments (quote_loop (b # s) k @ 34 # line) 0 True (Some w)
        = split_arguments (92 # 34 # quote_loop s 0 @ 34 # line) (2 * k) True (Some w)"
      using 2 split_slashes [of "2 * k" "92 # 34 # quote_loop s 0 @ 34 # line" 0 True "Some w"] by simp
    then show ?thesis using 2 Cons.IH [of 0 "w @ replicate k 92 @ [34]"] by simp
  next
    case 3
    have "split_arguments (quote_loop (b # s) k @ 34 # line) 0 True (Some w)
        = split_arguments (b # quote_loop s 0 @ 34 # line) k True (Some w)"
      using 3 split_slashes [of k "b # quote_loop s 0 @ 34 # line" 0 True "Some w"] by simp
    then show ?thesis using 3 Cons.IH [of 0 "w @ replicate k 92 @ [b]"] by simp
  qed
qed

definition quoted_word :: "byte list \<Rightarrow> byte list" where
  "quoted_word s = 34 # quote_loop s 0 @ [34]"

fun quoted_words :: "byte list list \<Rightarrow> byte list" where
  "quoted_words [] = []"
| "quoted_words (s # args) = 32 # quoted_word s @ quoted_words args"

text \<open>A word between quotes starts with a quote that switches quoting on, as nothing was quoted before.\<close>

lemma split_words:
  "split_arguments (quoted_words args) 0 False (Some w) = w # args"
  "split_arguments (tl (quoted_words args)) 0 False None = args"
proof -
  have next_word: "take 1 (quoted_words args) \<noteq> [34]" for args by (cases args) simp_all
  show words: "split_arguments (quoted_words args) 0 False (Some w) = w # args" for w
  proof (induction args arbitrary: w)
    case (Cons s args)
    then show ?case using split_quoted [OF next_word, of s 0 args "[]"] by (simp add: quoted_word_def)
  qed simp
  show "split_arguments (tl (quoted_words args)) 0 False None = args"
  proof (cases args)
    case (Cons s rest)
    have "split_arguments (quoted_words rest) 0 False (Some s) = s # rest"
      using words [of s] Cons split_quoted [OF next_word, of s 0 rest "[]"]
      by (cases "split_arguments (quoted_words rest) 0 False (Some s)") (simp_all add: quoted_word_def)
    then show ?thesis using Cons split_quoted [OF next_word, of s 0 rest "[]"] by (simp add: quoted_word_def)
  qed simp
qed

text \<open>A name with nothing to escape is what it is between its quotes.\<close>

definition program_name :: "byte list \<Rightarrow> bool" where
  "program_name s \<longleftrightarrow> 34 \<notin> set s \<and> (s = [] \<or> last s \<noteq> 92)"

lemma quote_plain: "34 \<notin> set s \<Longrightarrow> s \<noteq> [] \<Longrightarrow> last s \<noteq> 92 \<Longrightarrow> quote_loop s k = replicate k 92 @ s"
proof (induction s arbitrary: k)
  case (Cons b s)
  show ?case
  proof (cases "s = []")
    case False
    then have ih: "quote_loop s k = replicate k 92 @ s" for k using Cons by simp
    show ?thesis using ih [of "k + 1"] ih [of 0] Cons.prems(1) by (cases "b = 92") (simp_all add: replicate_app_Cons_same)
  qed (use Cons.prems in simp)
qed simp

lemma split_name: "34 \<notin> set s \<Longrightarrow> split_program (s @ 34 # rest) True = (case split_program rest False of (name, rest) \<Rightarrow> (s @ name, rest))"
  by (induction s) (auto split: prod.split)

lemma windows_arguments_words:
  assumes "program_name s"
  shows "windows_arguments (quoted_word s @ quoted_words args) = s # args"
proof -
  have q: "quoted_word s = 34 # s @ [34]"
    using assms quote_plain [of s 0] by (cases "s = []") (simp_all add: program_name_def quoted_word_def)
  have "split_program (quoted_words args) False = ([], tl (quoted_words args))" by (cases args) simp_all
  then show ?thesis using split_name [of s "quoted_words args"] assms split_words(2) [of args]
    by (simp add: windows_arguments_def q program_name_def)
qed

text \<open>
  The program quotes its first argument like the others, with backslashes, which Windows does not undo there: a
  name that ends in a backslash comes back with two.
\<close>

lemma first_argument_escaped: "windows_arguments (quoted_word [92]) = [[92, 92]]"
  by code_simp

lemma quote_loop_length: "length (quote_loop s k) \<le> 2 * (k + length s)"
  by (induction s k rule: quote_loop.induct) auto

text \<open>The buffer between two arguments.\<close>

definition quote_ok :: "byte list \<times> nat \<times> nat \<Rightarrow> byte list \<Rightarrow> bool" where
  "quote_ok out line \<longleftrightarrow> (case out of (p, len, capacity) \<Rightarrow> length p = capacity \<and> len = length line \<and> take len p = line
     \<and> (line \<noteq> [] \<longrightarrow> len < length p \<and> p ! len = 0))"

lemma spawn_quote_step:
  assumes m: "malloc_ok malloc" and ok: "quote_ok out line"
  shows "tc_spawn_quote malloc out s = Some None
    \<or> (\<exists>out'. tc_spawn_quote malloc out s = Some (Some out') \<and> quote_ok out' (line @ (if line \<noteq> [] then [32] else []) @ quoted_word s))"
proof -
  obtain p len capacity where out: "out = (p, len, capacity)" by (cases out)
  have p: "length p = capacity" "len = length line" "take len p = line" "len \<le> capacity"
    using ok out by (auto simp: quote_ok_def dest: arg_cong [of _ _ length])
  define need where "need = len + 3 + 2 * length s + 1"
  define target where "target = (if need > capacity then double_until (if capacity \<noteq> 0 then capacity else 256) need else capacity)"
  define added where "added = (if len \<noteq> 0 then [32] else []) @ [34] @ quote_loop s 0 @ [34]"
  have fits: "need \<le> target" using double_until_ge [of "if capacity \<noteq> 0 then capacity else 256" need] by (auto simp: target_def)
  have added: "len + length added + 1 \<le> need" using quote_loop_length [of s 0] by (simp add: added_def need_def)
  have q: "tc_spawn_quote malloc out s = (case (if need > capacity then realloc malloc p target else Some p) of
      None \<Rightarrow> Some None
    | Some p \<Rightarrow> if len + length added + 1 \<le> length p then Some (Some (blit len (added @ [0]) p, len + length added, target)) else None)"
    unfolding out tc_spawn_quote_def need_def target_def added_def Let_def by simp
  show ?thesis
  proof (cases "if need > capacity then realloc malloc p target else Some p")
    case None
    then show ?thesis by (simp add: q)
  next
    case (Some b)
    have b: "length b = target \<and> take len b = line"
    proof (cases "need > capacity")
      case True
      then have r: "realloc malloc p target = Some b" using Some by simp
      have "len \<le> target" using fits by (simp add: need_def)
      then show ?thesis using realloc_Some [OF m r] p by simp
    next
      case False
      then show ?thesis using Some p by (simp add: target_def)
    qed
    then have room: "len + length added + 1 \<le> length b" using fits added by simp
    then have "quote_ok (blit len (added @ [0]) b, len + length added, target) (line @ (if line \<noteq> [] then [32] else []) @ quoted_word s)"
      using b p by (auto simp: quote_ok_def blit_def added_def quoted_word_def nth_append)
    then show ?thesis using room Some by (simp add: q)
  qed
qed

lemma quote_all_steps:
  assumes m: "malloc_ok malloc"
  shows "quote_ok out line \<Longrightarrow> line \<noteq> [] \<Longrightarrow> quote_all malloc args out = Some None
    \<or> (\<exists>out'. quote_all malloc args out = Some (Some out') \<and> quote_ok out' (line @ quoted_words args))"
proof (induction args arbitrary: out line)
  case (Cons s args)
  show ?case using spawn_quote_step [OF m Cons.prems(1), of s]
  proof (elim disjE exE conjE)
    fix out' assume o: "tc_spawn_quote malloc out s = Some (Some out')" "quote_ok out' (line @ (if line \<noteq> [] then [32] else []) @ quoted_word s)"
    then show ?thesis using Cons.IH [OF o(2)] Cons.prems(2) by simp
  qed simp
qed simp

text \<open>
  Claim C11. The command line on Windows: whatever the arguments after the program's name hold, blanks,
  quotes and backslashes in any order, splitting the line by the documented rules gives the name and the
  arguments again, if the name has no quotes (no Windows file name has) and does not end in a backslash; no
  store leaves the buffer, whose growth is computed once for each argument, and the line ends with a zero
  byte.
\<close>

theorem spawn_quote_roundtrip:
  assumes "malloc_ok malloc" and "args \<noteq> []" and "program_name (hd args)"
  shows "quote_all malloc args ([], 0, 0) \<noteq> None
     \<and> (\<forall>p len capacity. quote_all malloc args ([], 0, 0) = Some (Some (p, len, capacity)) \<longrightarrow>
          windows_arguments (take len p) = args \<and> len < length p \<and> p ! len = 0)"
proof -
  obtain s rest where args: "args = s # rest" using assms(2) by (cases args) auto
  have "quote_ok ([], 0, 0) []" by (simp add: quote_ok_def)
  from spawn_quote_step [OF assms(1) this, of s]
  show ?thesis
  proof (elim disjE exE conjE)
    assume "tc_spawn_quote malloc ([], 0, 0) s = Some None"
    then show ?thesis by (simp add: args)
  next
    fix out' assume o: "tc_spawn_quote malloc ([], 0, 0) s = Some (Some out')" "quote_ok out' ([] @ (if [] \<noteq> ([] :: byte list) then [32] else []) @ quoted_word s)"
    then have ok: "quote_ok out' (quoted_word s)" by simp
    have ne: "quoted_word s \<noteq> []" by (simp add: quoted_word_def)
    show ?thesis using quote_all_steps [OF assms(1) ok ne, of rest] o(1) windows_arguments_words [of s rest] ne assms(3)
      by (auto simp: args quote_ok_def)
  qed
qed


section \<open>Examples\<close>

lemma malloc_zero_all: "\<forall>n. malloc_zero n \<noteq> None"
  by (simp add: malloc_zero_def)

theorem parse_int_exact_witness: "tc_parse_int malloc_zero (ts_of [32, 45, 52, 50]) = (0, - 42)"
proof -
  have "int_text [32, 45, 52, 50] (- 42)" unfolding int_text_def
    by (intro exI [of _ "[32]"] exI [of _ "[45]"] exI [of _ "[52, 50]"]) (simp add: blank_def decimal_def digits_value_def)
  then show ?thesis
    using parse_int_exact [OF malloc_ok_zero ts_wf_of, of "[32, 45, 52, 50]" "- 42"] malloc_zero_all by (simp add: size_max_def)
qed

theorem format_parse_int_witness: "tc_parse_int malloc_zero (tc_format_int malloc_zero (- (2 ^ 63))) = (0, - (2 ^ 63))"
  using format_parse_int [OF malloc_ok_zero malloc_zero_all, of "- (2 ^ 63)"] by simp

theorem read_line_exact_witness:
  "\<exists>s. tc_read_line malloc_zero [104, 105, 13, 10, 33] = (s, [33]) \<and> ts_bytes s = [104, 105]"
proof -
  have "first_line [104, 105, 13, 10, 33] = [104, 105, 13]" by (simp add: first_line_def)
  then show ?thesis using read_line_exact [OF malloc_ok_zero malloc_zero_all, of "[104, 105, 13, 10, 33]"] by auto
qed

theorem spawn_quote_roundtrip_witness:
  "\<exists>p len capacity. quote_all malloc_zero [[97, 32, 98], [34, 92], [92]] ([], 0, 0) = Some (Some (p, len, capacity))
     \<and> windows_arguments (take len p) = [[97, 32, 98], [34, 92], [92]]"
proof -
  obtain p len capacity where q: "quote_all malloc_zero [[97, 32, 98], [34, 92], [92]] ([], 0, 0) = Some (Some (p, len, capacity))"
    by (simp add: tc_spawn_quote_def realloc_def malloc_zero_def Let_def double_until.simps)
  moreover have "program_name (hd [[97, 32, 98], [34, 92], [92]])" by (simp add: program_name_def)
  ultimately show ?thesis using spawn_quote_roundtrip [OF malloc_ok_zero, of "[[97, 32, 98], [34, 92], [92]]"] by blast
qed

end
