(* ===== verification/Files.thy ===== *)
theory Files
  imports Strings
begin

text \<open>
  Replacing a file in one step: \<open>tc_file_write_atomic\<close> of \<open>runtime/library.c\<close>, on POSIX and on Windows, as
  the sequence of states that its system calls leave behind. The answers of the operating system are
  arguments. Proved: if the machine stops at any moment, the file has its old or its new contents, and
  the result of the call says which.
\<close>

section \<open>The file system\<close>

text \<open>
  A file: what has been written to it, and whether it is known to be on the disk. Renaming is one step
  of the file system, which a stop of the machine does not do by halves.
\<close>

record disk_file =
  fl_contents :: "byte list"
  fl_synced :: bool

type_synonym files = "byte list \<rightharpoonup> disk_file"

text \<open>What a file may hold after the machine has stopped: anything, if it was not on the disk.\<close>

definition after_stop :: "files \<Rightarrow> byte list \<Rightarrow> byte list option \<Rightarrow> bool" where
  "after_stop fs name r =
     (case fs name of
        None \<Rightarrow> r = None
      | Some f \<Rightarrow> if fl_synced f then r = Some (fl_contents f) else True)"

definition fs_append :: "byte list \<Rightarrow> byte list \<Rightarrow> files \<Rightarrow> files" where
  "fs_append name bytes fs = fs(name := map_option (\<lambda>f. \<lparr>fl_contents = fl_contents f @ bytes, fl_synced = False\<rparr>) (fs name))"

definition fs_sync :: "byte list \<Rightarrow> files \<Rightarrow> files" where
  "fs_sync name fs = fs(name := map_option (\<lambda>f. f\<lparr>fl_synced := True\<rparr>) (fs name))"

definition fs_rename :: "byte list \<Rightarrow> byte list \<Rightarrow> files \<Rightarrow> files" where
  "fs_rename old new fs = fs(new := fs old, old := None)"

section \<open>The calls\<close>

text \<open>
  The answers to a write: interrupted, failed, or how many bytes have been written. The result of the
  loop: the error, or \<open>None\<close> if the answers end before it does, and the states it passes through. On
  Windows a write is cut to chunks of a mebibyte and cannot be interrupted.
\<close>

datatype write_answer = Interrupted | Failed | Wrote nat

fun write_loop :: "nat option \<Rightarrow> write_answer list \<Rightarrow> byte list \<Rightarrow> byte list \<Rightarrow> files \<Rightarrow> int option \<times> files list" where
  "write_loop chunk answers temporary [] fs = (Some 0, [])"
| "write_loop chunk [] temporary (b # left) fs = (None, [])"
| "write_loop chunk (Interrupted # answers) temporary (b # left) fs =
     (if chunk = None then write_loop chunk answers temporary (b # left) fs else (Some 1, []))"
| "write_loop chunk (Failed # answers) temporary (b # left) fs = (Some 1, [])"
| "write_loop chunk (Wrote n # answers) temporary (b # left) fs =
     (let asked = (case chunk of None \<Rightarrow> length (b # left) | Some c \<Rightarrow> min c (length (b # left)));
          n = min n asked
      in if n = 0 then (Some 1, [])
         else let fs' = fs_append temporary (take n (b # left)) fs;
                  (r, states) = write_loop chunk answers temporary (drop n (b # left)) fs'
              in (r, fs' # states))"

text \<open>
  The answers: whether the mode of the old file can be copied (POSIX only), the writes, and whether
  flushing, closing, renaming and removing succeed.
\<close>

record answers =
  an_mode :: bool
  an_writes :: "write_answer list"
  an_sync :: bool
  an_close :: bool
  an_rename :: bool
  an_remove :: bool

text \<open>
  From the moment when the temporary file has been created: writing, flushing, closing, renaming, and
  removing the temporary file after an error. The states are those after each call.
\<close>

definition flush_step :: "answers \<Rightarrow> byte list \<Rightarrow> int \<Rightarrow> files \<Rightarrow> int \<times> files" where
  "flush_step a temporary error fs =
     (if error \<noteq> 0 then (error, fs) else if an_sync a then (0, fs_sync temporary fs) else (1, fs))"

definition rename_step :: "answers \<Rightarrow> byte list \<Rightarrow> byte list \<Rightarrow> int \<Rightarrow> files \<Rightarrow> int \<times> files" where
  "rename_step a temporary name error fs =
     (if error \<noteq> 0 then (error, fs) else if an_rename a then (0, fs_rename temporary name fs) else (1, fs))"

definition replace_file :: "nat option \<Rightarrow> answers \<Rightarrow> byte list \<Rightarrow> byte list \<Rightarrow> byte list \<Rightarrow> files \<Rightarrow> int option \<times> files list" where
  "replace_file chunk a temporary name contents fs =
     (case (if an_mode a then write_loop chunk (an_writes a) temporary contents fs else (Some 1, [])) of
        (None, states) \<Rightarrow> (None, states)
      | (Some error, states) \<Rightarrow>
          let (error, fs2) = flush_step a temporary error (last (fs # states));
              error = (if an_close a then error else 1);
              (error, fs3) = rename_step a temporary name error fs2;
              fs4 = (if error \<noteq> 0 \<and> an_remove a then fs3(temporary := None) else fs3)
          in (Some error, states @ [fs2, fs3, fs4]))"

definition new_file :: "byte list \<Rightarrow> files \<Rightarrow> files" where
  "new_file name fs = fs(name \<mapsto> \<lparr>fl_contents = [], fl_synced = False\<rparr>)"

text \<open>
  Creating the temporary file. POSIX: \<open>mkstemp\<close> answers the six characters of a name that no file has,
  or fails. Windows: at most 32 attempts to create a file whose name holds the process and a counter; a
  name that exists is tried again with the next number.
\<close>

datatype create_answer = Created | Exists | Refused

datatype host_files = Posix "byte list option" | Windows nat int "create_answer list"

fun attempt_loop :: "nat \<Rightarrow> int \<Rightarrow> create_answer list \<Rightarrow> int option" where
  "attempt_loop 0 counter answers = None"
| "attempt_loop (Suc attempts) counter [] = None"
| "attempt_loop (Suc attempts) counter (r # answers) =
     (case r of
        Created \<Rightarrow> Some (wrap32 (counter + 1))
      | Exists \<Rightarrow> attempt_loop attempts (wrap32 (counter + 1)) answers
      | Refused \<Rightarrow> None)"

definition temporary_name :: "host_files \<Rightarrow> byte list \<Rightarrow> byte list option" where
  "temporary_name host name =
     (case host of
        Posix six \<Rightarrow> map_option (\<lambda>six. name @ to_bytes ''.tiny-'' @ six) six
      | Windows process counter made \<Rightarrow>
          map_option (\<lambda>number. name @ to_bytes (''.tiny-'' @ show_nat process @ ''-'' @ show_int number @ ''.tmp''))
            (attempt_loop 32 counter made))"

text \<open>
  The whole call. On POSIX the mode is asked for only if the file exists; Windows has no mode to copy.
\<close>

definition tc_file_write_atomic :: "(nat \<Rightarrow> byte list option) \<Rightarrow> host_files \<Rightarrow> answers \<Rightarrow> TinyString \<Rightarrow> TinyString \<Rightarrow> files \<Rightarrow>
    int option \<times> files list" where
  "tc_file_write_atomic malloc host a path contents fs =
     (case tc_cstring malloc path of
        None \<Rightarrow> (Some 1, [])
      | Some block \<Rightarrow>
          let name = c_text block
          in if malloc (length name + 80) = None then (Some 8, [])
             else case temporary_name host name of
                    None \<Rightarrow> (Some 1, [])
                  | Some temporary \<Rightarrow>
                      let fs0 = new_file temporary fs;
                          (chunk, mode) = (case host of
                              Posix six \<Rightarrow> (None, fs name = None \<or> an_mode a)
                            | Windows process counter made \<Rightarrow> (Some 1048576, True));
                          (r, states) = replace_file chunk (a\<lparr>an_mode := mode\<rparr>) temporary name (ts_bytes contents) fs0
                      in (r, fs0 # states))"

section \<open>What is left behind\<close>

text \<open>The other files do not change.\<close>

definition agree :: "byte list \<Rightarrow> files \<Rightarrow> files \<Rightarrow> bool" where
  "agree temporary fs fs' \<longleftrightarrow> (\<forall>n. n \<noteq> temporary \<longrightarrow> fs' n = fs n)"

lemma agree_refl [simp]: "agree t fs fs"
  by (simp add: agree_def)

lemma agree_trans: "agree t a b \<Longrightarrow> agree t b c \<Longrightarrow> agree t a c"
  by (simp add: agree_def)

lemma agree_steps [simp]: "agree t fs (fs_append t bytes fs)" "agree t fs (fs_sync t fs)" "agree t fs (fs(t := f))"
  "agree t fs (new_file t fs)"
  by (simp_all add: agree_def fs_append_def fs_sync_def new_file_def)

lemma last_in: "last (x # xs) \<in> insert x (set xs)"
  using last_in_set [of "x # xs"] by auto

text \<open>The loop: the states it passes through, and what the temporary file holds when all has been written.\<close>

definition wrote :: "byte list \<Rightarrow> files \<Rightarrow> byte list \<Rightarrow> int option \<times> files list \<Rightarrow> bool" where
  "wrote t fs contents p \<longleftrightarrow> (case p of (r, states) \<Rightarrow>
     (\<forall>s\<in>set states. agree t fs s) \<and> r \<in> {None, Some 0, Some 1}
     \<and> (r = Some 0 \<longrightarrow> (\<exists>b. last (fs # states) t = Some \<lparr>fl_contents = contents, fl_synced = b\<rparr>)))"

lemma wrote_step:
  assumes "wrote t fs' contents (r, states)" "agree t fs fs'"
  shows "wrote t fs contents (r, fs' # states)"
  using assms agree_trans [OF assms(2)] by (auto simp: wrote_def)

lemma write_loop_wrote:
  "fs t = Some f \<Longrightarrow> wrote t fs (fl_contents f @ bytes) (write_loop chunk answers t bytes fs)"
proof (induction chunk answers t bytes fs arbitrary: f rule: write_loop.induct)
  case (1 chunk answers t fs)
  then show ?case by (cases f) (simp add: wrote_def)
next
  case (5 chunk n answers t b left fs)
  define asked where "asked = (case chunk of None \<Rightarrow> length (b # left) | Some c \<Rightarrow> min c (length (b # left)))"
  define k where "k = min n asked"
  let ?fs = "fs_append t (take k (b # left)) fs"
  have next_loop: "write_loop chunk (Wrote n # answers) t (b # left) fs =
      (if k = 0 then (Some 1, [])
       else (case write_loop chunk answers t (drop k (b # left)) ?fs of (r, states) \<Rightarrow> (r, ?fs # states)))"
    by (simp only: write_loop.simps Let_def k_def asked_def)
  show ?case
  proof (cases "k = 0")
    case True
    then show ?thesis unfolding next_loop by (simp add: wrote_def)
  next
    case False
    obtain r states where w: "write_loop chunk answers t (drop k (b # left)) ?fs = (r, states)" by force
    have f: "?fs t = Some \<lparr>fl_contents = fl_contents f @ take k (b # left), fl_synced = False\<rparr>" using 5(2) by (simp add: fs_append_def)
    have "wrote t ?fs ((fl_contents f @ take k (b # left)) @ drop k (b # left)) (write_loop chunk answers t (drop k (b # left)) ?fs)"
      using 5(1) [OF asked_def k_def False refl f] by simp
    then have "wrote t ?fs (fl_contents f @ b # left) (r, states)" unfolding w append_assoc append_take_drop_id .
    then show ?thesis unfolding next_loop w using wrote_step [OF _ agree_steps(1)] False by simp
  qed
qed (auto simp: wrote_def)

text \<open>
  The loop ends: every answer that is not an interruption writes at least one byte or is an error.
\<close>

lemma write_loop_ends:
  "length bytes \<le> length (filter (\<lambda>r. r \<noteq> Interrupted) answers) \<Longrightarrow> fst (write_loop chunk answers t bytes fs) \<noteq> None"
proof (induction chunk answers t bytes fs rule: write_loop.induct)
  case (5 chunk n answers t b left fs)
  then show ?case by (auto simp: Let_def split: prod.splits)
qed auto

text \<open>From the temporary file on: until the renaming nothing but the temporary file changes.\<close>

definition replaced :: "byte list \<Rightarrow> byte list \<Rightarrow> byte list \<Rightarrow> files \<Rightarrow> files" where
  "replaced t name contents fs = fs(name \<mapsto> \<lparr>fl_contents = contents, fl_synced = True\<rparr>, t := None)"

definition replacing :: "byte list \<Rightarrow> byte list \<Rightarrow> byte list \<Rightarrow> bool \<Rightarrow> files \<Rightarrow> int option \<times> files list \<Rightarrow> bool" where
  "replacing t name contents removed fs p \<longleftrightarrow> (case p of (r, states) \<Rightarrow>
     (\<forall>s\<in>set states. agree t fs s \<or> s = replaced t name contents fs)
     \<and> (r = Some 0 \<longrightarrow> last (fs # states) = replaced t name contents fs)
     \<and> (r \<noteq> None \<and> r \<noteq> Some 0 \<longrightarrow> agree t fs (last (fs # states)) \<and> (removed \<longrightarrow> last (fs # states) t = None)))"

lemma flush_step_cases:
  assumes "agree t fs s" "error \<in> {0, 1}" "error = 0 \<longrightarrow> (\<exists>b. s t = Some \<lparr>fl_contents = contents, fl_synced = b\<rparr>)"
    "flush_step a t error s = (error', s')"
  shows "agree t fs s' \<and> error' \<in> {0, 1} \<and> (error' = 0 \<longrightarrow> s' t = Some \<lparr>fl_contents = contents, fl_synced = True\<rparr>)"
  using assms agree_trans [OF assms(1) agree_steps(2) [of t s]]
  by (auto simp: flush_step_def fs_sync_def split: if_splits)

lemma rename_step_cases:
  assumes "agree t fs s" "t \<noteq> name" "error = 0 \<longrightarrow> s t = Some \<lparr>fl_contents = contents, fl_synced = True\<rparr>"
    "rename_step a t name error s = (error', s')"
  shows "if error' = 0 then s' = replaced t name contents fs else agree t fs s'"
  using assms by (auto simp: rename_step_def fs_rename_def replaced_def agree_def fun_eq_iff split: if_splits)

lemma replace_file_replacing:
  assumes t: "fs t = Some \<lparr>fl_contents = [], fl_synced = b\<rparr>" "t \<noteq> name"
  shows "replacing t name contents (an_remove a) fs (replace_file chunk a t name contents fs)"
proof -
  define w where "w = (if an_mode a then write_loop chunk (an_writes a) t contents fs else (Some 1, []))"
  obtain r states where rs: "w = (r, states)" by force
  have "wrote t fs contents w" using write_loop_wrote [of fs t _ contents chunk "an_writes a"] t(1) by (auto simp: w_def wrote_def)
  then have states: "\<forall>s\<in>set states. agree t fs s" and r: "r \<in> {None, Some 0, Some 1}"
    and full: "r = Some 0 \<longrightarrow> (\<exists>b. last (fs # states) t = Some \<lparr>fl_contents = contents, fl_synced = b\<rparr>)"
    unfolding rs wrote_def by simp_all
  have go: "replace_file chunk a t name contents fs = (case w of (None, states) \<Rightarrow> (None, states) | (Some error, states) \<Rightarrow>
      let (error, fs2) = flush_step a t error (last (fs # states)); error = (if an_close a then error else 1);
          (error, fs3) = rename_step a t name error fs2; fs4 = (if error \<noteq> 0 \<and> an_remove a then fs3(t := None) else fs3)
      in (Some error, states @ [fs2, fs3, fs4]))" by (simp add: replace_file_def w_def)
  show ?thesis
  proof (cases r)
    case None
    then show ?thesis using states unfolding go rs by (simp add: replacing_def)
  next
    case (Some e)
    have s: "agree t fs (last (fs # states))" using states last_in [of fs states] by auto
    obtain e2 fs2 where f: "flush_step a t e (last (fs # states)) = (e2, fs2)" by force
    have f2: "agree t fs fs2" "e2 = 0 \<longrightarrow> fs2 t = Some \<lparr>fl_contents = contents, fl_synced = True\<rparr>"
      using flush_step_cases [OF s _ _ f, of contents] r full Some by auto
    define e3 where "e3 = (if an_close a then e2 else 1)"
    obtain e4 fs3 where m: "rename_step a t name e3 fs2 = (e4, fs3)" by force
    have f3: "if e4 = 0 then fs3 = replaced t name contents fs else agree t fs fs3"
      using rename_step_cases [OF f2(1) t(2) _ m, of contents] f2(2) by (simp add: e3_def split: if_splits)
    have "replace_file chunk a t name contents fs = (Some e4, states @ [fs2, fs3, if e4 \<noteq> 0 \<and> an_remove a then fs3(t := None) else fs3])"
      unfolding go rs Some using f m by (simp add: e3_def [symmetric] Let_def)
    then show ?thesis using states f2(1) f3 agree_trans [OF _ agree_steps(3) [of t fs3 None], of fs]
      by (auto simp: replacing_def split: if_splits)
  qed
qed

lemma temporary_differs: "temporary_name host name = Some t \<Longrightarrow> t \<noteq> name"
  by (auto simp: temporary_name_def to_bytes_def split: host_files.splits)

text \<open>What a program that starts afterwards can find.\<close>

definition survives :: "byte list \<Rightarrow> byte list option \<Rightarrow> byte list \<Rightarrow> files \<Rightarrow> bool" where
  "survives name old contents s \<longleftrightarrow> (\<forall>c. after_stop s name c \<longrightarrow> c = old \<or> c = Some contents)"

lemma survives_same: "s name = fs name \<Longrightarrow> (\<forall>f. fs name = Some f \<longrightarrow> fl_synced f) \<Longrightarrow> survives name (map_option fl_contents (fs name)) contents s"
  by (auto simp: survives_def after_stop_def split: option.splits)

lemma survives_replaced: "t \<noteq> name \<Longrightarrow> survives name old contents (replaced t name contents fs)"
  by (simp add: survives_def after_stop_def replaced_def)

text \<open>
  Claim C10. Replacing a file, on POSIX and on Windows, whatever the operating system answers: if the machine
  stops after any of the calls, the file has its old contents or all of the new ones. If the call
  succeeds, the file has the new contents and they are on the disk, and nothing else has changed. If it
  fails, and the temporary file can be removed, nothing has changed at all.
\<close>

theorem write_atomic_safe:
  assumes path: "malloc_ok malloc" "ts_wf path"
    and disk: "\<forall>f. fs (ts_bytes path) = Some f \<longrightarrow> fl_synced f"
    and fresh: "\<forall>t. temporary_name host (ts_bytes path) = Some t \<longrightarrow> fs t = None"
    and run: "tc_file_write_atomic malloc host a path contents fs = (r, states)"
  shows "(\<forall>s\<in>set states. survives (ts_bytes path) (map_option fl_contents (fs (ts_bytes path))) (ts_bytes contents) s)
     \<and> (r = Some 0 \<longrightarrow> last (fs # states) = fs(ts_bytes path \<mapsto> \<lparr>fl_contents = ts_bytes contents, fl_synced = True\<rparr>))
     \<and> (r \<noteq> None \<and> r \<noteq> Some 0 \<and> an_remove a \<longrightarrow> last (fs # states) = fs)"
proof -
  let ?n = "ts_bytes path" and ?c = "ts_bytes contents"
  show ?thesis
  proof (cases "tc_cstring malloc path = None \<or> malloc (length ?n + 80) = None \<or> temporary_name host ?n = None")
    case True
    then show ?thesis using run cstring_cases [OF path] c_text_terminated [of ?n "[]"]
      by (auto simp: tc_file_write_atomic_def Let_def split: if_splits option.splits)
  next
    case False
    then obtain t where t: "temporary_name host ?n = Some t" by blast
    have block: "tc_cstring malloc path = Some (?n @ [0])" "c_text (?n @ [0]) = ?n"
      using False cstring_cases [OF path] c_text_terminated [of ?n "[]"] by (auto split: if_splits)
    let ?fs = "new_file t fs"
    have ne: "t \<noteq> ?n" by (rule temporary_differs [OF t])
    obtain chunk mode rest where rest: "replace_file chunk (a\<lparr>an_mode := mode\<rparr>) t ?n ?c ?fs = (r, rest)" "states = ?fs # rest"
      using run False t block by (auto simp: tc_file_write_atomic_def Let_def split: prod.splits)
    have "replacing t ?n ?c (an_remove a) ?fs (r, rest)"
      using replace_file_replacing [of ?fs t False ?n ?c "a\<lparr>an_mode := mode\<rparr>" chunk] ne rest(1) by (simp add: new_file_def)
    then have all: "\<forall>s\<in>set rest. agree t ?fs s \<or> s = replaced t ?n ?c ?fs"
      and fine: "r = Some 0 \<longrightarrow> last (?fs # rest) = replaced t ?n ?c ?fs"
      and undone: "r \<noteq> None \<and> r \<noteq> Some 0 \<longrightarrow> agree t ?fs (last (?fs # rest)) \<and> (an_remove a \<longrightarrow> last (?fs # rest) t = None)"
      by (simp_all add: replacing_def)
    have same: "agree t ?fs s \<Longrightarrow> s ?n = fs ?n" for s using ne by (auto simp: agree_def new_file_def)
    have "\<forall>s\<in>set states. survives ?n (map_option fl_contents (fs ?n)) ?c s"
      using all rest(2) survives_same [of _ ?n fs ?c] same same [OF agree_refl] disk survives_replaced [OF ne] by auto
    moreover have "replaced t ?n ?c ?fs = fs(?n \<mapsto> \<lparr>fl_contents = ?c, fl_synced = True\<rparr>)"
      using fresh t ne by (auto simp: replaced_def new_file_def fun_eq_iff)
    moreover have "last (?fs # rest) = fs" if "agree t ?fs (last (?fs # rest))" "last (?fs # rest) t = None"
    proof (rule ext)
      show "last (?fs # rest) n = fs n" for n
        using that fresh t unfolding agree_def new_file_def by (cases "n = t") simp_all
    qed
    ultimately show ?thesis using fine undone rest(2) by simp
  qed
qed

section \<open>Examples\<close>

text \<open>An interrupted write, a short one, the rest; then a crash before the flush would still find the old text.\<close>

definition all_well :: "write_answer list \<Rightarrow> answers" where
  "all_well writes = \<lparr>an_mode = True, an_writes = writes, an_sync = True, an_close = True, an_rename = True, an_remove = True\<rparr>"

definition one_file :: files where
  "one_file = [[97] \<mapsto> \<lparr>fl_contents = [1, 2], fl_synced = True\<rparr>]"

theorem write_atomic_safe_witness:
  "\<exists>states. tc_file_write_atomic malloc_zero (Posix (Some [48])) (all_well [Interrupted, Wrote 1, Wrote 5]) (ts_of [97]) (ts_of [3, 4, 5]) one_file = (Some 0, states)
     \<and> last (one_file # states) = one_file([97] \<mapsto> \<lparr>fl_contents = [3, 4, 5], fl_synced = True\<rparr>)"
proof -
  let ?run = "tc_file_write_atomic malloc_zero (Posix (Some [48])) (all_well [Interrupted, Wrote 1, Wrote 5]) (ts_of [97]) (ts_of [3, 4, 5]) one_file"
  have "fst ?run = Some 0"
    by (simp add: tc_file_write_atomic_def tc_cstring_def malloc_zero_def size_max_def blit_def c_text_def temporary_name_def
      replace_file_def all_well_def flush_step_def rename_step_def Let_def ts_of_def ts_bytes_def split: prod.split)
  then obtain states where run: "?run = (Some 0, states)" by (cases ?run) auto
  have disk: "\<forall>f. one_file (ts_bytes (ts_of [97])) = Some f \<longrightarrow> fl_synced f" by (simp add: one_file_def)
  have fresh: "\<forall>t. temporary_name (Posix (Some [48])) (ts_bytes (ts_of [97])) = Some t \<longrightarrow> one_file t = None"
    by (simp add: one_file_def temporary_name_def to_bytes_def)
  show ?thesis using write_atomic_safe [OF malloc_ok_zero ts_wf_of disk fresh run] run by auto
qed

end
