(* ===== verification/Runtime.thy ===== *)
theory Runtime
  imports Prelude
begin

text \<open>
  Checks and hashes that compiled programs call, \<open>runtime/tiny_runtime.h\<close>: bounds of indices and slices,
  checked allocation, equality and hashing of strings. Proved: a check lets exactly the indices inside
  the bounds through, the hash of a scalar loses nothing, equal strings have equal hashes, and changing
  one byte of a string changes its hash.
\<close>

section \<open>Checks\<close>

text \<open>
  Indices are \<open>int64_t\<close>, lengths \<open>size_t\<close>; after the test of the sign the index is compared as \<open>uint64_t\<close>.
\<close>

definition tc_alloc_checked :: "(nat \<Rightarrow> byte list option) \<Rightarrow> nat \<Rightarrow> byte list outcome" where
  "tc_alloc_checked calloc n =
     (case calloc n of None \<Rightarrow> Panic ''out of memory'' | Some p \<Rightarrow> Ret p)"

definition tc_assert :: "bool \<Rightarrow> unit outcome" where
  "tc_assert ok = (if \<not> ok then Panic ''assertion failed'' else Ret ())"

definition tc_index :: "u64 \<Rightarrow> u64 \<Rightarrow> u64 outcome" where
  "tc_index i n = (if i <s 0 \<or> i \<ge> n then Panic ''index out of bounds'' else Ret i)"

definition tc_slice_check :: "u64 \<Rightarrow> u64 \<Rightarrow> u64 \<Rightarrow> unit outcome" where
  "tc_slice_check lo hi n = (if lo <s 0 \<or> hi <s lo \<or> hi > n then Panic ''slice out of bounds'' else Ret ())"

section \<open>Strings and hashes\<close>

definition tc_string_equal :: "TinyString \<Rightarrow> TinyString \<Rightarrow> bool" where
  "tc_string_equal a b \<longleftrightarrow> ts_length a = ts_length b \<and> (ts_length a = 0 \<or> ts_bytes a = ts_bytes b)"

definition tc_hash_u64 :: "u64 \<Rightarrow> u64" where
  "tc_hash_u64 x =
     (let x = x XOR drop_bit 30 x;
          x = x * 0xbf58476d1ce4e5b9;
          x = x XOR drop_bit 27 x;
          x = x * 0x94d049bb133111eb
      in x XOR drop_bit 31 x)"

fun hash_bytes :: "u64 \<Rightarrow> byte list \<Rightarrow> u64" where
  "hash_bytes h [] = h"
| "hash_bytes h (b # s) = hash_bytes ((h XOR ucast b) * 0x100000001b3) s"

definition tc_hash_string :: "TinyString \<Rightarrow> u64" where
  "tc_hash_string s = tc_hash_u64 (hash_bytes 0xcbf29ce484222325 (ts_bytes s))"

section \<open>Bounds\<close>

lemma sless_zero: "(i :: u64) <s 0 \<longleftrightarrow> sint i < 0"
  by (simp add: word_sless_alt)

lemma sint_nonneg: "0 \<le> sint (i :: u64) \<Longrightarrow> sint i = uint i"
proof -
  assume "0 \<le> sint i"
  moreover have "sint i = uint i - 2 ^ 64 * of_bool (bit (uint i) 63)"
    using take_bit_int_eq_self [of "uint i" 64] uint_lt2p [of i] by (simp add: sint_uint signed_take_bit_eq_take_bit_minus)
  moreover have "uint i < 2 ^ 64" using uint_lt2p [of i] by simp
  ultimately show "sint i = uint i" by (cases "bit (uint i) 63") simp_all
qed

text \<open>
  A checked index lets through the indices from 0 to below the length, and no others, and a
  checked slice those with \<open>0 <= lo <= hi <= n\<close>: also when the length is above the largest \<open>int64_t\<close>, where the
  mixed comparison could go wrong.
\<close>

theorem checks_exact:
  shows "(tc_index i n = Ret k \<longleftrightarrow> k = i \<and> 0 \<le> sint i \<and> sint i < uint n)
     \<and> (tc_slice_check lo hi n = Ret () \<longleftrightarrow> 0 \<le> sint lo \<and> sint lo \<le> sint hi \<and> sint hi \<le> uint n)"
proof
  show "tc_index i n = Ret k \<longleftrightarrow> k = i \<and> 0 \<le> sint i \<and> sint i < uint n"
    using sint_nonneg [of i] by (auto simp: tc_index_def sless_zero word_le_def)
  show "tc_slice_check lo hi n = Ret () \<longleftrightarrow> 0 \<le> sint lo \<and> sint lo \<le> sint hi \<and> sint hi \<le> uint n"
    using sint_nonneg [of hi] by (auto simp: tc_slice_check_def sless_zero word_sless_alt word_less_def)
qed

section \<open>Hashes\<close>

text \<open>A shift to the right by at least a third of the width is undone by doing it at once and twice.\<close>

lemma xor_shift_back:
  assumes "64 \<le> 3 * k" "y = x XOR drop_bit k x"
  shows "y XOR drop_bit k y XOR drop_bit (2 * k) y = (x :: u64)"
proof -
  have "drop_bit (3 * k) x = 0" using assms(1) by (auto intro!: bit_word_eqI simp: bit_simps dest: bit_imp_le_length)
  moreover have "k + 2 * k = 3 * k" "k + k = 2 * k" by simp_all
  ultimately have "drop_bit k y = drop_bit k x XOR drop_bit (2 * k) x" "drop_bit (2 * k) y = drop_bit (2 * k) x"
    unfolding assms(2) by (simp_all only: drop_bit_xor drop_bit_drop_bit add.commute xor.right_neutral)
  then show ?thesis unfolding assms(2) by (simp add: xor.assoc xor.left_commute [of "drop_bit k x"])
qed

lemma xor_shift_inj: "64 \<le> 3 * k \<Longrightarrow> x XOR drop_bit k x = y XOR drop_bit k y \<longleftrightarrow> x = (y :: u64)"
  using xor_shift_back [of k _ x] xor_shift_back [of k _ y] by metis

text \<open>An odd factor has an inverse.\<close>

lemma mult_inj: "c * d = 1 \<Longrightarrow> x * c = y * c \<longleftrightarrow> x = (y :: u64)"
proof
  assume "c * d = 1" "x * c = y * c"
  then have "x * c * d = y * c * d" by (simp only:)
  then show "x = y" unfolding mult.assoc \<open>c * d = 1\<close> by simp
qed simp

lemma odd_factors:
  "0xbf58476d1ce4e5b9 * 0x96de1b173f119089 = (1 :: u64)"
  "0x94d049bb133111eb * 0x319642b2d24d8ec3 = (1 :: u64)"
  "0x100000001b3 * 0xce965057aff6957b = (1 :: u64)"
  by simp_all

lemma hash_u64_eq: "tc_hash_u64 x = tc_hash_u64 y \<longleftrightarrow> x = y"
proof -
  have "31 * 3 \<ge> (64 :: nat)" "30 * 3 \<ge> (64 :: nat)" "27 * 3 \<ge> (64 :: nat)" by simp_all
  then show ?thesis unfolding tc_hash_u64_def Let_def
    by (simp only: xor_shift_inj mult_inj [OF odd_factors(1)] mult_inj [OF odd_factors(2)] mult.commute [of 3])
qed

lemma xor_inj: "c XOR a = c XOR b \<longleftrightarrow> a = (b :: u64)"
proof
  assume "c XOR a = c XOR b"
  then have "c XOR (c XOR a) = c XOR (c XOR b)" by (simp only:)
  then show "a = b" by simp
qed simp

lemma byte_inj: "ucast b = (ucast b' :: u64) \<longleftrightarrow> b = (b' :: byte)"
proof
  assume "ucast b = (ucast b' :: u64)"
  then have e: "bit (ucast b :: u64) n = bit (ucast b' :: u64) n" for n by (simp only:)
  show "b = b'"
  proof (rule bit_word_eqI)
    show "n < LENGTH(8) \<Longrightarrow> bit b n = bit b' n" for n using e [of n] by (simp add: bit_simps)
  qed
qed simp

lemma hash_step_inj:
  "(h XOR ucast b) * 0x100000001b3 = (h' XOR ucast b) * 0x100000001b3 \<longleftrightarrow> h = (h' :: u64)"
  "(h XOR ucast b) * 0x100000001b3 = (h XOR ucast b') * 0x100000001b3 \<longleftrightarrow> b = (b' :: byte)"
  unfolding mult_inj [OF odd_factors(3)]
  using xor_inj [of "ucast b" h h'] xor_inj [of h "ucast b" "ucast b'"] byte_inj [of b b'] by (simp_all only: xor.commute)

lemma hash_bytes_inj: "hash_bytes h s = hash_bytes h' s \<longleftrightarrow> h = h'"
  by (induction s arbitrary: h h') (simp_all add: hash_step_inj)

lemma hash_bytes_append: "hash_bytes h (s @ s') = hash_bytes (hash_bytes h s) s'"
  by (induction s arbitrary: h) simp_all

text \<open>
  Claim C36. Hashes: different scalars have different hashes; strings that are equal for the language have
  the same hash; and two strings that differ in exactly one byte have different hashes.
\<close>

theorem hashes_separate:
  "inj tc_hash_u64
   \<and> (ts_wf s \<and> ts_wf s' \<and> tc_string_equal s s' \<longrightarrow> tc_hash_string s = tc_hash_string s')
   \<and> (tc_hash_string (ts_of (xs @ b # ys)) = tc_hash_string (ts_of (xs @ b' # ys)) \<longleftrightarrow> b = b')"
proof (intro conjI impI)
  show "inj tc_hash_u64" by (rule injI) (simp only: hash_u64_eq)
next
  assume "ts_wf s \<and> ts_wf s' \<and> tc_string_equal s s'"
  then have "ts_bytes s = ts_bytes s'"
    by (metis tc_string_equal_def length_0_conv length_ts_bytes)
  then show "tc_hash_string s = tc_hash_string s'" by (simp only: tc_hash_string_def)
next
  show "tc_hash_string (ts_of (xs @ b # ys)) = tc_hash_string (ts_of (xs @ b' # ys)) \<longleftrightarrow> b = b'"
    by (simp only: tc_hash_string_def hash_u64_eq ts_bytes_of hash_bytes_append hash_bytes.simps hash_bytes_inj hash_step_inj)
qed

section \<open>Examples\<close>

theorem hashes_separate_witness:
  "tc_hash_string (ts_of [97, 98]) \<noteq> tc_hash_string (ts_of [97, 99])
   \<and> tc_hash_string (ts_of [97]) = tc_hash_string \<lparr>ts_data = Some [97, 0], ts_length = 1\<rparr>"
proof
  show "tc_hash_string (ts_of [97, 98]) \<noteq> tc_hash_string (ts_of [97, 99])"
    using hashes_separate [of ts_null ts_null "[97]" 98 "[]" 99] by simp
  show "tc_hash_string (ts_of [97]) = tc_hash_string \<lparr>ts_data = Some [97, 0], ts_length = 1\<rparr>"
    using hashes_separate [of "ts_of [97]" "\<lparr>ts_data = Some [97, 0], ts_length = 1\<rparr>" "[]" 0 "[]" 0]
    by (simp add: tc_string_equal_def ts_wf_def ts_bytes_def ts_of_def)
qed

end
