(* ===== verification/Grpc.thy ===== *)
theory Grpc
  imports Strings Runtime
begin

text \<open>
  Remote calls, \<open>runtime/grpc.c\<close>: the messages and their limits, the callbacks that nghttp2 runs on both
  ends, routing, and the call itself. The library nghttp2 is not modelled: it runs the callbacks, and what
  the callbacks ask of it is their result. Proved: buffers stay in their blocks and below the limit, the
  routes of a server, and that a call returns what the handler answered, however the bytes are cut into
  frames.
\<close>

section \<open>Buffers and messages\<close>

definition TC_GRPC_LIMIT :: nat where
  "TC_GRPC_LIMIT = 4 * 1024 * 1024"

text \<open>The block, whose size is the capacity, and how much of it is used.\<close>

record TcGrpcBuffer =
  gb_data :: "byte list"
  gb_length :: nat

definition gb_empty :: TcGrpcBuffer where
  "gb_empty = \<lparr>gb_data = [], gb_length = 0\<rparr>"

definition gb_bytes :: "TcGrpcBuffer \<Rightarrow> byte list" where
  "gb_bytes b = take (gb_length b) (gb_data b)"

definition tc_grpc_buffer_add :: "(nat \<Rightarrow> byte list option) \<Rightarrow> TcGrpcBuffer \<Rightarrow> byte list \<Rightarrow> int \<times> TcGrpcBuffer" where
  "tc_grpc_buffer_add malloc b bytes =
     (if length bytes > usub (TC_GRPC_LIMIT + 5) (gb_length b) then (- 1, b)
      else let need = gb_length b + length bytes; capacity = length (gb_data b)
           in case (if need > capacity
                    then realloc malloc (gb_data b) (double_until (if capacity \<noteq> 0 then capacity else 256) need)
                    else Some (gb_data b)) of
                None \<Rightarrow> (- 1, b)
              | Some p \<Rightarrow> (0, \<lparr>gb_data = blit (gb_length b) bytes p, gb_length = need\<rparr>))"

text \<open>A message is five bytes, not compressed and the length, and the data.\<close>

definition grpc_prefix :: "u32 \<Rightarrow> byte list" where
  "grpc_prefix sz = [0, ucast (drop_bit 24 sz), ucast (drop_bit 16 sz), ucast (drop_bit 8 sz), ucast sz]"

definition tc_grpc_pack :: "(nat \<Rightarrow> byte list option) \<Rightarrow> TcGrpcBuffer \<Rightarrow> TinyString \<Rightarrow> bool \<times> TcGrpcBuffer" where
  "tc_grpc_pack malloc b data =
     (if ts_length data > TC_GRPC_LIMIT then (True, b)
      else case tc_grpc_buffer_add malloc b (grpc_prefix (of_nat (ts_length data))) of
             (error, b1) \<Rightarrow>
               if error \<noteq> 0 then (True, b1)
               else case tc_grpc_buffer_add malloc b1 (ts_bytes data) of (error, b2) \<Rightarrow> (error \<noteq> 0, b2))"

definition grpc_size :: "byte list \<Rightarrow> u32" where
  "grpc_size p = push_bit 24 (ucast (p ! 1)) OR push_bit 16 (ucast (p ! 2)) OR push_bit 8 (ucast (p ! 3)) OR ucast (p ! 4)"

definition tc_grpc_unpack :: "TcGrpcBuffer \<Rightarrow> int \<times> TinyString" where
  "tc_grpc_unpack b =
     (if gb_length b < 5 then (13, ts_null)
      else if gb_data b ! 0 \<noteq> 0 then (12, ts_null)
      else let sz = unat (grpc_size (gb_data b))
           in if sz > TC_GRPC_LIMIT \<or> gb_length b \<noteq> sz + 5 then (13, ts_null)
              else (0, \<lparr>ts_data = Some (drop 5 (gb_data b)), ts_length = sz\<rparr>))"

text \<open>The result of a call. A response object takes 24 bytes.\<close>

record TcGrpcResponse =
  gr_data :: TinyString
  gr_status :: int

definition tc_grpc_response :: "(nat \<Rightarrow> byte list option) \<Rightarrow> TinyString \<Rightarrow> int \<Rightarrow> TcGrpcResponse option" where
  "tc_grpc_response malloc data status =
     (if malloc 24 = None then None
      else let status = (if 0 \<le> status \<and> status \<le> 16 then status else 2)
           in if ts_length data > TC_GRPC_LIMIT then Some \<lparr>gr_data = ts_null, gr_status = 8\<rparr>
              else let copy = tc_string_copy malloc data
                   in Some \<lparr>gr_data = copy, gr_status = (if ts_data copy = None then 8 else status)\<rparr>)"

definition tc_grpc_response_data :: "TcGrpcResponse option \<Rightarrow> TinyString" where
  "tc_grpc_response_data r = (case r of None \<Rightarrow> ts_null | Some r \<Rightarrow> gr_data r)"

definition tc_grpc_response_status :: "TcGrpcResponse option \<Rightarrow> int" where
  "tc_grpc_response_status r = (case r of None \<Rightarrow> 8 | Some r \<Rightarrow> gr_status r)"

section \<open>Streams\<close>

record TcGrpcStream =
  gs_id :: int
  gs_path :: TinyString
  gs_incoming :: TcGrpcBuffer
  gs_outgoing :: TcGrpcBuffer
  gs_sent :: nat
  gs_header_bytes :: nat
  gs_status :: int
  gs_have_status :: bool
  gs_http_status :: int
  gs_grpc_type :: bool

definition fresh_stream :: "int \<Rightarrow> TcGrpcStream" where
  "fresh_stream i = \<lparr>gs_id = i, gs_path = ts_null, gs_incoming = gb_empty, gs_outgoing = gb_empty, gs_sent = 0,
     gs_header_bytes = 0, gs_status = 0, gs_have_status = False, gs_http_status = 0, gs_grpc_type = False\<rparr>"

text \<open>\<open>grpc-status\<close>: one or two digits, at most 16; anything else is 2, unknown.\<close>

fun status_digits :: "byte list \<Rightarrow> int \<Rightarrow> int option" where
  "status_digits [] status = Some status"
| "status_digits (b # bytes) status =
     (if b < 48 \<or> b > 57 then None else status_digits bytes (status * 10 + uint b - 48))"

definition status_value :: "byte list \<Rightarrow> int" where
  "status_value bytes =
     (if bytes = [] \<or> length bytes > 2 then 2
      else case status_digits bytes 0 of None \<Rightarrow> 2 | Some status \<Rightarrow> if status > 16 then 2 else status)"

definition grpc_content :: "byte list \<Rightarrow> bool" where
  "grpc_content bytes \<longleftrightarrow> length bytes \<ge> 16 \<and> take 16 bytes = to_bytes ''application/grpc''
     \<and> (length bytes = 16 \<or> bytes ! 16 = 43 \<or> bytes ! 16 = 59)"

text \<open>The callback for a header field: whether it fails, which resets the stream, and the stream.\<close>

definition header_field :: "(nat \<Rightarrow> byte list option) \<Rightarrow> byte list \<Rightarrow> byte list \<Rightarrow> TcGrpcStream \<Rightarrow> bool \<times> TcGrpcStream" where
  "header_field malloc name bytes s =
     (let s = s\<lparr>gs_header_bytes := gs_header_bytes s + length name + length bytes\<rparr>
      in if gs_header_bytes s > 16384 then (True, s)
         else if name = to_bytes '':path'' then
           if length bytes > 4096 then (True, s)
           else (False, s\<lparr>gs_path := tc_string_copy malloc (ts_of bytes)\<rparr>)
         else if name = to_bytes '':status'' then
           (False, if length bytes = 3
                   then s\<lparr>gs_http_status := (uint (bytes ! 0) - 48) * 100 + (uint (bytes ! 1) - 48) * 10 + uint (bytes ! 2) - 48\<rparr>
                   else s)
         else if name = to_bytes ''content-type'' then (False, s\<lparr>gs_grpc_type := grpc_content bytes\<rparr>)
         else if name = to_bytes ''grpc-status'' then (False, s\<lparr>gs_status := status_value bytes, gs_have_status := True\<rparr>)
         else (False, s))"

text \<open>The callback that asks for the next bytes to send.\<close>

record read_result =
  rr_bytes :: "byte list"
  rr_eof :: bool
  rr_trailer :: "byte list option"
  rr_failed :: bool

definition tc_grpc_read_data :: "bool \<Rightarrow> bool \<Rightarrow> nat \<Rightarrow> TcGrpcStream \<Rightarrow> read_result \<times> TcGrpcStream" where
  "tc_grpc_read_data server submitted capacity s =
     (let n = min (gb_length (gs_outgoing s) - gs_sent s) capacity;
          bytes = take n (drop (gs_sent s) (gb_data (gs_outgoing s)));
          s = s\<lparr>gs_sent := gs_sent s + n\<rparr>;
          eof = (gs_sent s = gb_length (gs_outgoing s))
      in (\<lparr>rr_bytes = bytes, rr_eof = eof,
           rr_trailer = (if eof \<and> server then Some (to_bytes (show_int (gs_status s))) else None),
           rr_failed = (eof \<and> server \<and> \<not> submitted)\<rparr>, s))"

section \<open>Routes and answers\<close>

record TcGrpcRoute =
  rt_path :: TinyString
  rt_handler :: "byte list \<Rightarrow> TcGrpcResponse option"

text \<open>
  What nghttp2 is asked for or given: to reset a stream with a code, to send a response with these headers,
  and the next bytes to send.
\<close>

type_synonym header = "byte list \<times> byte list"

datatype request_nghttp2 = Reset int int | Respond int "header list" | Provide int read_result

definition response_headers :: "header list" where
  "response_headers =
     [(to_bytes '':status'', to_bytes ''200''),
      (to_bytes ''content-type'', to_bytes ''application/grpc'')]"

text \<open>
  A request is complete: the response of its route, or one that says what is wrong. Then the stream, the
  error of the connection, and what nghttp2 is asked for.
\<close>

definition grpc_respond :: "(nat \<Rightarrow> byte list option) \<Rightarrow> TcGrpcRoute list \<Rightarrow> TcGrpcStream \<Rightarrow> TcGrpcResponse option" where
  "grpc_respond malloc routes s =
     (let (status, request) = (if gs_grpc_type s then tc_grpc_unpack (gs_incoming s) else (3, ts_null));
          route = (if status = 0 then find (\<lambda>r. tc_string_equal (rt_path r) (gs_path s)) routes else None);
          status = (if status = 0 \<and> route = None then 12 else status);
          response = (case route of None \<Rightarrow> None | Some r \<Rightarrow> rt_handler r (ts_bytes request))
      in if response = None then tc_grpc_response malloc (ts_of []) (if status \<noteq> 0 then status else 13) else response)"

definition tc_grpc_answer :: "(nat \<Rightarrow> byte list option) \<Rightarrow> TcGrpcRoute list \<Rightarrow> bool \<Rightarrow> TcGrpcStream \<Rightarrow> int \<Rightarrow>
    TcGrpcStream \<times> int \<times> request_nghttp2" where
  "tc_grpc_answer malloc routes submitted s conn_error =
     (case grpc_respond malloc routes s of
        None \<Rightarrow> (s, conn_error, Reset (gs_id s) 2)
      | Some r \<Rightarrow>
          let (failed, out) = tc_grpc_pack malloc (gs_outgoing s) (gr_data r);
              s = (if failed
                   then s\<lparr>gs_status := 8, gs_outgoing := snd (tc_grpc_pack malloc (out\<lparr>gb_length := 0\<rparr>) (ts_of []))\<rparr>
                   else s\<lparr>gs_status := gr_status r, gs_outgoing := out\<rparr>)
          in (s, if submitted then conn_error else 13, Respond (gs_id s) response_headers))"

section \<open>A connection\<close>

text \<open>On the server there are routes, on the client there are none.\<close>

record TcGrpcConnection =
  gc_server :: "TcGrpcRoute list option"
  gc_streams :: "TcGrpcStream list"
  gc_finished :: bool
  gc_error :: int

definition tc_grpc_stream :: "TcGrpcConnection \<Rightarrow> int \<Rightarrow> TcGrpcStream option" where
  "tc_grpc_stream c i = find (\<lambda>s. gs_id s = i) (gc_streams c)"

fun set_stream :: "TcGrpcStream \<Rightarrow> TcGrpcStream list \<Rightarrow> TcGrpcStream list" where
  "set_stream s [] = []"
| "set_stream s (s' # streams) = (if gs_id s' = gs_id s then s # streams else s' # set_stream s streams)"

text \<open>The callbacks: whether they fail, the connection, and what nghttp2 is asked for.\<close>

definition tc_grpc_begin :: "bool \<Rightarrow> bool \<Rightarrow> int \<Rightarrow> TcGrpcConnection \<Rightarrow> bool \<times> TcGrpcConnection" where
  "tc_grpc_begin of_request memory i c =
     (if gc_server c = None \<or> \<not> of_request then (False, c)
      else if \<not> memory then (True, c)
      else (False, c\<lparr>gc_streams := fresh_stream i # gc_streams c\<rparr>))"

definition tc_grpc_header :: "(nat \<Rightarrow> byte list option) \<Rightarrow> int \<Rightarrow> byte list \<Rightarrow> byte list \<Rightarrow> TcGrpcConnection \<Rightarrow> bool \<times> TcGrpcConnection" where
  "tc_grpc_header malloc i name bytes c =
     (case tc_grpc_stream c i of
        None \<Rightarrow> (False, c)
      | Some s \<Rightarrow>
          let (failed, s) = header_field malloc name bytes s
          in (failed, c\<lparr>gc_streams := set_stream s (gc_streams c)\<rparr>))"

definition tc_grpc_data :: "(nat \<Rightarrow> byte list option) \<Rightarrow> int \<Rightarrow> byte list \<Rightarrow> TcGrpcConnection \<Rightarrow> TcGrpcConnection \<times> request_nghttp2 list" where
  "tc_grpc_data malloc i bytes c =
     (case tc_grpc_stream c i of
        None \<Rightarrow> (c, [])
      | Some s \<Rightarrow>
          let (error, b) = tc_grpc_buffer_add malloc (gs_incoming s) bytes;
              s = (if error \<noteq> 0 then s\<lparr>gs_incoming := b, gs_status := 8\<rparr> else s\<lparr>gs_incoming := b\<rparr>)
          in (c\<lparr>gc_streams := set_stream s (gc_streams c)\<rparr>, if error \<noteq> 0 then [Reset i 11] else []))"

definition tc_grpc_frame :: "(nat \<Rightarrow> byte list option) \<Rightarrow> bool \<Rightarrow> bool \<Rightarrow> int \<Rightarrow> TcGrpcConnection \<Rightarrow> TcGrpcConnection \<times> request_nghttp2 list" where
  "tc_grpc_frame malloc end_of_stream submitted i c =
     (case (gc_server c, tc_grpc_stream c i) of
        (Some routes, Some s) \<Rightarrow>
          if end_of_stream then
            let (s, error, asked) = tc_grpc_answer malloc routes submitted s (gc_error c)
            in (c\<lparr>gc_streams := set_stream s (gc_streams c), gc_error := error\<rparr>, [asked])
          else (c, [])
      | _ \<Rightarrow> (c, []))"

fun drop_stream :: "int \<Rightarrow> TcGrpcStream list \<Rightarrow> TcGrpcStream list" where
  "drop_stream i [] = []"
| "drop_stream i (s # streams) = (if gs_id s = i then streams else s # drop_stream i streams)"

definition tc_grpc_closed :: "int \<Rightarrow> bool \<Rightarrow> TcGrpcConnection \<Rightarrow> TcGrpcConnection" where
  "tc_grpc_closed i error c =
     (if gc_server c = None then c\<lparr>gc_finished := True, gc_error := (if error then 13 else gc_error c)\<rparr>
      else c\<lparr>gc_streams := drop_stream i (gc_streams c)\<rparr>)"

section \<open>Sending and receiving\<close>

text \<open>
  The loop that sends one piece: the socket takes some bytes, has no room (and the deadline may have
  passed), or is broken. Then the pieces that nghttp2 hands out, until there is none or an error. \<open>None\<close>:
  the answers have ended and the loop has not.
\<close>

datatype send_answer = Sent nat | No_room bool | Send_failed

fun send_piece :: "send_answer list \<Rightarrow> nat \<Rightarrow> (int \<times> send_answer list) option" where
  "send_piece answers 0 = Some (0, answers)"
| "send_piece [] (Suc left) = None"
| "send_piece (a # answers) (Suc left) =
     (case a of
        Sent n \<Rightarrow> if n = 0 then Some (14, answers) else send_piece answers (Suc left - n)
      | No_room late \<Rightarrow> if late then Some (4, answers) else send_piece answers (Suc left)
      | Send_failed \<Rightarrow> Some (14, answers))"

fun tc_grpc_flush :: "int list \<Rightarrow> send_answer list \<Rightarrow> int option" where
  "tc_grpc_flush [] answers = Some 0"
| "tc_grpc_flush (len # pieces) answers =
     (if len < 0 then Some 13
      else if len = 0 then Some 0
      else case send_piece answers (nat len) of
             None \<Rightarrow> None
           | Some (error, answers) \<Rightarrow> if error \<noteq> 0 then Some error else tc_grpc_flush pieces answers)"

text \<open>
  One round of the exchange: what flushing does (it runs callbacks too), whether the server is stopping
  and the deadline has passed, the answers of waiting and receiving, and what nghttp2 does with the bytes
  that have come.
\<close>

datatype receive_answer =
    Received "TcGrpcConnection \<Rightarrow> bool \<times> TcGrpcConnection"
  | Receive_again
  | Receive_end
  | Receive_failed

record exchange_round =
  er_flush :: "TcGrpcConnection \<Rightarrow> int \<times> TcGrpcConnection"
  er_stopping :: bool
  er_late :: bool
  er_ready :: int
  er_receive :: receive_answer

fun exchange_loop :: "exchange_round list \<Rightarrow> TcGrpcConnection \<Rightarrow> TcGrpcConnection option" where
  "exchange_loop [] c = (if gc_finished c \<or> gc_error c \<noteq> 0 then Some c else None)"
| "exchange_loop (r # rounds) c =
     (if gc_finished c \<or> gc_error c \<noteq> 0 then Some c
      else let (error, c) = er_flush r c; c = c\<lparr>gc_error := error\<rparr>
           in if error \<noteq> 0 then Some c
              else if gc_server c \<noteq> None \<and> er_stopping r then Some c
              else if er_late r then Some (c\<lparr>gc_error := 4\<rparr>)
              else if er_ready r < 0 then Some (c\<lparr>gc_error := 14\<rparr>)
              else if er_ready r = 0 then exchange_loop rounds c
              else case er_receive r of
                     Receive_end \<Rightarrow> Some (if gc_server c = None \<and> \<not> gc_finished c then c\<lparr>gc_error := 14\<rparr> else c)
                   | Receive_again \<Rightarrow> exchange_loop rounds c
                   | Receive_failed \<Rightarrow> Some (c\<lparr>gc_error := 14\<rparr>)
                   | Received receive \<Rightarrow>
                       let (failed, c) = receive c
                       in if failed then Some (c\<lparr>gc_error := 13\<rparr>) else exchange_loop rounds c)"

text \<open>After the loop what is left is flushed once more, unless there was an error; its result is not looked at.\<close>

definition tc_grpc_exchange :: "exchange_round list \<Rightarrow> (TcGrpcConnection \<Rightarrow> int \<times> TcGrpcConnection) \<Rightarrow> TcGrpcConnection \<Rightarrow>
    TcGrpcConnection option" where
  "tc_grpc_exchange rounds flush c =
     map_option (\<lambda>c. if gc_error c = 0 then snd (flush c) else c) (exchange_loop rounds c)"

section \<open>The call\<close>

text \<open>The end of \<open>tc_grpc_call\<close>: what has happened on the connection becomes the response.\<close>

definition call_result :: "(nat \<Rightarrow> byte list option) \<Rightarrow> int \<Rightarrow> TcGrpcStream \<Rightarrow> TcGrpcResponse option" where
  "call_result malloc conn_error s =
     (let error = (if conn_error \<noteq> 0 then conn_error
                   else if gs_http_status s \<noteq> 200 then 14
                   else if \<not> gs_grpc_type s \<or> \<not> gs_have_status s then 2
                   else gs_status s);
          (error, decoded) = (if error = 0 then tc_grpc_unpack (gs_incoming s) else (error, ts_null))
      in tc_grpc_response malloc (if error \<noteq> 0 then ts_of [] else decoded) error)"

text \<open>The deadline: 30 seconds unless given, and never past the largest \<open>uint64_t\<close>.\<close>

definition grpc_deadline :: "nat \<Rightarrow> nat \<Rightarrow> nat" where
  "grpc_deadline now timeout =
     (let timeout = (if timeout = 0 then 30000 else timeout)
      in if timeout > 2 ^ 64 - 1 - now then 2 ^ 64 - 1 else now + timeout)"

definition authority_text :: "byte list \<Rightarrow> int \<Rightarrow> byte list" where
  "authority_text hostname port =
     (if 58 \<in> set hostname then [91] @ hostname @ [93] else hostname) @ to_bytes ('':'' @ show_int port)"

text \<open>The headers of a request.\<close>

definition request_headers :: "byte list \<Rightarrow> byte list \<Rightarrow> header list" where
  "request_headers authority path =
     [(to_bytes '':method'', to_bytes ''POST''),
      (to_bytes '':scheme'', to_bytes ''http''),
      (to_bytes '':authority'', authority),
      (to_bytes '':path'', path),
      (to_bytes ''content-type'', to_bytes ''application/grpc''),
      (to_bytes ''te'', to_bytes ''trailers'')]"

text \<open>
  The answers of the network: the error of connecting, whether the session is made, whether there is
  memory for the stream, the number that nghttp2 gives a request with these headers (negative when it
  refuses), the rounds of the exchange, and the last flush. The other result is \<open>abort\<close>; \<open>None\<close>: the
  rounds have ended and the exchange has not.
\<close>

record network =
  nw_connect :: int
  nw_session :: bool
  nw_memory :: bool
  nw_submit :: "header list \<Rightarrow> int"
  nw_rounds :: "exchange_round list"
  nw_flush :: "TcGrpcConnection \<Rightarrow> int \<times> TcGrpcConnection"

text \<open>The connection of a call has one stream, and nothing takes it away on a client.\<close>

definition call_connection :: "TcGrpcBuffer \<Rightarrow> int \<Rightarrow> TcGrpcConnection" where
  "call_connection out i =
     \<lparr>gc_server = None, gc_streams = [(fresh_stream 0)\<lparr>gs_outgoing := out, gs_id := i\<rparr>], gc_finished = False, gc_error = 0\<rparr>"

definition tc_grpc_call :: "(nat \<Rightarrow> byte list option) \<Rightarrow> network \<Rightarrow> TinyString \<Rightarrow> int \<Rightarrow> TinyString \<Rightarrow> TinyString \<Rightarrow>
    TcGrpcResponse option outcome option" where
  "tc_grpc_call malloc nw host port path request =
     (let answer = (\<lambda>status. Some (Ret (tc_grpc_response malloc (ts_of []) status)))
      in case (tc_cstring malloc host, tc_cstring malloc path) of
           (Some hostname, Some p) \<Rightarrow>
             if c_text p = [] \<or> c_text p ! 0 \<noteq> 47 \<or> ts_length request > TC_GRPC_LIMIT then answer 3
             else if length (authority_text (c_text hostname) port) \<ge> 512 then answer 3
             else if nw_connect nw \<noteq> 0 then answer (nw_connect nw)
             else if \<not> nw_session nw then answer 13
             else if \<not> nw_memory nw then Some (Panic ''abort'')
             else
               let (failed, out) = tc_grpc_pack malloc gb_empty request
               in if failed then answer 8
                  else
                    let i = nw_submit nw (request_headers (authority_text (c_text hostname) port) (c_text p));
                        c = call_connection out i
                    in case (if i < 0 then Some (c\<lparr>gc_error := 13\<rparr>) else tc_grpc_exchange (nw_rounds nw) (nw_flush nw) c) of
                         None \<Rightarrow> None
                       | Some c \<Rightarrow>
                           (case gc_streams c of
                              [] \<Rightarrow> None
                            | s # rest \<Rightarrow> Some (Ret (call_result malloc (gc_error c) s)))
         | _ \<Rightarrow> answer 3)"

section \<open>Routes of a server\<close>

definition tc_grpc_server_add :: "(nat \<Rightarrow> byte list option) \<Rightarrow> bool \<Rightarrow> TinyString \<Rightarrow> (byte list \<Rightarrow> TcGrpcResponse option) option \<Rightarrow>
    TcGrpcRoute list \<Rightarrow> int \<times> TcGrpcRoute list" where
  "tc_grpc_server_add malloc running path handler routes =
     (case handler of
        None \<Rightarrow> (1, routes)
      | Some h \<Rightarrow>
          if ts_length path = 0 \<or> ts_bytes path ! 0 \<noteq> 47 \<or> ts_length path > 4096 \<or> running then (1, routes)
          else if find (\<lambda>r. tc_string_equal (rt_path r) path) routes \<noteq> None then (2, routes)
          else if malloc 40 = None then (8, routes)
          else let copy = tc_string_copy malloc path
               in if ts_data copy = None then (8, routes)
                  else (0, \<lparr>rt_path = copy, rt_handler = h\<rparr> # routes))"

section \<open>Serving\<close>

text \<open>
  One round of the loop that accepts connections: how many jobs of the pool have ended since, whether the
  server is stopping, the answers of waiting and accepting, memory, and whether the pool takes the job.
  The state: connections that are being served, and how many have been taken. Jobs may end between any two
  rounds.
\<close>

record serve_round =
  sv_ended :: nat
  sv_stopping :: bool
  sv_ready :: int
  sv_accept :: int
  sv_memory :: bool
  sv_submit :: bool

fun serve_loop :: "int \<Rightarrow> serve_round list \<Rightarrow> nat \<Rightarrow> int \<Rightarrow> int option \<times> (nat \<times> int) list" where
  "serve_loop maximum [] active count = (None, [(active, count)])"
| "serve_loop maximum (r # rounds) active count =
     (let active = active - sv_ended r; next_round = serve_loop maximum rounds;
          stop = (\<lambda>error. (Some error, [(active, count)]));
          go = (\<lambda>active' count'. case next_round active' count' of (e, trace) \<Rightarrow> (e, (active, count) # trace))
      in if sv_stopping r \<or> \<not> (maximum \<le> 0 \<or> count < maximum) then stop 0
         else if sv_ready r < 0 then stop 14
         else if sv_ready r = 0 then go active count
         else if sv_accept r \<noteq> 0 then stop 14
         else if active \<ge> 32 then go active count
         else if \<not> sv_memory r then stop 8
         else if \<not> sv_submit r then stop 8
         else go (active + 1) (count + 1))"

text \<open>Only one thread serves; the others are told 1.\<close>

definition tc_grpc_server_serve :: "int \<Rightarrow> bool \<Rightarrow> int \<Rightarrow> serve_round list \<Rightarrow> int option \<times> (nat \<times> int) list" where
  "tc_grpc_server_serve running pool maximum rounds =
     (if running \<noteq> 0 then (Some 1, [])
      else if \<not> pool then (Some 8, [])
      else serve_loop maximum rounds 0 0)"

section \<open>Buffers stay in their blocks\<close>

definition gb_ok :: "TcGrpcBuffer \<Rightarrow> bool" where
  "gb_ok b \<longleftrightarrow> gb_length b \<le> length (gb_data b) \<and> gb_length b \<le> TC_GRPC_LIMIT + 5"

lemma gb_empty_ok [simp]: "gb_ok gb_empty" "gb_bytes gb_empty = []" "gb_length gb_empty = 0"
  by (simp_all add: gb_ok_def gb_empty_def gb_bytes_def)

lemma gb_reset_ok: "gb_ok b \<Longrightarrow> gb_ok (b\<lparr>gb_length := 0\<rparr>)"
  by (simp add: gb_ok_def)

lemma length_gb_bytes: "gb_ok b \<Longrightarrow> length (gb_bytes b) = gb_length b"
  by (simp add: gb_ok_def gb_bytes_def)

lemma buffer_add_cases:
  assumes m: "malloc_ok malloc" and ok: "gb_ok b" and add: "tc_grpc_buffer_add malloc b bytes = (e, b')"
  shows "if e = 0 then gb_ok b' \<and> gb_bytes b' = gb_bytes b @ bytes \<and> gb_length b' = gb_length b + length bytes else b' = b"
    and "(\<forall>n. malloc n \<noteq> None) \<Longrightarrow> e = 0 \<longleftrightarrow> gb_length b + length bytes \<le> TC_GRPC_LIMIT + 5"
proof -
  define need where "need = gb_length b + length bytes"
  define target where "target = double_until (if length (gb_data b) \<noteq> 0 then length (gb_data b) else 256) need"
  define block where "block = (if need > length (gb_data b) then realloc malloc (gb_data b) target else Some (gb_data b))"
  have b: "gb_length b \<le> length (gb_data b)" "gb_length b \<le> TC_GRPC_LIMIT + 5" using ok by (simp_all add: gb_ok_def)
  have step: "tc_grpc_buffer_add malloc b bytes = (if length bytes > TC_GRPC_LIMIT + 5 - gb_length b then (- 1, b)
      else case block of None \<Rightarrow> (- 1, b) | Some p \<Rightarrow> (0, \<lparr>gb_data = blit (gb_length b) bytes p, gb_length = need\<rparr>))"
    by (simp only: tc_grpc_buffer_add_def Let_def need_def target_def block_def usub_le [OF b(2)])
  have p: "need \<le> length p" "take (gb_length b) p = gb_bytes b" if "block = Some p" for p
  proof -
    have "need \<le> target" using double_until_ge by (simp add: target_def)
    then have "need \<le> length p \<and> take (gb_length b) p = gb_bytes b"
      using that realloc_Some [OF m, of "gb_data b" target p] b(1)
      by (auto simp: block_def gb_bytes_def need_def split: if_splits)
    then show "need \<le> length p" "take (gb_length b) p = gb_bytes b" by simp_all
  qed
  show "if e = 0 then gb_ok b' \<and> gb_bytes b' = gb_bytes b @ bytes \<and> gb_length b' = gb_length b + length bytes else b' = b"
    using add b(2) p unfolding step need_def by (auto simp: gb_ok_def gb_bytes_def split: if_splits option.splits)
  show "e = 0 \<longleftrightarrow> gb_length b + length bytes \<le> TC_GRPC_LIMIT + 5" if total: "\<forall>n. malloc n \<noteq> None"
  proof -
    obtain q where "malloc target = Some q" using total by blast
    then have "block \<noteq> None" by (simp add: block_def realloc_def)
    then show ?thesis using add b(2) unfolding step by (auto split: if_splits option.splits)
  qed
qed

section \<open>Messages\<close>

lemma grpc_size_prefix: "grpc_size (grpc_prefix sz @ xs) = sz"
proof (rule bit_word_eqI)
  fix n assume n: "n < LENGTH(32)"
  then consider "n < 8" | "8 \<le> n" "n < 16" | "16 \<le> n" "n < 24" | "24 \<le> n" "n < 32" by force
  then show "bit (grpc_size (grpc_prefix sz @ xs)) n = bit sz n"
    by cases (auto simp: grpc_size_def grpc_prefix_def bit_simps)
qed

lemma length_grpc_prefix [simp]: "length (grpc_prefix sz) = 5"
  by (simp add: grpc_prefix_def)

lemma pack_cases:
  assumes m: "malloc_ok malloc" and b: "gb_ok b" "gb_length b = 0" and d: "ts_wf data" and pack: "tc_grpc_pack malloc b data = (failed, b')"
  shows "gb_ok b' \<and> (\<not> failed \<longrightarrow> ts_length data \<le> TC_GRPC_LIMIT \<and> gb_bytes b' = grpc_prefix (of_nat (ts_length data)) @ ts_bytes data)"
    and "(\<forall>n. malloc n \<noteq> None) \<Longrightarrow> failed \<longleftrightarrow> ts_length data > TC_GRPC_LIMIT"
proof -
  let ?p = "grpc_prefix (of_nat (ts_length data))"
  obtain e1 b1 where a1: "tc_grpc_buffer_add malloc b ?p = (e1, b1)" by force
  obtain e2 b2 where a2: "tc_grpc_buffer_add malloc b1 (ts_bytes data) = (e2, b2)" by force
  have empty: "gb_bytes b = []" using b by (simp add: gb_bytes_def)
  note c1 = buffer_add_cases [OF m b(1) a1]
  have ok1: "gb_ok b1" using c1(1) b(1) by (auto split: if_splits)
  note c2 = buffer_add_cases [OF m ok1 a2]
  have step: "(failed, b') = (if ts_length data > TC_GRPC_LIMIT then (True, b) else if e1 \<noteq> 0 then (True, b1) else (e2 \<noteq> 0, b2))"
    unfolding pack [symmetric] tc_grpc_pack_def a1 by (simp add: a2)
  show "gb_ok b' \<and> (\<not> failed \<longrightarrow> ts_length data \<le> TC_GRPC_LIMIT \<and> gb_bytes b' = ?p @ ts_bytes data)"
    using step c1(1) c2(1) ok1 b empty by (auto split: if_splits)
  show "failed \<longleftrightarrow> ts_length data > TC_GRPC_LIMIT" if total: "\<forall>n. malloc n \<noteq> None"
    using step c1(1) c1(2) [OF total] c2(2) [OF total] d b by (auto split: if_splits)
qed

lemma unpack_message:
  assumes "gb_bytes b = grpc_prefix (of_nat (length bytes)) @ bytes" "gb_ok b" "length bytes \<le> TC_GRPC_LIMIT"
  shows "fst (tc_grpc_unpack b) = 0 \<and> ts_bytes (snd (tc_grpc_unpack b)) = bytes \<and> ts_wf (snd (tc_grpc_unpack b))
    \<and> ts_length (snd (tc_grpc_unpack b)) = length bytes \<and> ts_data (snd (tc_grpc_unpack b)) \<noteq> None"
proof -
  have len: "gb_length b = length bytes + 5" using length_gb_bytes [OF assms(2)] assms(1) by simp
  have data: "gb_data b = (grpc_prefix (of_nat (length bytes)) @ bytes) @ drop (gb_length b) (gb_data b)"
    by (metis append_take_drop_id assms(1) gb_bytes_def)
  have small: "unat (of_nat (length bytes) :: u32) = length bytes"
  proof -
    have "length bytes < 2 ^ 32" using assms(3) by (simp add: TC_GRPC_LIMIT_def)
    then show ?thesis by (simp only: unat_of_nat take_bit_eq_mod) simp
  qed
  have size: "grpc_size (gb_data b) = of_nat (length bytes)"
    by (subst data) (simp only: append_assoc grpc_size_prefix)
  have zero: "gb_data b ! 0 = 0" by (subst data) (simp add: grpc_prefix_def)
  have rest: "take (length bytes) (drop 5 (gb_data b)) = bytes" by (subst data) simp
  have "length bytes \<le> length (gb_data b) - 5" using assms(2) len unfolding gb_ok_def by arith
  then show ?thesis using len size zero rest small assms(3)
    by (simp add: tc_grpc_unpack_def Let_def ts_bytes_def ts_wf_def)
qed

section \<open>Streams do not disturb each other\<close>

text \<open>
  What nghttp2 reports or asks for, with the answers that the callback gets; and what it is asked for in
  turn.
\<close>

datatype callback =
    Begin_headers int bool bool
  | Header_field int "byte list" "byte list"
  | Data_chunk int "byte list"
  | Frame_received int bool bool
  | Stream_closed int bool
  | Read_data int nat

fun about :: "callback \<Rightarrow> int" where
  "about (Begin_headers i of_request memory) = i"
| "about (Header_field i name bytes) = i"
| "about (Data_chunk i bytes) = i"
| "about (Frame_received i end_of_stream submitted) = i"
| "about (Stream_closed i error) = i"
| "about (Read_data i capacity) = i"

definition read_stream :: "int \<Rightarrow> nat \<Rightarrow> TcGrpcConnection \<Rightarrow> TcGrpcConnection \<times> request_nghttp2 list" where
  "read_stream i capacity c =
     (case tc_grpc_stream c i of
        None \<Rightarrow> (c, [])
      | Some s \<Rightarrow>
          let (r, s) = tc_grpc_read_data (gc_server c \<noteq> None) True capacity s
          in (c\<lparr>gc_streams := set_stream s (gc_streams c)\<rparr>, [Provide i r]))"

fun run_callback :: "(nat \<Rightarrow> byte list option) \<Rightarrow> callback \<Rightarrow> TcGrpcConnection \<Rightarrow> TcGrpcConnection" where
  "run_callback malloc (Begin_headers i of_request memory) c = snd (tc_grpc_begin of_request memory i c)"
| "run_callback malloc (Header_field i name bytes) c = snd (tc_grpc_header malloc i name bytes c)"
| "run_callback malloc (Data_chunk i bytes) c = fst (tc_grpc_data malloc i bytes c)"
| "run_callback malloc (Frame_received i end_of_stream submitted) c = fst (tc_grpc_frame malloc end_of_stream submitted i c)"
| "run_callback malloc (Stream_closed i error) c = tc_grpc_closed i error c"
| "run_callback malloc (Read_data i capacity) c = fst (read_stream i capacity c)"

fun asked_by :: "(nat \<Rightarrow> byte list option) \<Rightarrow> callback \<Rightarrow> TcGrpcConnection \<Rightarrow> request_nghttp2 list" where
  "asked_by malloc (Data_chunk i bytes) c = snd (tc_grpc_data malloc i bytes c)"
| "asked_by malloc (Frame_received i end_of_stream submitted) c = snd (tc_grpc_frame malloc end_of_stream submitted i c)"
| "asked_by malloc (Read_data i capacity) c = snd (read_stream i capacity c)"
| "asked_by malloc e c = []"

definition run_callbacks :: "(nat \<Rightarrow> byte list option) \<Rightarrow> callback list \<Rightarrow> TcGrpcConnection \<Rightarrow> TcGrpcConnection" where
  "run_callbacks malloc = fold (run_callback malloc)"

fun all_asked :: "(nat \<Rightarrow> byte list option) \<Rightarrow> callback list \<Rightarrow> TcGrpcConnection \<Rightarrow> request_nghttp2 list" where
  "all_asked malloc [] c = []"
| "all_asked malloc (e # es) c = asked_by malloc e c @ all_asked malloc es (run_callback malloc e c)"

text \<open>Of this, the headers of the responses on a stream, and what was given to send on it.\<close>

fun responded :: "int \<Rightarrow> request_nghttp2 list \<Rightarrow> header list list" where
  "responded i [] = []"
| "responded i (Respond j headers # asked) = (if j = i then [headers] else []) @ responded i asked"
| "responded i (_ # asked) = responded i asked"

fun provided :: "int \<Rightarrow> request_nghttp2 list \<Rightarrow> read_result list" where
  "provided i [] = []"
| "provided i (Provide j r # asked) = (if j = i then [r] else []) @ provided i asked"
| "provided i (_ # asked) = provided i asked"

lemma asked_append [simp]:
  "responded i (as @ bs) = responded i as @ responded i bs"
  "provided i (as @ bs) = provided i as @ provided i bs"
proof -
  show "responded i (as @ bs) = responded i as @ responded i bs" by (induction i as rule: responded.induct) simp_all
  show "provided i (as @ bs) = provided i as @ provided i bs" by (induction i as rule: provided.induct) simp_all
qed

text \<open>The streams with a number: there is at most one, but the proofs need not know.\<close>

definition streams_at :: "int \<Rightarrow> TcGrpcConnection \<Rightarrow> TcGrpcStream list" where
  "streams_at i c = filter (\<lambda>s. gs_id s = i) (gc_streams c)"

lemma stream_at: "tc_grpc_stream c i = (case streams_at i c of [] \<Rightarrow> None | s # rest \<Rightarrow> Some s)"
proof -
  have "find P xs = (case filter P xs of [] \<Rightarrow> None | s # rest \<Rightarrow> Some s)" for P and xs :: "TcGrpcStream list"
    by (induction xs) simp_all
  then show ?thesis by (simp add: tc_grpc_stream_def streams_at_def)
qed

lemma stream_id: "tc_grpc_stream c i = Some s \<Longrightarrow> gs_id s = i"
  by (auto simp: tc_grpc_stream_def find_Some_iff)

lemma filter_set_stream:
  "filter (\<lambda>s. gs_id s = i) (set_stream s xs) = (if gs_id s = i then set_stream s (filter (\<lambda>s. gs_id s = i) xs) else filter (\<lambda>s. gs_id s = i) xs)"
  by (induction xs) auto

lemma filter_drop_stream:
  "filter (\<lambda>s. gs_id s = i) (drop_stream j xs) = (if j = i then drop_stream j (filter (\<lambda>s. gs_id s = i) xs) else filter (\<lambda>s. gs_id s = i) xs)"
  by (induction xs) auto

lemma header_field_id [simp]: "header_field malloc name bytes s = (failed, s') \<Longrightarrow> gs_id s' = gs_id s"
  by (auto simp: header_field_def Let_def split: if_splits)

lemma answer_error: "fst (tc_grpc_answer malloc routes submitted s e) = fst (tc_grpc_answer malloc routes submitted s e')"
  by (simp add: tc_grpc_answer_def Let_def split: prod.split option.split)

lemma frame_streams:
  "gc_streams (fst (tc_grpc_frame malloc f g i c)) = (case (gc_server c, tc_grpc_stream c i) of
     (Some routes, Some s) \<Rightarrow> if f then set_stream (fst (tc_grpc_answer malloc routes g s 0)) (gc_streams c) else gc_streams c
   | _ \<Rightarrow> gc_streams c)"
proof (cases "gc_server c = None \<or> tc_grpc_stream c i = None \<or> \<not> f")
  case False
  then obtain routes s where s: "gc_server c = Some routes" "tc_grpc_stream c i = Some s" "f" by auto
  obtain s' e asked where a: "tc_grpc_answer malloc routes g s (gc_error c) = (s', e, asked)" by (rule prod_cases3)
  have "fst (tc_grpc_answer malloc routes g s 0) = s'" using answer_error [of malloc routes g s 0 "gc_error c"] a by simp
  then show ?thesis using s a by (simp add: tc_grpc_frame_def)
qed (auto simp: tc_grpc_frame_def split: option.split)

lemma answer_id [simp]: "gs_id (fst (tc_grpc_answer malloc routes submitted s e)) = gs_id s"
  by (auto simp: tc_grpc_answer_def Let_def split: prod.splits option.splits)

text \<open>
  A callback for one stream leaves the others alone, and what it does with its own depends on nothing else
  of the connection than the routes.
\<close>

lemma callback_server [simp]: "gc_server (run_callback malloc e c) = gc_server c"
  by (cases e) (auto simp: tc_grpc_begin_def tc_grpc_header_def tc_grpc_data_def tc_grpc_frame_def tc_grpc_closed_def
    read_stream_def Let_def split: option.split prod.split)

lemma read_data_id: "tc_grpc_read_data server submitted capacity s = (r, s') \<Longrightarrow> gs_id s' = gs_id s"
  by (auto simp: tc_grpc_read_data_def Let_def)

lemma callback_other:
  assumes "about e \<noteq> i"
  shows "streams_at i (run_callback malloc e c) = streams_at i c"
proof (cases e)
  case (Header_field j name bytes)
  then show ?thesis using assms
    by (auto simp: tc_grpc_header_def streams_at_def filter_set_stream dest: stream_id header_field_id split: option.split prod.split)
next
  case (Data_chunk j bytes)
  then show ?thesis using assms
    by (auto simp: tc_grpc_data_def Let_def streams_at_def filter_set_stream dest: stream_id split: option.split prod.split)
next
  case (Frame_received j f g)
  then show ?thesis using assms
    by (auto simp: frame_streams streams_at_def filter_set_stream dest: stream_id split: option.split)
next
  case (Read_data j n)
  show ?thesis
  proof (cases "tc_grpc_stream c j")
    case (Some s)
    obtain r s' where r: "tc_grpc_read_data (gc_server c \<noteq> None) True n s = (r, s')" by force
    have "gs_id s' = j" using read_data_id [OF r] stream_id [OF Some] by simp
    then show ?thesis using assms Read_data Some r by (simp add: read_stream_def streams_at_def filter_set_stream)
  qed (simp add: Read_data read_stream_def)
qed (use assms in \<open>auto simp: tc_grpc_begin_def tc_grpc_closed_def fresh_stream_def streams_at_def filter_drop_stream\<close>)

lemma callback_same:
  assumes same: "streams_at i c = streams_at i c'" and server: "gc_server c = gc_server c'" and i: "about e = i"
  shows "streams_at i (run_callback malloc e c) = streams_at i (run_callback malloc e c')"
proof -
  have stream: "tc_grpc_stream c i = tc_grpc_stream c' i" by (simp add: stream_at same)
  have all: "filter (\<lambda>s. gs_id s = i) (gc_streams c) = filter (\<lambda>s. gs_id s = i) (gc_streams c')"
    using same by (simp add: streams_at_def)
  show ?thesis
  proof (cases e)
    case (Header_field j name bytes)
    then show ?thesis using stream all i
      by (auto simp: tc_grpc_header_def streams_at_def filter_set_stream split: option.split prod.split)
  next
    case (Data_chunk j bytes)
    then show ?thesis using stream all i
      by (auto simp: tc_grpc_data_def Let_def streams_at_def filter_set_stream split: option.split prod.split)
  next
    case (Frame_received j f g)
    then show ?thesis using stream all i server by (simp add: frame_streams streams_at_def filter_set_stream split: option.split)
  next
    case (Read_data j n)
    then show ?thesis using stream all i server
      by (auto simp: read_stream_def streams_at_def filter_set_stream split: option.split prod.split)
  qed (use all i server in \<open>auto simp: tc_grpc_begin_def tc_grpc_closed_def streams_at_def filter_drop_stream\<close>)
qed

lemma run_server: "gc_server (run_callbacks malloc es c) = gc_server c"
  by (induction es arbitrary: c) (simp_all add: run_callbacks_def)

text \<open>What is asked for on a stream depends on the stream only as well.\<close>

lemma asked_other:
  "about e \<noteq> i \<Longrightarrow> responded i (asked_by malloc e c) = [] \<and> provided i (asked_by malloc e c) = []"
proof (cases e)
  case (Frame_received j f g)
  assume "about e \<noteq> i"
  then have "j \<noteq> i" using Frame_received by simp
  then show ?thesis unfolding Frame_received
    by (auto simp: tc_grpc_frame_def tc_grpc_answer_def Let_def dest!: stream_id split: option.split prod.split)
qed (auto simp: tc_grpc_data_def read_stream_def Let_def split: option.split prod.split)

lemma asked_same:
  assumes same: "streams_at i c = streams_at i c'" and server: "gc_server c = gc_server c'" and i: "about e = i"
  shows "asked_by malloc e c = asked_by malloc e c'"
proof -
  have stream: "tc_grpc_stream c i = tc_grpc_stream c' i" by (simp add: stream_at same)
  show ?thesis
  proof (cases e)
    case (Frame_received j f g)
    have "snd (snd (tc_grpc_answer malloc routes g s a)) = snd (snd (tc_grpc_answer malloc routes g s b))" for routes s a b
      by (simp add: tc_grpc_answer_def Let_def split: option.split prod.split)
    then show ?thesis using stream server i Frame_received
      by (auto simp: tc_grpc_frame_def split: option.split prod.splits) (metis snd_conv)
  qed (use stream server i in \<open>auto simp: tc_grpc_data_def read_stream_def Let_def split: option.split prod.split\<close>)
qed

lemma streams_alone:
  "tc_grpc_stream (run_callbacks malloc es c) i = tc_grpc_stream (run_callbacks malloc (filter (\<lambda>e. about e = i) es) c) i"
  "responded i (all_asked malloc es c) = responded i (all_asked malloc (filter (\<lambda>e. about e = i) es) c)"
  "provided i (all_asked malloc es c) = provided i (all_asked malloc (filter (\<lambda>e. about e = i) es) c)"
proof -
  have "streams_at i (run_callbacks malloc es c) = streams_at i (run_callbacks malloc (filter (\<lambda>e. about e = i) es) c')
      \<and> responded i (all_asked malloc es c) = responded i (all_asked malloc (filter (\<lambda>e. about e = i) es) c')
      \<and> provided i (all_asked malloc es c) = provided i (all_asked malloc (filter (\<lambda>e. about e = i) es) c')"
    if "streams_at i c = streams_at i c'" "gc_server c = gc_server c'" for c c'
    using that
  proof (induction es arbitrary: c c')
    case (Cons e es)
    show ?case
    proof (cases "about e = i")
      case True
      then show ?thesis
        using Cons.IH [OF callback_same [OF Cons.prems True, of malloc]] asked_same [OF Cons.prems True, of malloc] Cons.prems(2)
        by (simp add: run_callbacks_def)
    next
      case False
      then show ?thesis using Cons.IH [of "run_callback malloc e c" c'] callback_other [OF False, of malloc c] asked_other [OF False, of malloc c] Cons.prems
        by (simp add: run_callbacks_def)
    qed
  qed (simp add: run_callbacks_def)
  from this [OF refl refl]
  show "tc_grpc_stream (run_callbacks malloc es c) i = tc_grpc_stream (run_callbacks malloc (filter (\<lambda>e. about e = i) es) c) i"
    "responded i (all_asked malloc es c) = responded i (all_asked malloc (filter (\<lambda>e. about e = i) es) c)"
    "provided i (all_asked malloc es c) = provided i (all_asked malloc (filter (\<lambda>e. about e = i) es) c)"
    by (simp_all add: stream_at)
qed

text \<open>
  Some callbacks only notice: frames that do not end a stream (the one of the headers, the settings, the
  windows), everything about frames and the start of headers on a client, and the start of trailers.
\<close>

fun notice :: "bool \<Rightarrow> callback \<Rightarrow> bool" where
  "notice server (Begin_headers i of_request memory) = (\<not> server \<or> \<not> of_request)"
| "notice server (Frame_received i end_of_stream submitted) = (\<not> server \<or> \<not> end_of_stream)"
| "notice server e = False"

lemma notice_only:
  "notice (gc_server c \<noteq> None) e \<Longrightarrow> run_callback malloc e c = c \<and> asked_by malloc e c = []"
  by (cases e) (auto simp: tc_grpc_begin_def tc_grpc_frame_def split: option.split)

lemma without_notices:
  assumes "server = (gc_server c \<noteq> None)"
  shows "run_callbacks malloc (filter (\<lambda>e. \<not> notice server e) es) c = run_callbacks malloc es c"
    and "all_asked malloc (filter (\<lambda>e. \<not> notice server e) es) c = all_asked malloc es c"
proof -
  have "run_callbacks malloc (filter (\<lambda>e. \<not> notice server e) es) c = run_callbacks malloc es c
    \<and> all_asked malloc (filter (\<lambda>e. \<not> notice server e) es) c = all_asked malloc es c"
    using assms
  proof (induction es arbitrary: c)
    case (Cons e es)
    then show ?case using notice_only [of c e malloc] Cons.IH [of "run_callback malloc e c"] Cons.IH [of c] by (simp add: run_callbacks_def)
  qed (simp add: run_callbacks_def)
  then show "run_callbacks malloc (filter (\<lambda>e. \<not> notice server e) es) c = run_callbacks malloc es c"
    and "all_asked malloc (filter (\<lambda>e. \<not> notice server e) es) c = all_asked malloc es c" by simp_all
qed

section \<open>A call and its answer\<close>

lemma stream_set [simp]:
  "tc_grpc_stream c i = Some s0 \<Longrightarrow> gs_id s = i \<Longrightarrow> find (\<lambda>s. gs_id s = i) (set_stream s (gc_streams c)) = Some s"
proof -
  have "find (\<lambda>s. gs_id s = i) xs = Some s0 \<Longrightarrow> gs_id s = i \<Longrightarrow> find (\<lambda>s. gs_id s = i) (set_stream s xs) = Some s" for xs
    by (induction xs) (auto split: if_splits)
  then show "tc_grpc_stream c i = Some s0 \<Longrightarrow> gs_id s = i \<Longrightarrow> find (\<lambda>s. gs_id s = i) (set_stream s (gc_streams c)) = Some s"
    by (simp add: tc_grpc_stream_def)
qed

lemma run_append: "run_callbacks malloc (es @ es') c = run_callbacks malloc es' (run_callbacks malloc es c)"
  by (simp add: run_callbacks_def)

lemma run_Cons: "run_callbacks malloc (e # es) c = run_callbacks malloc es (run_callback malloc e c)"
  by (simp add: run_callbacks_def)

lemma run_Nil [simp]: "run_callbacks malloc [] c = c"
  by (simp add: run_callbacks_def)

lemma all_asked_append: "all_asked malloc (es @ es') c = all_asked malloc es c @ all_asked malloc es' (run_callbacks malloc es c)"
  by (induction es arbitrary: c) (simp_all add: run_Cons)

text \<open>What each callback does to its stream.\<close>

lemma run_header:
  assumes "tc_grpc_stream c i = Some s"
  shows "tc_grpc_stream (run_callback malloc (Header_field i name bytes) c) i = Some (snd (header_field malloc name bytes s))"
    and "gc_error (run_callback malloc (Header_field i name bytes) c) = gc_error c"
proof -
  obtain failed s' where h: "header_field malloc name bytes s = (failed, s')" by force
  have "gs_id s' = i" using header_field_id [OF h] stream_id [OF assms] by simp
  then show "tc_grpc_stream (run_callback malloc (Header_field i name bytes) c) i = Some (snd (header_field malloc name bytes s))"
    using assms h stream_set [OF assms, of s'] by (simp add: tc_grpc_header_def tc_grpc_stream_def)
  show "gc_error (run_callback malloc (Header_field i name bytes) c) = gc_error c"
    by (simp add: tc_grpc_header_def split: option.split prod.split)
qed

definition header_events :: "int \<Rightarrow> header list \<Rightarrow> callback list" where
  "header_events i hs = map (\<lambda>(name, bytes). Header_field i name bytes) hs"

definition headers_told :: "(nat \<Rightarrow> byte list option) \<Rightarrow> header list \<Rightarrow> TcGrpcStream \<Rightarrow> TcGrpcStream" where
  "headers_told malloc = fold (\<lambda>(name, bytes) s. snd (header_field malloc name bytes s))"

lemma run_headers:
  "tc_grpc_stream c i = Some s \<Longrightarrow>
    tc_grpc_stream (run_callbacks malloc (header_events i hs) c) i = Some (headers_told malloc hs s)
    \<and> gc_error (run_callbacks malloc (header_events i hs) c) = gc_error c \<and> all_asked malloc (header_events i hs) c = []"
proof (induction hs arbitrary: c s)
  case (Cons h hs)
  obtain name bytes where h: "h = (name, bytes)" by force
  show ?case using Cons.IH [OF run_header(1) [OF Cons.prems]] run_header(2) [OF Cons.prems]
    unfolding h by (simp add: header_events_def headers_told_def run_Cons del: run_callback.simps)
qed (simp add: header_events_def headers_told_def)

lemma run_begin:
  "gc_server c = Some routes \<Longrightarrow> tc_grpc_stream (run_callback malloc (Begin_headers i True True) c) i = Some (fresh_stream i)"
  by (simp add: tc_grpc_begin_def tc_grpc_stream_def fresh_stream_def)

lemma run_frame:
  assumes "gc_server c = Some routes" "tc_grpc_stream c i = Some s"
  shows "tc_grpc_stream (run_callback malloc (Frame_received i True True) c) i = Some (fst (tc_grpc_answer malloc routes True s 0))"
    and "asked_by malloc (Frame_received i True True) c = [snd (snd (tc_grpc_answer malloc routes True s (gc_error c)))]"
proof -
  show "tc_grpc_stream (run_callback malloc (Frame_received i True True) c) i = Some (fst (tc_grpc_answer malloc routes True s 0))"
    using assms stream_set [OF assms(2)] stream_id [OF assms(2)] unfolding tc_grpc_stream_def
    by (simp add: frame_streams tc_grpc_stream_def)
  show "asked_by malloc (Frame_received i True True) c = [snd (snd (tc_grpc_answer malloc routes True s (gc_error c)))]"
    using assms by (simp add: tc_grpc_frame_def split: prod.split)
qed

lemma run_data:
  assumes m: "malloc_ok malloc" "\<forall>n. malloc n \<noteq> None"
  shows "tc_grpc_stream c i = Some s \<Longrightarrow> gb_ok (gs_incoming s) \<Longrightarrow> gb_length (gs_incoming s) + length (concat chunks) \<le> TC_GRPC_LIMIT + 5 \<Longrightarrow>
    \<exists>b. tc_grpc_stream (run_callbacks malloc (map (Data_chunk i) chunks) c) i = Some (s\<lparr>gs_incoming := b\<rparr>)
      \<and> gb_ok b \<and> gb_bytes b = gb_bytes (gs_incoming s) @ concat chunks
      \<and> gc_error (run_callbacks malloc (map (Data_chunk i) chunks) c) = gc_error c
      \<and> all_asked malloc (map (Data_chunk i) chunks) c = []"
proof (induction chunks arbitrary: c s)
  case Nil
  then show ?case by (intro exI [of _ "gs_incoming s"]) simp
next
  case (Cons chunk chunks)
  obtain e b where add: "tc_grpc_buffer_add malloc (gs_incoming s) chunk = (e, b)" by force
  have "e = 0" using buffer_add_cases(2) [OF m(1) Cons.prems(2) add m(2)] Cons.prems(3) by simp
  then have b: "gb_ok b" "gb_bytes b = gb_bytes (gs_incoming s) @ chunk" "gb_length b = gb_length (gs_incoming s) + length chunk"
    using buffer_add_cases(1) [OF m(1) Cons.prems(2) add] by simp_all
  let ?c = "run_callback malloc (Data_chunk i chunk) c"
  have c: "tc_grpc_stream ?c i = Some (s\<lparr>gs_incoming := b\<rparr>)" "gc_error ?c = gc_error c" "asked_by malloc (Data_chunk i chunk) c = []"
    using Cons.prems(1) add \<open>e = 0\<close> stream_set [OF Cons.prems(1), of "s\<lparr>gs_incoming := b\<rparr>"] stream_id [OF Cons.prems(1)]
    by (simp_all add: tc_grpc_data_def tc_grpc_stream_def)
  show ?case using Cons.IH [OF c(1)] b Cons.prems(3) c(2,3) by (auto simp: run_Cons simp del: run_callback.simps asked_by.simps)
qed

text \<open>Reading: what is provided are the outgoing bytes in order, and after the last of them the trailer.\<close>

lemma read_data_cases:
  assumes "gb_ok (gs_outgoing s)" "gs_sent s \<le> gb_length (gs_outgoing s)" "tc_grpc_read_data server True capacity s = (r, s')"
  shows "s' = s\<lparr>gs_sent := gs_sent s + min (gb_length (gs_outgoing s) - gs_sent s) capacity\<rparr>"
    "rr_bytes r @ drop (gs_sent s') (gb_bytes (gs_outgoing s)) = drop (gs_sent s) (gb_bytes (gs_outgoing s))"
    "rr_eof r \<longleftrightarrow> gs_sent s' = gb_length (gs_outgoing s)"
    "rr_eof r \<Longrightarrow> rr_trailer r = (if server then Some (to_bytes (show_int (gs_status s))) else None)"
proof -
  define n where "n = min (gb_length (gs_outgoing s) - gs_sent s) capacity"
  have r: "s' = s\<lparr>gs_sent := gs_sent s + n\<rparr>" "rr_bytes r = take n (drop (gs_sent s) (gb_data (gs_outgoing s)))"
    "rr_eof r \<longleftrightarrow> gs_sent s + n = gb_length (gs_outgoing s)"
    "rr_trailer r = (if gs_sent s + n = gb_length (gs_outgoing s) \<and> server then Some (to_bytes (show_int (gs_status s))) else None)"
    using assms(3) by (auto simp: tc_grpc_read_data_def Let_def n_def)
  have inside: "take n (drop (gs_sent s) (gb_data (gs_outgoing s))) = take n (drop (gs_sent s) (gb_bytes (gs_outgoing s)))"
    by (simp add: gb_bytes_def drop_take n_def)
  have cut: "take n (drop k xs) @ drop (k + n) xs = drop k xs" for k and xs :: "byte list"
    by (metis append_take_drop_id drop_drop add.commute)
  show "s' = s\<lparr>gs_sent := gs_sent s + min (gb_length (gs_outgoing s) - gs_sent s) capacity\<rparr>"
    by (simp add: r(1) n_def)
  show "rr_bytes r @ drop (gs_sent s') (gb_bytes (gs_outgoing s)) = drop (gs_sent s) (gb_bytes (gs_outgoing s))"
    unfolding r(2) inside by (simp add: r(1) cut)
  show "rr_eof r \<longleftrightarrow> gs_sent s' = gb_length (gs_outgoing s)" by (simp add: r(1,3))
  show "rr_eof r \<Longrightarrow> rr_trailer r = (if server then Some (to_bytes (show_int (gs_status s))) else None)"
    using r(3,4) by simp
qed

definition provided_all :: "read_result list \<Rightarrow> byte list \<Rightarrow> byte list option \<Rightarrow> bool" where
  "provided_all rs bytes trailer \<longleftrightarrow>
     rs \<noteq> [] \<and> rr_eof (last rs) \<and> rr_trailer (last rs) = trailer \<and> concat (map rr_bytes rs) = bytes"

lemma asked_provide [simp]: "provided i (map (Provide i) rs) = rs" "responded i (map (Provide i) rs) = []"
  by (induction rs) simp_all

lemma run_reads:
  "tc_grpc_stream c i = Some s \<Longrightarrow> gb_ok (gs_outgoing s) \<Longrightarrow> gs_sent s \<le> gb_length (gs_outgoing s) \<Longrightarrow>
    \<exists>n rs. tc_grpc_stream (run_callbacks malloc (map (Read_data i) capacities) c) i = Some (s\<lparr>gs_sent := n\<rparr>)
      \<and> n = min (gb_length (gs_outgoing s)) (gs_sent s + sum_list capacities)
      \<and> all_asked malloc (map (Read_data i) capacities) c = map (Provide i) rs \<and> (rs = [] \<longleftrightarrow> capacities = [])
      \<and> gc_error (run_callbacks malloc (map (Read_data i) capacities) c) = gc_error c
      \<and> concat (map rr_bytes rs) @ drop n (gb_bytes (gs_outgoing s)) = drop (gs_sent s) (gb_bytes (gs_outgoing s))
      \<and> (rs \<noteq> [] \<longrightarrow> rr_eof (last rs) = (n = gb_length (gs_outgoing s)))
      \<and> (rs \<noteq> [] \<and> rr_eof (last rs) \<longrightarrow>
           rr_trailer (last rs) = (if gc_server c \<noteq> None then Some (to_bytes (show_int (gs_status s))) else None))"
proof (induction capacities arbitrary: c s)
  case Nil
  then show ?case by (intro exI [of _ "gs_sent s"] exI [of _ "[]"]) simp
next
  case (Cons capacity capacities)
  obtain r s1 where r: "tc_grpc_read_data (gc_server c \<noteq> None) True capacity s = (r, s1)" by force
  note k = read_data_cases [OF Cons.prems(2,3) r]
  let ?c = "run_callback malloc (Read_data i capacity) c"
  have c: "tc_grpc_stream ?c i = Some s1" "asked_by malloc (Read_data i capacity) c = [Provide i r]" "gc_error ?c = gc_error c"
    using Cons.prems(1) r stream_set [OF Cons.prems(1), of s1] stream_id [OF Cons.prems(1)] k(1)
    by (simp_all add: read_stream_def tc_grpc_stream_def)
  have s1: "gs_outgoing s1 = gs_outgoing s" "gs_status s1 = gs_status s" "gs_sent s1 \<le> gb_length (gs_outgoing s)"
      "gs_sent s1 = min (gb_length (gs_outgoing s)) (gs_sent s + capacity)"
    using Cons.prems(3) by (simp_all add: k(1))
  obtain n rs where ih: "tc_grpc_stream (run_callbacks malloc (map (Read_data i) capacities) ?c) i = Some (s1\<lparr>gs_sent := n\<rparr>)"
      "n = min (gb_length (gs_outgoing s)) (gs_sent s1 + sum_list capacities)"
      "all_asked malloc (map (Read_data i) capacities) ?c = map (Provide i) rs" "rs = [] \<longleftrightarrow> capacities = []"
      "gc_error (run_callbacks malloc (map (Read_data i) capacities) ?c) = gc_error ?c"
      "concat (map rr_bytes rs) @ drop n (gb_bytes (gs_outgoing s)) = drop (gs_sent s1) (gb_bytes (gs_outgoing s))"
      "rs \<noteq> [] \<longrightarrow> rr_eof (last rs) = (n = gb_length (gs_outgoing s))"
      "rs \<noteq> [] \<and> rr_eof (last rs) \<longrightarrow>
         rr_trailer (last rs) = (if gc_server c \<noteq> None then Some (to_bytes (show_int (gs_status s))) else None)"
    using Cons.IH [OF c(1), unfolded s1(1,2)] Cons.prems(2) s1(3) callback_server [of malloc "Read_data i capacity" c] by auto
  have bytes: "concat (map rr_bytes (r # rs)) @ drop n (gb_bytes (gs_outgoing s)) = drop (gs_sent s) (gb_bytes (gs_outgoing s))"
    using ih(6) k(2) by simp
  have all: "all_asked malloc (map (Read_data i) (capacity # capacities)) c = map (Provide i) (r # rs)" using c(2) ih(3) by simp
  have sum: "n = min (gb_length (gs_outgoing s)) (gs_sent s + sum_list (capacity # capacities))"
    unfolding ih(2) s1(4) by simp
  have one: "rs = [] \<Longrightarrow> n = gs_sent s1" using ih(2,4) s1(3) by simp
  have eof: "rr_eof (last (r # rs)) = (n = gb_length (gs_outgoing s))"
    using ih(7) k(3) one by (cases "rs = []") simp_all
  have trailer: "rr_eof (last (r # rs)) \<longrightarrow>
      rr_trailer (last (r # rs)) = (if gc_server c \<noteq> None then Some (to_bytes (show_int (gs_status s))) else None)"
    using ih(8) k(4) by (cases "rs = []") simp_all
  have stream: "tc_grpc_stream (run_callbacks malloc (map (Read_data i) (capacity # capacities)) c) i = Some (s\<lparr>gs_sent := n\<rparr>)"
    using ih(1) unfolding k(1) by (simp add: run_Cons)
  have error: "gc_error (run_callbacks malloc (map (Read_data i) (capacity # capacities)) c) = gc_error c"
    using ih(5) c(3) by (simp add: run_Cons)
  show ?case using stream sum all error bytes eof trailer by blast
qed

lemma reads_end:
  assumes s: "tc_grpc_stream c i = Some s" "gb_ok (gs_outgoing s)" "gs_sent s = 0" and cap: "capacities \<noteq> []" "gb_length (gs_outgoing s) \<le> sum_list capacities"
  shows "provided_all (provided i (all_asked malloc (map (Read_data i) capacities) c)) (gb_bytes (gs_outgoing s))
    (if gc_server c \<noteq> None then Some (to_bytes (show_int (gs_status s))) else None)"
proof -
  have n: "min (gb_length (gs_outgoing s)) (gs_sent s + sum_list capacities) = gb_length (gs_outgoing s)" using cap(2) by simp
  from run_reads [OF s(1,2), of malloc capacities, unfolded n] s(3) obtain rs where
      "all_asked malloc (map (Read_data i) capacities) c = map (Provide i) rs" "rs \<noteq> []" "rr_eof (last rs)"
      "concat (map rr_bytes rs) @ drop (gb_length (gs_outgoing s)) (gb_bytes (gs_outgoing s)) = gb_bytes (gs_outgoing s)"
      "rr_trailer (last rs) = (if gc_server c \<noteq> None then Some (to_bytes (show_int (gs_status s))) else None)"
    using cap(1) by auto
  then show ?thesis using length_gb_bytes [OF s(2)] by (simp add: provided_all_def)
qed

text \<open>Whatever was read in any number of pieces, when it has ended it is all.\<close>

lemma reads_all:
  assumes s: "tc_grpc_stream c i = Some s" "gb_ok (gs_outgoing s)" "gs_sent s = 0"
    and all: "provided_all (provided i (all_asked malloc (map (Read_data i) capacities) c)) bytes trailer"
  shows "bytes = gb_bytes (gs_outgoing s) \<and> trailer = (if gc_server c \<noteq> None then Some (to_bytes (show_int (gs_status s))) else None)"
  using run_reads [OF s(1,2), of malloc capacities] s(3) all length_gb_bytes [OF s(2)] by (auto simp: provided_all_def)

declare run_callback.simps [simp del] asked_by.simps [simp del]

text \<open>
  What the callbacks of the two ends are told, in this order: the request with its headers and data, and
  the response with its trailer.
\<close>

definition request_events :: "int \<Rightarrow> header list \<Rightarrow> byte list list \<Rightarrow> callback list" where
  "request_events i hs chunks =
     Begin_headers i True True # header_events i hs @ map (Data_chunk i) chunks @ [Frame_received i True True]"

definition response_events :: "int \<Rightarrow> header list \<Rightarrow> byte list list \<Rightarrow> byte list \<Rightarrow> callback list" where
  "response_events i hs chunks trailer =
     header_events i hs @ map (Data_chunk i) chunks @ [Header_field i (to_bytes ''grpc-status'') trailer, Stream_closed i False]"

lemma header_effects:
  "gs_header_bytes s + 11 \<le> 16384 \<Longrightarrow> snd (header_field malloc (to_bytes '':method'') (to_bytes ''POST'') s)
     = s\<lparr>gs_header_bytes := gs_header_bytes s + 11\<rparr>"
  "gs_header_bytes s + 11 \<le> 16384 \<Longrightarrow> snd (header_field malloc (to_bytes '':scheme'') (to_bytes ''http'') s)
     = s\<lparr>gs_header_bytes := gs_header_bytes s + 11\<rparr>"
  "gs_header_bytes s + 10 + length bytes \<le> 16384 \<Longrightarrow> snd (header_field malloc (to_bytes '':authority'') bytes s)
     = s\<lparr>gs_header_bytes := gs_header_bytes s + 10 + length bytes\<rparr>"
  "gs_header_bytes s + 5 + length bytes \<le> 16384 \<Longrightarrow> length bytes \<le> 4096 \<Longrightarrow> snd (header_field malloc (to_bytes '':path'') bytes s)
     = s\<lparr>gs_header_bytes := gs_header_bytes s + 5 + length bytes, gs_path := tc_string_copy malloc (ts_of bytes)\<rparr>"
  "gs_header_bytes s + 28 \<le> 16384 \<Longrightarrow> snd (header_field malloc (to_bytes ''content-type'') (to_bytes ''application/grpc'') s)
     = s\<lparr>gs_header_bytes := gs_header_bytes s + 28, gs_grpc_type := True\<rparr>"
  "gs_header_bytes s + 10 \<le> 16384 \<Longrightarrow> snd (header_field malloc (to_bytes ''te'') (to_bytes ''trailers'') s)
     = s\<lparr>gs_header_bytes := gs_header_bytes s + 10\<rparr>"
  "gs_header_bytes s + 10 \<le> 16384 \<Longrightarrow> snd (header_field malloc (to_bytes '':status'') (to_bytes ''200'') s)
     = s\<lparr>gs_header_bytes := gs_header_bytes s + 10, gs_http_status := 200\<rparr>"
  "gs_header_bytes s + 11 + length bytes \<le> 16384 \<Longrightarrow> snd (header_field malloc (to_bytes ''grpc-status'') bytes s)
     = s\<lparr>gs_header_bytes := gs_header_bytes s + 11 + length bytes, gs_status := status_value bytes, gs_have_status := True\<rparr>"
  by (simp_all add: header_field_def grpc_content_def to_bytes_def)

lemma request_told:
  "length authority < 512 \<Longrightarrow> length path \<le> 4096 \<Longrightarrow> gs_header_bytes s = 0 \<Longrightarrow>
    headers_told malloc (request_headers authority path) s
     = s\<lparr>gs_header_bytes := 75 + length authority + length path, gs_path := tc_string_copy malloc (ts_of path), gs_grpc_type := True\<rparr>"
  by (simp add: headers_told_def request_headers_def header_effects)

lemma response_told:
  "gs_header_bytes s = 0 \<Longrightarrow> headers_told malloc response_headers s = s\<lparr>gs_header_bytes := 38, gs_http_status := 200, gs_grpc_type := True\<rparr>"
  by (simp add: headers_told_def response_headers_def header_effects)

lemma status_text:
  assumes "0 \<le> n" "n \<le> 16"
  shows "status_value (to_bytes (show_int n)) = n \<and> length (to_bytes (show_int n)) \<le> 2"
proof -
  have "\<forall>k\<in>set [0 ..< 17]. status_value (to_bytes (show_int (int k))) = int k \<and> length (to_bytes (show_int (int k))) \<le> 2"
    by code_simp
  moreover have "nat n \<in> set [0 ..< 17]" using assms by auto
  ultimately show ?thesis using assms(1) by (metis int_nat_eq)
qed

text \<open>The server: whatever the cuts and whatever happens on other streams, the handler gets the request.\<close>

definition good_response :: "TcGrpcResponse \<Rightarrow> bool" where
  "good_response r \<longleftrightarrow> ts_wf (gr_data r) \<and> ts_length (gr_data r) \<le> TC_GRPC_LIMIT \<and> 0 \<le> gr_status r \<and> gr_status r \<le> 16"

abbreviation framed :: "byte list \<Rightarrow> byte list" where
  "framed bytes \<equiv> grpc_prefix (of_nat (length bytes)) @ bytes"

lemma server_answers:
  assumes m: "malloc_ok malloc" "\<forall>n. malloc n \<noteq> None"
    and request: "length bytes \<le> TC_GRPC_LIMIT" "concat chunks = framed bytes"
    and path: "length authority < 512" "length path \<le> 4096" "gc_server c = Some routes"
      "find (\<lambda>r. tc_string_equal (rt_path r) (tc_string_copy malloc (ts_of path))) routes = Some route"
    and handler: "rt_handler route bytes = Some resp" "good_response resp"
  shows "\<exists>s. tc_grpc_stream (run_callbacks malloc (request_events i (request_headers authority path) chunks) c) i = Some s
    \<and> gs_status s = gr_status resp \<and> gs_sent s = 0 \<and> gb_ok (gs_outgoing s) \<and> gb_bytes (gs_outgoing s) = framed (ts_bytes (gr_data resp))
    \<and> all_asked malloc (request_events i (request_headers authority path) chunks) c = [Respond i response_headers]"
proof -
  let ?hs = "request_headers authority path"
  let ?c1 = "run_callback malloc (Begin_headers i True True) c"
  let ?c2 = "run_callbacks malloc (header_events i ?hs) ?c1"
  let ?c3 = "run_callbacks malloc (map (Data_chunk i) chunks) ?c2"
  define s where "s = (fresh_stream i)\<lparr>gs_header_bytes := 75 + length authority + length path, gs_path := tc_string_copy malloc (ts_of path), gs_grpc_type := True\<rparr>"
  have told: "headers_told malloc ?hs (fresh_stream i) = s"
    using request_told [OF path(1,2), of "fresh_stream i" malloc] by (simp add: fresh_stream_def s_def)
  note c2 = run_headers [OF run_begin [OF path(3), where i = i and malloc = malloc], where hs = ?hs and malloc = malloc, unfolded told]
  have "gb_ok (gs_incoming s)" "gb_bytes (gs_incoming s) = []" "gb_length (gs_incoming s) = 0" by (simp_all add: s_def fresh_stream_def)
  moreover have "gb_length (gs_incoming s) + length (concat chunks) \<le> TC_GRPC_LIMIT + 5"
    unfolding request(2) using request(1) by (simp add: s_def fresh_stream_def)
  ultimately obtain b where b: "tc_grpc_stream ?c3 i = Some (s\<lparr>gs_incoming := b\<rparr>)"
      "gb_ok b" "gb_bytes b = framed bytes" "all_asked malloc (map (Data_chunk i) chunks) ?c2 = []"
    using run_data [OF m, of ?c2 i s chunks] request(2) c2 by auto
  have server: "gc_server ?c3 = Some routes" by (simp add: run_server path(3))
  note u = unpack_message [OF b(3,2) request(1)]
  obtain data where data: "tc_grpc_unpack b = (0, data)" "ts_bytes data = bytes" using u by (cases "tc_grpc_unpack b") auto
  have respond: "grpc_respond malloc routes (s\<lparr>gs_incoming := b\<rparr>) = Some resp"
    using data handler(1) path(4) by (simp add: grpc_respond_def s_def)
  obtain failed out where pack: "tc_grpc_pack malloc gb_empty (gr_data resp) = (failed, out)" by force
  have resp: "ts_wf (gr_data resp)" "ts_length (gr_data resp) \<le> TC_GRPC_LIMIT" using handler(2) by (simp_all add: good_response_def)
  note p = pack_cases [OF m(1) gb_empty_ok(1,3) resp(1) pack]
  have "\<not> failed" using p(2) [OF m(2)] resp(2) by simp
  have s: "gs_outgoing (s\<lparr>gs_incoming := b\<rparr>) = gb_empty" "gs_id (s\<lparr>gs_incoming := b\<rparr>) = i" by (simp_all add: s_def fresh_stream_def)
  define a where "a = s\<lparr>gs_incoming := b, gs_status := gr_status resp, gs_outgoing := out\<rparr>"
  have answer: "fst (tc_grpc_answer malloc routes True (s\<lparr>gs_incoming := b\<rparr>) e) = a"
      "snd (snd (tc_grpc_answer malloc routes True (s\<lparr>gs_incoming := b\<rparr>) e)) = Respond i response_headers" for e
    using \<open>\<not> failed\<close> s(2) unfolding tc_grpc_answer_def respond s(1) pack option.case by (simp_all add: a_def)
  have "tc_grpc_stream (run_callbacks malloc (request_events i ?hs chunks) c) i = Some a"
    using run_frame(1) [OF server b(1)] by (simp add: request_events_def run_append run_Cons answer)
  moreover have "all_asked malloc (request_events i ?hs chunks) c = [Respond i response_headers]"
    using run_frame(2) [OF server b(1)] b(4) c2 by (simp add: request_events_def all_asked_append answer asked_by.simps)
  ultimately show ?thesis using p(1) \<open>\<not> failed\<close> length_ts_bytes [OF resp(1)] by (auto simp: a_def s_def fresh_stream_def)
qed

text \<open>
  The request reaches the stream \<open>i\<close> of a server: its callbacks, and then those that read the response, come
  in this order, between callbacks for other streams and frames that are only noticed.
\<close>

definition request_reaches :: "callback list \<Rightarrow> int \<Rightarrow> header list \<Rightarrow> byte list \<Rightarrow> bool" where
  "request_reaches es i hs bytes \<longleftrightarrow> (\<exists>chunks capacities. concat chunks = bytes
     \<and> filter (\<lambda>e. about e = i \<and> \<not> notice True e) es = request_events i hs chunks @ map (Read_data i) capacities)"

lemma server_gives:
  assumes m: "malloc_ok malloc" "\<forall>n. malloc n \<noteq> None"
    and request: "length bytes \<le> TC_GRPC_LIMIT" "concat chunks = framed bytes"
      "filter (\<lambda>e. about e = i \<and> \<not> notice True e) es = request_events i (request_headers authority path) chunks @ map (Read_data i) capacities"
    and path: "length authority < 512" "length path \<le> 4096" "gc_server c = Some routes"
      "find (\<lambda>r. tc_string_equal (rt_path r) (tc_string_copy malloc (ts_of path))) routes = Some route"
    and handler: "rt_handler route bytes = Some resp" "good_response resp"
  shows "\<exists>c' s. responded i (all_asked malloc es c) = [response_headers]
    \<and> provided i (all_asked malloc es c) = provided i (all_asked malloc (map (Read_data i) capacities) c')
    \<and> tc_grpc_stream c' i = Some s \<and> gc_server c' = Some routes \<and> gs_status s = gr_status resp \<and> gs_sent s = 0 \<and> gb_ok (gs_outgoing s)
    \<and> gb_bytes (gs_outgoing s) = framed (ts_bytes (gr_data resp))"
proof -
  let ?req = "request_events i (request_headers authority path) chunks"
  let ?c = "run_callbacks malloc ?req c"
  have fil: "filter (\<lambda>e. \<not> notice True e) (filter (\<lambda>e. about e = i) es) = ?req @ map (Read_data i) capacities"
    unfolding request(3) [symmetric] filter_filter by (intro filter_cong) auto
  have "all_asked malloc (filter (\<lambda>e. about e = i) es) c = all_asked malloc (?req @ map (Read_data i) capacities) c"
    using without_notices(2) [of True c malloc "filter (\<lambda>e. about e = i) es"] path(3) unfolding fil by simp
  note asked = streams_alone(2,3) [where i = i and malloc = malloc and es = es and c = c, unfolded this all_asked_append asked_append]
  obtain s where s: "tc_grpc_stream ?c i = Some s" "gs_status s = gr_status resp" "gs_sent s = 0" "gb_ok (gs_outgoing s)"
      "gb_bytes (gs_outgoing s) = framed (ts_bytes (gr_data resp))" "all_asked malloc ?req c = [Respond i response_headers]"
    using server_answers [OF m request(1,2) path handler] by blast
  have "responded i (all_asked malloc (map (Read_data i) capacities) ?c) = []"
    using run_reads [OF s(1,4), of malloc capacities] s(3) by auto
  then have "responded i (all_asked malloc es c) = [response_headers]"
      "provided i (all_asked malloc es c) = provided i (all_asked malloc (map (Read_data i) capacities) ?c)"
    using asked s(6) by simp_all
  then show ?thesis using s path(3) run_server [of malloc ?req c] by metis
qed

lemma server_side:
  assumes m: "malloc_ok malloc" "\<forall>n. malloc n \<noteq> None"
    and request: "length bytes \<le> TC_GRPC_LIMIT" "request_reaches es i (request_headers authority path) (framed bytes)"
    and path: "length authority < 512" "length path \<le> 4096" "gc_server c = Some routes"
      "find (\<lambda>r. tc_string_equal (rt_path r) (tc_string_copy malloc (ts_of path))) routes = Some route"
    and handler: "rt_handler route bytes = Some resp" "good_response resp"
    and provided: "provided_all (provided i (all_asked malloc es c)) sent trailer"
  shows "responded i (all_asked malloc es c) = [response_headers] \<and> sent = framed (ts_bytes (gr_data resp))
    \<and> trailer = Some (to_bytes (show_int (gr_status resp)))"
proof -
  obtain chunks capacities where r: "concat chunks = framed bytes"
      "filter (\<lambda>e. about e = i \<and> \<not> notice True e) es = request_events i (request_headers authority path) chunks @ map (Read_data i) capacities"
    using request(2) unfolding request_reaches_def by blast
  obtain c' s where s: "responded i (all_asked malloc es c) = [response_headers]"
      "provided i (all_asked malloc es c) = provided i (all_asked malloc (map (Read_data i) capacities) c')"
      "tc_grpc_stream c' i = Some s" "gc_server c' = Some routes" "gs_status s = gr_status resp" "gs_sent s = 0" "gb_ok (gs_outgoing s)"
      "gb_bytes (gs_outgoing s) = framed (ts_bytes (gr_data resp))"
    using server_gives [OF m request(1) r path handler] by blast
  show ?thesis using reads_all [OF s(3,7,6)] provided s by simp
qed

text \<open>The client: whatever the cuts, the call returns the data and the status.\<close>

lemma response_copies:
  assumes m: "malloc_ok malloc" "\<forall>n. malloc n \<noteq> None" and d: "ts_wf data" "ts_length data \<le> TC_GRPC_LIMIT" "0 \<le> status" "status \<le> 16"
  shows "\<exists>r. tc_grpc_response malloc data status = Some r \<and> gr_status r = status \<and> ts_bytes (gr_data r) = ts_bytes data \<and> good_response r"
proof -
  obtain p where p: "malloc 24 = Some p" using m(2) by blast
  obtain q where q: "malloc (ts_length data + 1) = Some q" using m(2) by blast
  have "ts_length data \<noteq> size_max" using d(2) by (simp add: TC_GRPC_LIMIT_def size_max_def)
  then have "tc_string_copy malloc data = \<lparr>ts_data = Some (ts_bytes data @ [0]), ts_length = ts_length data\<rparr>"
    using string_copy_cases [OF m(1) d(1)] q by simp
  moreover have "ts_bytes \<lparr>ts_data = Some (ts_bytes data @ [0]), ts_length = ts_length data\<rparr> = ts_bytes data"
    "ts_wf \<lparr>ts_data = Some (ts_bytes data @ [0]), ts_length = ts_length data\<rparr>"
    using length_ts_bytes [OF d(1)] by (simp_all add: ts_bytes_def [of "\<lparr>ts_data = _, ts_length = _\<rparr>"] ts_wf_def)
  ultimately show ?thesis using p d by (simp add: tc_grpc_response_def good_response_def)
qed

lemma client_streams: "gc_server c = None \<Longrightarrow> length (gc_streams (run_callbacks malloc es c)) = length (gc_streams c)"
proof (induction es arbitrary: c)
  case (Cons e es)
  have "length (set_stream s xs) = length xs" for s xs by (induction xs) simp_all
  then have "length (gc_streams (run_callback malloc e c)) = length (gc_streams c)"
    using Cons.prems by (cases e) (simp_all add: run_callback.simps tc_grpc_begin_def tc_grpc_header_def tc_grpc_data_def
      tc_grpc_frame_def tc_grpc_closed_def read_stream_def Let_def split: option.split prod.split)
  then show ?case using Cons.IH [of "run_callback malloc e c"] Cons.prems by (simp add: run_Cons)
qed simp

lemma client_receives:
  assumes m: "malloc_ok malloc" "\<forall>n. malloc n \<noteq> None"
    and data: "length bytes \<le> TC_GRPC_LIMIT" "concat chunks = framed bytes"
    and status: "0 \<le> status" "status \<le> 16"
    and client: "gc_server c = None" "gc_error c = 0" "tc_grpc_stream c i = Some s"
    and s: "gs_incoming s = gb_empty" "gs_header_bytes s = 0"
  shows "\<exists>s' r. let c' = run_callbacks malloc (response_events i response_headers chunks (to_bytes (show_int status))) c in
    gc_error c' = 0 \<and> tc_grpc_stream c' i = Some s' \<and> call_result malloc 0 s' = Some r
    \<and> gr_status r = status \<and> ts_bytes (gr_data r) = (if status = 0 then bytes else [])"
proof -
  let ?t = "to_bytes (show_int status)"
  let ?c2 = "run_callbacks malloc (header_events i response_headers) c"
  let ?c3 = "run_callbacks malloc (map (Data_chunk i) chunks) ?c2"
  let ?c4 = "run_callback malloc (Header_field i (to_bytes ''grpc-status'') ?t) ?c3"
  let ?c5 = "run_callback malloc (Stream_closed i False) ?c4"
  define s2 where "s2 = s\<lparr>gs_header_bytes := 38, gs_http_status := 200, gs_grpc_type := True\<rparr>"
  note c2 = run_headers [OF client(3), where malloc = malloc and hs = response_headers, unfolded response_told [OF s(2)], folded s2_def]
  have "gb_ok (gs_incoming s2)" "gb_bytes (gs_incoming s2) = []" "gb_length (gs_incoming s2) + length (concat chunks) \<le> TC_GRPC_LIMIT + 5"
    using data by (simp_all add: s2_def s(1))
  then obtain b where b: "tc_grpc_stream ?c3 i = Some (s2\<lparr>gs_incoming := b\<rparr>)" "gb_ok b"
      "gb_bytes b = framed bytes" "gc_error ?c3 = gc_error ?c2"
    using run_data [OF m, of ?c2 i s2 chunks] data(2) c2 by auto
  define s4 where "s4 = s2\<lparr>gs_incoming := b, gs_header_bytes := 49 + length ?t, gs_status := status, gs_have_status := True\<rparr>"
  have "tc_grpc_stream ?c4 i = Some s4"
    unfolding run_header(1) [OF b(1)] using status_text [OF status] by (simp add: header_effects s2_def s4_def)
  moreover have "gc_error ?c4 = 0" using run_header(2) [OF b(1)] c2 b(4) client(2) by simp
  moreover have "gc_server ?c4 = None" by (simp only: callback_server run_server client(1))
  ultimately have c5: "tc_grpc_stream ?c5 i = Some s4" "gc_error ?c5 = 0"
    by (simp_all add: run_callback.simps tc_grpc_closed_def tc_grpc_stream_def)
  have run: "run_callbacks malloc (response_events i response_headers chunks ?t) c = ?c5" by (simp add: response_events_def run_append run_Cons)
  note u = unpack_message [OF b(3,2) data(1)]
  obtain d where d: "tc_grpc_unpack b = (0, d)" "ts_bytes d = bytes" "ts_wf d" "ts_length d = length bytes" using u by (cases "tc_grpc_unpack b") auto
  have call: "call_result malloc 0 s4 = tc_grpc_response malloc (if status \<noteq> 0 then ts_of [] else d) status"
    using d(1) by (simp add: call_result_def s4_def s2_def)
  have "\<exists>r. call_result malloc 0 s4 = Some r \<and> gr_status r = status \<and> ts_bytes (gr_data r) = (if status = 0 then bytes else [])"
  proof (cases "status = 0")
    case True
    have "ts_length d \<le> TC_GRPC_LIMIT" using d(4) data(1) by simp
    from response_copies [OF m d(3) this, of 0] show ?thesis unfolding call d(2) using True by auto
  next
    case False
    from response_copies [OF m ts_wf_of _ status, of "[]"] show ?thesis unfolding call using False by auto
  qed
  then show ?thesis using c5 run by (auto simp: Let_def)
qed

text \<open>
  What a round of the exchange runs, when nothing goes wrong in it: callbacks while flushing, and callbacks
  for what has come, if anything. What the exchange runs is this for all rounds, and in the last flush
  nothing but notices. The response reaches the call: first the callbacks that read the request, then those
  of the response.
\<close>

definition round_runs :: "(nat \<Rightarrow> byte list option) \<Rightarrow> exchange_round \<Rightarrow> callback list \<times> callback list \<Rightarrow> bool" where
  "round_runs malloc r part \<longleftrightarrow> (\<forall>c. er_flush r c = (0, run_callbacks malloc (fst part) c)) \<and> \<not> er_late r \<and> er_ready r \<ge> 0
     \<and> (if er_ready r = 0 then snd part = []
        else case er_receive r of
               Received receive \<Rightarrow> \<forall>c. receive c = (False, run_callbacks malloc (snd part) c)
             | Receive_again \<Rightarrow> snd part = []
             | _ \<Rightarrow> False)"

definition exchange_runs :: "(nat \<Rightarrow> byte list option) \<Rightarrow> network \<Rightarrow> callback list \<Rightarrow> bool" where
  "exchange_runs malloc nw es \<longleftrightarrow> (\<exists>parts flushed. list_all2 (round_runs malloc) (nw_rounds nw) parts
     \<and> es = concat (map (\<lambda>part. fst part @ snd part) parts)
     \<and> (\<forall>c. snd (nw_flush nw c) = run_callbacks malloc flushed c) \<and> list_all (notice False) flushed)"

definition response_reaches :: "callback list \<Rightarrow> int \<Rightarrow> header list \<Rightarrow> byte list \<Rightarrow> byte list \<Rightarrow> bool" where
  "response_reaches es i hs bytes trailer \<longleftrightarrow> (\<exists>chunks capacities. concat chunks = bytes
     \<and> filter (\<lambda>e. \<not> notice False e) es = map (Read_data i) capacities @ response_events i hs chunks trailer)"

fun closes :: "callback \<Rightarrow> bool" where
  "closes (Stream_closed i error) = True"
| "closes e = False"

fun breaks :: "callback \<Rightarrow> bool" where
  "breaks (Stream_closed i error) = error"
| "breaks e = False"

lemma client_flags:
  assumes "gc_server c = None"
  shows "gc_finished (run_callbacks malloc es c) \<longleftrightarrow> gc_finished c \<or> list_ex closes es"
    and "gc_error c = 0 \<Longrightarrow> \<not> list_ex breaks es \<Longrightarrow> gc_error (run_callbacks malloc es c) = 0"
proof -
  have step: "gc_finished (run_callback malloc e c) = (gc_finished c \<or> closes e)"
      "gc_error (run_callback malloc e c) = (if breaks e then 13 else gc_error c)" if "gc_server c = None" for e c
    using that by (cases e; simp add: run_callback.simps tc_grpc_begin_def tc_grpc_header_def tc_grpc_data_def
      tc_grpc_frame_def tc_grpc_closed_def read_stream_def Let_def split: option.split prod.split)+
  show "gc_finished (run_callbacks malloc es c) \<longleftrightarrow> gc_finished c \<or> list_ex closes es"
    using assms by (induction es arbitrary: c) (simp_all add: run_Cons step, blast?)
  show "gc_error (run_callbacks malloc es c) = 0" if "gc_error c = 0" "\<not> list_ex breaks es"
    using assms that by (induction es arbitrary: c) (simp_all add: run_Cons step)
qed

lemma exchange_plays:
  "list_all2 (round_runs malloc) rounds parts \<Longrightarrow> gc_server c = None \<Longrightarrow> gc_error c = 0 \<Longrightarrow> es = concat (map (\<lambda>part. fst part @ snd part) parts) \<Longrightarrow>
    \<not> list_ex breaks es \<Longrightarrow> gc_finished (run_callbacks malloc es c) \<Longrightarrow>
    \<exists>us vs. es = us @ vs \<and> exchange_loop rounds c = Some (run_callbacks malloc us c) \<and> gc_finished (run_callbacks malloc us c)"
proof (induction arbitrary: c es rule: list_all2_induct)
  case Nil
  then show ?case by simp
next
  case (Cons r rounds part parts)
  show ?case
  proof (cases "gc_finished c")
    case True
    then show ?thesis by (intro exI [of _ "[]"] exI [of _ es]) simp
  next
    case False
    let ?c1 = "run_callbacks malloc (fst part) c"
    let ?c2 = "run_callbacks malloc (snd part) ?c1"
    let ?rest = "concat (map (\<lambda>part. fst part @ snd part) parts)"
    have es: "es = (fst part @ snd part) @ ?rest" using Cons.prems(3) by simp
    have breaks: "\<not> list_ex breaks (fst part)" "\<not> list_ex breaks (snd part)" "\<not> list_ex breaks ?rest"
      using Cons.prems(4) unfolding es by (simp_all add: list_ex_append)
    have server: "gc_server ?c1 = None" "gc_server ?c2 = None" by (simp_all add: run_server Cons.prems(1))
    have error: "gc_error ?c1 = 0" "gc_error ?c2 = 0"
      using client_flags(2) [OF Cons.prems(1,2) breaks(1)] client_flags(2) [OF server(1) _ breaks(2)] by simp_all
    have same: "?c1\<lparr>gc_error := 0\<rparr> = ?c1" using error(1) by (cases ?c1) simp
    have r: "er_flush r c = (0, ?c1)" "\<not> er_late r" "er_ready r \<ge> 0" using Cons.hyps(1) by (simp_all add: round_runs_def)
    have "exchange_loop (r # rounds) c = exchange_loop rounds ?c2"
      using Cons.hyps(1) False Cons.prems(2) r same server(1)
      by (auto simp: round_runs_def split: if_splits receive_answer.splits)
    moreover obtain us vs where "?rest = us @ vs" "exchange_loop rounds ?c2 = Some (run_callbacks malloc us ?c2)" "gc_finished (run_callbacks malloc us ?c2)"
      using Cons.IH [OF server(2) error(2) refl breaks(3)] Cons.prems(5) unfolding es by (auto simp: run_append)
    ultimately show ?thesis unfolding es by (intro exI [of _ "(fst part @ snd part) @ us"] exI [of _ vs]) (simp add: run_append)
  qed
qed

lemma no_reads: "list_all (\<lambda>e. \<forall>j n. e \<noteq> Read_data j n) es \<Longrightarrow> provided i (all_asked malloc es c) = []"
proof (induction es arbitrary: c)
  case (Cons e es)
  then have "provided i (asked_by malloc e c) = []"
    by (cases e) (auto simp: asked_by.simps tc_grpc_data_def tc_grpc_frame_def tc_grpc_answer_def Let_def split: option.split prod.split)
  then show ?case using Cons by simp
qed simp

lemma call_stream: "tc_grpc_stream (call_connection out i) i = Some ((fresh_stream 0)\<lparr>gs_outgoing := out, gs_id := i\<rparr>)"
  by (simp add: tc_grpc_stream_def call_connection_def)

lemma client_gives:
  assumes "filter (\<lambda>e. \<not> notice False e) es = map (Read_data i) capacities @ response_events i hs chunks trailer"
  shows "provided i (all_asked malloc es (call_connection out i))
    = provided i (all_asked malloc (map (Read_data i) capacities) (call_connection out i))"
proof -
  let ?k = "call_connection out i"
  let ?k2 = "run_callbacks malloc (map (Read_data i) capacities) ?k"
  have none: "provided i (all_asked malloc (response_events i hs chunks trailer) ?k2) = []"
    by (rule no_reads) (auto simp: response_events_def header_events_def list_all_iff)
  have "False = (gc_server ?k \<noteq> None)" by (simp add: call_connection_def)
  from without_notices(2) [OF this, of malloc es, unfolded assms all_asked_append, symmetric] none
  show ?thesis by simp
qed

lemma client_sends:
  assumes out: "gb_ok out" and sent: "provided_all (provided i (all_asked malloc es (call_connection out i))) sent trailer"
    and told: "response_reaches es i hs bytes trailer'"
  shows "sent = gb_bytes out"
proof -
  let ?s = "(fresh_stream 0)\<lparr>gs_outgoing := out, gs_id := i\<rparr>"
  obtain chunks capacities where fil: "filter (\<lambda>e. \<not> notice False e) es = map (Read_data i) capacities @ response_events i hs chunks trailer'"
    using told unfolding response_reaches_def by blast
  have s: "gb_ok (gs_outgoing ?s)" "gs_sent ?s = 0" "gs_outgoing ?s = out" using out by (simp_all add: fresh_stream_def)
  show ?thesis using reads_all [OF call_stream s(1,2)] sent s(3) unfolding client_gives [OF fil] by simp
qed

lemma last_in_front: "xs @ ys = zs @ [z] \<Longrightarrow> list_ex P xs \<Longrightarrow> \<not> list_ex P zs \<Longrightarrow> ys = []"
  by (cases ys rule: rev_cases) (auto simp: list_ex_iff)

text \<open>The callbacks that the call runs before it sees that it is finished do the same as these.\<close>

lemma client_runs:
  assumes run: "exchange_runs malloc nw es" and fil: "filter (\<lambda>e. \<not> notice False e) es = us @ response_events i hs chunks trailer"
    and us: "\<not> list_ex closes us" and c: "gc_server c = None" "gc_error c = 0" "\<not> gc_finished c"
  shows "tc_grpc_exchange (nw_rounds nw) (nw_flush nw) c = Some (run_callbacks malloc (us @ response_events i hs chunks trailer) c)"
proof -
  let ?n = "\<lambda>es. filter (\<lambda>e. \<not> notice False e) es"
  define zs where "zs = us @ header_events i hs @ map (Data_chunk i) chunks @ [Header_field i (to_bytes ''grpc-status'') trailer]"
  have zs: "us @ response_events i hs chunks trailer = zs @ [Stream_closed i False]" "\<not> list_ex closes zs"
    using us by (auto simp: zs_def response_events_def header_events_def list_ex_iff)
  obtain parts flushed where x: "list_all2 (round_runs malloc) (nw_rounds nw) parts" "es = concat (map (\<lambda>part. fst part @ snd part) parts)"
      "\<And>c. snd (nw_flush nw c) = run_callbacks malloc flushed c" "list_all (notice False) flushed"
    using run unfolding exchange_runs_def by blast
  have marks: "closes e \<Longrightarrow> \<not> notice False e" "breaks e \<Longrightarrow> \<not> notice False e" "breaks e \<Longrightarrow> closes e" for e by (cases e; simp)+
  have members: "set (?n es) = set zs \<union> {Stream_closed i False}" unfolding fil zs(1) by auto
  have in_fil: "e \<in> set es \<Longrightarrow> \<not> notice False e \<Longrightarrow> e \<in> set (zs @ [Stream_closed i False])" for e
  proof -
    assume "e \<in> set es" "\<not> notice False e"
    then have "e \<in> set (?n es)" by simp
    then show "e \<in> set (zs @ [Stream_closed i False])" unfolding members by simp
  qed
  have "\<not> list_ex breaks es"
  proof
    assume "list_ex breaks es"
    then obtain e where e: "e \<in> set es" "breaks e" by (auto simp: list_ex_iff)
    then have "e \<in> set (zs @ [Stream_closed i False])" using in_fil marks(2) by blast
    then show False using e(2) marks(3) zs(2) by (auto simp: list_ex_iff)
  qed
  moreover have "Stream_closed i False \<in> set (?n es)" unfolding members by simp
  then have "Stream_closed i False \<in> set es" by simp
  then have "gc_finished (run_callbacks malloc es c)" unfolding client_flags(1) [OF c(1)] by (force simp: list_ex_iff)
  ultimately obtain ps vs where v: "es = ps @ vs" "exchange_loop (nw_rounds nw) c = Some (run_callbacks malloc ps c)" "gc_finished (run_callbacks malloc ps c)"
    using exchange_plays [OF x(1) c(1,2) x(2)] by blast
  have "list_ex closes ps" using v(3) c(3) by (simp add: client_flags(1) [OF c(1)])
  then have "list_ex closes (?n ps)" using marks(1) by (auto simp: list_ex_iff)
  moreover have "?n ps @ ?n vs = zs @ [Stream_closed i False]" using fil zs(1) v(1) by simp
  ultimately have "?n vs = []" using last_in_front zs(2) by metis
  then have ps: "?n ps = us @ response_events i hs chunks trailer" using fil v(1) by simp
  have same: "run_callbacks malloc ps c = run_callbacks malloc (us @ response_events i hs chunks trailer) c"
    using without_notices(1) [of False c malloc ps] c(1) ps by simp
  have "run_callbacks malloc flushed d = d" if "gc_server d = None" for d
  proof -
    have "?n flushed = []" using x(4) by (auto simp: filter_empty_conv list_all_iff)
    then show ?thesis using without_notices(1) [of False d malloc flushed] that by simp
  qed
  then show ?thesis using v(2) same x(3) c(1) by (simp add: tc_grpc_exchange_def run_server)
qed

lemma client_side:
  assumes m: "malloc_ok malloc" "\<forall>n. malloc n \<noteq> None"
    and run: "exchange_runs malloc nw es" "response_reaches es i response_headers (framed bytes) (to_bytes (show_int status))"
    and data: "length bytes \<le> TC_GRPC_LIMIT" "0 \<le> status" "status \<le> 16" and out: "gb_ok out"
  shows "\<exists>c s r. tc_grpc_exchange (nw_rounds nw) (nw_flush nw) (call_connection out i) = Some c
    \<and> gc_error c = 0 \<and> gc_streams c = [s] \<and> call_result malloc 0 s = Some r
    \<and> gr_status r = status \<and> ts_bytes (gr_data r) = (if status = 0 then bytes else [])"
proof -
  let ?k = "call_connection out i"
  let ?s = "(fresh_stream 0)\<lparr>gs_outgoing := out, gs_id := i\<rparr>"
  let ?t = "to_bytes (show_int status)"
  obtain chunks capacities where fil: "concat chunks = framed bytes"
      "filter (\<lambda>e. \<not> notice False e) es = map (Read_data i) capacities @ response_events i response_headers chunks ?t"
    using run(2) unfolding response_reaches_def by blast
  let ?k2 = "run_callbacks malloc (map (Read_data i) capacities) ?k"
  let ?c = "run_callbacks malloc (response_events i response_headers chunks ?t) ?k2"
  have k: "gc_server ?k = None" "gc_error ?k = 0" "\<not> gc_finished ?k" "length (gc_streams ?k) = 1" by (simp_all add: call_connection_def)
  have "\<not> list_ex closes (map (Read_data i) capacities)" by (simp add: list_ex_iff)
  from client_runs [OF run(1) fil(2) this k(1-3)]
  have call: "tc_grpc_exchange (nw_rounds nw) (nw_flush nw) ?k = Some ?c" by (simp add: run_append)
  have "gb_ok (gs_outgoing ?s)" "gs_sent ?s \<le> gb_length (gs_outgoing ?s)" using out by (simp_all add: fresh_stream_def)
  from run_reads [OF call_stream this, of malloc capacities] obtain n where
      k2: "tc_grpc_stream ?k2 i = Some (?s\<lparr>gs_sent := n\<rparr>)" "gc_error ?k2 = 0" using k(2) by auto
  have "gc_server ?k2 = None" by (simp add: run_server k(1))
  from client_receives [OF m data(1) fil(1) data(2,3) this k2(2,1)] obtain s r where
      r: "gc_error ?c = 0" "tc_grpc_stream ?c i = Some s" "call_result malloc 0 s = Some r" "gr_status r = status"
      "ts_bytes (gr_data r) = (if status = 0 then bytes else [])"
    by (auto simp: fresh_stream_def Let_def)
  have "length (gc_streams ?c) = 1" by (simp add: client_streams run_server k(1,4))
  then have "gc_streams ?c = [s]" using r(2) by (auto simp: tc_grpc_stream_def length_Suc_conv split: if_splits)
  then show ?thesis using call r by blast
qed

text \<open>
  Claim C8. A remote call. The request is submitted with its six headers; these and its data, cut in any
  way, reach a stream of a server that has a route for the path, between callbacks for other streams and
  frames that are only noticed; what the server asks to send on the stream reaches the call, cut in any way.
  Then the handler is given the data of the request, and the call returns the status that it answered, and
  its data if the status is 0.
\<close>

theorem call_answered:
  assumes m: "malloc_ok malloc" "\<forall>n. malloc n \<noteq> None"
    and call: "tc_cstring malloc host = Some hostname" "tc_cstring malloc path = Some p" "c_text p = 47 # name" "ts_wf request"
      "ts_length request \<le> TC_GRPC_LIMIT" "authority = authority_text (c_text hostname) port" "length authority < 512" "length (c_text p) \<le> 4096"
    and network: "nw_connect nw = 0" "nw_session nw" "nw_memory nw" "nw_submit nw (request_headers authority (c_text p)) = j" "0 \<le> j"
    and server: "gc_server c = Some routes"
      "find (\<lambda>r. tc_string_equal (rt_path r) (tc_string_copy malloc (ts_of (c_text p)))) routes = Some route"
      "rt_handler route (ts_bytes request) = Some resp" "good_response resp"
    and arrived: "provided_all (provided j (all_asked malloc es' (call_connection (snd (tc_grpc_pack malloc gb_empty request)) j))) sent ended"
      "request_reaches es i (request_headers authority (c_text p)) sent"
    and returned: "responded i (all_asked malloc es c) = [headers]" "provided_all (provided i (all_asked malloc es c)) sent' (Some trailer)"
      "response_reaches es' j headers sent' trailer" "exchange_runs malloc nw es'"
  shows "\<exists>r. tc_grpc_call malloc nw host port path request = Some (Ret (Some r)) \<and> gr_status r = gr_status resp
    \<and> ts_bytes (gr_data r) = (if gr_status resp = 0 then ts_bytes (gr_data resp) else [])"
proof -
  obtain failed out where pack: "tc_grpc_pack malloc gb_empty request = (failed, out)" by force
  have len: "ts_length request = length (ts_bytes request)" "ts_length (gr_data resp) = length (ts_bytes (gr_data resp))"
    using call(4) server(4) by (simp_all add: good_response_def)
  note p = pack_cases [OF m(1) gb_empty_ok(1,3) call(4) pack]
  have out: "\<not> failed" "gb_ok out" "gb_bytes out = framed (ts_bytes request)" using p(1) p(2) [OF m(2)] call(5) len(1) by auto
  have resp: "length (ts_bytes (gr_data resp)) \<le> TC_GRPC_LIMIT" "0 \<le> gr_status resp" "gr_status resp \<le> 16"
    using server(4) unfolding len(2) [symmetric] good_response_def by simp_all
  have sent: "sent = gb_bytes out"
    using client_sends [OF out(2) _ returned(3)] arrived(1) unfolding pack by simp
  have "request_reaches es i (request_headers authority (c_text p)) (framed (ts_bytes request))" using arrived(2) sent out(3) by simp
  from server_side [OF m _ this call(7,8) server returned(2)] call(5) len(1)
  have answer: "headers = response_headers" "sent' = framed (ts_bytes (gr_data resp))" "trailer = to_bytes (show_int (gr_status resp))"
    using returned(1) by simp_all
  obtain c s r where r: "tc_grpc_exchange (nw_rounds nw) (nw_flush nw) (call_connection out j) = Some c" "gc_error c = 0" "gc_streams c = [s]"
      "call_result malloc 0 s = Some r" "gr_status r = gr_status resp"
      "ts_bytes (gr_data r) = (if gr_status resp = 0 then ts_bytes (gr_data resp) else [])"
    using client_side [OF m returned(4) returned(3) [unfolded answer] resp out(2)] by blast
  have "tc_grpc_call malloc nw host port path request = Some (Ret (call_result malloc 0 s))"
    using call network pack out(1) r(1-3) by (simp add: tc_grpc_call_def)
  then show ?thesis using r(4-6) by simp
qed

section \<open>The exchange and the server\<close>

text \<open>
  The exchange ends: at the latest in the first round after the deadline. Without an error before, its
  error is one of four.
\<close>

lemma exchange_ends: "list_ex er_late rounds \<Longrightarrow> tc_grpc_exchange rounds flush c \<noteq> None"
proof -
  have "list_ex er_late rounds \<Longrightarrow> exchange_loop rounds c \<noteq> None"
  proof (induction rounds arbitrary: c)
    case (Cons r rounds)
    then show ?case by (auto simp: Let_def split: prod.split receive_answer.split)
  qed simp
  then show "list_ex er_late rounds \<Longrightarrow> tc_grpc_exchange rounds flush c \<noteq> None" by (simp add: tc_grpc_exchange_def)
qed

text \<open>
  What a callback stores as the error while the connection is flushed is lost: the result of flushing takes
  its place. A stream that is reset because its data is above the limit is closed in this way, and the call
  does not report why.
\<close>

lemma flush_error_lost:
  assumes "gc_error c = 0" "\<not> gc_finished c" "gc_server c = None" "\<not> er_late r" "er_ready r = 0"
    "er_flush r c = (0, tc_grpc_closed i True c)" "\<And>c. snd (flush c) = c"
  shows "tc_grpc_exchange [r] flush c = Some (c\<lparr>gc_finished := True, gc_error := 0\<rparr>)"
  using assms by (simp add: tc_grpc_exchange_def tc_grpc_closed_def)

text \<open>
  Serving: at no moment are more than 32 connections served at once, and with a positive maximum
  no more than that many are taken, whatever the operating system answers and whenever the jobs end.
\<close>

theorem serve_bounded:
  assumes "tc_grpc_server_serve running pool maximum rounds = (r, trace)" and "(active, count) \<in> set trace"
  shows "active \<le> 32 \<and> (0 < maximum \<longrightarrow> count \<le> maximum)"
proof -
  have loop: "serve_loop maximum rounds a n = (r, trace) \<Longrightarrow> a \<le> 32 \<Longrightarrow> (0 < maximum \<longrightarrow> n \<le> maximum) \<Longrightarrow>
      \<forall>(active, count)\<in>set trace. active \<le> 32 \<and> (0 < maximum \<longrightarrow> count \<le> maximum)" for a n trace
  proof (induction rounds arbitrary: a n r trace)
    case (Cons q rounds)
    have go: "\<forall>(active, count)\<in>set (snd (serve_loop maximum rounds a' n')). active \<le> 32 \<and> (0 < maximum \<longrightarrow> count \<le> maximum)"
      if "a' \<le> 32" "0 < maximum \<longrightarrow> n' \<le> maximum" for a' n'
      using Cons.IH [of a' n' _ "snd (serve_loop maximum rounds a' n')"] that by (metis prod.collapse)
    let ?a = "a - sv_ended q"
    have "?a \<le> 32" using Cons.prems(2) by arith
    moreover have "trace = [(?a, n)] \<or> trace = (?a, n) # snd (serve_loop maximum rounds ?a n)
        \<or> ?a < 32 \<and> (0 < maximum \<longrightarrow> n < maximum) \<and> trace = (?a, n) # snd (serve_loop maximum rounds (?a + 1) (n + 1))"
      using Cons.prems(1) by (auto simp: Let_def split: if_splits prod.splits)
    ultimately show ?case using go [of ?a n] go [of "?a + 1" "n + 1"] Cons.prems(3) by auto
  qed auto
  show ?thesis using assms loop [of 0 0 trace] by (auto simp: tc_grpc_server_serve_def split: if_splits)
qed

text \<open>
  The routes of a server are a map: adding a route fails and changes nothing, or from then on the
  path leads to the new handler and every other path where it led before. A path that has a route gets no
  second one.
\<close>

theorem server_add_routes:
  assumes m: "malloc_ok malloc" and path: "ts_wf path"
    and add: "tc_grpc_server_add malloc running path (Some h) routes = (e, routes')"
  shows "if e \<noteq> 0 then routes' = routes
     else find (\<lambda>r. tc_string_equal (rt_path r) path) routes = None
        \<and> (\<forall>p. ts_wf p \<longrightarrow> map_option rt_handler (find (\<lambda>r. tc_string_equal (rt_path r) p) routes')
             = (if tc_string_equal path p then Some h else map_option rt_handler (find (\<lambda>r. tc_string_equal (rt_path r) p) routes)))"
proof (cases "e = 0")
  case False
  then show ?thesis using add by (auto simp: tc_grpc_server_add_def Let_def split: if_splits)
next
  case True
  have new: "routes' = \<lparr>rt_path = tc_string_copy malloc path, rt_handler = h\<rparr> # routes"
    "ts_data (tc_string_copy malloc path) \<noteq> None" "find (\<lambda>r. tc_string_equal (rt_path r) path) routes = None"
    using add True by (auto simp: tc_grpc_server_add_def Let_def split: if_splits)
  have "tc_string_copy malloc path = \<lparr>ts_data = Some (ts_bytes path @ [0]), ts_length = ts_length path\<rparr>"
    using new(2) string_copy_cases [OF m path] by (auto simp: ts_null_def split: if_splits)
  then have "tc_string_equal (tc_string_copy malloc path) p = tc_string_equal path p" for p
    using length_ts_bytes [OF path] by (simp add: tc_string_equal_def ts_bytes_def [of "\<lparr>ts_data = _, ts_length = _\<rparr>"])
  then show ?thesis using new True by simp
qed

section \<open>Examples\<close>

definition echo :: "byte list \<Rightarrow> TcGrpcResponse option" where
  "echo bytes = Some \<lparr>gr_data = ts_of bytes, gr_status = 0\<rparr>"

definition echo_route :: TcGrpcRoute where
  "echo_route = \<lparr>rt_path = ts_of [47], rt_handler = echo\<rparr>"

definition echo_server :: TcGrpcConnection where
  "echo_server = \<lparr>gc_server = Some [echo_route], gc_streams = [], gc_finished = False, gc_error = 0\<rparr>"

text \<open>
  A call with the data ``hi'' to a server that echoes it: what the server is told, with another stream in
  between, and what the call is told, with the frames that are noticed.
\<close>

definition echo_headers :: "header list" where
  "echo_headers = request_headers (to_bytes ''h:80'') [47]"

definition echo_there :: "callback list" where
  "echo_there = [Frame_received 0 False True, Begin_headers 9 True True, Begin_headers 7 True True] @ header_events 7 echo_headers
     @ [Frame_received 7 False True, Data_chunk 7 [0, 0, 0], Data_chunk 9 [1], Data_chunk 7 [0, 2, 104, 105], Frame_received 7 True True,
        Read_data 7 4, Read_data 9 4, Read_data 7 4]"

definition echo_back :: "callback list" where
  "echo_back = [Frame_received 1 False True] @ response_events 1 response_headers [[0, 0, 0, 0, 2], [104, 105]] [48]"

definition echo_network :: network where
  "echo_network = \<lparr>nw_connect = 0, nw_session = True, nw_memory = True, nw_submit = (\<lambda>headers. 1),
     nw_rounds = [\<lparr>er_flush = (\<lambda>c. (0, run_callbacks malloc_zero [Read_data 1 100] c)), er_stopping = False, er_late = False,
       er_ready = 1, er_receive = Received (\<lambda>c. (False, run_callbacks malloc_zero echo_back c))\<rparr>],
     nw_flush = (\<lambda>c. (0, c))\<rparr>"

lemma echo_filter:
  "filter (\<lambda>e. about e = 7 \<and> \<not> notice True e) echo_there
     = request_events 7 echo_headers [[0, 0, 0], [0, 2, 104, 105]] @ map (Read_data 7) [4, 4]"
  "filter (\<lambda>e. \<not> notice False e) (Read_data 1 100 # echo_back)
     = map (Read_data 1) [100] @ response_events 1 response_headers [[0, 0, 0, 0, 2], [104, 105]] [48]"
  by (simp_all add: echo_there_def request_events_def header_events_def echo_headers_def request_headers_def
    echo_back_def response_events_def response_headers_def)

lemma echo_reaches:
  "request_reaches echo_there 7 echo_headers [0, 0, 0, 0, 2, 104, 105]"
  "response_reaches (Read_data 1 100 # echo_back) 1 response_headers [0, 0, 0, 0, 2, 104, 105] [48]"
proof -
  show "request_reaches echo_there 7 echo_headers [0, 0, 0, 0, 2, 104, 105]"
    using echo_filter(1) unfolding request_reaches_def
    by (intro exI [of _ "[[0, 0, 0], [0, 2, 104, 105]]"] exI [of _ "[4, 4]"]) simp
  show "response_reaches (Read_data 1 100 # echo_back) 1 response_headers [0, 0, 0, 0, 2, 104, 105] [48]"
    using echo_filter(2) unfolding response_reaches_def
    by (intro exI [of _ "[[0, 0, 0, 0, 2], [104, 105]]"] exI [of _ "[100]"]) simp
qed

lemma echo_found:
  "find (\<lambda>r. tc_string_equal (rt_path r) (tc_string_copy malloc_zero (ts_of [47]))) [echo_route] = Some echo_route"
  using string_copy_cases [OF malloc_ok_zero ts_wf_of, of "[47]"]
  by (simp add: echo_route_def tc_string_equal_def ts_bytes_def size_max_def malloc_zero_def)

lemma echo_handler:
  "rt_handler echo_route [104, 105] = Some \<lparr>gr_data = ts_of [104, 105], gr_status = 0\<rparr>"
  "good_response \<lparr>gr_data = ts_of [104, 105], gr_status = 0\<rparr>"
  by (simp_all add: echo_route_def echo_def good_response_def TC_GRPC_LIMIT_def)

lemma show_zero: "to_bytes (show_int 0) = [48]"
  by code_simp

lemma echo_runs: "exchange_runs malloc_zero echo_network (Read_data 1 100 # echo_back)"
  unfolding exchange_runs_def
  by (intro exI [of _ "[([Read_data 1 100], echo_back)]"] exI [of _ "[]"]) (simp add: echo_network_def round_runs_def)

lemma echo_given:
  "provided_all (provided 1 (all_asked malloc_zero (Read_data 1 100 # echo_back)
     (call_connection (snd (tc_grpc_pack malloc_zero gb_empty (ts_of [104, 105]))) 1))) [0, 0, 0, 0, 2, 104, 105] None"
  "responded 7 (all_asked malloc_zero echo_there echo_server) = [response_headers]"
  "provided_all (provided 7 (all_asked malloc_zero echo_there echo_server)) [0, 0, 0, 0, 2, 104, 105] (Some [48])"
proof -
  have m: "\<forall>n. malloc_zero n \<noteq> None" by (simp add: malloc_zero_def)
  have hi: "framed [104, 105] = [0, 0, 0, 0, 2, 104, 105]" by (simp add: grpc_prefix_def)
  obtain failed out where pack: "tc_grpc_pack malloc_zero gb_empty (ts_of [104, 105]) = (failed, out)" by force
  have "\<not> failed" using pack_cases(2) [OF malloc_ok_zero gb_empty_ok(1,3) ts_wf_of pack m] by (simp add: TC_GRPC_LIMIT_def)
  then have out: "gb_ok out" "gb_bytes out = [0, 0, 0, 0, 2, 104, 105]"
    using pack_cases(1) [OF malloc_ok_zero gb_empty_ok(1,3) ts_wf_of pack] hi by simp_all
  let ?s = "(fresh_stream 0)\<lparr>gs_outgoing := out, gs_id := 1\<rparr>"
  have s: "gb_ok (gs_outgoing ?s)" "gs_sent ?s = 0" "gb_bytes (gs_outgoing ?s) = [0, 0, 0, 0, 2, 104, 105]" "gb_length (gs_outgoing ?s) = 7"
    using out length_gb_bytes [OF out(1)] by (simp_all add: fresh_stream_def)
  have "provided_all (provided 1 (all_asked malloc_zero (map (Read_data 1) [100]) (call_connection out 1))) [0, 0, 0, 0, 2, 104, 105] None"
    using reads_end [OF call_stream s(1,2), of "[100]" malloc_zero] s(3,4) by (simp add: call_connection_def)
  then show "provided_all (provided 1 (all_asked malloc_zero (Read_data 1 100 # echo_back)
     (call_connection (snd (tc_grpc_pack malloc_zero gb_empty (ts_of [104, 105]))) 1))) [0, 0, 0, 0, 2, 104, 105] None"
    unfolding pack snd_conv client_gives [OF echo_filter(2)] .
  have route: "find (\<lambda>r. tc_string_equal (rt_path r) (tc_string_copy malloc_zero (ts_of [47]))) [echo_route] = Some echo_route"
    by (rule echo_found)
  have small: "length [104 :: byte, 105] \<le> TC_GRPC_LIMIT" "length (to_bytes ''h:80'') < 512" "length [47 :: byte] \<le> 4096"
    by (simp_all add: TC_GRPC_LIMIT_def to_bytes_def)
  have there: "concat [[0, 0, 0], [0, 2, 104, 105]] = framed [104 :: byte, 105]" unfolding hi by simp
  have server: "gc_server echo_server = Some [echo_route]" by (simp add: echo_server_def)
  obtain c s where c: "responded 7 (all_asked malloc_zero echo_there echo_server) = [response_headers]"
      "provided 7 (all_asked malloc_zero echo_there echo_server) = provided 7 (all_asked malloc_zero (map (Read_data 7) [4, 4]) c)"
      "tc_grpc_stream c 7 = Some s" "gc_server c = Some [echo_route]" "gs_status s = 0" "gs_sent s = 0" "gb_ok (gs_outgoing s)"
      "gb_bytes (gs_outgoing s) = [0, 0, 0, 0, 2, 104, 105]"
    using server_gives [OF malloc_ok_zero m small(1) there echo_filter(1) [unfolded echo_headers_def] small(2,3) server route echo_handler] hi by auto
  show "responded 7 (all_asked malloc_zero echo_there echo_server) = [response_headers]" by (rule c(1))
  have "gb_length (gs_outgoing s) = 7" using length_gb_bytes [OF c(7)] c(8) by simp
  then show "provided_all (provided 7 (all_asked malloc_zero echo_there echo_server)) [0, 0, 0, 0, 2, 104, 105] (Some [48])"
    using reads_end [OF c(3,7,6), of "[4, 4]" malloc_zero] c(2,4,5,8) by (simp add: show_zero)
qed

theorem call_answered_witness:
  "\<exists>r. tc_grpc_call malloc_zero echo_network (ts_of [104]) 80 (ts_of [47]) (ts_of [104, 105]) = Some (Ret (Some r))
     \<and> gr_status r = 0 \<and> ts_bytes (gr_data r) = [104, 105]"
proof -
  have m: "\<forall>n. malloc_zero n \<noteq> None" by (simp add: malloc_zero_def)
  have names: "tc_cstring malloc_zero (ts_of [104]) = Some [104, 0]" "tc_cstring malloc_zero (ts_of [47]) = Some [47, 0]"
      "c_text [104, 0] = [104]" "c_text [47, 0] = [47]"
    by (simp_all add: tc_cstring_def malloc_zero_def size_max_def blit_def c_text_def)
  have authority: "authority_text [104] 80 = to_bytes ''h:80''" by code_simp
  have network: "nw_connect echo_network = 0" "nw_session echo_network" "nw_memory echo_network"
      "nw_submit echo_network (request_headers (to_bytes ''h:80'') (c_text [47, 0])) = 1"
    by (simp_all add: echo_network_def)
  have small: "ts_length (ts_of [104, 105]) \<le> TC_GRPC_LIMIT" "length (to_bytes ''h:80'') < 512" "length (c_text [47, 0]) \<le> 4096"
    by (simp_all add: TC_GRPC_LIMIT_def to_bytes_def names)
  have server: "gc_server echo_server = Some [echo_route]" by (simp add: echo_server_def)
  have route: "find (\<lambda>r. tc_string_equal (rt_path r) (tc_string_copy malloc_zero (ts_of (c_text [47, 0])))) [echo_route] = Some echo_route"
    unfolding names(4) by (rule echo_found)
  have handler: "rt_handler echo_route (ts_bytes (ts_of [104, 105])) = Some \<lparr>gr_data = ts_of [104, 105], gr_status = 0\<rparr>"
    using echo_handler(1) by simp
  note reach = echo_reaches [unfolded echo_headers_def names(4) [symmetric]]
  from call_answered [OF malloc_ok_zero m names(1,2) names(4) ts_wf_of small(1) authority [symmetric, folded names(3)] small(2,3)
      network _ server route handler echo_handler(2) echo_given(1) reach(1) echo_given(2,3) reach(2) echo_runs]
  show ?thesis by simp
qed

theorem serve_bounded_witness:
  "\<forall>(active, count)\<in>set (snd (tc_grpc_server_serve 0 True 2 (replicate 3 \<lparr>sv_ended = 0, sv_stopping = False, sv_ready = 1,
      sv_accept = 0, sv_memory = True, sv_submit = True\<rparr>))). active \<le> 32 \<and> count \<le> 2"
  using serve_bounded [OF prod.collapse [symmetric]] by (metis (no_types, lifting) case_prodI2 zero_less_numeral)

theorem server_add_routes_witness:
  "\<exists>routes. tc_grpc_server_add malloc_zero False (ts_of [47]) (Some echo) [] = (0, routes)
     \<and> map_option rt_handler (find (\<lambda>r. tc_string_equal (rt_path r) (ts_of [47])) routes) = Some echo"
proof -
  obtain e routes where add: "tc_grpc_server_add malloc_zero False (ts_of [47]) (Some echo) [] = (e, routes)" by force
  have "e = 0" using add string_copy_cases [OF malloc_ok_zero ts_wf_of, of "[47]"]
    by (auto simp: tc_grpc_server_add_def malloc_zero_def size_max_def split: if_splits)
  then have "\<forall>p. ts_wf p \<longrightarrow> map_option rt_handler (find (\<lambda>r. tc_string_equal (rt_path r) p) routes)
      = (if tc_string_equal (ts_of [47]) p then Some echo else map_option rt_handler (find (\<lambda>r. tc_string_equal (rt_path r) p) []))"
    using server_add_routes [OF malloc_ok_zero ts_wf_of add] by simp
  from this [rule_format, OF ts_wf_of, of "[47]"]
  have "map_option rt_handler (find (\<lambda>r. tc_string_equal (rt_path r) (ts_of [47])) routes) = Some echo"
    by (simp only: tc_string_equal_def) simp
  then show ?thesis using add \<open>e = 0\<close> by blast
qed

end
