(* ===== verification/Io.thy ===== *)
theory Io
  imports Prelude "HOL-Library.Multiset"
begin

text \<open>
  The asynchronous sockets and timers of \<open>runtime/net.c\<close>: requests, the list that one thread serves, its
  rounds, deadlines and cancelling. The answers of the operating system, the clock and the tokens are
  arguments. Every locked section is one event, so other threads come in between. Proved: every request
  completes exactly once, at most 32 are pending, a deadline or a token ends a request in the next
  round, and what is written is the data from its start.
\<close>

section \<open>Requests\<close>

datatype io_kind = TC_IO_READ | TC_IO_WRITE | TC_IO_ACCEPT | TC_IO_CONNECT | TC_IO_TIMER

text \<open>
  A request: a number that stands for its future, whether it has a token, the data to write, and what
  has been done. The deadline 0 means none.
\<close>

record TcIoRequest =
  io_future :: nat
  io_kind :: io_kind
  io_error :: int
  io_done :: bool
  io_socket :: int
  io_token :: bool
  io_data :: "byte list"
  io_length :: nat
  io_offset :: nat
  io_deadline :: nat
  io_result :: int

definition io_deadline_of :: "nat \<Rightarrow> nat \<Rightarrow> nat" where
  "io_deadline_of now timeout =
     (if timeout = 0 then 0 else if timeout > 2 ^ 64 - 1 - now then 2 ^ 64 - 1 else now + timeout)"

definition tc_io_new :: "nat \<Rightarrow> io_kind \<Rightarrow> int \<Rightarrow> byte list \<Rightarrow> nat \<Rightarrow> nat \<Rightarrow> nat \<Rightarrow> bool \<Rightarrow> TcIoRequest" where
  "tc_io_new future kind sock data len now timeout token =
     \<lparr>io_future = future, io_kind = kind, io_error = 0, io_done = False, io_socket = sock, io_token = token,
      io_data = data, io_length = len, io_offset = 0, io_deadline = io_deadline_of now timeout, io_result = 0\<rparr>"

section \<open>The state\<close>

text \<open>
  The list under the lock with its count; the requests that the thread has taken out and not yet
  completed; and what has happened: the completed requests, the closed sockets, and the bytes sent for
  each request.
\<close>

record io_state =
  st_requests :: "TcIoRequest list"
  st_count :: int
  st_complete :: "TcIoRequest list"
  st_stopping :: bool
  st_ended :: bool
  st_completed :: "TcIoRequest list"
  st_closed :: "int list"
  st_sent :: "nat \<Rightarrow> byte list"

definition io_start :: io_state where
  "io_start = \<lparr>st_requests = [], st_count = 0, st_complete = [], st_stopping = False, st_ended = False,
     st_completed = [], st_closed = [], st_sent = (\<lambda>f. [])\<rparr>"

definition tc_io_complete :: "TcIoRequest \<Rightarrow> io_state \<Rightarrow> io_state" where
  "tc_io_complete r st = st\<lparr>st_completed := st_completed st @ [r]\<rparr>"

definition io_close :: "TcIoRequest \<Rightarrow> io_state \<Rightarrow> io_state" where
  "io_close r st = st\<lparr>st_closed := st_closed st @ [io_socket r]\<rparr>"

definition tc_io_enqueue :: "TcIoRequest \<Rightarrow> io_state \<Rightarrow> io_state" where
  "tc_io_enqueue r st =
     (if st_count st \<ge> 32 then
        let r = r\<lparr>io_error := 8\<rparr>;
            st = (if io_kind r = TC_IO_CONNECT then io_close r st else st)
        in tc_io_complete r st
      else st\<lparr>st_requests := r # st_requests st, st_count := st_count st + 1\<rparr>)"

text \<open>
  \<open>tc_socket_async\<close>: whether the socket cannot be made nonblocking or (on POSIX) its number is too large for
  \<open>select\<close> is an answer.
\<close>

definition tc_socket_async :: "bool \<Rightarrow> TcIoRequest \<Rightarrow> io_state \<Rightarrow> io_state" where
  "tc_socket_async refused r st =
     (if io_socket r < 0 \<or> io_length r > size_max \<or> refused then tc_io_complete (r\<lparr>io_error := 13\<rparr>) st
      else if io_length r = 0 \<and> (io_kind r = TC_IO_READ \<or> io_kind r = TC_IO_WRITE) then tc_io_complete r st
      else tc_io_enqueue r st)"

definition tc_timer_after :: "nat \<Rightarrow> nat \<Rightarrow> nat \<Rightarrow> io_state \<Rightarrow> io_state" where
  "tc_timer_after future now milliseconds =
     tc_io_enqueue (tc_io_new future TC_IO_TIMER (- 1) [] 0 now (if milliseconds \<noteq> 0 then milliseconds else 1) False)"

section \<open>A round\<close>

text \<open>
  What the system says about a request: its token is set, its socket is ready, and the answer of the
  call: a socket, a number of bytes, or the error of a connection; try again; or an error.
\<close>

datatype socket_answer = Answered nat | Answer_again | Answer_failed

record io_answer =
  ia_cancelled :: bool
  ia_ready :: bool
  ia_call :: socket_answer

text \<open>\<open>recv\<close> and \<open>send\<close> take at most \<open>INT_MAX\<close> bytes at once.\<close>

definition io_chunk :: "TcIoRequest \<Rightarrow> nat" where
  "io_chunk r = min (2 ^ 31 - 1) (io_length r - io_offset r)"

definition io_call :: "socket_answer \<Rightarrow> TcIoRequest \<Rightarrow> TcIoRequest" where
  "io_call a r =
     (case io_kind r of
        TC_IO_TIMER \<Rightarrow> r
      | TC_IO_CONNECT \<Rightarrow>
          r\<lparr>io_result := io_socket r, io_error := (case a of Answered n \<Rightarrow> int n | _ \<Rightarrow> 1), io_done := True\<rparr>
      | TC_IO_ACCEPT \<Rightarrow>
          (case a of
             Answered n \<Rightarrow> r\<lparr>io_result := int n, io_done := True\<rparr>
           | Answer_again \<Rightarrow> r
           | Answer_failed \<Rightarrow> r\<lparr>io_error := 13, io_done := True\<rparr>)
      | kind \<Rightarrow>
          (case a of
             Answered n \<Rightarrow>
               let n = min n (io_chunk r);
                   r = r\<lparr>io_offset := io_offset r + n\<rparr>
               in if kind = TC_IO_READ \<or> io_offset r = io_length r \<or> n = 0
                  then r\<lparr>io_result := int (io_offset r), io_done := True\<rparr>
                  else r
           | Answer_again \<Rightarrow> r
           | Answer_failed \<Rightarrow> r\<lparr>io_error := 13, io_done := True\<rparr>))"

definition io_poll :: "nat \<Rightarrow> io_answer \<Rightarrow> TcIoRequest \<Rightarrow> TcIoRequest" where
  "io_poll now a r =
     (if io_token r \<and> ia_cancelled a then r\<lparr>io_error := 1, io_done := True\<rparr>
      else if io_deadline r \<noteq> 0 \<and> now \<ge> io_deadline r then
        r\<lparr>io_error := (if io_kind r = TC_IO_TIMER then 0 else 4), io_done := True\<rparr>
      else if io_kind r \<noteq> TC_IO_TIMER \<and> ia_ready a then io_call (ia_call a) r
      else r)"

text \<open>
  The bytes that go out: when the round reaches \<open>send\<close>, the system has taken as many bytes as it answers,
  at most the chunk that starts at the offset. What the program then notes about it is \<open>io_call\<close>'s business.
\<close>

definition io_send :: "nat \<Rightarrow> io_answer \<Rightarrow> TcIoRequest \<Rightarrow> (nat \<Rightarrow> byte list) \<Rightarrow> nat \<Rightarrow> byte list" where
  "io_send now a r sent =
     (if io_token r \<and> ia_cancelled a \<or> io_deadline r \<noteq> 0 \<and> now \<ge> io_deadline r then sent
      else if io_kind r = TC_IO_WRITE \<and> ia_ready a then
        (case ia_call a of
           Answered n \<Rightarrow>
             sent(io_future r := sent (io_future r) @ take (min n (io_chunk r)) (drop (io_offset r) (io_data r)))
         | _ \<Rightarrow> sent)
      else sent)"

text \<open>
  The scan over the list: what stays, what is complete (in front of what was), the pending, and the bytes.
\<close>

fun io_scan :: "nat \<Rightarrow> (nat \<Rightarrow> io_answer) \<Rightarrow> TcIoRequest list \<Rightarrow> TcIoRequest list \<Rightarrow> int \<Rightarrow> (nat \<Rightarrow> byte list) \<Rightarrow>
    TcIoRequest list \<times> TcIoRequest list \<times> int \<times> (nat \<Rightarrow> byte list)" where
  "io_scan now answer [] complete pending sent = ([], complete, pending, sent)"
| "io_scan now answer (r # requests) complete pending sent =
     (let r' = io_poll now (answer (io_future r)) r;
          sent = io_send now (answer (io_future r)) r sent
      in if io_done r' then io_scan now answer requests (r' # complete) (pending - 1) sent
         else case io_scan now answer requests complete pending sent of
                (stay, complete, pending, sent) \<Rightarrow> (r' # stay, complete, pending, sent))"

definition io_round :: "nat \<Rightarrow> (nat \<Rightarrow> io_answer) \<Rightarrow> io_state \<Rightarrow> io_state" where
  "io_round now answer st =
     (case io_scan now answer (st_requests st) [] (st_count st) (st_sent st) of
        (stay, complete, pending, sent) \<Rightarrow>
          st\<lparr>st_requests := stay, st_complete := complete, st_count := pending, st_sent := sent\<rparr>)"

text \<open>After the round the thread completes one request after the other.\<close>

definition io_deliver :: "io_state \<Rightarrow> io_state" where
  "io_deliver st =
     (case st_complete st of
        [] \<Rightarrow> st
      | r # complete \<Rightarrow>
          let st = st\<lparr>st_complete := complete\<rparr>;
              st = (if io_kind r = TC_IO_CONNECT \<and> io_error r \<noteq> 0 then io_close r st else st)
          in tc_io_complete r st)"

text \<open>
  The events: another thread starts an operation, or the connecting job has a socket that is not yet
  connected, or is shutting down; the thread does a round, completes a request, or finds that it has to end. The
  thread does the next round when the last one has been completed.
\<close>

datatype io_event =
    Start bool TcIoRequest
  | Enqueue TcIoRequest
  | Stop
  | Round nat "nat \<Rightarrow> io_answer"
  | Deliver
  | End

fun io_step :: "io_event \<Rightarrow> io_state \<Rightarrow> io_state" where
  "io_step (Start refused r) st = tc_socket_async refused r st"
| "io_step (Enqueue r) st = tc_io_enqueue r st"
| "io_step Stop st = st\<lparr>st_stopping := True\<rparr>"
| "io_step (Round now answer) st =
     (if st_complete st \<noteq> [] \<or> st_ended st then st else io_round now answer st)"
| "io_step Deliver st = io_deliver st"
| "io_step End st =
     (if st_stopping st \<and> st_requests st = [] \<and> st_complete st = [] then st\<lparr>st_ended := True\<rparr> else st)"

definition io_run :: "io_event list \<Rightarrow> io_state" where
  "io_run es = fold io_step es io_start"

section \<open>Every request completes once\<close>

text \<open>The requests that have been started, as the numbers of their futures.\<close>

fun started :: "io_event list \<Rightarrow> nat multiset" where
  "started [] = {#}"
| "started (Start refused r # es) = {#io_future r#} + started es"
| "started (Enqueue r # es) = {#io_future r#} + started es"
| "started (e # es) = started es"

abbreviation futures :: "TcIoRequest list \<Rightarrow> nat multiset" where
  "futures rs \<equiv> mset (map io_future rs)"

definition all_futures :: "io_state \<Rightarrow> nat multiset" where
  "all_futures st = futures (st_requests st) + futures (st_complete st) + futures (st_completed st)"

definition io_inv :: "io_state \<Rightarrow> bool" where
  "io_inv st \<longleftrightarrow> st_count st = int (length (st_requests st)) \<and> length (st_requests st) \<le> 32
     \<and> (\<forall>r\<in>set (st_requests st). \<not> io_done r)"

lemma io_call_future [simp]: "io_future (io_call a r) = io_future r"
  by (auto simp: io_call_def Let_def split: io_kind.split socket_answer.split)

lemma io_poll_future [simp]: "io_future (io_poll now a r) = io_future r"
  by (simp add: io_poll_def)

lemma scan_keeps:
  "io_scan now answer rs complete pending sent = (stay, complete', pending', sent') \<Longrightarrow>
    futures stay + futures complete' = futures rs + futures complete
    \<and> pending' = pending - int (length rs) + int (length stay) \<and> length stay \<le> length rs
    \<and> (\<forall>r\<in>set stay. \<not> io_done r \<and> (\<exists>q\<in>set rs. r = io_poll now (answer (io_future q)) q))"
proof (induction rs arbitrary: complete pending sent stay)
  case (Cons r rs)
  let ?r = "io_poll now (answer (io_future r)) r"
  show ?case
  proof (cases "io_done ?r")
    case True
    then have "io_scan now answer rs (?r # complete) (pending - 1) (io_send now (answer (io_future r)) r sent) = (stay, complete', pending', sent')"
      using Cons.prems by (simp add: Let_def)
    from Cons.IH [OF this] show ?thesis by auto
  next
    case False
    then obtain st where st: "io_scan now answer rs complete pending (io_send now (answer (io_future r)) r sent) = (st, complete', pending', sent')" "stay = ?r # st"
      using Cons.prems by (auto simp: Let_def split: prod.splits)
    from Cons.IH [OF st(1)] False show ?thesis unfolding st(2) by auto
  qed
qed simp

lemma io_keeps:
  "all_futures (tc_io_complete r st) = all_futures st + {#io_future r#}"
  "all_futures (io_close r st) = all_futures st"
  "all_futures (tc_io_enqueue r st) = all_futures st + {#io_future r#}"
  "all_futures (tc_socket_async refused r st) = all_futures st + {#io_future r#}"
  "all_futures (io_deliver st) = all_futures st"
  "st_complete st = [] \<Longrightarrow> all_futures (io_round now answer st) = all_futures st"
proof -
  show c: "all_futures (tc_io_complete r st) = all_futures st + {#io_future r#}"
      "all_futures (io_close r st) = all_futures st" for r st
    by (simp_all add: tc_io_complete_def io_close_def all_futures_def)
  show e: "all_futures (tc_io_enqueue r st) = all_futures st + {#io_future r#}" for r st
    using c by (auto simp: tc_io_enqueue_def Let_def) (simp add: all_futures_def)
  show "all_futures (tc_socket_async refused r st) = all_futures st + {#io_future r#}"
    using c e by (simp add: tc_socket_async_def)
  show "all_futures (io_deliver st) = all_futures st"
    by (auto simp: io_deliver_def tc_io_complete_def io_close_def all_futures_def Let_def split: list.split)
  show "st_complete st = [] \<Longrightarrow> all_futures (io_round now answer st) = all_futures st"
  proof -
    assume empty: "st_complete st = []"
    obtain stay complete pending sent where
        sc: "io_scan now answer (st_requests st) [] (st_count st) (st_sent st) = (stay, complete, pending, sent)" by (metis prod_cases4)
    have "futures stay + futures complete = futures (st_requests st)" using scan_keeps [OF sc] by simp
    then show ?thesis using empty sc by (simp add: io_round_def all_futures_def)
  qed
qed

lemma event_keeps: "all_futures (io_step e st) = all_futures st + started [e]"
  by (cases e) (simp_all add: io_keeps, simp_all add: all_futures_def)

lemma io_run_snoc: "io_run (es @ [e]) = io_step e (io_run es)"
  by (simp add: io_run_def)

lemma started_append: "started (es @ es') = started es + started es'"
  by (induction es rule: started.induct) simp_all

lemma io_run_keeps: "all_futures (io_run es) = started es"
proof (induction es rule: rev_induct)
  case Nil
  then show ?case by (simp add: io_run_def io_start_def all_futures_def)
next
  case (snoc e es)
  then show ?case by (simp add: io_run_snoc event_keeps started_append)
qed

text \<open>The list and its count.\<close>

lemma inv_steps:
  "io_inv st \<Longrightarrow> io_inv (tc_io_complete r st)"
  "io_inv st \<Longrightarrow> io_inv (io_close r st)"
  "io_inv st \<Longrightarrow> \<not> io_done r \<Longrightarrow> io_inv (tc_io_enqueue r st)"
  "io_inv st \<Longrightarrow> \<not> io_done r \<Longrightarrow> io_inv (tc_socket_async refused r st)"
  "io_inv st \<Longrightarrow> io_inv (io_deliver st)"
  "io_inv st \<Longrightarrow> io_inv (io_round now answer st)"
proof -
  show c: "io_inv st \<Longrightarrow> io_inv (tc_io_complete r st)" "io_inv st \<Longrightarrow> io_inv (io_close r st)" for r st
    by (simp_all add: io_inv_def tc_io_complete_def io_close_def)
  show e: "io_inv st \<Longrightarrow> \<not> io_done r \<Longrightarrow> io_inv (tc_io_enqueue r st)" for r st
    by (auto simp: tc_io_enqueue_def tc_io_complete_def io_close_def Let_def io_inv_def)
  show "io_inv st \<Longrightarrow> \<not> io_done r \<Longrightarrow> io_inv (tc_socket_async refused r st)"
    using e [of st r] c(1) [of st "r\<lparr>io_error := 13\<rparr>"] c(1) [of st r] unfolding tc_socket_async_def by presburger
  show "io_inv st \<Longrightarrow> io_inv (io_deliver st)"
    by (auto simp: io_deliver_def tc_io_complete_def io_close_def io_inv_def Let_def split: list.split)
  show "io_inv st \<Longrightarrow> io_inv (io_round now answer st)"
  proof -
    assume i: "io_inv st"
    obtain stay complete pending sent where
        sc: "io_scan now answer (st_requests st) [] (st_count st) (st_sent st) = (stay, complete, pending, sent)" by (metis prod_cases4)
    then show ?thesis using scan_keeps [OF sc] i by (auto simp: io_inv_def io_round_def)
  qed
qed

text \<open>Requests are started as \<open>tc_io_new\<close> makes them.\<close>

definition fresh_request :: "TcIoRequest \<Rightarrow> bool" where
  "fresh_request r \<longleftrightarrow> \<not> io_done r \<and> io_error r = 0 \<and> io_offset r = 0 \<and> io_result r = 0
     \<and> (io_kind r = TC_IO_WRITE \<longrightarrow> io_length r = length (io_data r))"

fun fresh_event :: "io_event \<Rightarrow> bool" where
  "fresh_event (Start refused r) = fresh_request r"
| "fresh_event (Enqueue r) = fresh_request r"
| "fresh_event e = True"

lemma io_run_inv: "list_all fresh_event es \<Longrightarrow> io_inv (io_run es)"
proof (induction es rule: rev_induct)
  case Nil
  then show ?case by (simp add: io_run_def io_start_def io_inv_def)
next
  case (snoc e es)
  then have i: "io_inv (io_run es)" "fresh_event e" by simp_all
  have flags: "io_inv (io_run es\<lparr>st_stopping := True\<rparr>)" "io_inv (io_run es\<lparr>st_ended := True\<rparr>)"
    using i(1) by (simp_all add: io_inv_def)
  show ?case unfolding io_run_snoc
    using i flags inv_steps(3-6) [OF i(1)] by (cases e) (simp_all add: fresh_request_def)
qed

text \<open>
  Claim C9. Asynchronous input and output: in every order of starting, rounds and completions, each request
  is pending, taken out, or completed, and never more than one of these; so with different futures each
  completes at most once, and when the thread ends none is left. The count is that of the list, which
  never holds more than 32 requests.
\<close>

theorem io_completes_once:
  assumes "list_all fresh_event es"
  shows "futures (st_requests (io_run es)) + futures (st_complete (io_run es)) + futures (st_completed (io_run es)) = started es
     \<and> st_count (io_run es) = int (length (st_requests (io_run es))) \<and> length (st_requests (io_run es)) \<le> 32
     \<and> (st_ended (io_run (es @ [End])) \<and> \<not> st_ended (io_run es) \<longrightarrow> futures (st_completed (io_run es)) = started es)"
  using io_run_keeps [of es] io_run_inv [OF assms] by (auto simp: all_futures_def io_inv_def io_run_snoc)

section \<open>Deadlines and tokens\<close>

lemma scan_all:
  "io_scan now answer rs complete pending sent = (stay, complete', pending', sent') \<Longrightarrow>
    set complete \<subseteq> set complete' \<and> (\<forall>q\<in>set rs. let r = io_poll now (answer (io_future q)) q in if io_done r then r \<in> set complete' else r \<in> set stay)"
proof (induction rs arbitrary: complete pending sent stay)
  case (Cons r rs)
  let ?r = "io_poll now (answer (io_future r)) r"
  show ?case
  proof (cases "io_done ?r")
    case True
    then have "io_scan now answer rs (?r # complete) (pending - 1) (io_send now (answer (io_future r)) r sent) = (stay, complete', pending', sent')"
      using Cons.prems by (simp add: Let_def)
    from Cons.IH [OF this] True show ?thesis by (auto simp: Let_def)
  next
    case False
    then obtain st where st: "io_scan now answer rs complete pending (io_send now (answer (io_future r)) r sent) = (st, complete', pending', sent')" "stay = ?r # st"
      using Cons.prems by (auto simp: Let_def split: prod.splits)
    from Cons.IH [OF st(1)] False show ?thesis unfolding st(2) by (auto simp: Let_def)
  qed
qed simp

text \<open>
  Cancelling and deadlines: a request whose token is set when the round looks at it is taken
  out with error 1; otherwise one whose deadline has passed is taken out with error 4, a timer without an
  error; a timer is taken out in no other way.
\<close>

theorem io_expires:
  assumes "q \<in> set (st_requests st)"
  shows "if io_token q \<and> ia_cancelled (answer (io_future q))
     then q\<lparr>io_error := 1, io_done := True\<rparr> \<in> set (st_complete (io_round now answer st))
     else if io_deadline q \<noteq> 0 \<and> now \<ge> io_deadline q
     then q\<lparr>io_error := (if io_kind q = TC_IO_TIMER then 0 else 4), io_done := True\<rparr> \<in> set (st_complete (io_round now answer st))
     else io_kind q = TC_IO_TIMER \<and> \<not> io_done q \<longrightarrow> q \<in> set (st_requests (io_round now answer st))"
proof -
  obtain stay complete pending sent where
      sc: "io_scan now answer (st_requests st) [] (st_count st) (st_sent st) = (stay, complete, pending, sent)" by (metis prod_cases4)
  have r: "let r = io_poll now (answer (io_future q)) q in if io_done r then r \<in> set complete else r \<in> set stay"
    using scan_all [OF sc] assms by blast
  have st: "st_complete (io_round now answer st) = complete" "st_requests (io_round now answer st) = stay"
    by (simp_all add: io_round_def sc)
  consider "io_token q \<and> ia_cancelled (answer (io_future q))"
    | "\<not> (io_token q \<and> ia_cancelled (answer (io_future q)))" "io_deadline q \<noteq> 0 \<and> now \<ge> io_deadline q"
    | "\<not> (io_token q \<and> ia_cancelled (answer (io_future q)))" "\<not> (io_deadline q \<noteq> 0 \<and> now \<ge> io_deadline q)" by blast
  then show ?thesis
  proof cases
    case 1
    then have "io_poll now (answer (io_future q)) q = q\<lparr>io_error := 1, io_done := True\<rparr>" by (simp add: io_poll_def)
    then show ?thesis using r 1 unfolding st by simp
  next
    case 2
    have "io_poll now (answer (io_future q)) q = q\<lparr>io_error := (if io_kind q = TC_IO_TIMER then 0 else 4), io_done := True\<rparr>"
      unfolding io_poll_def if_not_P [OF 2(1)] if_P [OF 2(2)] ..
    then show ?thesis using r 2 unfolding st by (simp only: Let_def) simp
  next
    case 3
    have "io_kind q = TC_IO_TIMER \<Longrightarrow> io_poll now (answer (io_future q)) q = q"
      unfolding io_poll_def if_not_P [OF 3(1)] if_not_P [OF 3(2)] by simp
    then show ?thesis using r 3 unfolding st by (auto simp: Let_def)
  qed
qed

section \<open>Writing\<close>

text \<open>What has been sent for a request, and what a completed one says.\<close>

definition write_ok :: "(nat \<Rightarrow> byte list) \<Rightarrow> TcIoRequest \<Rightarrow> bool" where
  "write_ok sent r \<longleftrightarrow> (io_kind r = TC_IO_WRITE \<longrightarrow>
     io_length r = length (io_data r) \<and> io_offset r \<le> length (io_data r) \<and> sent (io_future r) = take (io_offset r) (io_data r))"

definition result_ok :: "TcIoRequest \<Rightarrow> bool" where
  "result_ok r \<longleftrightarrow> (io_kind r = TC_IO_WRITE \<and> io_error r = 0 \<longrightarrow> io_result r = int (io_offset r))"

lemma poll_kind [simp]: "io_kind (io_poll now a r) = io_kind r" "io_data (io_poll now a r) = io_data r" "io_length (io_poll now a r) = io_length r"
  by (auto simp: io_poll_def io_call_def Let_def split: io_kind.split socket_answer.split)

lemma poll_offset:
  assumes "io_offset r \<le> io_length r"
  shows "io_offset r \<le> io_offset (io_poll now a r) \<and> io_offset (io_poll now a r) \<le> io_length r"
  using assms by (auto simp: io_poll_def io_call_def io_chunk_def Let_def split: io_kind.split socket_answer.split)

lemma poll_result: "\<not> io_done r \<Longrightarrow> io_error r = 0 \<Longrightarrow> io_done (io_poll now a r) \<Longrightarrow> result_ok (io_poll now a r)"
  by (cases "io_kind r"; cases "ia_call a") (auto simp: result_ok_def io_poll_def io_call_def Let_def split: if_splits)

text \<open>
  The offset moves by what was sent: as far as \<open>send\<close> took the data when the round got to it, and not at all otherwise.
\<close>

lemma poll_sent:
  assumes "io_kind r = TC_IO_WRITE" and "io_offset r \<le> io_length r"
  obtains n where "io_offset (io_poll now a r) = io_offset r + n" "n \<le> io_length r - io_offset r"
    "io_send now a r sent = sent(io_future r := sent (io_future r) @ take n (drop (io_offset r) (io_data r)))"
proof (cases "(io_token r \<and> ia_cancelled a) \<or> (io_deadline r \<noteq> 0 \<and> now \<ge> io_deadline r) \<or> \<not> ia_ready a")
  case True
  then show thesis using that [of 0] by (auto simp: io_poll_def io_send_def)
next
  case False
  then have f: "\<not> (io_token r \<and> ia_cancelled a)" "\<not> (io_deadline r \<noteq> 0 \<and> now \<ge> io_deadline r)" "ia_ready a" by blast+
  have p: "io_poll now a r = io_call (ia_call a) r" unfolding io_poll_def if_not_P [OF f(1)] if_not_P [OF f(2)] using f(3) assms(1) by simp
  show thesis
  proof (cases "ia_call a")
    case (Answered n)
    have "io_offset (io_call (Answered n) r) = io_offset r + min n (io_chunk r)" using assms(1) by (simp add: io_call_def Let_def)
    moreover have "min n (io_chunk r) \<le> io_length r - io_offset r" by (simp add: io_chunk_def)
    moreover have "io_send now a r sent = sent(io_future r := sent (io_future r) @ take (min n (io_chunk r)) (drop (io_offset r) (io_data r)))"
    proof -
      have g: "\<not> (io_token r \<and> ia_cancelled a \<or> io_deadline r \<noteq> 0 \<and> now \<ge> io_deadline r)" using f by blast
      show ?thesis unfolding io_send_def if_not_P [OF g] using f(3) assms(1) Answered by simp
    qed
    ultimately show ?thesis using that p Answered by metis
  qed (use that [of 0] False f(3) assms in \<open>simp_all add: p io_call_def io_send_def\<close>)
qed

lemma poll_write:
  assumes "write_ok sent r"
  shows "write_ok (io_send now a r sent) (io_poll now a r)"
proof (cases "io_kind r = TC_IO_WRITE")
  case True
  have r: "io_offset r \<le> length (io_data r)" "io_length r = length (io_data r)" "sent (io_future r) = take (io_offset r) (io_data r)"
    using assms True by (simp_all add: write_ok_def)
  obtain n where n: "io_offset (io_poll now a r) = io_offset r + n" "n \<le> io_length r - io_offset r"
      "io_send now a r sent = sent(io_future r := sent (io_future r) @ take n (drop (io_offset r) (io_data r)))"
    using poll_sent [of r now a sent] True r by auto
  then show ?thesis using True r by (simp add: write_ok_def take_add)
qed (simp add: write_ok_def)

lemma send_other: "f \<noteq> io_future r \<Longrightarrow> io_send now a r sent f = sent f"
  by (simp add: io_send_def split: socket_answer.split)

lemma write_ok_cong: "sent (io_future r) = sent' (io_future r) \<Longrightarrow> write_ok sent r = write_ok sent' r"
  by (simp add: write_ok_def)

lemma scan_writes:
  "io_scan now answer rs complete pending sent = (stay, complete', pending', sent') \<Longrightarrow> distinct (map io_future rs) \<Longrightarrow>
    \<forall>r\<in>set rs. write_ok sent r \<and> \<not> io_done r \<and> io_error r = 0 \<Longrightarrow>
    (\<forall>f. f \<notin> io_future ` set rs \<longrightarrow> sent' f = sent f) \<and> (\<forall>r\<in>set stay. write_ok sent' r)
    \<and> (\<forall>r\<in>set complete'. r \<in> set complete \<or> write_ok sent' r \<and> result_ok r \<and> io_future r \<in> io_future ` set rs)"
proof (induction rs arbitrary: complete pending sent stay)
  case (Cons r rs)
  let ?r = "io_poll now (answer (io_future r)) r"
  let ?sent = "io_send now (answer (io_future r)) r sent"
  have new: "write_ok ?sent ?r" using poll_write Cons.prems(3) by simp
  have out: "io_future r \<notin> io_future ` set rs" using Cons.prems(2) by simp
  have rest: "\<forall>q\<in>set rs. write_ok ?sent q \<and> \<not> io_done q \<and> io_error q = 0"
  proof
    fix q assume q: "q \<in> set rs"
    then have "io_future q \<noteq> io_future r" using out by (metis imageI)
    then have "write_ok ?sent q = write_ok sent q" by (intro write_ok_cong send_other)
    then show "write_ok ?sent q \<and> \<not> io_done q \<and> io_error q = 0" using Cons.prems(3) q by simp
  qed
  have d: "distinct (map io_future rs)" using Cons.prems(2) by simp
  show ?case
  proof (cases "io_done ?r")
    case True
    then have "io_scan now answer rs (?r # complete) (pending - 1) ?sent = (stay, complete', pending', sent')"
      using Cons.prems(1) by (simp add: Let_def)
    note ih = Cons.IH [OF this d rest]
    have "write_ok sent' ?r" using ih out new write_ok_cong [of sent' ?r ?sent] by simp
    moreover have "result_ok ?r" using poll_result [OF _ _ True] Cons.prems(3) by simp
    ultimately show ?thesis using ih send_other by auto
  next
    case False
    then obtain st where st: "io_scan now answer rs complete pending ?sent = (st, complete', pending', sent')" "stay = ?r # st"
      using Cons.prems(1) by (auto simp: Let_def split: prod.splits)
    note ih = Cons.IH [OF st(1) d rest]
    have "write_ok sent' ?r" using ih out new write_ok_cong [of sent' ?r ?sent] by simp
    then show ?thesis using ih send_other unfolding st(2) by auto
  qed
qed simp

text \<open>The whole state: nothing has been sent for futures that do not occur.\<close>

definition sent_ok :: "io_state \<Rightarrow> bool" where
  "sent_ok st \<longleftrightarrow> (\<forall>r\<in>set (st_requests st). write_ok (st_sent st) r \<and> \<not> io_done r \<and> io_error r = 0)
     \<and> (\<forall>r\<in>set (st_complete st) \<union> set (st_completed st). write_ok (st_sent st) r \<and> result_ok r)
     \<and> (\<forall>f. f \<notin># all_futures st \<longrightarrow> st_sent st f = [])"

lemma sent_started:
  assumes st: "sent_ok st" and r: "fresh_request r" "io_future r \<notin># all_futures st"
  shows "sent_ok (tc_io_enqueue r st)" and "sent_ok (tc_socket_async refused r st)"
proof -
  have w: "write_ok (st_sent st) r" "result_ok r" "\<not> io_done r" "io_error r = 0"
    using st r by (auto simp: write_ok_def result_ok_def sent_ok_def fresh_request_def)
  have c: "sent_ok (tc_io_complete (r\<lparr>io_error := e\<rparr>) st')"
    if "st' = st \<or> st' = io_close (r\<lparr>io_error := 8\<rparr>) st" for e st'
    using that st w by (auto simp: sent_ok_def tc_io_complete_def io_close_def all_futures_def write_ok_def result_ok_def)
  then have complete: "sent_ok (tc_io_complete r st)" using w(4) by (metis TcIoRequest.surjective TcIoRequest.update_convs(3))
  have enqueue: "sent_ok (st\<lparr>st_requests := r # st_requests st, st_count := st_count st + 1\<rparr>)"
    using st w by (auto simp: sent_ok_def all_futures_def)
  show e: "sent_ok (tc_io_enqueue r st)"
    using c [of st 8] c [of "io_close (r\<lparr>io_error := 8\<rparr>) st" 8] enqueue by (simp add: tc_io_enqueue_def Let_def)
  show "sent_ok (tc_socket_async refused r st)"
    using c [of st 13] complete e unfolding tc_socket_async_def by presburger
qed

lemma sent_deliver: "sent_ok st \<Longrightarrow> sent_ok (io_deliver st)"
  by (cases "st_complete st") (auto simp: sent_ok_def io_deliver_def tc_io_complete_def io_close_def all_futures_def Let_def)

lemma distinct_once: "(\<And>f. Multiset.count (mset xs) f \<le> 1) \<Longrightarrow> distinct xs"
  unfolding distinct_count_atmost_1
proof
  fix f
  assume once: "\<And>f. Multiset.count (mset xs) f \<le> 1"
  show "Multiset.count (mset xs) f = (if f \<in> set xs then 1 else 0)"
    using once [of f] by (cases "f \<in> set xs") (simp_all add: le_Suc_eq)
qed

lemma poll_error: "\<not> io_done (io_poll now a r) \<Longrightarrow> io_error (io_poll now a r) = io_error r"
  by (auto simp: io_poll_def io_call_def Let_def split: io_kind.splits socket_answer.splits if_splits)

lemma sent_round:
  assumes st: "sent_ok st" "st_complete st = []" and once: "\<And>f. Multiset.count (all_futures st) f \<le> 1"
  shows "sent_ok (io_round now answer st)"
proof -
  obtain stay complete pending sent where
      sc: "io_scan now answer (st_requests st) [] (st_count st) (st_sent st) = (stay, complete, pending, sent)" by (metis prod_cases4)
  let ?F = "io_future ` set (st_requests st)"
  have "distinct (map io_future (st_requests st @ st_completed st))"
    by (rule distinct_once) (use once st(2) in \<open>simp add: all_futures_def\<close>)
  then have d: "distinct (map io_future (st_requests st))" "?F \<inter> io_future ` set (st_completed st) = {}" by auto
  have w: "(\<forall>f. f \<notin> ?F \<longrightarrow> sent f = st_sent st f) \<and> (\<forall>r\<in>set stay. write_ok sent r)
      \<and> (\<forall>r\<in>set complete. write_ok sent r \<and> result_ok r)"
    using scan_writes [OF sc d(1)] st(1) by (auto simp: sent_ok_def)
  have stay: "\<not> io_done r \<and> io_error r = 0" if "r \<in> set stay" for r
    using scan_keeps [OF sc] that st(1) poll_error by (auto simp: sent_ok_def)
  have other: "write_ok sent r = write_ok (st_sent st) r" if r: "r \<in> set (st_completed st)" for r
  proof (rule write_ok_cong)
    have "io_future r \<notin> ?F" using d(2) r by (metis disjoint_iff imageI)
    then show "sent (io_future r) = st_sent st (io_future r)" using w by blast
  qed
  have silent: "sent f = []" if f: "f \<notin># all_futures st" for f
  proof -
    have "f \<notin> ?F" using f by (auto simp: all_futures_def)
    then show ?thesis using w st(1) f by (simp add: sent_ok_def)
  qed
  have same: "all_futures (io_round now answer st) = all_futures st" using io_keeps(6) st(2) by simp
  show ?thesis using st(1) w stay other silent unfolding sent_ok_def same by (auto simp: io_round_def sc)
qed

lemma io_run_sent:
  "list_all fresh_event es \<Longrightarrow> (\<And>f. Multiset.count (started es) f \<le> 1) \<Longrightarrow> sent_ok (io_run es)"
proof (induction es rule: rev_induct)
  case Nil
  then show ?case by (simp add: io_run_def io_start_def sent_ok_def)
next
  case (snoc e es)
  have parts: "Multiset.count (started es) f + Multiset.count (started [e]) f \<le> 1" for f
    using snoc.prems(2) [of f] by (simp add: started_append)
  then have once: "Multiset.count (started es) f \<le> 1" for f by (metis add_leD1)
  have st: "sent_ok (io_run es)" using snoc.IH [OF _ once] snoc.prems(1) by simp
  have e: "fresh_event e" using snoc.prems(1) by simp
  have new: "f \<notin># all_futures (io_run es)" if "f \<in># started [e]" for f
    using parts [of f] that unfolding io_run_keeps by (simp add: not_in_iff) (metis add_is_1 le_Suc_eq le_zero_eq count_eq_zero_iff add_is_0 One_nat_def not_in_iff)
  have flags: "sent_ok (io_run es\<lparr>st_stopping := True\<rparr>)" "sent_ok (io_run es\<lparr>st_ended := True\<rparr>)"
    using st by (simp_all add: sent_ok_def all_futures_def)
  have round: "st_complete (io_run es) = [] \<Longrightarrow> sent_ok (io_round now answer (io_run es))" for now answer
  proof (rule sent_round [OF st])
    show "Multiset.count (all_futures (io_run es)) f \<le> 1" for f unfolding io_run_keeps by (rule once)
  qed
  show ?case unfolding io_run_snoc
    using st flags round sent_deliver [OF st] sent_started [OF st] new e by (cases e) simp_all
qed

text \<open>
  Claim C12. Writing: at every moment the bytes that the calls of \<open>send\<close> have taken for a request are
  its data from the start up to its offset, however the rounds cut it; and a write that completes without
  an error returns how many bytes have been sent. (A write that ends with an error may have been sent in
  part; its result is not used.)
\<close>

theorem io_writes_prefix:
  assumes "list_all fresh_event es" and "\<forall>f. Multiset.count (started es) f \<le> 1"
    and "r \<in> set (st_requests (io_run es) @ st_complete (io_run es) @ st_completed (io_run es))" and "io_kind r = TC_IO_WRITE"
  shows "st_sent (io_run es) (io_future r) = take (io_offset r) (io_data r) \<and> io_offset r \<le> length (io_data r)
     \<and> (r \<in> set (st_completed (io_run es)) \<and> io_error r = 0 \<longrightarrow> io_result r = int (io_offset r))"
  using io_run_sent [OF assms(1)] assms(2-4) by (auto simp: sent_ok_def write_ok_def result_ok_def)

section \<open>Examples\<close>

definition hello :: TcIoRequest where
  "hello = tc_io_new 3 TC_IO_WRITE 5 [104, 105, 33] 3 100 50 False"

definition two_bytes :: "nat \<Rightarrow> io_answer" where
  "two_bytes f = \<lparr>ia_cancelled = False, ia_ready = True, ia_call = Answered 2\<rparr>"

definition hello_run :: "io_event list" where
  "hello_run = [Start False hello, Round 110 two_bytes, Round 120 two_bytes, Deliver]"

lemma hello_fresh: "list_all fresh_event hello_run"
  by (simp add: hello_run_def hello_def fresh_request_def tc_io_new_def)

lemma hello_completed:
  "\<exists>r. st_completed (io_run hello_run) = [r] \<and> io_future r = 3 \<and> io_kind r = TC_IO_WRITE \<and> io_offset r = 3
     \<and> io_data r = [104, 105, 33] \<and> io_error r = 0"
  "st_requests (io_run hello_run) = [] \<and> st_complete (io_run hello_run) = []"
  by (simp_all add: io_run_def hello_run_def io_start_def tc_socket_async_def tc_io_enqueue_def size_max_def hello_def tc_io_new_def
    io_deadline_of_def io_round_def io_poll_def io_call_def io_chunk_def two_bytes_def io_deliver_def tc_io_complete_def Let_def)

theorem io_completes_once_witness:
  "futures (st_completed (io_run hello_run)) = {#3#}"
proof -
  have "started hello_run = {#3#}" by (simp add: hello_run_def hello_def tc_io_new_def)
  then show ?thesis using io_completes_once [OF hello_fresh] hello_completed(2) by simp
qed

theorem io_writes_prefix_witness:
  "\<exists>r. st_completed (io_run hello_run) = [r] \<and> st_sent (io_run hello_run) 3 = [104, 105, 33] \<and> io_result r = 3"
proof -
  obtain r where r: "st_completed (io_run hello_run) = [r]" "io_future r = 3" "io_kind r = TC_IO_WRITE" "io_offset r = 3"
      "io_data r = [104, 105, 33]" "io_error r = 0"
    using hello_completed(1) by blast
  have once: "\<forall>f. Multiset.count (started hello_run) f \<le> 1" by (simp add: hello_run_def)
  show ?thesis using io_writes_prefix [OF hello_fresh once, of r] r by auto
qed

theorem io_expires_witness:
  "hello\<lparr>io_error := 4, io_done := True\<rparr> \<in> set (st_complete (io_round 150 two_bytes (io_run [Start False hello])))"
proof -
  have "hello \<in> set (st_requests (io_run [Start False hello]))" by (simp add: io_run_def io_start_def hello_def tc_io_new_def tc_socket_async_def tc_io_enqueue_def size_max_def)
  from io_expires [OF this, of two_bytes 150] show ?thesis
    by (simp add: hello_def tc_io_new_def io_deadline_of_def)
qed

end
