(* ===== verification/Spec2Isabelle.thy ===== *)
theory Spec2Isabelle
  imports Protobuf ParserTotal Generics Pool Window Console Files Grpc Io
begin

text \<open>
  A verification library for TinyC+: the compiler of a small language (\<open>src/compiler\<close>) and the runtime that
  compiled programs are linked with (\<open>src/runtime\<close>). This theory imports the others; what follows is a
  guide to them.

  \<^bold>\<open>The program.\<close> \<open>compiler/lexer.c\<close> turns a source text into tokens, \<open>parser.c\<close> turns tokens into nodes and
  interns the types it meets in the table of \<open>types.c\<close>; \<open>modules.c\<close>, \<open>generic.c\<close>, \<open>semantic.c\<close> and \<open>cgen.c\<close>
  load imports, instantiate templates, check, and print C. A compiled program calls the runtime:
  strings, files and processes (\<open>library.c\<close>), checks and hashes (\<open>tiny_runtime.h\<close>), threads and tasks
  (\<open>concurrent.c\<close>), sockets and timers (\<open>net.c\<close>), remote calls (\<open>grpc.c\<close>, with the messages of
  \<open>protobuf.c\<close>), and a terminal interface (\<open>tui.c\<close>) whose text boxes keep their text in \<open>gapbuffer.c\<close>.

  \<^bold>\<open>Vocabulary.\<close> \<open>Prelude\<close>: bytes, \<open>size_t\<close> as natural numbers below \<open>2 ^ 64\<close> with the one subtraction that
  wraps, panics as a sum type, blocks of memory as lists with \<open>memcpy\<close>, \<open>realloc\<close> and the doubling loop of
  the buffers, \<open>TinyString\<close>, and numbers as text.

  \<^bold>\<open>The compiler.\<close>
  \<^item> \<open>Syntax\<close> (\<open>tiny.h\<close>, \<open>util.c\<close>): tokens, types, nodes, the context; an error is the \<open>longjmp\<close> of \<open>tc_error\<close>.
  \<^item> \<open>Lexer\<close> (\<open>lexer.c\<close>): every token kind, with the texts, locations and errors. The tokens spell the source,
    and lexing their spelling gives them again.
  \<^item> \<open>Types\<close> (\<open>types.c\<close>): the table, where a type is its place in the order of allocation. It only grows,
    types refer to older ones, and comparison decides structure. The fuel of the comparison,
    \<open>equal_fuel\<close>, exceeds the number of pairs of types, so running out means that the code does not return.
  \<^item> \<open>Parser\<close> and \<open>ParserTotal\<close> (\<open>parser.c\<close>): every routine, as functions of the context with fuel;
    \<open>parse_fuel\<close>, twice the number of tokens left and two, suffices, by a judgement for total
    correctness with one rule for each construct, on every source without the name \<open>Function\<close>, with which a
    program can make a type that is its own base (\<open>func_type_cyclic\<close>).
  \<^item> \<open>Generics\<close> (\<open>generic.c\<close>): substitution, cloning and the loop of \<open>expand_generics\<close> over the types, whose fuel is
    514, one round for each of 512 instances and two more: the 513th is an error. The properties are about tables that are
    \<open>regular\<close> (derived types have a base, tuples have none), and substitution is described for types without
    function types and without \<open>const\<close> copies of a parameter; what goes wrong with these is shown too.

  \<^bold>\<open>Text, wire format and strings.\<close>
  \<^item> \<open>TextBuffer\<close> is the contract of an editable text (a locale and its client lemmas), \<open>GapBuffer\<close>
    (\<open>gapbuffer.c\<close>) the implementation: every call, a refinement of each, and the invariant.
  \<^item> \<open>Protobuf\<close> (\<open>protobuf.c\<close>): writer, reader, skipping of nested groups (\<open>skip_fuel\<close> is the input and one),
    validation of UTF-8. Round trips and safety of the reader on any input.
  \<^item> \<open>Utf8\<close> (\<open>tui.c\<close>): encoding and decoding of characters.
  \<^item> \<open>Strings\<close> and \<open>Files\<close> (\<open>library.c\<close>): strings, integers as text, lines, the command lines of Windows, and
    the replacing of a file as the sequence of states that its system calls leave behind.
  \<^item> \<open>Runtime\<close> (\<open>tiny_runtime.h\<close>): bounds checks on words of 64 bits, and hashes.

  \<^bold>\<open>Concurrency.\<close>
  \<^item> \<open>Monitor\<close>: the pattern of \<open>concurrent.c\<close>, a lock, a loop that waits on a condition variable, and a section
    that changes the object. A call is an attempt that either runs or names the condition it waits for;
    threads take steps in any order and a signal wakes any sleeper. As everything that a section reads is
    guarded by its lock, a section is one step. The locale \<open>monitor\<close> states what an object must satisfy so
    that no wake-up is lost, and proves that it then is so.
  \<^item> \<open>Sync\<close>, \<open>Channel\<close>, \<open>Pool\<close>: condition variables on Windows semaphores (which can lose the wake-up of a
    thread to another that waits again, \<open>wake_up_stolen\<close>), semaphores, events, atomics, time;
    channels; the pool, futures and the scheduler of tasks, each an interpretation of \<open>monitor\<close> and the
    queues of \<open>fifo\<close>, the contract of a queue.
  \<^item> \<open>Io\<close> (\<open>net.c\<close>): asynchronous requests. Each locked section of the code is one event of \<open>io_step\<close>, the
    answers of \<open>select\<close>, the calls, the clock and the tokens are arguments of the event.

  \<^bold>\<open>Remote calls.\<close> \<open>Grpc\<close> (\<open>grpc.c\<close>): buffers and messages, the callbacks that nghttp2 runs for a stream, routes
  and answers, the exchange and the loop of the server. nghttp2 is what calls the callbacks: what an end of a
  connection is told is a list of \<open>callback\<close>s, and what it asks for in turn is \<open>all_asked\<close>. That the headers and
  bytes that one end gives away reach the other, cut anywhere and with other callbacks in between, is
  what \<open>call_answered\<close> assumes (\<open>request_reaches\<close>, \<open>response_reaches\<close>, \<open>exchange_runs\<close>).

  \<^bold>\<open>The terminal interface\<close> (\<open>tui.c\<close>).
  \<^item> \<open>Screen\<close>, \<open>Render\<close>, \<open>Terminal\<close>: the grid, what is written when it is shown, and what a terminal does with it.
  \<^item> \<open>Events\<close>: the ring of events, keys and the mouse on POSIX and on Windows.
  \<^item> \<open>Widget\<close>, \<open>Layout\<close>, \<open>Window\<close>: the linked widgets as a store, layout and drawing, focus, hits and dispatch; the
    recursions of the code have fuel, twice the number of widgets and two, which a forest never uses up.
  \<^item> \<open>Console\<close>: taking over the terminal and giving it back; both systems interpret \<open>terminal_platform\<close>.
    What the escape sequences switch is \<open>display\<close>.

  \<^bold>\<open>Parameters.\<close> \<open>malloc\<close> is a function that returns a block of the size asked for or fails; \<open>malloc_ok\<close> is the
  only thing assumed of it, and a property that needs memory says so. The answers of the operating
  system, of other threads and of nghttp2 are arguments. Integers that the code bounds are unbounded in the
  model; where they can leave their range they are words, or wrap by \<open>wrap32\<close> or \<open>usub\<close>, or the result is
  \<open>None\<close> where the overflow is undefined in C (\<open>add32\<close>, the layout).

  \<^bold>\<open>Not modelled.\<close> \<open>semantic.c\<close> and \<open>modules.c\<close>; \<open>cgen.c\<close>, \<open>backend.c\<close>, \<open>main.c\<close> and \<open>tooling.c\<close>, which print C and
  drive other programs; blocking sockets, and the calls of the library that pass their arguments on to
  the C library; freeing of memory; \<open>third_party\<close>, \<open>tools\<close>, \<open>std\<close> (written in TinyC+), and the tests.
\<close>

end
